(* ===== verification/Prelude.thy ===== *)
theory Prelude
  imports Main "HOL-Library.Word" "HOL-Library.Monad_Syntax" "HOL-Library.Multiset" "HOL-Library.Code_Target_Nat"
begin

text \<open>
  Shared vocabulary of the development. \<open>UBYTE\<close> values and \<open>ULONG\<close> code points are
  machine words; \<open>ULONG\<close> lengths, counters and sizes are natural numbers below
  \<open>2 ^ 32\<close>, and every addition or subtraction the C code does not guard is written
  with the wrap-around of \<open>add32\<close> and \<open>sub32\<close>. The memory allocator is not part of
  the repository: an operation that calls \<open>AllocMem\<close> takes the allocator's answers as
  an argument.
\<close>

unbundle bit_operations_syntax

type_synonym byte = "8 word"
type_synonym codepoint = "32 word"
type_synonym addr = nat

named_theorems arith32 "wrap-around arithmetic on ULONG values held as natural numbers"

subsection \<open>ULONG arithmetic\<close>

definition ulong_max :: nat where
  "ulong_max = 4294967295"

definition add32 :: "nat \<Rightarrow> nat \<Rightarrow> nat" where
  "add32 a b = (a + b) mod 4294967296"

definition sub32 :: "nat \<Rightarrow> nat \<Rightarrow> nat" where
  "sub32 a b = (a + 4294967296 - b) mod 4294967296"

lemma add32_exact [arith32]: "a + b \<le> ulong_max \<Longrightarrow> add32 a b = a + b"
  by (simp add: add32_def ulong_max_def)

lemma sub32_exact [arith32]:
  assumes "b \<le> a" and "a \<le> ulong_max"
  shows "sub32 a b = a - b"
proof -
  from assms(1) obtain d where a: "a = b + d" by (rule less_eqE)
  with assms(2) have "d < 4294967296" by (simp add: ulong_max_def)
  then show ?thesis by (simp add: sub32_def a)
qed

lemma add32_bound: "add32 a b \<le> ulong_max"
  by (simp add: add32_def ulong_max_def flip: less_Suc_eq_le)

lemma sub32_bound: "sub32 a b \<le> ulong_max"
  by (simp add: sub32_def ulong_max_def flip: less_Suc_eq_le)

lemma byte_unat [simp]: "unat (b :: byte) < 256" "unat (b :: byte) \<le> 255"
proof -
  show "unat b < 256" using unsigned_less [where 'a = nat, of b] by simp
  then show "unat b \<le> 255" by simp
qed

lemma takeWhile_until [simp]: "x \<notin> set xs \<Longrightarrow> takeWhile (\<lambda>b. b \<noteq> x) (xs @ x # ys) = xs"
  by (induction xs) auto

subsection \<open>Association lists used as heaps of nodes\<close>

definition node_update :: "addr \<Rightarrow> ('a \<Rightarrow> 'a) \<Rightarrow> (addr \<times> 'a) list \<Rightarrow> (addr \<times> 'a) list" where
  "node_update a f xs = map (\<lambda>(b, x). (b, if b = a then f x else x)) xs"

definition node_remove :: "addr \<Rightarrow> (addr \<times> 'a) list \<Rightarrow> (addr \<times> 'a) list" where
  "node_remove a xs = filter (\<lambda>(b, _). b \<noteq> a) xs"

lemma fst_node_update [simp]: "map fst (node_update a f xs) = map fst xs"
  by (induction xs) (auto simp: node_update_def)

lemma length_node_update [simp]: "length (node_update a f xs) = length xs"
  by (simp add: node_update_def)

lemma map_of_node_update:
  "map_of (node_update a f xs) b = (if b = a then map_option f (map_of xs a) else map_of xs b)"
  by (induction xs) (auto simp: node_update_def)

lemma map_of_node_remove [simp]:
  "map_of (node_remove a xs) b = (if b = a then None else map_of xs b)"
  by (induction xs) (auto simp: node_remove_def)

lemma node_update_id:
  assumes "distinct (map fst xs)" and "map_of xs a = Some x" and "f x = x"
  shows "node_update a f xs = xs"
  unfolding node_update_def
proof (rule map_idI)
  fix p assume p: "p \<in> set xs"
  obtain b y where eq: "p = (b, y)" by (cases p)
  with p assms(1) have "map_of xs b = Some y" by simp
  with eq assms(2,3) show "(case p of (b, x) \<Rightarrow> (b, if b = a then f x else x)) = p"
    by auto
qed

lemma node_remove_absent: "a \<notin> fst ` set xs \<Longrightarrow> node_remove a xs = xs"
  unfolding node_remove_def by (rule filter_True) force

lemma node_update_twice: "node_update a f (node_update a g xs) = node_update a (f \<circ> g) xs"
  by (auto simp: node_update_def)

lemma distinct_node_remove: "distinct (map fst xs) \<Longrightarrow> distinct (map fst (node_remove a xs))"
  by (induction xs) (auto simp: node_remove_def)

lemma length_node_remove:
  "distinct (map fst xs) \<Longrightarrow> map_of xs a = Some x \<Longrightarrow> Suc (length (node_remove a xs)) = length xs"
proof (induction xs)
  case (Cons y ys)
  then show ?case
    by (cases y) (auto simp: node_remove_absent node_remove_def [of a "(_, _) # _"]
      simp flip: node_remove_def split: if_splits)
qed simp

lemma sum_node_remove:
  "distinct (map fst xs) \<Longrightarrow> map_of xs a = Some x \<Longrightarrow>
     f x + sum_list (map (f \<circ> snd) (node_remove a xs)) = sum_list (map (f \<circ> snd) xs)"
  for f :: "'a \<Rightarrow> nat"
proof (induction xs)
  case (Cons y ys)
  then show ?case
    by (cases y) (auto simp: node_remove_absent node_remove_def [of a "(_, _) # _"]
      simp flip: node_remove_def split: if_splits)
qed simp

lemma sum_node_update:
  "(\<And>x. f (g x) = f x) \<Longrightarrow> sum_list (map (f \<circ> snd) (node_update a g xs)) = sum_list (map (f \<circ> snd) xs)"
  for f :: "'a \<Rightarrow> nat"
  by (induction xs) (auto simp: node_update_def)

lemma node_update_eqI:
  assumes "\<And>x. (a, x) \<in> set xs \<Longrightarrow> f x = g x"
  shows "node_update a f xs = node_update a g xs"
  using assms by (auto simp: node_update_def)

end
