(* ===== verification/Hyperlink.thy ===== *)
theory Hyperlink
  imports Prelude
begin

text \<open>
  \<open>devs/consoleng/hyperlink.c\<close>: the pool of reference-counted OSC 8 links. The pool's
  singly linked list is a list of nodes in \<open>next\<close> order, each with its address, so a
  \<open>struct con_link *\<close> is an \<open>addr option\<close> (\<open>None\<close> for NULL). An operation
  that would read or write a link that is not in the pool any more (released storage), or a cell
  outside the array it was given, returns \<open>None\<close>: a memory fault. The lemmas say that
  the count of every link is the number of owning cells and cursors, that no operation faults
  while its callers own what they pass, and that the pool stays within its limits.
\<close>

subsection \<open>Limits and structures (\<open>hyperlink.h\<close>)\<close>

definition con_link_uri_max :: nat where "con_link_uri_max = 1023"
definition con_link_id_max :: nat where "con_link_id_max = 255"
definition con_link_record_max :: nat where "con_link_record_max = 128"
definition con_link_bytes_max :: nat where "con_link_bytes_max = 65536"

text \<open>The size of \<open>struct con_link\<close> and of a pointer on a 64-bit target.\<close>

definition sizeof_con_link :: nat where "sizeof_con_link = 40"
definition sizeof_pointer :: nat where "sizeof_pointer = 8"

record con_link =
  references :: nat
  allocation :: nat
  uriLength :: nat
  idLength :: nat
  link_data :: "byte list"

record con_link_pool =
  chain :: "(addr \<times> con_link) list"
  records :: nat
  pool_bytes :: nat

definition empty_pool :: con_link_pool where
  "empty_pool = \<lparr>chain = [], records = 0, pool_bytes = 0\<rparr>"

text \<open>A \<open>const UBYTE *\<close> argument: NULL or the bytes it points to.\<close>

type_synonym bytes_ptr = "byte list option"

definition ptr_bytes :: "bytes_ptr \<Rightarrow> nat \<Rightarrow> byte list" where
  "ptr_bytes s n = (case s of None \<Rightarrow> [] | Some bs \<Rightarrow> take n bs)"

subsection \<open>Operations\<close>

definition link_string :: "bytes_ptr \<Rightarrow> nat \<Rightarrow> bool" where
  "link_string s n =
     (if s = None \<and> n \<noteq> 0 then False
      else \<not> list_ex (\<lambda>b. b < 32 \<or> b = 127) (ptr_bytes s n))"

definition con_link_retain :: "con_link_pool \<Rightarrow> addr option \<Rightarrow> (bool \<times> con_link_pool) option" where
  "con_link_retain p link =
     (case link of
        None \<Rightarrow> Some (True, p)
      | Some a \<Rightarrow>
          (case map_of (chain p) a of
             None \<Rightarrow> None
           | Some l \<Rightarrow>
               if references l = ulong_max then Some (False, p)
               else Some (True, p\<lparr>chain := node_update a
                      (\<lambda>l. l\<lparr>references := add32 (references l) 1\<rparr>) (chain p)\<rparr>)))"

definition same_link :: "byte list \<Rightarrow> byte list \<Rightarrow> con_link \<Rightarrow> bool" where
  "same_link uri ident l =
     (uriLength l = length uri \<and> idLength l = length ident \<and>
      take (length uri) (link_data l) = uri \<and>
      take (length ident) (drop (length uri + 1) (link_data l)) = ident)"

definition con_link_create ::
  "con_link_pool \<Rightarrow> bytes_ptr \<Rightarrow> nat \<Rightarrow> bytes_ptr \<Rightarrow> nat \<Rightarrow> addr option
     \<Rightarrow> (addr option \<times> con_link_pool) option" where
  "con_link_create p uri ulen ident ilen mem =
     (if ulen = 0 \<or> ulen > con_link_uri_max \<or> ilen > con_link_id_max \<or>
         \<not> link_string uri ulen \<or> \<not> link_string ident ilen then Some (None, p)
      else case (if ilen \<noteq> 0
                 then find (\<lambda>(a, l). same_link (ptr_bytes uri ulen) (ptr_bytes ident ilen) l) (chain p)
                 else None) of
        Some (a, l) \<Rightarrow> do {
          (ok, p') \<leftarrow> con_link_retain p (Some a);
          Some (if ok then Some a else None, p')
        }
      | None \<Rightarrow>
          let bytes = add32 (add32 (add32 sizeof_con_link ulen) ilen) 1
          in if records p \<ge> con_link_record_max \<or> bytes > con_link_bytes_max \<or>
                pool_bytes p > con_link_bytes_max - bytes then Some (None, p)
             else case mem of
               None \<Rightarrow> Some (None, p)
             | Some a \<Rightarrow>
                 let l = \<lparr>references = 1, allocation = bytes, uriLength = ulen, idLength = ilen,
                          link_data = ptr_bytes uri ulen @ [0] @ ptr_bytes ident ilen @ [0]\<rparr>
                 in Some (Some a, p\<lparr>chain := (a, l) # chain p,
                           records := add32 (records p) 1,
                           pool_bytes := add32 (pool_bytes p) bytes\<rparr>))"

definition con_link_release :: "con_link_pool \<Rightarrow> addr option \<Rightarrow> con_link_pool option" where
  "con_link_release p link =
     (case link of
        None \<Rightarrow> Some p
      | Some a \<Rightarrow>
          (case map_of (chain p) a of
             None \<Rightarrow> None
           | Some l \<Rightarrow>
               let r = sub32 (references l) 1
               in if r \<noteq> 0
                  then Some (p\<lparr>chain := node_update a (\<lambda>l. l\<lparr>references := r\<rparr>) (chain p)\<rparr>)
                  else Some (p\<lparr>chain := node_remove a (chain p),
                             records := sub32 (records p) 1,
                             pool_bytes := sub32 (pool_bytes p) (allocation l)\<rparr>)))"

text \<open>The loop of \<open>con_link_fill\<close>: release the old owner of each cell, then store.\<close>

fun fill_cells :: "con_link_pool \<Rightarrow> addr option list \<Rightarrow> addr option \<Rightarrow> con_link_pool option" where
  "fill_cells p [] link = Some p"
| "fill_cells p (c # cs) link = do { p' \<leftarrow> con_link_release p c; fill_cells p' cs link }"

definition con_link_fill ::
  "con_link_pool \<Rightarrow> addr option list option \<Rightarrow> nat \<Rightarrow> addr option
     \<Rightarrow> (bool \<times> addr option list option \<times> con_link_pool) option" where
  "con_link_fill p cells cnt link =
     (if cells = None \<and> cnt \<noteq> 0 then Some (False, cells, p)
      else do {
        over \<leftarrow> (case link of None \<Rightarrow> Some False
                 | Some a \<Rightarrow> map_option (\<lambda>l. cnt > ulong_max - references l) (map_of (chain p) a));
        if over then Some (False, cells, p)
        else let p1 = (case link of None \<Rightarrow> p
                   | Some a \<Rightarrow> p\<lparr>chain := node_update a
                        (\<lambda>l. l\<lparr>references := add32 (references l) cnt\<rparr>) (chain p)\<rparr>)
             in case cells of
               None \<Rightarrow> Some (True, None, p1)
             | Some cs \<Rightarrow>
                 if cnt > length cs then None
                 else do {
                   p2 \<leftarrow> fill_cells p1 (take cnt cs) link;
                   Some (True, Some (replicate cnt link @ drop cnt cs), p2)
                 }
      })"

text \<open>The two loops of \<open>con_link_copy\<close>: retain every source, undoing on a failed retain, then
  release every destination.\<close>

fun release_all :: "con_link_pool \<Rightarrow> addr option list \<Rightarrow> con_link_pool option" where
  "release_all p [] = Some p"
| "release_all p (c # cs) = do { p' \<leftarrow> con_link_release p c; release_all p' cs }"

fun retain_all ::
  "con_link_pool \<Rightarrow> addr option list \<Rightarrow> addr option list \<Rightarrow> (bool \<times> con_link_pool) option" where
  "retain_all p held [] = Some (True, p)"
| "retain_all p held (c # cs) = do {
     (ok, p') \<leftarrow> con_link_retain p c;
     if ok then retain_all p' (c # held) cs
     else do { p'' \<leftarrow> release_all p' held; Some (False, p'') }
   }"

definition con_link_copy ::
  "con_link_pool \<Rightarrow> addr option list option \<Rightarrow> addr option list option \<Rightarrow> nat
     \<Rightarrow> (bool \<times> addr option list option \<times> con_link_pool) option" where
  "con_link_copy p destination source cnt =
     (if (destination = None \<or> source = None) \<and> cnt \<noteq> 0 then Some (False, destination, p)
      else if cnt > ulong_max div sizeof_pointer then Some (False, destination, p)
      else case (destination, source) of
        (Some ds, Some ss) \<Rightarrow>
          if cnt > length ds \<or> cnt > length ss then None
          else do {
            (ok, p1) \<leftarrow> retain_all p [] (take cnt ss);
            if \<not> ok then Some (False, destination, p1)
            else do {
              p2 \<leftarrow> release_all p1 (take cnt ds);
              Some (True, Some (take cnt ss @ drop cnt ds), p2)
            }
          }
      | _ \<Rightarrow> Some (True, destination, p))"

text \<open>
  The OSC 8 payload: colon-separated parameters up to the first semicolon, then the URI. The
  first parameter that starts with \<open>id=\<close> gives the identity.
\<close>

definition ascii_semicolon :: byte where "ascii_semicolon = 0x3b"
definition ascii_colon :: byte where "ascii_colon = 0x3a"
definition ascii_id_eq :: "byte list" where "ascii_id_eq = [0x69, 0x64, 0x3d]"

function link_params :: "byte list \<Rightarrow> byte list option \<Rightarrow> byte list option" where
  "link_params ps found =
     (if ps = [] then found
      else let field = takeWhile (\<lambda>b. b \<noteq> ascii_colon) ps;
               found' = (if found = None \<and> length field \<ge> 3 \<and> take 3 field = ascii_id_eq
                         then Some (drop 3 field) else found)
           in link_params (drop (length field + 1) ps) found')"
  by pat_completeness auto
termination
  by (relation "measure (\<lambda>(ps, found). length ps)") auto

declare link_params.simps [simp del]

definition con_link_open ::
  "con_link_pool \<Rightarrow> addr option \<Rightarrow> bytes_ptr \<Rightarrow> nat \<Rightarrow> addr option
     \<Rightarrow> (bool \<times> addr option \<times> con_link_pool) option" where
  "con_link_open p current payload n mem = do {
     (valid, nxt, p1) \<leftarrow>
       (if payload \<noteq> None \<and> n \<le> 2045 \<and> link_string payload n then
          let bytes = ptr_bytes payload n;
              params = takeWhile (\<lambda>b. b \<noteq> ascii_semicolon) bytes;
              separator = length params
          in if separator < length bytes then
               let ident = link_params params None;
                   uri = drop (separator + 1) bytes;
                   ulen = length bytes - separator - 1
               in if ulen = 0 then Some (True, None, p)
                  else do {
                    (nxt, p1) \<leftarrow> con_link_create p (Some uri) ulen ident
                       (case ident of None \<Rightarrow> 0 | Some i \<Rightarrow> length i) mem;
                    Some (nxt \<noteq> None, nxt, p1)
                  }
             else Some (False, None, p)
        else Some (False, None, p));
     p2 \<leftarrow> con_link_release p1 current;
     Some (valid, nxt, p2)
   }"


subsection \<open>Well-formed pools and ownership\<close>

definition link_ok :: "con_link \<Rightarrow> bool" where
  "link_ok l \<longleftrightarrow>
     1 \<le> references l \<and> references l \<le> ulong_max \<and>
     1 \<le> uriLength l \<and> uriLength l \<le> con_link_uri_max \<and> idLength l \<le> con_link_id_max \<and>
     allocation l = sizeof_con_link + uriLength l + idLength l + 1 \<and>
     length (link_data l) = uriLength l + idLength l + 2"

definition pool_ok :: "con_link_pool \<Rightarrow> bool" where
  "pool_ok p \<longleftrightarrow>
     distinct (map fst (chain p)) \<and> (\<forall>(a, l) \<in> set (chain p). link_ok l) \<and>
     records p = length (chain p) \<and> records p \<le> con_link_record_max \<and>
     pool_bytes p = sum_list (map (allocation \<circ> snd) (chain p)) \<and>
     pool_bytes p \<le> con_link_bytes_max"

definition refs_of :: "con_link_pool \<Rightarrow> addr \<Rightarrow> nat" where
  "refs_of p a = (case map_of (chain p) a of None \<Rightarrow> 0 | Some l \<Rightarrow> references l)"

text \<open>\<open>owned p M\<close>: the references held on the pool's links are exactly the multiset \<open>M\<close>.\<close>

definition owned :: "con_link_pool \<Rightarrow> addr multiset \<Rightarrow> bool" where
  "owned p M \<longleftrightarrow> pool_ok p \<and> (\<forall>a. refs_of p a = count M a)"

fun own :: "addr option \<Rightarrow> addr multiset" where
  "own None = {#}"
| "own (Some a) = {#a#}"

fun owners :: "addr option list \<Rightarrow> addr multiset" where
  "owners [] = {#}"
| "owners (c # cs) = own c + owners cs"

lemma owners_append [simp]: "owners (xs @ ys) = owners xs + owners ys"
  by (induction xs) (auto simp: ac_simps)

lemma owners_replicate: "owners (replicate n c) = repeat_mset n (own c)"
  by (induction n) auto

lemma owners_take_drop: "owners cs = owners (take n cs) + owners (drop n cs)"
  by (metis append_take_drop_id owners_append)

named_theorems link_limits "the numeric limits of the link pool"

lemmas [link_limits] = con_link_uri_max_def con_link_id_max_def con_link_record_max_def
  con_link_bytes_max_def sizeof_con_link_def ulong_max_def

lemma pool_okD:
  assumes "pool_ok p" and "map_of (chain p) a = Some l"
  shows "link_ok l" and "(a, l) \<in> set (chain p)" and "distinct (map fst (chain p))"
  using assms map_of_SomeD [OF assms(2)] by (auto simp: pool_ok_def)

lemma owned_live:
  assumes "owned p M" and "a \<in># M"
  obtains l where "map_of (chain p) a = Some l" and "references l = count M a" and "link_ok l"
proof -
  from assms have "refs_of p a = count M a" and "count M a > 0"
    by (auto simp: owned_def)
  then obtain l where "map_of (chain p) a = Some l" "references l = count M a"
    by (fastforce simp: refs_of_def not_in_iff [symmetric] split: option.splits)
  with assms(1) that show thesis by (auto simp: owned_def dest: pool_okD)
qed

lemma live_owned: "owned p M \<Longrightarrow> map_of (chain p) a = Some l \<Longrightarrow> a \<in># M"
  using pool_okD(1) [of p a l]
  by (auto simp: owned_def refs_of_def link_ok_def dest!: spec [of _ a] split: option.splits)

lemma set_references_ok:
  assumes "pool_ok p" and "map_of (chain p) a = Some l" and "1 \<le> r" and "r \<le> ulong_max"
  shows "pool_ok (p\<lparr>chain := node_update a (\<lambda>l. l\<lparr>references := r\<rparr>) (chain p)\<rparr>)"
  using assms by (auto simp: pool_ok_def sum_node_update link_ok_def)
    (auto simp: node_update_def split: if_splits)

lemma set_references_refs:
  assumes "map_of (chain p) a = Some l"
  shows "refs_of (p\<lparr>chain := node_update a (\<lambda>l. l\<lparr>references := r\<rparr>) (chain p)\<rparr>) b =
    (if b = a then r else refs_of p b)"
  using assms by (simp add: refs_of_def map_of_node_update)

text \<open>Setting the count to a value and adding to it are the same update on a live link.\<close>

lemma add_references_eq:
  assumes "pool_ok p" and "map_of (chain p) a = Some l"
  shows "node_update a (\<lambda>l. l\<lparr>references := add32 (references l) n\<rparr>) (chain p) =
    node_update a (\<lambda>l'. l'\<lparr>references := add32 (references l) n\<rparr>) (chain p)"
  using assms pool_okD(3) [OF assms]
  by (intro node_update_eqI) (metis map_of_is_SomeI option.inject)

subsection \<open>One reference\<close>

lemma retain_owned:
  assumes "owned p M" and "own link \<subseteq># M"
  obtains (saturated) "con_link_retain p link = Some (False, p)" and "count M (the link) = ulong_max"
  | (retained) p' where "con_link_retain p link = Some (True, p')" and "owned p' (own link + M)"
proof (cases link)
  case None
  with assms(1) show ?thesis by (intro retained [of p]) (simp_all add: con_link_retain_def)
next
  case (Some a)
  with assms(2) have "a \<in># M" by simp
  with assms(1) obtain l where l: "map_of (chain p) a = Some l" "references l = count M a" "link_ok l"
    by (rule owned_live)
  from assms(1) have ok: "pool_ok p" by (simp add: owned_def)
  show ?thesis
  proof (cases "references l = ulong_max")
    case True
    with Some l show ?thesis by (intro saturated) (simp_all add: con_link_retain_def)
  next
    case False
    let ?p = "p\<lparr>chain := node_update a (\<lambda>l'. l'\<lparr>references := references l + 1\<rparr>) (chain p)\<rparr>"
    from False l(3) have r: "add32 (references l) 1 = references l + 1"
      and le: "references l + 1 \<le> ulong_max"
      by (auto simp: link_ok_def arith32)
    have "con_link_retain p link = Some (True, ?p)"
      using Some False l r add_references_eq [OF ok l(1), of 1] by (simp add: con_link_retain_def)
    moreover have "owned ?p (own link + M)"
      using set_references_ok [OF ok l(1) _ le] assms(1) Some l
      by (auto simp: owned_def set_references_refs)
    ultimately show ?thesis by (rule retained)
  qed
qed

lemma release_owned:
  assumes "owned p (own link + M)"
  obtains p' where "con_link_release p link = Some p'" and "owned p' M"
proof (cases link)
  case None
  with assms that show ?thesis by (simp add: con_link_release_def)
next
  case (Some a)
  then have "a \<in># own link + M" by simp
  with assms obtain l where l: "map_of (chain p) a = Some l"
      "references l = count (own link + M) a" "link_ok l"
    by (rule owned_live)
  from assms have ok: "pool_ok p" by (simp add: owned_def)
  from l(2) Some have c: "references l = count M a + 1" by simp
  with l(3) have r: "sub32 (references l) 1 = count M a" by (auto simp: link_ok_def arith32)
  show ?thesis
  proof (cases "count M a = 0")
    case False
    let ?p = "p\<lparr>chain := node_update a (\<lambda>l. l\<lparr>references := count M a\<rparr>) (chain p)\<rparr>"
    from c l(3) have le: "count M a \<le> ulong_max" by (simp add: link_ok_def)
    have "con_link_release p link = Some ?p"
      using Some l(1) r False by (simp add: con_link_release_def)
    moreover have "owned ?p M"
      using set_references_ok [OF ok l(1) _ le] False assms Some l(1)
      by (auto simp: owned_def set_references_refs)
    ultimately show ?thesis by (rule that)
  next
    case True
    let ?p = "p\<lparr>chain := node_remove a (chain p), records := sub32 (records p) 1,
      pool_bytes := sub32 (pool_bytes p) (allocation l)\<rparr>"
    have rel: "con_link_release p link = Some ?p"
      using Some l(1) r True by (simp add: con_link_release_def)
    from ok have d: "distinct (map fst (chain p))" by (simp add: pool_ok_def)
    note len = length_node_remove [OF d l(1)] and sum = sum_node_remove [OF d l(1), of allocation]
    have "sub32 (records p) 1 = length (node_remove a (chain p))"
      using ok len by (auto simp: pool_ok_def arith32 link_limits)
    moreover have "sub32 (pool_bytes p) (allocation l) =
        sum_list (map (allocation \<circ> snd) (node_remove a (chain p)))"
      using ok sum by (subst sub32_exact) (auto simp: pool_ok_def link_limits)
    ultimately have "pool_ok ?p"
      using ok len sum distinct_node_remove [OF d, of a]
      by (auto simp: pool_ok_def node_remove_def)
    moreover have "refs_of ?p b = count M b" for b
      using assms True Some by (auto simp: owned_def refs_of_def dest: spec [of _ b])
    ultimately have "owned ?p M" by (simp add: owned_def)
    with rel show ?thesis by (rule that)
  qed
qed

text \<open>A release undoes the retain before it, to the same pool.\<close>

lemma release_retain:
  assumes "owned p M" and "own link \<subseteq># M" and "con_link_retain p link = Some (True, p')"
  shows "con_link_release p' link = Some p"
proof (cases link)
  case None
  with assms(3) show ?thesis by (simp add: con_link_retain_def con_link_release_def)
next
  case (Some a)
  with assms(2) have "a \<in># M" by simp
  with assms(1) obtain l where l: "map_of (chain p) a = Some l" "link_ok l"
    by (rule owned_live)
  from assms(1) have ok: "pool_ok p" by (simp add: owned_def)
  from Some l assms(3) have nm: "references l \<noteq> ulong_max"
    by (auto simp: con_link_retain_def)
  with l(2) have r: "add32 (references l) 1 = references l + 1"
      "sub32 (references l + 1) 1 = references l"
    by (auto simp: link_ok_def arith32)
  have p': "p' = p\<lparr>chain := node_update a (\<lambda>l'. l'\<lparr>references := references l + 1\<rparr>) (chain p)\<rparr>"
    using assms(3) Some l nm r add_references_eq [OF ok l(1), of 1]
    by (simp add: con_link_retain_def)
  have "node_update a (\<lambda>l'. l'\<lparr>references := references l\<rparr>) (chain p) = chain p"
    using pool_okD(3) [OF ok l(1)] l(1) by (rule node_update_id) simp
  with Some l r show ?thesis
    by (simp add: p' con_link_release_def map_of_node_update node_update_twice comp_def link_ok_def)
qed


subsection \<open>Runs of references\<close>

lemma fill_cells_release: "fill_cells p cs link = release_all p cs"
  by (induction cs arbitrary: p) (auto cong: Option.bind_cong)

lemma release_all_owned:
  assumes "owned p (owners cs + M)"
  obtains p' where "release_all p cs = Some p'" and "owned p' M"
  using assms
proof (induction cs arbitrary: p thesis)
  case Nil
  then show ?case by simp
next
  case (Cons c cs)
  from Cons.prems(2) have "owned p (own c + (owners cs + M))" by (simp add: ac_simps)
  then obtain p1 where p1: "con_link_release p c = Some p1" "owned p1 (owners cs + M)"
    by (rule release_owned)
  from Cons.IH [OF _ p1(2)] obtain p' where "release_all p1 cs = Some p'" "owned p' M" by blast
  with p1(1) Cons.prems(1) show ?case by simp
qed

lemma retain_all_owned:
  assumes "owned p M" and "owners cs + N = M" and "release_all p held = Some p0"
  shows "retain_all p held cs = Some (False, p0) \<or>
    (\<exists>p'. retain_all p held cs = Some (True, p') \<and> owned p' (owners cs + M))"
  using assms
proof (induction cs arbitrary: p held M N)
  case Nil
  then show ?case by simp
next
  case (Cons c cs)
  from Cons.prems(2) have sub: "own c \<subseteq># M" by auto
  from Cons.prems(1) sub show ?case
  proof (cases rule: retain_owned)
    case saturated
    with Cons.prems(3) show ?thesis by simp
  next
    case (retained p1)
    from release_retain [OF Cons.prems(1) sub retained(1)] Cons.prems(3)
    have "release_all p1 (c # held) = Some p0" by simp
    moreover have "owners cs + (N + own c + own c) = own c + M"
      using Cons.prems(2) by auto
    ultimately show ?thesis
      using Cons.IH [OF retained(2), of "N + own c + own c" "c # held"] retained(1)
      by (auto simp: ac_simps)
  qed
qed

lemma retain_saturated_never:
  "owned p M \<Longrightarrow> size M < ulong_max \<Longrightarrow> count M a \<noteq> ulong_max"
  by (metis count_le_size not_less)

text \<open>
  \<open>con_link_copy\<close>: with the references of both arrays accounted for, the call does not
  fault. It either leaves the cells and the pool exactly as they were, or overwrites the
  destination and moves the ownership accordingly.
\<close>

lemma copy_owned:
  assumes "owned p (owners ds + R)" and "owners ss \<subseteq># owners ds + R"
    and "n \<le> length ds" and "n \<le> length ss"
  shows "con_link_copy p (Some ds) (Some ss) n = Some (False, Some ds, p) \<or>
    (\<exists>p'. con_link_copy p (Some ds) (Some ss) n = Some (True, Some (take n ss @ drop n ds), p') \<and>
       owned p' (owners (take n ss @ drop n ds) + R))"
proof (cases "n > ulong_max div sizeof_pointer")
  case True
  then show ?thesis by (simp add: con_link_copy_def)
next
  case False
  let ?M = "owners ds + R"
  have "owners (take n ss) \<subseteq># ?M"
    using assms(2) owners_take_drop [of ss n] by (metis mset_subset_eq_add_left subset_mset.order_trans)
  then obtain N where N: "owners (take n ss) + N = ?M" by (metis subset_mset.add_diff_inverse)
  from retain_all_owned [OF assms(1) N, of "[]" p]
  consider "retain_all p [] (take n ss) = Some (False, p)"
    | p1 where "retain_all p [] (take n ss) = Some (True, p1)" "owned p1 (owners (take n ss) + ?M)"
    by auto
  then show ?thesis
  proof cases
    case 1
    with False assms(3,4) show ?thesis by (simp add: con_link_copy_def)
  next
    case 2
    have "owners (take n ss) + ?M = owners (take n ds) + (owners (take n ss @ drop n ds) + R)"
      using owners_take_drop [of ds n] by (simp add: ac_simps)
    with 2(2) obtain p2 where "release_all p1 (take n ds) = Some p2"
        "owned p2 (owners (take n ss @ drop n ds) + R)"
      by (metis release_all_owned)
    with 2(1) False assms(3,4) show ?thesis by (simp add: con_link_copy_def)
  qed
qed

lemma add_references_owned:
  assumes "owned p M" and "a \<in># M" and "map_of (chain p) a = Some l" and "references l + n \<le> ulong_max"
  shows "owned (p\<lparr>chain := node_update a (\<lambda>l. l\<lparr>references := add32 (references l) n\<rparr>) (chain p)\<rparr>)
    (repeat_mset n {#a#} + M)"
proof -
  from assms(1) have ok: "pool_ok p" by (simp add: owned_def)
  from assms(4) have r: "add32 (references l) n = references l + n" by (simp add: arith32)
  from pool_okD(1) [OF ok assms(3)] have "1 \<le> references l + n" by (simp add: link_ok_def)
  from set_references_ok [OF ok assms(3) this assms(4)] assms(1,3) show ?thesis
    unfolding add_references_eq [OF ok assms(3)] r
    by (auto simp: owned_def refs_of_def map_of_node_update dest: spec [of _ a])
qed

text \<open>
  \<open>con_link_fill\<close>: either the count would overflow and nothing changes, or the first
  \<open>n\<close> cells own the new link instead of what they owned before.
\<close>

lemma fill_owned:
  assumes "owned p (owners cs + R)" and "own link \<subseteq># owners cs + R" and "n \<le> length cs"
  shows "con_link_fill p (Some cs) n link = Some (False, Some cs, p) \<and> link \<noteq> None \<or>
    (\<exists>p'. con_link_fill p (Some cs) n link = Some (True, Some (replicate n link @ drop n cs), p') \<and>
       owned p' (owners (replicate n link @ drop n cs) + R))"
proof -
  have step: "\<exists>p'. fill_cells p1 (take n cs) link = Some p' \<and>
      owned p' (owners (replicate n link @ drop n cs) + R)"
    if "owned p1 (repeat_mset n (own link) + (owners cs + R))" for p1
  proof -
    have "repeat_mset n (own link) + (owners cs + R) =
        owners (take n cs) + (owners (replicate n link @ drop n cs) + R)"
      using owners_take_drop [of cs n] by (simp add: owners_replicate ac_simps)
    with that show ?thesis by (metis fill_cells_release release_all_owned)
  qed
  show ?thesis
  proof (cases link)
    case None
    with step [of p] assms(1,3) show ?thesis by (auto simp: con_link_fill_def)
  next
    case (Some a)
    with assms(2) have a: "a \<in># owners cs + R" by simp
    with assms(1) obtain l where l: "map_of (chain p) a = Some l" "link_ok l" by (rule owned_live)
    show ?thesis
    proof (cases "n > ulong_max - references l")
      case True
      with Some l show ?thesis by (simp add: con_link_fill_def)
    next
      case False
      with l(2) have "references l + n \<le> ulong_max" by (auto simp: link_ok_def)
      from add_references_owned [OF assms(1) a l(1) this] step Some False l(1) assms(3)
      show ?thesis by (force simp: con_link_fill_def)
    qed
  qed
qed


subsection \<open>Creating and opening links\<close>

definition fresh_block :: "con_link_pool \<Rightarrow> addr option \<Rightarrow> bool" where
  "fresh_block p mem = (case mem of None \<Rightarrow> True | Some a \<Rightarrow> map_of (chain p) a = None)"

definition ptr_covers :: "bytes_ptr \<Rightarrow> nat \<Rightarrow> bool" where
  "ptr_covers s n = (case s of None \<Rightarrow> n = 0 | Some bs \<Rightarrow> n \<le> length bs)"

lemma length_ptr_bytes [simp]: "ptr_covers s n \<Longrightarrow> length (ptr_bytes s n) = n"
  by (auto simp: ptr_covers_def ptr_bytes_def split: option.splits)

lemma find_live:
  assumes "pool_ok p" and "find P (chain p) = Some (a, l)"
  shows "map_of (chain p) a = Some l" and "P (a, l)"
  using assms by (auto simp: pool_ok_def find_Some_iff intro!: map_of_is_SomeI)

lemma insert_owned:
  assumes "owned p M" and "map_of (chain p) a = None" and "link_ok l" and "references l = 1"
    and "records p < con_link_record_max" and "pool_bytes p + allocation l \<le> con_link_bytes_max"
  shows "owned (p\<lparr>chain := (a, l) # chain p, records := add32 (records p) 1,
      pool_bytes := add32 (pool_bytes p) (allocation l)\<rparr>) (own (Some a) + M)"
proof -
  from assms(2) have new: "a \<notin> fst ` set (chain p)" by (simp add: map_of_eq_None_iff)
  from assms(1,2) have "count M a = 0" by (auto simp: owned_def refs_of_def dest: spec [of _ a])
  with assms new show ?thesis
    by (auto simp: owned_def pool_ok_def refs_of_def arith32 link_limits)
qed

lemma create_owned:
  assumes "owned p M" and "fresh_block p mem" and "ptr_covers uri ulen" and "ptr_covers ident ilen"
  obtains r p' where "con_link_create p uri ulen ident ilen mem = Some (r, p')"
    and "owned p' (own r + M)" and "r = None \<Longrightarrow> p' = p"
proof -
  let ?call = "con_link_create p uri ulen ident ilen mem"
  let ?found = "if ilen \<noteq> 0
    then find (\<lambda>(a, l). same_link (ptr_bytes uri ulen) (ptr_bytes ident ilen) l) (chain p) else None"
  let ?l = "\<lparr>references = 1, allocation = sizeof_con_link + ulen + ilen + 1, uriLength = ulen,
    idLength = ilen, link_data = ptr_bytes uri ulen @ [0] @ ptr_bytes ident ilen @ [0]\<rparr>"
  let ?bad = "ulen = 0 \<or> ulen > con_link_uri_max \<or> ilen > con_link_id_max \<or>
    \<not> link_string uri ulen \<or> \<not> link_string ident ilen"
  show thesis
  proof (cases ?bad)
    case True
    then have "?call = Some (None, p)" by (simp add: con_link_create_def)
    with assms(1) show thesis by (intro that [of None p]) simp_all
  next
    case good: False
    show thesis
    proof (cases ?found)
      case (Some q)
      then obtain a l where q: "q = (a, l)" and
        f: "find (\<lambda>(a, l). same_link (ptr_bytes uri ulen) (ptr_bytes ident ilen) l) (chain p) = Some (a, l)"
        by (cases q) (auto split: if_splits)
      from assms(1) f have "a \<in># M"
        by (metis find_live(1) live_owned owned_def)
      then have "own (Some a) \<subseteq># M" by simp
      with assms(1) show thesis
      proof (cases rule: retain_owned)
        case saturated
        with good Some q have "?call = Some (None, p)" by (simp add: con_link_create_def)
        with assms(1) show thesis by (intro that [of None p]) simp_all
      next
        case (retained p')
        with good Some q have "?call = Some (Some a, p')" by (simp add: con_link_create_def)
        with retained(2) show thesis by (intro that [of "Some a" p']) simp_all
      qed
    next
      case None
      from good have b: "add32 (add32 (add32 sizeof_con_link ulen) ilen) 1 = sizeof_con_link + ulen + ilen + 1"
        by (simp add: arith32 link_limits)
      show thesis
      proof (cases "records p \<ge> con_link_record_max \<or>
          pool_bytes p > con_link_bytes_max - allocation ?l \<or> mem = None")
        case True
        with good None b have "?call = Some (None, p)"
          by (auto simp: con_link_create_def Let_def split: option.splits)
        with assms(1) show thesis by (intro that [of None p]) simp_all
      next
        case False
        then obtain a where a: "mem = Some a" by auto
        from good have small: "allocation ?l \<le> con_link_bytes_max" by (simp add: link_limits)
        let ?p = "p\<lparr>chain := (a, ?l) # chain p, records := add32 (records p) 1,
          pool_bytes := add32 (pool_bytes p) (allocation ?l)\<rparr>"
        have "?call = Some (Some a, ?p)"
          using good None b False a small by (simp add: con_link_create_def Let_def)
        moreover have "owned ?p (own (Some a) + M)"
          using assms False a good small
          by (intro insert_owned) (auto simp: fresh_block_def link_ok_def link_limits)
        ultimately show thesis by (intro that [of "Some a" ?p]) simp_all
      qed
    qed
  qed
qed

lemma open_owned:
  assumes "owned p (own current + R)" and "fresh_block p mem" and "ptr_covers payload n"
  obtains valid nxt p' where "con_link_open p current payload n mem = Some (valid, nxt, p')"
    and "owned p' (own nxt + R)" and "nxt \<noteq> None \<Longrightarrow> valid"
proof -
  note result = that
  have fin: thesis
    if "con_link_open p current payload n mem =
          do { p2 \<leftarrow> con_link_release p1 current; Some (valid, nxt, p2) }"
      and "owned p1 (own nxt + (own current + R))" and "nxt \<noteq> None \<Longrightarrow> valid" for valid nxt p1
  proof -
    from that(2) have "owned p1 (own current + (own nxt + R))" by (simp add: ac_simps)
    then obtain p2 where "con_link_release p1 current = Some p2" "owned p2 (own nxt + R)"
      by (rule release_owned)
    with that(1,3) show thesis by (intro result [of valid nxt p2]) simp_all
  qed
  let ?bytes = "ptr_bytes payload n"
  let ?params = "takeWhile (\<lambda>b. b \<noteq> ascii_semicolon) ?bytes"
  let ?ident = "link_params ?params None"
  let ?uri = "Some (drop (length ?params + 1) ?bytes)"
  let ?ulen = "length ?bytes - length ?params - 1"
  let ?ilen = "case ?ident of None \<Rightarrow> 0 | Some i \<Rightarrow> length i"
  show thesis
  proof (cases "payload \<noteq> None \<and> n \<le> 2045 \<and> link_string payload n \<and>
      length ?params < length ?bytes \<and> ?ulen \<noteq> 0")
    case False
    with assms(1) show thesis
      by (intro fin [of p "payload \<noteq> None \<and> n \<le> 2045 \<and> link_string payload n \<and>
          length ?params < length ?bytes" None])
        (auto simp: con_link_open_def Let_def)
  next
    case True
    have "ptr_covers ?uri ?ulen" "ptr_covers ?ident ?ilen"
      by (auto simp: ptr_covers_def split: option.splits)
    with create_owned [OF assms(1,2)] obtain r p1 where
      c: "con_link_create p ?uri ?ulen ?ident ?ilen mem = Some (r, p1)"
        "owned p1 (own r + (own current + R))"
      by metis
    with True show thesis
      by (intro fin [of p1 "r \<noteq> None" r]) (simp_all add: con_link_open_def Let_def)
  qed
qed


text \<open>Which identity the payload's parameters name: the first field that starts with \<open>id=\<close>.\<close>

fun split_on :: "byte \<Rightarrow> byte list \<Rightarrow> byte list list" where
  "split_on c [] = [[]]"
| "split_on c (b # bs) =
     (if b = c then [] # split_on c bs
      else case split_on c bs of f # fs \<Rightarrow> (b # f) # fs | [] \<Rightarrow> [[b]])"

lemma split_on_ne: "split_on c bs \<noteq> []"
  by (induction bs) (auto split: list.splits)

lemma split_on_step:
  "split_on c bs = takeWhile (\<lambda>b. b \<noteq> c) bs #
     (if length (takeWhile (\<lambda>b. b \<noteq> c) bs) = length bs then []
      else split_on c (drop (length (takeWhile (\<lambda>b. b \<noteq> c) bs) + 1) bs))"
  by (induction bs) (auto split: list.splits)

definition is_id_field :: "byte list \<Rightarrow> bool" where
  "is_id_field f \<longleftrightarrow> take 3 f = ascii_id_eq"

lemma is_id_field_iff: "is_id_field f \<longleftrightarrow> length f \<ge> 3 \<and> take 3 f = ascii_id_eq"
  by (auto simp: is_id_field_def ascii_id_eq_def dest: arg_cong [of _ _ length])

lemma link_params_found: "link_params ps (Some i) = Some i"
  by (induction ps "Some i" rule: link_params.induct) (subst link_params.simps, simp add: Let_def)

lemma link_params_first:
  "link_params ps None = map_option (drop 3) (find is_id_field (split_on ascii_colon ps))"
proof (induction ps "None :: byte list option" rule: link_params.induct)
  case (1 ps)
  let ?f = "takeWhile (\<lambda>b. b \<noteq> ascii_colon) ps"
  show ?case
  proof (cases "ps = []")
    case True
    then show ?thesis
      by (subst link_params.simps) (simp add: is_id_field_iff)
  next
    case ne: False
    show ?thesis
    proof (cases "is_id_field ?f")
      case True
      with ne show ?thesis
        by (subst link_params.simps, subst split_on_step)
          (simp add: Let_def is_id_field_iff link_params_found)
    next
      case False
      with 1 [OF ne] have "link_params (drop (length ?f + 1) ps) None =
          map_option (drop 3) (find is_id_field (split_on ascii_colon (drop (length ?f + 1) ps)))"
        by (simp add: is_id_field_iff)
      moreover have "find is_id_field (split_on ascii_colon ps) =
          find is_id_field (split_on ascii_colon (drop (length ?f + 1) ps))"
        using False by (subst split_on_step) (auto simp: is_id_field_iff)
      ultimately show ?thesis
        using ne False by (subst link_params.simps) (auto simp: Let_def is_id_field_iff)
    qed
  qed
qed

text \<open>A named link found once is found again.\<close>

lemma find_node_update:
  assumes "\<And>a l. P (a, f l) = P (a, l)"
  shows "find P (node_update a f xs) = map_option (\<lambda>(b, l). (b, if b = a then f l else l)) (find P xs)"
  using assms by (induction xs) (auto simp: node_update_def)

lemma retain_find:
  assumes "con_link_retain p link = Some (True, p')"
  shows "find (\<lambda>(a, l). same_link uri ident l) (chain p') = None \<longleftrightarrow>
         find (\<lambda>(a, l). same_link uri ident l) (chain p) = None"
    and "map_option fst (find (\<lambda>(a, l). same_link uri ident l) (chain p')) =
         map_option fst (find (\<lambda>(a, l). same_link uri ident l) (chain p))"
    and "map fst (chain p') = map fst (chain p)"
  using assms
  by (auto simp: con_link_retain_def find_node_update same_link_def option.map_comp comp_def
      split_def split: option.splits if_splits)

lemma create_named_found:
  assumes "con_link_create p uri ulen ident ilen mem = Some (Some a, p')" and "ilen \<noteq> 0"
    and "ptr_covers uri ulen" and "ptr_covers ident ilen"
  shows "\<exists>l. find (\<lambda>(a, l). same_link (ptr_bytes uri ulen) (ptr_bytes ident ilen) l) (chain p') = Some (a, l)"
proof (cases "find (\<lambda>(a, l). same_link (ptr_bytes uri ulen) (ptr_bytes ident ilen) l) (chain p)")
  case None
  with assms(1,2) obtain l where "chain p' = (a, l) # chain p"
    and "uriLength l = ulen" and "idLength l = ilen"
    and "link_data l = ptr_bytes uri ulen @ [0] @ ptr_bytes ident ilen @ [0]"
    by (auto simp: con_link_create_def Let_def split: if_splits option.splits)
  with assms(3,4) show ?thesis by (simp add: same_link_def)
next
  case (Some q)
  with assms have "con_link_retain p (Some a) = Some (True, p')" and "fst q = a"
    by (cases q; auto simp: con_link_create_def split: if_splits Option.bind_splits)+
  with retain_find(2) [OF this(1), of "ptr_bytes uri ulen" "ptr_bytes ident ilen"] Some
  show ?thesis by auto
qed

subsection \<open>Every history of operations\<close>

text \<open>
  A console task holds one cell array and one current link over a pool. The operations are those
  of the interface, at positions inside the array, with fresh storage from the allocator; a
  history is any sequence of them from an empty screen.
\<close>

record link_screen =
  scr_pool :: con_link_pool
  scr_cells :: "addr option list"
  scr_current :: "addr option"

datatype link_op =
    Open "byte list" "addr option"
  | Write nat nat
  | Erase nat nat
  | Copy nat nat nat

definition init_screen :: "nat \<Rightarrow> link_screen" where
  "init_screen n = \<lparr>scr_pool = empty_pool, scr_cells = replicate n None, scr_current = None\<rparr>"

fun op_ready :: "link_screen \<Rightarrow> link_op \<Rightarrow> bool" where
  "op_ready s (Open payload mem) = fresh_block (scr_pool s) mem"
| "op_ready s (Write start n) = (start + n \<le> length (scr_cells s))"
| "op_ready s (Erase start n) = (start + n \<le> length (scr_cells s))"
| "op_ready s (Copy dst src n) = (dst + n \<le> length (scr_cells s) \<and> src + n \<le> length (scr_cells s))"

definition fill_at :: "link_screen \<Rightarrow> nat \<Rightarrow> nat \<Rightarrow> addr option \<Rightarrow> link_screen option" where
  "fill_at s start n link =
     (case con_link_fill (scr_pool s) (Some (drop start (scr_cells s))) n link of
        Some (ok, Some cs, p) \<Rightarrow> Some (s\<lparr>scr_pool := p, scr_cells := take start (scr_cells s) @ cs\<rparr>)
      | _ \<Rightarrow> None)"

fun link_exec :: "link_screen \<Rightarrow> link_op \<Rightarrow> link_screen option" where
  "link_exec s (Open payload mem) = do {
     (valid, c, p) \<leftarrow> con_link_open (scr_pool s) (scr_current s) (Some payload) (length payload) mem;
     Some (s\<lparr>scr_pool := p, scr_current := c\<rparr>)
   }"
| "link_exec s (Write start n) = fill_at s start n (scr_current s)"
| "link_exec s (Erase start n) = fill_at s start n None"
| "link_exec s (Copy dst src n) =
     (case con_link_copy (scr_pool s) (Some (drop dst (scr_cells s))) (Some (drop src (scr_cells s))) n of
        Some (ok, Some cs, p) \<Rightarrow> Some (s\<lparr>scr_pool := p, scr_cells := take dst (scr_cells s) @ cs\<rparr>)
      | _ \<Rightarrow> None)"

inductive link_reachable :: "link_screen \<Rightarrow> bool" where
  start: "link_reachable (init_screen n)"
| step: "link_reachable s \<Longrightarrow> op_ready s op \<Longrightarrow> link_exec s op = Some t \<Longrightarrow> link_reachable t"

definition screen_ok :: "link_screen \<Rightarrow> bool" where
  "screen_ok s \<longleftrightarrow> owned (scr_pool s) (owners (scr_cells s) + own (scr_current s))"

lemma screen_ok_init: "screen_ok (init_screen n)"
  by (simp add: screen_ok_def init_screen_def empty_pool_def owned_def pool_ok_def refs_of_def
      owners_replicate link_limits)

lemma screen_ok_slice:
  assumes "owned p (owners cs + (owners (take k (scr_cells s)) + own (scr_current s)))"
  shows "screen_ok (s\<lparr>scr_pool := p, scr_cells := take k (scr_cells s) @ cs\<rparr>)"
  using assms by (simp add: screen_ok_def ac_simps)

lemma screen_slice:
  "screen_ok s \<longleftrightarrow>
     owned (scr_pool s) (owners (drop k (scr_cells s)) + (owners (take k (scr_cells s)) + own (scr_current s)))"
  using owners_take_drop [of "scr_cells s" k] by (simp add: screen_ok_def ac_simps)

lemma fill_at_ok:
  assumes "screen_ok s" and "link = scr_current s \<or> link = None" and "start + n \<le> length (scr_cells s)"
  shows "\<exists>t. fill_at s start n link = Some t \<and> screen_ok t"
proof -
  let ?cs = "drop start (scr_cells s)" and ?R = "owners (take start (scr_cells s)) + own (scr_current s)"
  note own = assms(1) [unfolded screen_slice [of s start]]
  have "own link \<subseteq># owners ?cs + ?R" using assms(2) by auto
  moreover have "n \<le> length ?cs" using assms(3) by simp
  ultimately show ?thesis
  proof (rule disjE [OF fill_owned [OF own]], goal_cases)
    case 1
    with screen_ok_slice [OF own] show ?thesis by (auto simp: fill_at_def)
  next
    case 2
    then obtain p where "con_link_fill (scr_pool s) (Some ?cs) n link =
        Some (True, Some (replicate n link @ drop n ?cs), p)"
      and "owned p (owners (replicate n link @ drop n ?cs) + ?R)" by blast
    with screen_ok_slice [OF this(2)] show ?thesis by (simp add: fill_at_def)
  qed
qed

lemma link_exec_ok:
  assumes "screen_ok s" and "op_ready s op"
  shows "\<exists>t. link_exec s op = Some t \<and> screen_ok t"
proof (cases op)
  case (Open payload mem)
  from assms(1) have "owned (scr_pool s) (own (scr_current s) + owners (scr_cells s))"
    by (simp add: screen_ok_def ac_simps)
  moreover have "fresh_block (scr_pool s) mem" using assms(2) Open by simp
  moreover have "ptr_covers (Some payload) (length payload)" by (simp add: ptr_covers_def)
  ultimately obtain v c p where
    "con_link_open (scr_pool s) (scr_current s) (Some payload) (length payload) mem = Some (v, c, p)"
    "owned p (own c + owners (scr_cells s))"
    by (rule open_owned)
  with Open show ?thesis by (simp add: screen_ok_def ac_simps)
next
  case (Write start n)
  with assms show ?thesis using fill_at_ok [of s "scr_current s"] by simp
next
  case (Erase start n)
  with assms show ?thesis using fill_at_ok [of s None] by simp
next
  case (Copy dst src n)
  let ?ds = "drop dst (scr_cells s)" and ?ss = "drop src (scr_cells s)"
    and ?R = "owners (take dst (scr_cells s)) + own (scr_current s)"
  note own = assms(1) [unfolded screen_slice [of s dst]]
  have "owners ?ss \<subseteq># owners (scr_cells s)"
    using owners_take_drop [of "scr_cells s" src] by simp
  also have "owners (scr_cells s) \<subseteq># owners ?ds + ?R"
    using owners_take_drop [of "scr_cells s" dst] by (simp add: ac_simps)
  finally have "owners ?ss \<subseteq># owners ?ds + ?R" .
  moreover have "n \<le> length ?ds" "n \<le> length ?ss" using assms(2) Copy by auto
  ultimately show ?thesis
  proof (rule disjE [OF copy_owned [OF own]], goal_cases)
    case 1
    with Copy screen_ok_slice [OF own] show ?thesis by auto
  next
    case 2
    then obtain p where "con_link_copy (scr_pool s) (Some ?ds) (Some ?ss) n =
        Some (True, Some (take n ?ss @ drop n ?ds), p)"
      and "owned p (owners (take n ?ss @ drop n ?ds) + ?R)" by blast
    with Copy screen_ok_slice [OF this(2)] show ?thesis by simp
  qed
qed

lemma link_reachable_ok: "link_reachable s \<Longrightarrow> screen_ok s"
proof (induction rule: link_reachable.induct)
  case (start n)
  show ?case by (rule screen_ok_init)
next
  case (step s op t)
  then show ?case using link_exec_ok [of s op] by auto
qed

lemma unowned_pool_empty: "owned p {#} \<Longrightarrow> p = empty_pool"
  by (cases "chain p") (auto simp: owned_def pool_ok_def refs_of_def link_ok_def empty_pool_def
      split: if_splits dest: spec)


subsection \<open>A concrete history\<close>

text \<open>The payload \<open>id=a;x\<close>, opened on a screen of three cells, then written to two of them.\<close>

definition demo_payload :: "byte list" where
  "demo_payload = [0x69, 0x64, 0x3d, 0x61, 0x3b, 0x78]"

definition demo_link :: "nat \<Rightarrow> con_link" where
  "demo_link n = \<lparr>references = n, allocation = 43, uriLength = 1, idLength = 1,
     link_data = [0x78, 0, 0x61, 0]\<rparr>"

definition demo_screen :: "addr option list \<Rightarrow> nat \<Rightarrow> link_screen" where
  "demo_screen cs n = \<lparr>scr_pool = \<lparr>chain = [(7, demo_link n)], records = 1, pool_bytes = 43\<rparr>,
     scr_cells = cs, scr_current = Some 7\<rparr>"

lemma demo_opened:
  "link_exec (init_screen 3) (Open demo_payload (Some 7)) = Some (demo_screen [None, None, None] 1)"
  by code_simp

lemma demo_written:
  "link_exec (demo_screen [None, None, None] 1) (Write 0 2) = Some (demo_screen [Some 7, Some 7, None] 3)"
  by code_simp

lemma demo_reachable: "link_reachable (demo_screen [Some 7, Some 7, None] 3)"
  by (rule link_reachable.step [OF link_reachable.step [OF link_reachable.start _ demo_opened] _ demo_written])
    code_simp+

lemma demo_owned: "owned (scr_pool (demo_screen [Some 7, Some 7, None] 3)) (owners [Some 7, Some 7, None] + {#7#})"
  using link_reachable_ok [OF demo_reachable] by (simp add: screen_ok_def demo_screen_def)

subsection \<open>Properties\<close>

text \<open>
  C3. From an empty screen, no history of opens, writes, erasures and copies makes
  the link store touch released storage or leave its limits; in every reachable state the count of
  each link is the number of cells, plus the cursor, that own it.
\<close>

theorem link_store_safe:
  assumes "link_reachable s" and "op_ready s op"
  shows "link_exec s op \<noteq> None \<and>
    length (chain (scr_pool s)) = records (scr_pool s) \<and> records (scr_pool s) \<le> con_link_record_max \<and>
    pool_bytes (scr_pool s) \<le> con_link_bytes_max \<and>
    (\<forall>a. refs_of (scr_pool s) a =
       length (filter (\<lambda>c. c = Some a) (scr_cells s)) + (if scr_current s = Some a then 1 else 0))"
proof -
  have ok: "screen_ok s" using assms(1) by (rule link_reachable_ok)
  have cnt: "count (owners cs) a = length (filter (\<lambda>c. c = Some a) cs)" for cs a
  proof (induction cs)
    case (Cons c cs)
    then show ?case by (cases c) auto
  qed simp
  have "count (own c) a = (if c = Some a then 1 else 0)" for c a
    by (cases c) auto
  with ok link_exec_ok [OF ok assms(2)] show ?thesis
    by (auto simp: screen_ok_def owned_def pool_ok_def cnt)
qed

theorem link_store_safe_witness:
  "refs_of (scr_pool (demo_screen [Some 7, Some 7, None] 3)) 7 = 3 \<and>
   link_exec (demo_screen [Some 7, Some 7, None] 3) (Copy 1 0 2) \<noteq> None"
proof -
  have "op_ready (demo_screen [Some 7, Some 7, None] 3) (Copy 1 0 2)" by code_simp
  from link_store_safe [OF demo_reachable this] show ?thesis
    by (simp add: demo_screen_def)
qed

text \<open>
  C35. Once every cell and the cursor are clear, the pool is empty again: no link leaks.
\<close>

theorem link_store_no_leak:
  assumes "link_reachable s" and "\<forall>c \<in> set (scr_cells s). c = None" and "scr_current s = None"
  shows "scr_pool s = empty_pool"
proof -
  have "owners cs = {#}" if "\<forall>c \<in> set cs. c = None" for cs
    using that by (induction cs) auto
  with link_reachable_ok [OF assms(1)] assms(2,3) show ?thesis
    by (intro unowned_pool_empty) (simp add: screen_ok_def)
qed

theorem link_store_no_leak_witness:
  "\<exists>s t. link_exec (demo_screen [Some 7, Some 7, None] 3) (Erase 0 3) = Some s \<and>
     link_exec s (Open [0x3b] None) = Some t \<and> scr_pool t = empty_pool"
proof -
  let ?s = "demo_screen [None, None, None] 1"
  let ?t = "\<lparr>scr_pool = empty_pool, scr_cells = [None, None, None], scr_current = None\<rparr>"
  have 1: "link_exec (demo_screen [Some 7, Some 7, None] 3) (Erase 0 3) = Some ?s" by code_simp
  have 2: "link_exec ?s (Open [0x3b] None) = Some ?t" by code_simp
  have "link_reachable ?t"
    by (rule link_reachable.step [OF link_reachable.step [OF demo_reachable _ 1] _ 2]) code_simp+
  from link_store_no_leak [OF this] 1 2 show ?thesis by simp
qed

text \<open>
  Opening the same URI under the same nonempty identity again gives the same link, with no new
  record, unless that link's count is saturated.
\<close>

theorem link_named_shared:
  assumes "con_link_create p uri ulen ident ilen mem = Some (Some a, p1)" and "ilen \<noteq> 0"
    and "ptr_covers uri ulen" and "ptr_covers ident ilen" and "owned p1 M"
    and "refs_of p1 a \<noteq> ulong_max"
  shows "\<exists>p2. con_link_create p1 uri ulen ident ilen mem' = Some (Some a, p2) \<and>
    map fst (chain p2) = map fst (chain p1) \<and> refs_of p2 a = refs_of p1 a + 1"
proof -
  from create_named_found [OF assms(1-4)] obtain l where
    f: "find (\<lambda>(a, l). same_link (ptr_bytes uri ulen) (ptr_bytes ident ilen) l) (chain p1) = Some (a, l)"
    by blast
  from assms(1) have good: "\<not> (ulen = 0 \<or> ulen > con_link_uri_max \<or> ilen > con_link_id_max \<or>
      \<not> link_string uri ulen \<or> \<not> link_string ident ilen)"
    by (auto simp: con_link_create_def split: if_splits)
  from f assms(5) have m: "map_of (chain p1) a = Some l" by (auto simp: owned_def dest: find_live(1))
  with assms(5) have "own (Some a) \<subseteq># M" by (simp add: live_owned)
  with assms(5) show ?thesis
  proof (cases rule: retain_owned)
    case saturated
    with assms(5,6) show ?thesis by (simp add: owned_def)
  next
    case (retained p2)
    with good f assms(2) have "con_link_create p1 uri ulen ident ilen mem' = Some (Some a, p2)"
      by (simp add: con_link_create_def)
    moreover from retained(2) assms(5) have "refs_of p2 a = refs_of p1 a + 1"
      by (simp add: owned_def)
    ultimately show ?thesis using retain_find(3) [OF retained(1)] by blast
  qed
qed

theorem link_named_shared_witness:
  "\<exists>p2. con_link_create (scr_pool (demo_screen [] 1)) (Some [0x78]) 1 (Some [0x61]) 1 None = Some (Some 7, p2) \<and>
     map fst (chain p2) = [7] \<and> refs_of p2 7 = 2"
proof -
  have c: "con_link_create empty_pool (Some [0x78]) 1 (Some [0x61]) 1 (Some 7) =
      Some (Some 7, scr_pool (demo_screen [] 1))" by code_simp
  have o: "owned (scr_pool (demo_screen [] 1)) {#7#}"
    by (auto simp: owned_def pool_ok_def refs_of_def demo_screen_def demo_link_def link_ok_def link_limits)
  have "refs_of (scr_pool (demo_screen [] 1)) 7 \<noteq> ulong_max"
    and "refs_of (scr_pool (demo_screen [] 1)) 7 = 1"
    and "map fst (chain (scr_pool (demo_screen [] 1))) = [7]" by code_simp+
  with link_named_shared [OF c _ _ _ o, of None] show ?thesis by (simp add: ptr_covers_def numeral_2_eq_2)
qed

text \<open>
  C32. \<open>con_link_copy\<close> is atomic: it succeeds and moves the ownership of the overwritten
  cells, or it fails and gives back the identical pool and cells.
\<close>

theorem link_copy_atomic:
  assumes "owned p (owners ds + R)" and "owners ss \<subseteq># owners ds + R"
    and "n \<le> length ds" and "n \<le> length ss"
  shows "\<exists>ok cs p'. con_link_copy p (Some ds) (Some ss) n = Some (ok, Some cs, p') \<and>
    owned p' (owners cs + R) \<and>
    (if ok then cs = take n ss @ drop n ds else cs = ds \<and> p' = p)"
  using copy_owned [OF assms] assms(1) by fastforce

theorem link_copy_atomic_witness:
  "\<exists>ok cs p'. con_link_copy (scr_pool (demo_screen [] 3)) (Some [Some 7, Some 7, None])
      (Some [None]) 1 = Some (ok, Some cs, p') \<and> owned p' (owners cs + {#7#}) \<and> cs = [None, Some 7, None]"
proof -
  have "owned (scr_pool (demo_screen [] 3)) (owners [Some 7, Some 7, None] + {#7#})"
    using demo_owned by (simp add: demo_screen_def)
  from link_copy_atomic [OF this, of "[None]" 1] show ?thesis
    by (auto simp: con_link_copy_def con_link_retain_def con_link_release_def sizeof_pointer_def link_limits
        demo_screen_def demo_link_def sub32_def split: if_splits)
qed

text \<open>
  C38. The identity an OSC 8 payload names is the first \<open>id=\<close> field of its parameter section,
  whatever the other fields hold; the whole URI follows the first semicolon; a malformed payload
  closes the previous link.
\<close>

theorem link_open_payload:
  assumes "length payload \<le> 2045"
  shows "con_link_open p cur (Some payload) (length payload) mem =
    (let params = takeWhile (\<lambda>b. b \<noteq> ascii_semicolon) payload;
         rest = drop (length params) payload;
         ident = map_option (drop 3) (find is_id_field (split_on ascii_colon params))
     in do {
       (valid, nxt, p1) \<leftarrow>
         (if list_ex (\<lambda>b. b < 32 \<or> b = 127) payload \<or> rest = [] then Some (False, None, p)
          else if tl rest = [] then Some (True, None, p)
          else do {
            (r, p1) \<leftarrow> con_link_create p (Some (tl rest)) (length (tl rest)) ident
              (case ident of None \<Rightarrow> 0 | Some i \<Rightarrow> length i) mem;
            Some (r \<noteq> None, r, p1)
          });
       p2 \<leftarrow> con_link_release p1 cur;
       Some (valid, nxt, p2)
     })"
proof -
  let ?params = "takeWhile (\<lambda>b. b \<noteq> ascii_semicolon) payload"
  have "length ?params < length payload \<longleftrightarrow> drop (length ?params) payload \<noteq> []"
    by auto
  moreover have "drop (length ?params + 1) payload = tl (drop (length ?params) payload)"
    by (simp add: drop_Suc tl_drop)
  ultimately show ?thesis
    using assms
    by (auto simp: con_link_open_def ptr_bytes_def link_string_def link_params_first Let_def tl_drop
        drop_Suc)
qed

theorem link_open_payload_witness:
  "con_link_open empty_pool None (Some demo_payload) (length demo_payload) (Some 7) =
     Some (True, Some 7, scr_pool (demo_screen [] 1))"
  by (subst link_open_payload) code_simp+

end
