(* ===== verification/Keyboard.thy ===== *)
theory Keyboard
  imports Prelude
begin

text \<open>
  \<open>devs/consoleng/keyboard_protocol.c\<close>: the negotiated keyboard protocol. A unit keeps
  one stack of flag sets per screen and the flags in force; \<open>con_keyboard_csi\<close> serves the
  control sequences, \<open>con_keyboard_event\<close> encodes one key event. The bytes of a stack
  above its depth are never read, so a stack is the list of its live entries, top last. The keymap
  (\<open>RawKeyConvert\<close>) is not part of the repository: it is a parameter that returns the bytes it
  wrote, or \<open>None\<close> for its error return. Raw key codes and qualifier bits are named by the
  system headers; a key code is a constructor here, with the key-up bit apart.
\<close>

definition con_keyboard_supported :: byte where "con_keyboard_supported = 31"
definition con_keyboard_depth :: nat where "con_keyboard_depth = 4096"

record keyboard =
  kb_stack :: "bool \<Rightarrow> byte list"
  kb_flags :: byte

text \<open>The fields of the console unit this file uses: the screen in use and the optional state.\<close>

record kb_unit =
  keyboardAlternate :: bool
  kb_state :: "keyboard option"

definition cleared_keyboard :: keyboard where
  "cleared_keyboard = \<lparr>kb_stack = (\<lambda>_. []), kb_flags = 0\<rparr>"

definition stack_top :: "byte list \<Rightarrow> byte" where
  "stack_top st = (if st \<noteq> [] then last st else 0)"

definition con_keyboard_dispose :: "kb_unit \<Rightarrow> kb_unit" where
  "con_keyboard_dispose u = u\<lparr>kb_state := None\<rparr>"

definition con_keyboard_switch :: "kb_unit \<Rightarrow> bool \<Rightarrow> kb_unit" where
  "con_keyboard_switch u alternate =
     u\<lparr>keyboardAlternate := alternate,
       kb_state := map_option (\<lambda>k. k\<lparr>kb_flags := stack_top (kb_stack k alternate)\<rparr>) (kb_state u)\<rparr>"

subsection \<open>Decimal numbers\<close>

fun decimal_reverse :: "nat \<Rightarrow> byte list" where
  "decimal_reverse value =
     of_nat (48 + value mod 10) # (if value div 10 = 0 then [] else decimal_reverse (value div 10))"

declare decimal_reverse.simps [simp del]

definition con_keyboard_decimal :: "nat \<Rightarrow> byte list" where
  "con_keyboard_decimal value = rev (decimal_reverse value)"

subsection \<open>Control sequences\<close>

text \<open>The parameter loop: up to two decimal fields, each at most 65535.\<close>

fun csi_fields :: "byte list \<Rightarrow> bool \<Rightarrow> nat \<Rightarrow> nat \<Rightarrow> (bool \<times> nat \<times> nat) option" where
  "csi_fields [] field v0 v1 = Some (field, v0, v1)"
| "csi_fields (b # bs) field v0 v1 =
     (if b = 0x3b \<and> \<not> field then csi_fields bs True v0 0
      else
        let v = (if field then v1 else v0) in
        if b < 0x30 \<or> b > 0x39 \<or> v > 6553 then None
        else
          let w = v * 10 + (unat b - 48) in
          if w > 65535 then None
          else if field then csi_fields bs field v0 w else csi_fields bs field w v1)"

definition csi_final :: "byte \<Rightarrow> bool" where
  "csi_final b \<longleftrightarrow> \<not> (b < 0x40 \<or> b > 0x7e)"

text \<open>The three requests that change the state: push, pop and set.\<close>

definition kb_request :: "byte \<Rightarrow> bool \<Rightarrow> nat \<Rightarrow> nat \<Rightarrow> keyboard \<Rightarrow> keyboard" where
  "kb_request c screen v0 v1 k =
     (let st = kb_stack k screen; flags = of_nat v0 AND con_keyboard_supported in
      if c = 0x3e then
        k\<lparr>kb_stack := (kb_stack k)(screen := (if length st = con_keyboard_depth then tl st else st) @ [flags]),
          kb_flags := flags\<rparr>
      else if c = 0x3c then
        let pop = (if v0 \<noteq> 0 then v0 else 1);
            st' = (if pop > length st then [] else take (length st - pop) st)
        in k\<lparr>kb_stack := (kb_stack k)(screen := st'), kb_flags := stack_top st'\<rparr>
      else k\<lparr>kb_flags := (if v1 = 2 then kb_flags k OR flags
                          else if v1 = 3 then kb_flags k AND NOT flags else flags)\<rparr>)"

text \<open>
  \<open>con_keyboard_csi\<close>: the number of bytes consumed (zero when this is not keyboard syntax), the
  unit, and the replies injected into its input. \<open>alloc\<close> is the answer of \<open>AllocMem\<close>.
\<close>

definition con_keyboard_csi :: "kb_unit \<Rightarrow> byte list \<Rightarrow> bool \<Rightarrow> nat \<times> kb_unit \<times> byte list list" where
  "con_keyboard_csi u s alloc =
     (case s of
        [] \<Rightarrow> (0, u, [])
      | c # rest \<Rightarrow>
          if c \<notin> set [0x3f, 0x3c, 0x3d, 0x3e] then (0, u, [])
          else
            let body = takeWhile (\<lambda>b. \<not> csi_final b) rest;
                e = 1 + length body
            in
            if e = length s \<or> s ! e \<noteq> 0x75 then (0, u, [])
            else
              (case csi_fields body False 0 1 of
                 None \<Rightarrow> (e + 1, u, [])
               | Some (field, v0, v1) \<Rightarrow>
                   if (field \<and> c \<noteq> 0x3d) \<or> (c = 0x3f \<and> e \<noteq> 1) then (e + 1, u, [])
                   else if c = 0x3f then
                     (e + 1, u, [[0x1b, 0x5b, 0x3f] @
                        con_keyboard_decimal (case kb_state u of None \<Rightarrow> 0 | Some k \<Rightarrow> unat (kb_flags k)) @
                        [0x75]])
                   else if kb_state u = None \<and> \<not> alloc then (e + 1, u, [])
                   else
                     let k = (case kb_state u of None \<Rightarrow> cleared_keyboard | Some k \<Rightarrow> k);
                         k' = kb_request c (keyboardAlternate u) v0 v1 k
                     in (e + 1, u\<lparr>kb_state := Some k'\<rparr>, [])))"

subsection \<open>Key events\<close>

datatype rawkey =
    RK_ESCAPE | RK_TAB | RK_RETURN | RK_BACKSPACE
  | RK_KP nat \<comment> \<open>keypad digit\<close>
  | RK_KP_DECIMAL | RK_KP_DIVIDE | RK_KP_MULTIPLY | RK_KP_MINUS | RK_KP_PLUS | RK_KP_ENTER
  | RK_UP | RK_DOWN | RK_RIGHT | RK_LEFT | RK_HOME | RK_END
  | RK_INSERT | RK_DELETE | RK_PAGEUP | RK_PAGEDOWN
  | RK_F nat \<comment> \<open>function key 1 to 12\<close>
  | RK_SCRLOCK | RK_PRTSCREEN | RK_PAUSE
  | RK_LSHIFT | RK_RSHIFT | RK_CONTROL | RK_LALT | RK_RALT | RK_CAPSLOCK | RK_NUMLOCK
  | RK_OTHER nat \<comment> \<open>every other code\<close>

record qualifier =
  q_lshift :: bool
  q_rshift :: bool
  q_lalt :: bool
  q_ralt :: bool
  q_control :: bool
  q_lcommand :: bool
  q_rcommand :: bool
  q_repeat :: bool

record input_event =
  ie_rawkey_class :: bool
  ie_key :: rawkey
  ie_up :: bool
  ie_qual :: qualifier

type_synonym keymap = "input_event \<Rightarrow> nat \<Rightarrow> byte list option"

definition control_byte :: "byte \<Rightarrow> bool" where
  "control_byte b \<longleftrightarrow> b < 32 \<or> (b \<ge> 127 \<and> b < 160)"

definition con_keyboard_text :: "keymap \<Rightarrow> input_event \<Rightarrow> byte list" where
  "con_keyboard_text convert ev =
     (let printable = ev\<lparr>ie_up := False, ie_qual := (ie_qual ev)\<lparr>q_repeat := False\<rparr>\<rparr>
      in case convert printable 80 of
        None \<Rightarrow> []
      | Some text \<Rightarrow>
          if length text < 1 \<or> length text > 80 \<or> (length text = 1 \<and> control_byte (hd text)) then []
          else text)"

text \<open>
  The switch over the key code: leave the function with a result, continue with a base value, a
  final byte and a modifier, or take the textual default.
\<close>

datatype key_case = Leave "byte list option" | Emit nat byte nat | Textual

definition with_bit :: "nat \<Rightarrow> bool \<Rightarrow> nat \<Rightarrow> nat" where
  "with_bit i release modifier =
     (if release then unset_bit i (modifier - 1) + 1 else set_bit i (modifier - 1) + 1)"

definition plain_key :: "bool \<Rightarrow> bool \<Rightarrow> bool \<Rightarrow> nat \<Rightarrow> nat \<Rightarrow> key_case" where
  "plain_key release alll disambiguate modifier v =
     (if release \<and> \<not> alll then Leave (Some [])
      else if \<not> alll \<and> (\<not> disambiguate \<or> modifier = 1) then Leave None
      else Emit v 0x75 modifier)"

definition only_all :: "bool \<Rightarrow> nat \<Rightarrow> nat \<Rightarrow> key_case" where
  "only_all alll v modifier = (if \<not> alll then Leave None else Emit v 0x75 modifier)"

fun function_key :: "nat \<Rightarrow> nat \<Rightarrow> key_case" where
  "function_key n modifier =
     (if n = 1 then Emit 0 0x50 modifier else if n = 2 then Emit 0 0x51 modifier
      else if n = 3 then Emit 13 0x7e modifier else if n = 4 then Emit 0 0x53 modifier
      else if n = 5 then Emit 15 0x7e modifier
      else if n \<le> 10 then Emit (11 + n) 0x7e modifier
      else Emit (12 + n) 0x7e modifier)"

fun key_switch :: "rawkey \<Rightarrow> bool \<Rightarrow> bool \<Rightarrow> bool \<Rightarrow> nat \<Rightarrow> key_case" where
  "key_switch RK_ESCAPE release alll dis m =
     (if \<not> release \<and> \<not> alll \<and> \<not> dis then Leave None else Emit 27 0x75 m)"
| "key_switch RK_TAB release alll dis m = plain_key release alll dis m 9"
| "key_switch RK_RETURN release alll dis m = plain_key release alll dis m 13"
| "key_switch RK_BACKSPACE release alll dis m = plain_key release alll dis m 127"
| "key_switch (RK_KP n) release alll dis m = Emit (57399 + n) 0x75 m"
| "key_switch RK_KP_DECIMAL release alll dis m = Emit 57409 0x75 m"
| "key_switch RK_KP_DIVIDE release alll dis m = Emit 57410 0x75 m"
| "key_switch RK_KP_MULTIPLY release alll dis m = Emit 57411 0x75 m"
| "key_switch RK_KP_MINUS release alll dis m = Emit 57412 0x75 m"
| "key_switch RK_KP_PLUS release alll dis m = Emit 57413 0x75 m"
| "key_switch RK_KP_ENTER release alll dis m =
     (if release \<and> \<not> alll then Leave (Some []) else Emit 57414 0x75 m)"
| "key_switch RK_UP release alll dis m = Emit 0 0x41 m"
| "key_switch RK_DOWN release alll dis m = Emit 0 0x42 m"
| "key_switch RK_RIGHT release alll dis m = Emit 0 0x43 m"
| "key_switch RK_LEFT release alll dis m = Emit 0 0x44 m"
| "key_switch RK_HOME release alll dis m = Emit 0 0x48 m"
| "key_switch RK_END release alll dis m = Emit 0 0x46 m"
| "key_switch RK_INSERT release alll dis m = Emit 2 0x7e m"
| "key_switch RK_DELETE release alll dis m = Emit 3 0x7e m"
| "key_switch RK_PAGEUP release alll dis m = Emit 5 0x7e m"
| "key_switch RK_PAGEDOWN release alll dis m = Emit 6 0x7e m"
| "key_switch (RK_F n) release alll dis m = function_key n m"
| "key_switch RK_SCRLOCK release alll dis m = Emit 57359 0x75 m"
| "key_switch RK_PRTSCREEN release alll dis m = Emit 57361 0x75 m"
| "key_switch RK_PAUSE release alll dis m = Emit 57362 0x75 m"
| "key_switch RK_LSHIFT release alll dis m = only_all alll 57441 (with_bit 0 release m)"
| "key_switch RK_RSHIFT release alll dis m = only_all alll 57447 (with_bit 0 release m)"
| "key_switch RK_CONTROL release alll dis m = only_all alll 57442 (with_bit 2 release m)"
| "key_switch RK_LALT release alll dis m = only_all alll 57443 (with_bit 1 release m)"
| "key_switch RK_RALT release alll dis m = only_all alll 57449 (with_bit 1 release m)"
| "key_switch RK_CAPSLOCK release alll dis m = only_all alll 57358 m"
| "key_switch RK_NUMLOCK release alll dis m = only_all alll 57360 m"
| "key_switch (RK_OTHER n) release alll dis m = Textual"

definition single_key :: "byte list option \<Rightarrow> byte option" where
  "single_key r = (case r of Some [b] \<Rightarrow> if control_byte b then None else Some b | _ \<Rightarrow> None)"

text \<open>The default branch: the text, the base value and the shifted alternate of a keymap key.\<close>

definition textual_key ::
  "keymap \<Rightarrow> byte \<Rightarrow> input_event \<Rightarrow> bool \<Rightarrow> bool \<Rightarrow> bool \<Rightarrow> nat \<Rightarrow> (byte list \<times> nat \<times> nat) option" where
  "textual_key convert flags ev release alll disambiguate modifier =
     (if \<not> release \<and> \<not> alll \<and> (\<not> disambiguate \<or> modifier \<le> 2) then None
      else
        let text = (if flags AND 16 \<noteq> 0 \<and> \<not> release then con_keyboard_text convert ev else []);
            q = ie_qual ev;
            pq = q\<lparr>q_repeat := False, q_lshift := False, q_rshift := False, q_lalt := False,
                   q_ralt := False, q_control := False\<rparr>;
            plain = ev\<lparr>ie_up := False, ie_qual := pq\<rparr>
        in case single_key (convert plain 8) of
          None \<Rightarrow> if \<not> alll \<or> text = [] then None else Some (text, 0, 0)
        | Some base \<Rightarrow>
            let alternate =
              (if flags AND 4 \<noteq> 0 \<and> (q_lshift q \<or> q_rshift q) then
                 case single_key (convert (plain\<lparr>ie_qual := pq\<lparr>q_lshift := q_lshift q, q_rshift := q_rshift q\<rparr>\<rparr>) 8) of
                   Some b \<Rightarrow> if b \<noteq> base then unat b else 0
                 | None \<Rightarrow> 0
               else 0)
            in Some (text, unat base, alternate))"

text \<open>The assembly of the sequence from the collected parts.\<close>

fun text_codes :: "byte list \<Rightarrow> bool \<Rightarrow> byte list" where
  "text_codes [] started = []"
| "text_codes (t # ts) started =
     (if started then 0x3a else 0x3b) # con_keyboard_decimal (unat t) @ text_codes ts True"

definition key_sequence ::
  "nat \<Rightarrow> bool \<Rightarrow> nat \<Rightarrow> nat \<Rightarrow> bool \<Rightarrow> bool \<Rightarrow> byte list \<Rightarrow> byte \<Rightarrow> byte list" where
  "key_sequence value textual alternate modifier eventType release text final =
     [0x1b, 0x5b] @
     (if value \<noteq> 0 \<or> textual \<or> modifier \<noteq> 1 \<or> eventType \<or> text \<noteq> []
      then con_keyboard_decimal (if value \<noteq> 0 \<or> textual then value else 1) else []) @
     (if alternate \<noteq> 0 then 0x3a # con_keyboard_decimal alternate else []) @
     (if modifier \<noteq> 1 \<or> eventType \<or> text \<noteq> [] then 0x3b # con_keyboard_decimal modifier else []) @
     (if eventType then [0x3a, if release then 0x33 else 0x32] else []) @
     text_codes text False @ [final]"

text \<open>
  \<open>con_keyboard_event\<close>: \<open>None\<close> is the return value -1 (use the keymap path), the empty list
  is 0 (a suppressed key), any other list is the sequence.
\<close>

definition con_keyboard_event :: "keymap \<Rightarrow> kb_unit \<Rightarrow> input_event \<Rightarrow> byte list option" where
  "con_keyboard_event convert u ev =
     (case kb_state u of
        None \<Rightarrow> None
      | Some k \<Rightarrow>
          let flags = kb_flags k; q = ie_qual ev in
          if flags AND 11 = 0 \<or> \<not> ie_rawkey_class ev \<or> q_lcommand q \<or> q_rcommand q then None
          else
            let release = ie_up ev;
                alll = (flags AND 8 \<noteq> 0);
                disambiguate = (flags AND 1 \<noteq> 0);
                eventType = (flags AND 2 \<noteq> 0 \<and> (release \<or> q_repeat q))
            in
            if release \<and> flags AND 2 = 0 then Some []
            else
              let modifier = 1 + (if q_lshift q \<or> q_rshift q then 1 else 0) +
                    (if q_lalt q \<or> q_ralt q then 2 else 0) + (if q_control q then 4 else 0)
              in
              (case key_switch (ie_key ev) release alll disambiguate modifier of
                 Leave r \<Rightarrow> r
               | Emit value final modifier' \<Rightarrow>
                   if value \<ge> 57399 \<and> value \<le> 57414 \<and> \<not> release \<and> \<not> alll \<and> \<not> disambiguate then None
                   else
                     let text = (if value \<ge> 57399 \<and> value \<le> 57413 \<and> flags AND 16 \<noteq> 0 \<and> \<not> release
                                 then con_keyboard_text convert ev else [])
                     in Some (key_sequence value False 0 modifier' eventType release text final)
               | Textual \<Rightarrow>
                   (case textual_key convert flags ev release alll disambiguate modifier of
                      None \<Rightarrow> None
                    | Some (text, value, alternate) \<Rightarrow>
                        Some (key_sequence value True alternate modifier eventType release text 0x75))))"

section \<open>Facts about decimal numbers\<close>

definition digit :: "byte \<Rightarrow> bool" where
  "digit b \<longleftrightarrow> 0x30 \<le> b \<and> b \<le> 0x39"

lemma digit_word:
  assumes "n < 10"
  shows "digit (48 + of_nat n)" "unat (48 + of_nat n :: byte) = 48 + n"
proof -
  have "unat (of_nat (48 + n) :: byte) = 48 + n"
    using assms by (simp only: unat_of_nat) simp
  then show u: "unat (48 + of_nat n :: byte) = 48 + n" by simp
  show "digit (48 + of_nat n)"
    unfolding digit_def word_le_nat_alt u using assms by simp
qed

lemma digit_word_mod: "digit (48 + of_nat (n mod 10))"
  by (rule digit_word) simp

lemma decimal_reverse_digits: "set (decimal_reverse v) \<subseteq> Collect digit"
proof (induction v rule: decimal_reverse.induct)
  case (1 v)
  then show ?case
    by (subst decimal_reverse.simps) (auto simp: digit_word_mod div_eq_0_iff intro: digit_word)
qed

lemma decimal_digits: "set (con_keyboard_decimal v) \<subseteq> Collect digit"
  using decimal_reverse_digits by (simp add: con_keyboard_decimal_def)

lemma decimal_reverse_length: "v < 10 ^ Suc k \<Longrightarrow> length (decimal_reverse v) \<le> Suc k"
proof (induction v arbitrary: k rule: decimal_reverse.induct)
  case (1 v)
  show ?case
  proof (cases "v div 10 = 0")
    case True
    then show ?thesis by (subst decimal_reverse.simps) simp
  next
    case False
    then obtain j where j: "k = Suc j"
      using "1.prems" by (cases k) auto
    have "v div 10 < 10 ^ Suc j"
      using "1.prems" by (simp add: j less_mult_imp_div_less mult.commute)
    from "1.IH" [OF False this] False show ?thesis
      by (subst decimal_reverse.simps) (simp add: j)
  qed
qed

lemma decimal_length: "v < 10 ^ Suc k \<Longrightarrow> length (con_keyboard_decimal v) \<le> Suc k"
  using decimal_reverse_length by (simp add: con_keyboard_decimal_def)

lemma decimal_length_le:
  "v < 10 \<Longrightarrow> length (con_keyboard_decimal v) \<le> 1"
  "v < 1000 \<Longrightarrow> length (con_keyboard_decimal v) \<le> 3"
  "v < 100000 \<Longrightarrow> length (con_keyboard_decimal v) \<le> 5"
  using decimal_length [of v 0] decimal_length [of v 2] decimal_length [of v 4] by simp_all

lemma decimal_unfold:
  "con_keyboard_decimal v =
     (if v div 10 = 0 then [] else con_keyboard_decimal (v div 10)) @ [of_nat (48 + v mod 10)]"
  unfolding con_keyboard_decimal_def by (subst decimal_reverse.simps) simp

text \<open>The parameter parser reads back what \<open>con_keyboard_decimal\<close> writes.\<close>

lemma csi_fields_snoc:
  assumes "csi_fields xs False v w = Some (False, a, w)" "digit b" "a \<le> 6553"
    "a * 10 + (unat b - 48) \<le> 65535"
  shows "csi_fields (xs @ [b]) False v w = Some (False, a * 10 + (unat b - 48), w)"
  using assms
proof (induction xs arbitrary: v)
  case Nil
  have "b \<noteq> 0x3b" using Nil(2) by (auto simp: digit_def)
  with Nil show ?case
    by (auto simp: digit_def Let_def not_less)
next
  case (Cons x xs)
  have mono: "csi_fields ys True p q = Some (False, r) \<Longrightarrow> False" for ys p q r
    by (induction ys arbitrary: p q) (auto simp: Let_def split: if_splits)
  from Cons show ?case
    by (auto simp: Let_def split: if_splits dest: mono)
qed

lemma csi_fields_decimal:
  "v \<le> 65535 \<Longrightarrow> csi_fields (con_keyboard_decimal v) False 0 w = Some (False, v, w)"
proof (induction v rule: less_induct)
  case (less v)
  have d: "digit (of_nat (48 + v mod 10))" "unat (of_nat (48 + v mod 10) :: byte) = 48 + v mod 10"
    using digit_word [of "v mod 10"] by auto
  have pre: "csi_fields (if v div 10 = 0 then [] else con_keyboard_decimal (v div 10)) False 0 w =
      Some (False, v div 10, w)"
    using less by (cases "v div 10 = 0") auto
  show ?case
    by (subst decimal_unfold, subst csi_fields_snoc [OF pre d(1)])
      (use less.prems d(2) in \<open>simp_all\<close>)
qed

section \<open>The size and shape of an encoded key\<close>

definition key_ok :: "rawkey \<Rightarrow> bool" where
  "key_ok r = (case r of RK_KP n \<Rightarrow> n \<le> 9 | RK_F n \<Rightarrow> 1 \<le> n \<and> n \<le> 12 | _ \<Rightarrow> True)"

definition csi_parameter :: "byte \<Rightarrow> bool" where
  "csi_parameter b \<longleftrightarrow> 0x30 \<le> b \<and> b \<le> 0x3b"

definition key_final :: "byte \<Rightarrow> bool" where
  "key_final b \<longleftrightarrow> b \<in> set [0x75, 0x7e, 0x41, 0x42, 0x43, 0x44, 0x46, 0x48, 0x50, 0x51, 0x53]"

text \<open>A control sequence introducer, parameters of digits and separators, one final byte.\<close>

definition csi_sequence :: "byte list \<Rightarrow> bool" where
  "csi_sequence out \<longleftrightarrow>
     length out \<ge> 3 \<and> take 2 out = [0x1b, 0x5b] \<and>
     list_all csi_parameter (butlast (drop 2 out)) \<and> key_final (last out)"

lemma csi_sequenceI:
  assumes "list_all csi_parameter ps" "key_final f"
  shows "csi_sequence ([0x1b, 0x5b] @ ps @ [f])"
  using assms by (simp add: csi_sequence_def butlast_append)

lemma digit_parameter: "digit b \<Longrightarrow> csi_parameter b"
  unfolding digit_def csi_parameter_def by (auto simp: word_le_nat_alt)

lemma decimal_parameters [simp]: "list_all csi_parameter (con_keyboard_decimal v)"
  using decimal_digits [of v] by (auto simp: list_all_iff intro: digit_parameter)

lemma separator_parameters [simp]: "csi_parameter 0x3a" "csi_parameter 0x3b" "csi_parameter 0x32" "csi_parameter 0x33"
  by (simp_all add: csi_parameter_def)

lemma text_codes_parameters [simp]: "list_all csi_parameter (text_codes t started)"
  by (induction t arbitrary: started) auto

lemma text_codes_length: "length (text_codes t started) \<le> 4 * length t"
proof (induction t arbitrary: started)
  case (Cons a t)
  have "length (con_keyboard_decimal (unat a)) \<le> 3"
    using byte_unat(1) [of a] by (intro decimal_length_le) linarith
  with Cons [of True] show ?case by simp
qed simp

lemma with_bit_le: "1 \<le> m \<Longrightarrow> m \<le> 8 \<Longrightarrow> i \<le> 2 \<Longrightarrow> 1 \<le> with_bit i r m \<and> with_bit i r m \<le> 8"
proof -
  assume "1 \<le> m" "m \<le> 8" "i \<le> 2"
  then have *: "m \<in> {1,2,3,4,5,6,7,8}" "i \<in> {0,1,2}" by auto
  have "\<forall>m \<in> {1,2,3,4,5,6,7,8}. \<forall>i \<in> {0,1,2}. 1 \<le> with_bit i True m \<and> with_bit i True m \<le> 8"
    "\<forall>m \<in> {1,2,3,4,5,6,7,8}. \<forall>i \<in> {0,1,2}. 1 \<le> with_bit i False m \<and> with_bit i False m \<le> 8"
    by code_simp+
  from this [THEN bspec, OF *(1), THEN bspec, OF *(2)] show ?thesis by (cases r) simp_all
qed

lemma key_switch_emit:
  assumes "key_switch r release alll dis m = Emit v f m'" "key_ok r" "1 \<le> m" "m \<le> 8"
  shows "v \<le> 57449 \<and> key_final f \<and> 1 \<le> m' \<and> m' \<le> 8"
  using assms with_bit_le [OF assms(3,4), of 0 release] with_bit_le [OF assms(3,4), of 1 release]
    with_bit_le [OF assms(3,4), of 2 release]
  by (cases r) (auto simp: key_ok_def plain_key_def only_all_def key_final_def split: if_splits)

lemma key_switch_leave: "key_switch r release alll dis m = Leave (Some out) \<Longrightarrow> out = []"
  by (cases r) (auto simp: plain_key_def only_all_def split: if_splits)

lemma key_sequence_shape:
  assumes "key_final f"
  shows "csi_sequence (key_sequence value textual alternate m ev release text f)"
proof -
  let ?ps = "(if value \<noteq> 0 \<or> textual \<or> m \<noteq> 1 \<or> ev \<or> text \<noteq> []
      then con_keyboard_decimal (if value \<noteq> 0 \<or> textual then value else 1) else []) @
     (if alternate \<noteq> 0 then 0x3a # con_keyboard_decimal alternate else []) @
     (if m \<noteq> 1 \<or> ev \<or> text \<noteq> [] then 0x3b # con_keyboard_decimal m else []) @
     (if ev then [0x3a, if release then 0x33 else 0x32] else []) @ text_codes text False"
  have "key_sequence value textual alternate m ev release text f = [0x1b, 0x5b] @ ?ps @ [f]"
    by (simp only: key_sequence_def append.assoc)
  moreover have "list_all csi_parameter ?ps" by simp
  ultimately show ?thesis using csi_sequenceI assms by metis
qed

lemma key_sequence_ok:
  assumes "value \<le> 57449" "alternate < 256" "m \<le> 8" "length text \<le> 80" "key_final f"
  shows "length (key_sequence value textual alternate m ev release text f) \<le> 352"
    and "csi_sequence (key_sequence value textual alternate m ev release text f)"
proof -
  have "length (con_keyboard_decimal (if value \<noteq> 0 \<or> textual then value else 1)) \<le> 5"
    "length (con_keyboard_decimal alternate) \<le> 3" "length (con_keyboard_decimal m) \<le> 1"
    using assms by (intro decimal_length_le; simp)+
  then show "length (key_sequence value textual alternate m ev release text f) \<le> 352"
    using assms(4) text_codes_length [of "text" False] by (auto simp: key_sequence_def)
  show "csi_sequence (key_sequence value textual alternate m ev release text f)"
    by (rule key_sequence_shape) (rule assms(5))
qed

lemma con_keyboard_text_length: "length (con_keyboard_text convert ev) \<le> 80"
  by (simp add: con_keyboard_text_def Let_def split: option.split)

lemma textual_key_bounds:
  assumes "textual_key convert flags ev release alll dis m = Some (text, v, a)"
  shows "length text \<le> 80 \<and> v < 256 \<and> a < 256"
  using assms con_keyboard_text_length [of convert ev]
  by (auto simp: textual_key_def Let_def split: if_splits option.splits)

lemma modifier_bounds:
  "1 \<le> 1 + (if a then 1 else 0) + (if b then 2 else 0) + (if c then 4 else (0::nat)) \<and>
   1 + (if a then 1 else 0) + (if b then 2 else 0) + (if c then 4 else (0::nat)) \<le> 8"
  by simp

lemma event_sequence:
  assumes "con_keyboard_event convert u ev = Some out" and "key_ok (ie_key ev)"
  shows "out = [] \<or> (length out \<le> 352 \<and> csi_sequence out)"
proof -
  from assms(1) obtain k where k: "kb_state u = Some k"
    by (auto simp: con_keyboard_event_def split: option.splits)
  note ev = assms(1) [unfolded con_keyboard_event_def k option.case Let_def]
  define m where "m = 1 + (if q_lshift (ie_qual ev) \<or> q_rshift (ie_qual ev) then 1 else 0) +
    (if q_lalt (ie_qual ev) \<or> q_ralt (ie_qual ev) then 2 else 0) + (if q_control (ie_qual ev) then 4 else (0::nat))"
  note ev = ev [folded m_def]
  have m: "1 \<le> m" "m \<le> 8" unfolding m_def using modifier_bounds by blast+
  show ?thesis
  proof (cases "key_switch (ie_key ev) (ie_up ev) (kb_flags k AND 8 \<noteq> 0) (kb_flags k AND 1 \<noteq> 0) m")
    case (Leave r)
    then have "out = []"
      using ev key_switch_leave by (auto split: if_splits)
    then show ?thesis by blast
  next
    case (Emit v f m')
    note b = key_switch_emit [OF Emit assms(2) m]
    from Emit ev b show ?thesis
      by (auto split: if_splits intro!: key_sequence_ok con_keyboard_text_length)
  next
    case Textual
    with ev show ?thesis
      by (auto split: if_splits option.splits dest!: textual_key_bounds
        intro!: key_sequence_ok simp: m key_final_def)
  qed
qed

section \<open>The protocol state\<close>

text \<open>A flag set with supported bits only.\<close>

definition flags_ok :: "byte \<Rightarrow> bool" where
  "flags_ok f \<longleftrightarrow> f AND con_keyboard_supported = f"

definition keyboard_ok :: "keyboard \<Rightarrow> bool" where
  "keyboard_ok k \<longleftrightarrow>
     flags_ok (kb_flags k) \<and>
     (\<forall>screen \<in> {False, True}. length (kb_stack k screen) \<le> con_keyboard_depth \<and>
        list_all flags_ok (kb_stack k screen))"

definition kb_unit_ok :: "kb_unit \<Rightarrow> bool" where
  "kb_unit_ok u \<longleftrightarrow> (case kb_state u of None \<Rightarrow> True | Some k \<Rightarrow> keyboard_ok k)"

datatype kb_op = Kb_csi "byte list" bool | Kb_switch bool | Kb_dispose

fun kb_step :: "kb_unit \<Rightarrow> kb_op \<Rightarrow> kb_unit" where
  "kb_step u (Kb_csi s alloc) = fst (snd (con_keyboard_csi u s alloc))"
| "kb_step u (Kb_switch a) = con_keyboard_switch u a"
| "kb_step u Kb_dispose = con_keyboard_dispose u"

lemma flags_okI [simp]:
  "flags_ok 0" "flags_ok (v AND con_keyboard_supported)"
  "flags_ok a \<Longrightarrow> flags_ok b \<Longrightarrow> flags_ok (a OR b)"
  "flags_ok a \<Longrightarrow> flags_ok (a AND b)"
  by (auto simp: flags_ok_def bit_eq_iff bit_simps)

lemma stack_top_ok [simp]: "list_all flags_ok st \<Longrightarrow> flags_ok (stack_top st)"
  by (simp add: stack_top_def list_all_iff)

lemma cleared_ok [simp]: "keyboard_ok cleared_keyboard"
  by (simp add: keyboard_ok_def cleared_keyboard_def)

lemma keyboard_okD:
  assumes "keyboard_ok k"
  shows "length (kb_stack k screen) \<le> con_keyboard_depth" "list_all flags_ok (kb_stack k screen)"
    "flags_ok (kb_flags k)"
  using assms by (cases screen; simp add: keyboard_ok_def)+

lemma keyboard_ok_flags: "keyboard_ok k \<Longrightarrow> flags_ok f \<Longrightarrow> keyboard_ok (k\<lparr>kb_flags := f\<rparr>)"
  by (auto simp: keyboard_ok_def)

lemma keyboard_okI:
  assumes "keyboard_ok k" "flags_ok f" "list_all flags_ok st" "length st \<le> con_keyboard_depth"
  shows "keyboard_ok (k\<lparr>kb_stack := (kb_stack k)(screen := st), kb_flags := f\<rparr>)"
  using assms by (auto simp: keyboard_ok_def)

lemma list_all_tl: "list_all P xs \<Longrightarrow> list_all P (tl xs)"
  by (cases xs) auto

lemma list_all_take: "list_all P xs \<Longrightarrow> list_all P (take n xs)"
  by (auto simp: list_all_iff dest: in_set_takeD)

lemma kb_request_ok:
  assumes ok: "keyboard_ok k"
  shows "keyboard_ok (kb_request c screen v0 v1 k)"
proof -
  note st = keyboard_okD(1,2) [OF ok, of screen] and fl = keyboard_okD(3) [OF ok]
  have push: "list_all flags_ok ((if length (kb_stack k screen) = con_keyboard_depth
      then tl (kb_stack k screen) else kb_stack k screen) @ [of_nat v0 AND con_keyboard_supported])"
    "length ((if length (kb_stack k screen) = con_keyboard_depth
      then tl (kb_stack k screen) else kb_stack k screen) @ [of_nat v0 AND con_keyboard_supported]) \<le> con_keyboard_depth"
    using st by (simp_all add: list_all_tl con_keyboard_depth_def)
  have pop: "list_all flags_ok (if p > length (kb_stack k screen) then []
        else take (length (kb_stack k screen) - p) (kb_stack k screen))"
    "length (if p > length (kb_stack k screen) then []
        else take (length (kb_stack k screen) - p) (kb_stack k screen)) \<le> con_keyboard_depth" for p
    using st by (auto simp: list_all_take)
  consider "c = 0x3e" | "c \<noteq> 0x3e" "c = 0x3c" | "c \<noteq> 0x3e" "c \<noteq> 0x3c" by blast
  then show ?thesis
  proof cases
    case 1
    then show ?thesis
      unfolding kb_request_def Let_def if_P [OF 1]
      by (intro keyboard_okI [OF ok] push flags_okI)
  next
    case 2
    show ?thesis
      unfolding kb_request_def Let_def if_not_P [OF 2(1)] if_P [OF 2(2)]
      by (intro keyboard_okI [OF ok] stack_top_ok pop)
  next
    case 3
    have "flags_ok (if v1 = 2 then kb_flags k OR (of_nat v0 AND con_keyboard_supported)
        else if v1 = 3 then kb_flags k AND NOT (of_nat v0 AND con_keyboard_supported)
        else of_nat v0 AND con_keyboard_supported)"
      using fl by simp
    then show ?thesis
      unfolding kb_request_def Let_def if_not_P [OF 3(1)] if_not_P [OF 3(2)]
      by (rule keyboard_ok_flags [OF ok])
  qed
qed

text \<open>A request that is consumed either leaves the unit alone or is one of the three.\<close>

lemma con_keyboard_csi_cases:
  assumes "con_keyboard_csi u s alloc = (n, u', r)"
  obtains "n = 0" "u' = u" "r = []"
  | "0 < n" "n \<le> length s" "s ! (n - 1) = 0x75" "u' = u"
  | c v0 v1 where "0 < n" "n \<le> length s" "s ! (n - 1) = 0x75" "r = []" "c = hd s"
      "u' = u\<lparr>kb_state := Some (kb_request c (keyboardAlternate u) v0 v1
                (case kb_state u of None \<Rightarrow> cleared_keyboard | Some k \<Rightarrow> k))\<rparr>"
proof (cases s)
  case Nil
  then show thesis using assms that(1) by (simp add: con_keyboard_csi_def)
next
  case (Cons c rest)
  let ?body = "takeWhile (\<lambda>b. \<not> csi_final b) rest"
  have le: "length ?body \<le> length rest" by (rule length_takeWhile_le)
  let ?e = "Suc (length ?body)"
  show thesis
  proof (cases "c \<notin> set [0x3f, 0x3c, 0x3d, 0x3e] \<or> ?e = length s \<or> s ! ?e \<noteq> 0x75")
    case True
    then show thesis using assms that(1)
      by (simp add: con_keyboard_csi_def Cons split: if_splits)
  next
    case False
    then have lt: "Suc ?e \<le> length s" "s ! (Suc ?e - 1) = 0x75" using le by (auto simp: Cons)
    show thesis
    proof (cases "u' = u")
      case True
      with False assms have "n = Suc ?e"
        by (auto simp: con_keyboard_csi_def Cons Let_def split: if_splits option.splits)
      with lt True show thesis by (intro that(2)) simp_all
    next
      case change: False
      with False assms obtain v0 v1 where "n = Suc ?e" "r = []"
        "u' = u\<lparr>kb_state := Some (kb_request c (keyboardAlternate u) v0 v1
                (case kb_state u of None \<Rightarrow> cleared_keyboard | Some k \<Rightarrow> k))\<rparr>"
        by (auto simp: con_keyboard_csi_def Cons Let_def split: if_splits option.splits)
      with lt show thesis by (intro that(3) [of c v0 v1]) (simp_all add: Cons)
    qed
  qed
qed

lemma kb_step_ok: "kb_unit_ok u \<Longrightarrow> kb_unit_ok (kb_step u op)"
proof (cases op)
  case (Kb_csi s alloc)
  assume ok: "kb_unit_ok u"
  then have k: "keyboard_ok (case kb_state u of None \<Rightarrow> cleared_keyboard | Some k \<Rightarrow> k)"
    by (cases "kb_state u") (simp_all add: kb_unit_ok_def)
  obtain n u' r where eq: "con_keyboard_csi u s alloc = (n, u', r)" by (metis prod_cases3)
  then show ?thesis
    by (rule con_keyboard_csi_cases)
      (use ok Kb_csi eq kb_request_ok [OF k] in \<open>simp_all add: kb_unit_ok_def\<close>)
next
  case (Kb_switch a)
  assume "kb_unit_ok u"
  then show ?thesis
    by (cases "kb_state u")
      (simp_all add: Kb_switch kb_unit_ok_def con_keyboard_switch_def keyboard_ok_flags keyboard_okD)
next
  case Kb_dispose
  then show ?thesis by (simp add: kb_unit_ok_def con_keyboard_dispose_def)
qed

lemma kb_request_other_screen:
  "screen' \<noteq> screen \<Longrightarrow> kb_stack (kb_request c screen v0 v1 k) screen' = kb_stack k screen'"
  by (simp add: kb_request_def Let_def)

text \<open>A request written in decimal notation.\<close>

definition kb_text :: "byte \<Rightarrow> nat \<Rightarrow> byte list" where
  "kb_text c v = c # con_keyboard_decimal v @ [0x75]"

lemma digit_not_final: "digit b \<Longrightarrow> \<not> csi_final b"
  by (auto simp: digit_def csi_final_def word_le_nat_alt word_less_nat_alt)

lemma take_decimal:
  "csi_final b \<Longrightarrow> takeWhile (\<lambda>b. \<not> csi_final b) (con_keyboard_decimal v @ b # bs) = con_keyboard_decimal v"
  using decimal_digits [of v] digit_not_final
  by (subst takeWhile_append2) auto

lemma con_keyboard_csi_text:
  assumes "c \<in> {0x3c, 0x3d, 0x3e}" "v \<le> 65535" "kb_state u \<noteq> None \<or> alloc"
  shows "con_keyboard_csi u (kb_text c v) alloc =
    (length (kb_text c v),
     u\<lparr>kb_state := Some (kb_request c (keyboardAlternate u) v 1
         (case kb_state u of None \<Rightarrow> cleared_keyboard | Some k \<Rightarrow> k))\<rparr>, [])"
proof -
  have fin: "csi_final 0x75" by (simp add: csi_final_def)
  show ?thesis
    using assms(1,3)
    by (auto simp: con_keyboard_csi_def kb_text_def take_decimal [OF fin] csi_fields_decimal [OF assms(2)]
      Let_def nth_append split: option.split)
qed

section \<open>Properties\<close>

text \<open>
  C13. The key encoder never overruns the 352 bytes its caller supplies, whatever the keymap answers:
  the result is a suppressed key or one complete control sequence, \<open>ESC [\<close>, parameters made of
  digits, colons and semicolons, and one final byte.
\<close>

theorem keyboard_event_fits:
  assumes "con_keyboard_event convert u ev = Some out" and "key_ok (ie_key ev)"
  shows "out = [] \<or> (length out \<le> 352 \<and> csi_sequence out)"
  using assms by (rule event_sequence)

definition no_qualifier :: qualifier where
  "no_qualifier = \<lparr>q_lshift = False, q_rshift = False, q_lalt = False, q_ralt = False,
     q_control = False, q_lcommand = False, q_rcommand = False, q_repeat = False\<rparr>"

definition demo_keymap :: keymap where
  "demo_keymap ev n = Some (if q_lshift (ie_qual ev) then [0x41] else [0x61])"

definition demo_unit :: kb_unit where
  "demo_unit = \<lparr>keyboardAlternate = False,
     kb_state = Some (cleared_keyboard\<lparr>kb_flags := 31\<rparr>)\<rparr>"

text \<open>The key A with shift under all five enhancements: \<open>ESC [ 97 : 65 ; 2 ; 65 u\<close>.\<close>

theorem keyboard_event_fits_witness:
  "con_keyboard_event demo_keymap demo_unit
     \<lparr>ie_rawkey_class = True, ie_key = RK_OTHER 32, ie_up = False, ie_qual = no_qualifier\<lparr>q_lshift := True\<rparr>\<rparr> =
     Some [0x1b, 0x5b, 0x39, 0x37, 0x3a, 0x36, 0x35, 0x3b, 0x32, 0x3b, 0x36, 0x35, 0x75] \<and>
   csi_sequence [0x1b, 0x5b, 0x39, 0x37, 0x3a, 0x36, 0x35, 0x3b, 0x32, 0x3b, 0x36, 0x35, 0x75]"
proof -
  let ?out = "[0x1b, 0x5b, 0x39, 0x37, 0x3a, 0x36, 0x35, 0x3b, 0x32, 0x3b, 0x36, 0x35, 0x75] :: byte list"
  let ?ev = "\<lparr>ie_rawkey_class = True, ie_key = RK_OTHER 32, ie_up = False, ie_qual = no_qualifier\<lparr>q_lshift := True\<rparr>\<rparr>"
  have out: "con_keyboard_event demo_keymap demo_unit ?ev = Some ?out" by code_simp
  have "key_ok (ie_key ?ev)" by (simp add: key_ok_def)
  from keyboard_event_fits [OF out this] out show ?thesis by simp
qed

text \<open>
  C39. The protocol state stays within its bounds through every history of control sequences, screen
  switches and disposals: no unsupported flag is ever set or stored, and no stack exceeds its 4096
  entries.
\<close>

theorem keyboard_state_bounded:
  assumes "kb_unit_ok u"
  shows "kb_unit_ok (fold (\<lambda>op u. kb_step u op) ops u)"
  using assms by (induction ops arbitrary: u) (simp_all add: kb_step_ok)

theorem keyboard_state_bounded_witness:
  "kb_unit_ok (fold (\<lambda>op u. kb_step u op)
     [Kb_csi (kb_text 0x3e 255) True, Kb_switch True, Kb_csi (kb_text 0x3d 5) True, Kb_switch False, Kb_dispose]
     \<lparr>keyboardAlternate = False, kb_state = None\<rparr>)"
  by (rule keyboard_state_bounded) (simp add: kb_unit_ok_def)

text \<open>
  Pushing a flag set and popping one entry restores the stack of the screen in use and puts the
  previous entry in force (none when the stack was empty); the other screen's stack is untouched.
\<close>

theorem keyboard_push_pop:
  assumes "kb_state u = Some k" and "length (kb_stack k (keyboardAlternate u)) < con_keyboard_depth"
    and "v \<le> 65535"
  shows "kb_step (kb_step u (Kb_csi (kb_text 0x3e v) alloc)) (Kb_csi (kb_text 0x3c 1) alloc) =
    u\<lparr>kb_state := Some (k\<lparr>kb_flags := stack_top (kb_stack k (keyboardAlternate u))\<rparr>)\<rparr>"
  using assms
  by (simp add: con_keyboard_csi_text) (simp add: kb_request_def Let_def)

theorem keyboard_push_pop_witness:
  "kb_step (kb_step demo_unit (Kb_csi (kb_text 0x3e 3) True)) (Kb_csi (kb_text 0x3c 1) True) =
    demo_unit\<lparr>kb_state := Some (cleared_keyboard\<lparr>kb_flags := 0\<rparr>)\<rparr>"
  using keyboard_push_pop [of demo_unit "cleared_keyboard\<lparr>kb_flags := 31\<rparr>" 3 True]
  by (simp add: demo_unit_def cleared_keyboard_def stack_top_def con_keyboard_depth_def)

text \<open>
  A set request written in decimal and a query agree: after \<open>CSI = v u\<close> the reply to
  \<open>CSI ? u\<close> is the decimal form of the supported bits of v, and the parameter parser reads that
  number back.
\<close>

theorem keyboard_set_query:
  assumes "v \<le> 65535" and "kb_state u \<noteq> None \<or> alloc"
  shows "con_keyboard_csi (kb_step u (Kb_csi (kb_text 0x3d v) alloc)) [0x3f, 0x75] alloc' =
      (2, kb_step u (Kb_csi (kb_text 0x3d v) alloc),
       [[0x1b, 0x5b, 0x3f] @ con_keyboard_decimal (unat ((of_nat v :: byte) AND con_keyboard_supported)) @ [0x75]]) \<and>
    csi_fields (con_keyboard_decimal (unat ((of_nat v :: byte) AND con_keyboard_supported))) False 0 1 =
      Some (False, unat ((of_nat v :: byte) AND con_keyboard_supported), 1)"
proof
  have step: "kb_step u (Kb_csi (kb_text 0x3d v) alloc) =
    u\<lparr>kb_state := Some (kb_request 0x3d (keyboardAlternate u) v 1
         (case kb_state u of None \<Rightarrow> cleared_keyboard | Some k \<Rightarrow> k))\<rparr>"
    using con_keyboard_csi_text [OF _ assms, of "0x3d"] by simp
  show "con_keyboard_csi (kb_step u (Kb_csi (kb_text 0x3d v) alloc)) [0x3f, 0x75] alloc' =
    (2, kb_step u (Kb_csi (kb_text 0x3d v) alloc),
     [[0x1b, 0x5b, 0x3f] @ con_keyboard_decimal (unat ((of_nat v :: byte) AND con_keyboard_supported)) @ [0x75]])"
    unfolding step by (simp add: con_keyboard_csi_def Let_def csi_final_def kb_request_def)
  have "unat b \<le> 65535" for b :: byte using byte_unat(1) [of b] by linarith
  then show "csi_fields (con_keyboard_decimal (unat ((of_nat v :: byte) AND con_keyboard_supported))) False 0 1 =
     Some (False, unat ((of_nat v :: byte) AND con_keyboard_supported), 1)"
    by (rule csi_fields_decimal)
qed

theorem keyboard_set_query_witness:
  "con_keyboard_csi (kb_step demo_unit (Kb_csi (kb_text 0x3d 300) True)) [0x3f, 0x75] True =
    (2, kb_step demo_unit (Kb_csi (kb_text 0x3d 300) True), [[0x1b, 0x5b, 0x3f, 0x31, 0x32, 0x75]])"
proof -
  have "[0x1b, 0x5b, 0x3f] @ con_keyboard_decimal (unat ((of_nat 300 :: byte) AND con_keyboard_supported)) @ [0x75] =
    [0x1b, 0x5b, 0x3f, 0x31, 0x32, 0x75]" by code_simp
  with keyboard_set_query [of 300 demo_unit True True] show ?thesis by simp
qed

text \<open>
  \<open>con_keyboard_csi\<close> consumes nothing and changes nothing when the bytes are not keyboard
  syntax; otherwise it consumes up to and including a final \<open>u\<close> within the buffer, and the
  stack of the screen that is not in use stays as it was.
\<close>

theorem keyboard_csi_consumes:
  assumes "con_keyboard_csi u s alloc = (n, u', r)"
  shows "if n = 0 then u' = u \<and> r = []
     else n \<le> length s \<and> s ! (n - 1) = 0x75 \<and> keyboardAlternate u' = keyboardAlternate u \<and>
       (case kb_state u' of None \<Rightarrow> kb_state u = None
        | Some k' \<Rightarrow> kb_stack k' (\<not> keyboardAlternate u) =
            (case kb_state u of None \<Rightarrow> [] | Some k \<Rightarrow> kb_stack k (\<not> keyboardAlternate u)))"
  using assms
proof (rule con_keyboard_csi_cases)
  fix c v0 v1
  assume "0 < n" "n \<le> length s" "s ! (n - 1) = 0x75"
    "u' = u\<lparr>kb_state := Some (kb_request c (keyboardAlternate u) v0 v1
            (case kb_state u of None \<Rightarrow> cleared_keyboard | Some k \<Rightarrow> k))\<rparr>"
  then show ?thesis
    by (cases "kb_state u") (simp_all add: kb_request_other_screen cleared_keyboard_def)
qed (cases "kb_state u"; simp)+

theorem keyboard_csi_consumes_witness:
  "fst (con_keyboard_csi demo_unit [0x3e, 0x31, 0x75, 0x41] True) = 3 \<and>
   kb_stack (the (kb_state (kb_step demo_unit (Kb_csi [0x3e, 0x31, 0x75, 0x41] True)))) True = []"
proof -
  obtain u' r where eq: "con_keyboard_csi demo_unit [0x3e, 0x31, 0x75, 0x41] True = (3, u', r)"
    and some: "kb_state u' \<noteq> None"
    by (simp add: con_keyboard_csi_def Let_def csi_final_def demo_unit_def)
  from keyboard_csi_consumes [OF eq] some eq show ?thesis
    by (auto simp: demo_unit_def cleared_keyboard_def)
qed

end
