(* ===== verification/Bytes.thy ===== *)
theory Bytes
  imports Prelude
begin

text \<open>
  Facts about bytes and code points as machine words, shared by the UTF-8 and Base64 code: the bit
  operations the C code writes with masks and shifts, read as arithmetic on natural numbers.
\<close>

named_theorems word_arith "bit operations on bytes and code points as arithmetic"

lemma nat_and_mask: "(n :: nat) AND (2 ^ k - 1) = n mod 2 ^ k"
  by (simp add: take_bit_eq_mask mask_eq_exp_minus_1 flip: take_bit_eq_mod)

lemma nat_and_numerals [word_arith]:
  "(n :: nat) AND 1 = n mod 2" "n AND 3 = n mod 4" "n AND 7 = n mod 8" "n AND 15 = n mod 16"
  "n AND 31 = n mod 32" "n AND 63 = n mod 64"
  using nat_and_mask [of n 1] nat_and_mask [of n 2] nat_and_mask [of n 3] nat_and_mask [of n 4]
    nat_and_mask [of n 5] nat_and_mask [of n 6] by simp_all

lemma or_add: "m < 2 ^ k \<Longrightarrow> push_bit k n OR m = n * 2 ^ k + (m :: nat)"
proof -
  assume "m < 2 ^ k"
  then have m: "take_bit k m = m" by (rule take_bit_nat_eq_self)
  have "push_bit k n OR m = push_bit k n + m"
    by (rule disjunctive_add [symmetric])
      (metis bit_push_bit_iff bit_take_bit_iff m not_le)
  then show ?thesis by (simp add: push_bit_eq_mult)
qed

text \<open>An \<open>or\<close> whose left operand is a multiple of the power above the right one.\<close>

lemma or_split: "m < 2 ^ k \<Longrightarrow> (n * 2 ^ k) OR m = n * 2 ^ k + (m :: nat)"
  using or_add by (simp add: push_bit_eq_mult)

lemma or_numerals [word_arith]:
  "m < 64 \<Longrightarrow> 128 OR m = 128 + (m :: nat)" "m < 32 \<Longrightarrow> 192 OR m = 192 + m"
  "m < 16 \<Longrightarrow> 224 OR m = 224 + m" "m < 8 \<Longrightarrow> 240 OR m = 240 + m"
  "m < 64 \<Longrightarrow> (n * 64) OR m = n * 64 + m" "m < 4 \<Longrightarrow> (n * 4) OR m = n * 4 + m"
  "m < 16 \<Longrightarrow> (n * 16) OR m = n * 16 + m"
  using or_split [of m 6 2] or_split [of m 5 6] or_split [of m 4 14] or_split [of m 3 30]
    or_split [of m 6 n] or_split [of m 2 n] or_split [of m 4 n]
  by simp_all

lemma unat_ucast_byte [simp]: "unat (ucast (b :: byte) :: codepoint) = unat b"
proof -
  have "unat b < 2 ^ 32" using byte_unat(1) [of b] by (simp del: byte_unat)
  then show ?thesis by (simp add: unsigned_ucast_eq take_bit_nat_eq_self)
qed

lemma unat_ucast_cp: "unat (ucast (w :: codepoint) :: byte) = unat w mod 256"
  by (simp add: unsigned_ucast_eq take_bit_eq_mod)

lemmas unat_bits = unsigned_and_eq unsigned_or_eq unsigned_push_bit_eq unsigned_drop_bit_eq

lemma unat_cp_shift:
  "unat (push_bit k (w :: codepoint)) = unat w * 2 ^ k mod 4294967296"
  "unat (drop_bit k w) = unat w div 2 ^ k"
proof -
  show "unat (push_bit k w) = unat w * 2 ^ k mod 4294967296"
    by (subst unsigned_push_bit_eq) (simp add: push_bit_eq_mult take_bit_eq_mod)
  have "take_bit 32 (unat w) = unat w"
    using unsigned_less [where 'a = nat, of w] by (simp add: take_bit_nat_eq_self)
  then show "unat (drop_bit k w) = unat w div 2 ^ k"
    by (subst unsigned_drop_bit_eq) (simp add: drop_bit_eq_div)
qed

text \<open>Six more bits, as the continuation loop adds them.\<close>

lemma unat_add_six:
  assumes "unat (cp :: codepoint) < 67108864"
  shows "unat (push_bit 6 cp OR (ucast (b :: byte) AND 0x3F)) = unat cp * 64 + unat b mod 64"
  using assms by (simp add: unat_bits(1,2) unat_cp_shift word_arith)

text \<open>A statement about all bytes is checked on the 256 values.\<close>

lemma byte_all:
  assumes "list_all P (map of_nat [0..<256])"
  shows "P (b :: byte)"
proof -
  have "b = of_nat (unat b)" by simp
  moreover have "unat b \<in> {0..<256}" by simp
  ultimately have "b \<in> of_nat ` {0..<256}" by (rule image_eqI)
  with assms show ?thesis by (auto simp: list_all_iff)
qed

lemma and_high: "(n :: nat) AND (m * 2 ^ k) = (n div 2 ^ k AND m) * 2 ^ k"
proof -
  have "n AND push_bit k m = push_bit k (drop_bit k n AND m)"
    by (rule bit_eqI) (auto simp: bit_simps)
  then show ?thesis by (simp add: push_bit_eq_mult drop_bit_eq_div)
qed

lemma byte_high:
  "unat ((b :: byte) AND 0xC0) = unat b div 64 * 64" "unat (b AND 0xE0) = unat b div 32 * 32"
  "unat (b AND 0xF0) = unat b div 16 * 16" "unat (b AND 0xF8) = unat b div 8 * 8"
proof -
  have "unat b div 64 < 4" "unat b div 32 < 8" "unat b div 16 < 16" "unat b div 8 < 32"
    using byte_unat(1) [of b] by linarith+
  then show "unat (b AND 0xC0) = unat b div 64 * 64" "unat (b AND 0xE0) = unat b div 32 * 32"
    "unat (b AND 0xF0) = unat b div 16 * 16" "unat (b AND 0xF8) = unat b div 8 * 8"
    using and_high [of "unat b" 3 6] and_high [of "unat b" 7 5] and_high [of "unat b" 15 4]
      and_high [of "unat b" 31 3]
    by (simp_all add: unat_bits word_arith)
qed

lemma byte_class:
  "(b :: byte) AND 0xC0 = 0x80 \<longleftrightarrow> unat b div 64 = 2"
  "b AND 0xE0 = 0xC0 \<longleftrightarrow> unat b div 32 = 6"
  "b AND 0xF0 = 0xE0 \<longleftrightarrow> unat b div 16 = 14"
  "b AND 0xF8 = 0xF0 \<longleftrightarrow> unat b div 8 = 30"
  by (simp_all add: word_unat_eq_iff byte_high)

lemma byte_list_eq_iff: "(xs :: byte list) = ys \<longleftrightarrow> map unat xs = map unat ys"
  by (metis inj_map_eq_map inj_onI word_unat_eq_iff)

text \<open>Bytes are equal when their eight bits are.\<close>

lemma bits8:
  assumes "bit v 0 = bit w 0" "bit v 1 = bit w 1" "bit v 2 = bit w 2" "bit v 3 = bit w 3"
    "bit v 4 = bit w 4" "bit v 5 = bit w 5" "bit v 6 = bit w 6" "bit v 7 = bit w 7"
  shows "v = (w :: byte)"
proof (rule bit_word_eqI)
  fix n
  assume "n < LENGTH(8)"
  then have "n = 0 \<or> n = 1 \<or> n = 2 \<or> n = 3 \<or> n = 4 \<or> n = 5 \<or> n = 6 \<or> n = 7" by auto
  with assms show "bit v n = bit w n" by auto
qed

lemma bit_byte_high: "8 \<le> n \<Longrightarrow> \<not> bit (b :: byte) n"
  using bit_imp_le_length [of b n] by auto

end
