(* ===== verification/Utf8.thy ===== *)
theory Utf8
  imports Bytes
begin

text \<open>
  The UTF-8 helpers of \<open>devs/consoleng/support.c\<close>: the lenient decoder, the encoder, character
  and cell counts, the width of a code point. A C span (pointer and length) is the list of its bytes;
  \<open>con_utf8_decode\<close> is only called with a nonempty span, so its model takes the first byte apart
  and returns the code point with the rest of the span.
\<close>

section \<open>Decoding and encoding\<close>

text \<open>The continuation loop: \<open>None\<close> when a byte is not a continuation.\<close>

fun continuation :: "nat \<Rightarrow> byte list \<Rightarrow> codepoint \<Rightarrow> (codepoint \<times> byte list) option" where
  "continuation 0 s cp = Some (cp, s)"
| "continuation (Suc n) [] cp = None"
| "continuation (Suc n) (b # s) cp =
     (if b AND 0xC0 \<noteq> 0x80 then None
      else continuation n s (push_bit 6 cp OR (ucast b AND 0x3F)))"

lemma continuation_code [code]:
  "continuation n s cp =
     (if n = 0 then Some (cp, s)
      else case s of
        [] \<Rightarrow> None
      | b # s' \<Rightarrow>
          if b AND 0xC0 \<noteq> 0x80 then None
          else continuation (n - 1) s' (push_bit 6 cp OR (ucast b AND 0x3F)))"
  by (cases n) (simp_all split: list.split)

definition lead_byte :: "byte \<Rightarrow> (nat \<times> codepoint) option" where
  "lead_byte b =
     (if b < 0x80 then Some (1, ucast b)
      else if b AND 0xE0 = 0xC0 then Some (2, ucast b AND 0x1F)
      else if b AND 0xF0 = 0xE0 then Some (3, ucast b AND 0x0F)
      else if b AND 0xF8 = 0xF0 then Some (4, ucast b AND 0x07)
      else None)"

definition malformed_scalar :: "nat \<Rightarrow> codepoint \<Rightarrow> bool" where
  "malformed_scalar need cp \<longleftrightarrow>
     (need = 2 \<and> cp < 0x80) \<or> (need = 3 \<and> cp < 0x800) \<or> (need = 4 \<and> cp < 0x10000) \<or>
     (cp \<ge> 0xd800 \<and> cp \<le> 0xdfff) \<or> cp > 0x10ffff"

definition con_utf8_decode :: "byte \<Rightarrow> byte list \<Rightarrow> codepoint \<times> byte list" where
  "con_utf8_decode b s =
     (case lead_byte b of
        None \<Rightarrow> (ucast b, s)
      | Some (need, cp) \<Rightarrow>
          if need > Suc (length s) then (0x3f, [])
          else
            (case continuation (need - 1) s cp of
               None \<Rightarrow> (ucast b, s)
             | Some (cp', s') \<Rightarrow> (if malformed_scalar need cp' then 0x3f else cp', s')))"

definition con_utf8_encode :: "codepoint \<Rightarrow> byte list" where
  "con_utf8_encode cp =
     (if cp < 0x80 then [ucast cp]
      else if cp < 0x800 then
        [ucast (0xC0 OR drop_bit 6 cp), ucast (0x80 OR (cp AND 0x3F))]
      else if cp < 0x10000 then
        [ucast (0xE0 OR drop_bit 12 cp), ucast (0x80 OR (drop_bit 6 cp AND 0x3F)),
         ucast (0x80 OR (cp AND 0x3F))]
      else
        [ucast (0xF0 OR drop_bit 18 cp), ucast (0x80 OR (drop_bit 12 cp AND 0x3F)),
         ucast (0x80 OR (drop_bit 6 cp AND 0x3F)), ucast (0x80 OR (cp AND 0x3F))])"

lemma continuation_length:
  "continuation n s cp = Some (cp', s') \<Longrightarrow> length s = n + length s'"
  by (induction n s cp rule: continuation.induct) (auto split: if_splits)

text \<open>Every call of the decoder consumes its first byte and never reads past the span.\<close>

lemma con_utf8_decode_length: "length (snd (con_utf8_decode b s)) \<le> length s"
  by (auto simp: con_utf8_decode_def dest: continuation_length split: option.splits prod.splits)

function con_utf8_count :: "byte list \<Rightarrow> nat" where
  "con_utf8_count [] = 0"
| "con_utf8_count (b # s) = con_utf8_count (snd (con_utf8_decode b s)) + 1"
  by pat_completeness auto
termination
  by (relation "measure length") (auto simp: con_utf8_decode_length less_Suc_eq_le)

section \<open>Display width\<close>

definition zero_width :: "codepoint \<Rightarrow> bool" where
  "zero_width cp \<longleftrightarrow> cp = 0x200D \<or> cp = 0xFE0E \<or> cp = 0xFE0F \<or> (cp \<ge> 0x0300 \<and> cp \<le> 0x036F)"

definition wide_east_asian :: "codepoint \<Rightarrow> bool" where
  "wide_east_asian cp \<longleftrightarrow>
     (cp \<ge> 0x1100 \<and> cp \<le> 0x115F) \<or> (cp \<ge> 0x2E80 \<and> cp \<le> 0x9FFF) \<or>
     (cp \<ge> 0xAC00 \<and> cp \<le> 0xD7A3) \<or> (cp \<ge> 0xF900 \<and> cp \<le> 0xFAFF) \<or>
     (cp \<ge> 0xFF00 \<and> cp \<le> 0xFF60)"

definition wide_bmp_emoji :: "codepoint \<Rightarrow> bool" where
  "wide_bmp_emoji cp \<longleftrightarrow>
     cp = 0x231A \<or> cp = 0x231B \<or> (cp \<ge> 0x23E9 \<and> cp \<le> 0x23EC) \<or>
     cp = 0x25FD \<or> cp = 0x25FE \<or> cp = 0x2614 \<or> cp = 0x2615 \<or>
     (cp \<ge> 0x2648 \<and> cp \<le> 0x2653) \<or> cp = 0x267F \<or> cp = 0x2693 \<or>
     cp = 0x26A1 \<or> cp = 0x26AA \<or> cp = 0x26AB \<or> cp = 0x26BD \<or>
     cp = 0x26BE \<or> cp = 0x26C4 \<or> cp = 0x26C5 \<or> cp = 0x26CE \<or>
     cp = 0x26D4 \<or> cp = 0x26EA \<or> cp = 0x26F2 \<or> cp = 0x26F3 \<or>
     cp = 0x26F5 \<or> cp = 0x26FA \<or> cp = 0x26FD \<or> cp = 0x2705 \<or>
     cp = 0x270A \<or> cp = 0x270B \<or> cp = 0x2728 \<or> cp = 0x274C \<or>
     cp = 0x274E \<or> (cp \<ge> 0x2753 \<and> cp \<le> 0x2755) \<or> cp = 0x2757 \<or>
     (cp \<ge> 0x2795 \<and> cp \<le> 0x2797) \<or> cp = 0x27B0 \<or> cp = 0x27BF \<or>
     cp = 0x2B1B \<or> cp = 0x2B1C \<or> cp = 0x2B50 \<or> cp = 0x2B55"

definition con_cp_width :: "codepoint \<Rightarrow> nat" where
  "con_cp_width cp =
     (if zero_width cp then 0
      else if wide_east_asian cp then 2
      else if cp \<ge> 0x1F000 \<and> cp \<le> 0x1FAFF then 2
      else if wide_bmp_emoji cp then 2
      else 1)"

function con_utf8_cellcount :: "byte list \<Rightarrow> nat" where
  "con_utf8_cellcount [] = 0"
| "con_utf8_cellcount (b # s) =
     con_cp_width (fst (con_utf8_decode b s)) + con_utf8_cellcount (snd (con_utf8_decode b s))"
  by pat_completeness auto
termination
  by (relation "measure length") (auto simp: con_utf8_decode_length less_Suc_eq_le)

definition utf8_seqlen :: "byte \<Rightarrow> nat" where
  "utf8_seqlen lead =
     (if lead AND 0xE0 = 0xC0 then 2
      else if lead AND 0xF0 = 0xE0 then 3
      else if lead AND 0xF8 = 0xF0 then 4
      else 1)"

section \<open>The encoding as arithmetic\<close>

definition scalar :: "codepoint \<Rightarrow> bool" where
  "scalar cp \<longleftrightarrow> cp \<le> 0x10ffff \<and> \<not> (cp \<ge> 0xd800 \<and> cp \<le> 0xdfff)"

lemma unat_cp_numerals:
  "(cp :: codepoint) < 0x80 \<longleftrightarrow> unat cp < 128" "cp < 0x800 \<longleftrightarrow> unat cp < 2048"
  "cp < 0x10000 \<longleftrightarrow> unat cp < 65536" "cp \<le> 0x10ffff \<longleftrightarrow> unat cp \<le> 1114111"
  "0x10ffff < cp \<longleftrightarrow> 1114111 < unat cp" "0xd800 \<le> cp \<longleftrightarrow> 55296 \<le> unat cp" "cp \<le> 0xdfff \<longleftrightarrow> unat cp \<le> 57343"
  by (simp_all add: word_less_nat_alt word_le_nat_alt)

definition utf8_numbers :: "nat \<Rightarrow> nat list" where
  "utf8_numbers c =
     (if c < 128 then [c]
      else if c < 2048 then [192 + c div 64, 128 + c mod 64]
      else if c < 65536 then [224 + c div 4096, 128 + c div 64 mod 64, 128 + c mod 64]
      else [240 + c div 262144, 128 + c div 4096 mod 64, 128 + c div 64 mod 64, 128 + c mod 64])"

lemma unat_continuation_byte:
  "unat (ucast (0x80 OR (cp AND 0x3F) :: codepoint) :: byte) = 128 + unat cp mod 64"
  by (simp add: unat_ucast_cp unat_bits(1,2) word_arith mod_mod_cancel)

lemma unat_lead_byte:
  "unat cp < 32 \<Longrightarrow> unat (ucast (0xC0 OR cp :: codepoint) :: byte) = 192 + unat cp"
  "unat cp < 16 \<Longrightarrow> unat (ucast (0xE0 OR cp :: codepoint) :: byte) = 224 + unat cp"
  "unat cp < 8 \<Longrightarrow> unat (ucast (0xF0 OR cp :: codepoint) :: byte) = 240 + unat cp"
  "unat cp < 128 \<Longrightarrow> unat (ucast cp :: byte) = unat cp"
  by (simp_all add: unat_ucast_cp unat_bits(1,2) word_arith)

lemma encode_numbers:
  assumes "unat cp \<le> 1114111"
  shows "map unat (con_utf8_encode cp) = utf8_numbers (unat cp)"
proof -
  have "unat cp < 2048 \<Longrightarrow> unat (drop_bit 6 cp) < 32" "unat cp < 65536 \<Longrightarrow> unat (drop_bit 12 cp) < 16"
    "unat (drop_bit 18 cp) < 8"
    using assms by (simp_all add: unat_cp_shift)
  then show ?thesis
    by (simp add: con_utf8_encode_def utf8_numbers_def unat_cp_numerals unat_continuation_byte
      unat_lead_byte) (simp add: unat_cp_shift)
qed

section \<open>The continuation loop as arithmetic\<close>

definition continuation_byte :: "byte \<Rightarrow> bool" where
  "continuation_byte b \<longleftrightarrow> unat b div 64 = 2"

definition append_six :: "nat \<Rightarrow> byte list \<Rightarrow> nat" where
  "append_six c t = foldl (\<lambda>a b. a * 64 + unat b mod 64) c t"

lemma append_six_simps [simp]:
  "append_six c [] = c" "append_six c (b # t) = append_six (c * 64 + unat b mod 64) t"
  by (simp_all add: append_six_def)

lemma append_room:
  fixes c r n :: nat
  assumes "(c + 1) * 64 ^ Suc n \<le> 4294967296" and "r < 64"
  shows "c < 67108864" "(c * 64 + r + 1) * 64 ^ n \<le> 4294967296"
proof -
  have p: "1 \<le> (64 :: nat) ^ n" by simp
  have "(c + 1) * 64 \<le> (c + 1) * 64 * 64 ^ n"
    using mult_le_mono2 [OF p, of "(c + 1) * 64"] by simp
  also have "\<dots> = (c + 1) * 64 ^ Suc n" by (simp add: algebra_simps)
  also note assms(1)
  finally have "(c + 1) * 64 \<le> 4294967296" .
  then show "c < 67108864" by presburger
  have "(c * 64 + r + 1) * 64 ^ n \<le> ((c + 1) * 64) * 64 ^ n"
    using assms(2) by (intro mult_le_mono1) simp
  also have "\<dots> \<le> 4294967296" using assms(1) by (simp add: algebra_simps)
  finally show "(c * 64 + r + 1) * 64 ^ n \<le> 4294967296" .
qed

lemma continuation_app:
  assumes "list_all continuation_byte t" "(unat cp + 1) * 64 ^ length t \<le> 4294967296"
  shows "\<exists>cp'. continuation (length t) (t @ s) cp = Some (cp', s) \<and> unat cp' = append_six (unat cp) t"
  using assms
proof (induction t arbitrary: cp)
  case (Cons b t)
  let ?cp = "push_bit 6 cp OR (ucast b AND 0x3F)"
  have r: "unat b mod 64 < 64" by simp
  note room = append_room [OF Cons.prems(2) [unfolded list.size(4) add_Suc_right add_0_right] r]
  have u: "unat ?cp = unat cp * 64 + unat b mod 64" by (rule unat_add_six) (rule room(1))
  from Cons.IH [of ?cp] Cons.prems(1) room(2)
  show ?case by (simp add: u byte_class continuation_byte_def)
qed simp

lemma continuation_inv:
  assumes "continuation n s cp = Some (cp', s')" "(unat cp + 1) * 64 ^ n \<le> 4294967296"
  shows "\<exists>t. s = t @ s' \<and> length t = n \<and> list_all continuation_byte t \<and> unat cp' = append_six (unat cp) t"
  using assms
proof (induction n s cp rule: continuation.induct)
  case (3 n b s cp)
  let ?cp = "push_bit 6 cp OR (ucast b AND 0x3F)"
  have r: "unat b mod 64 < 64" by simp
  note room = append_room [OF 3(3) r]
  have u: "unat ?cp = unat cp * 64 + unat b mod 64" by (rule unat_add_six) (rule room(1))
  from 3(2) have b: "b AND 0xC0 = 0x80" and c: "continuation n s ?cp = Some (cp', s')"
    by (simp_all split: if_splits)
  from 3(1) [of] b c room(2) obtain t where "s = t @ s'" "length t = n" "list_all continuation_byte t"
    "unat cp' = append_six (unat ?cp) t" by (auto simp: u)
  with b show ?case
    by (intro exI [of _ "b # t"]) (simp add: u byte_class continuation_byte_def [of b])
qed auto

lemma lead_byte_numbers:
  "lead_byte b = Some (need, cp) \<longleftrightarrow>
     (unat b < 128 \<and> need = 1 \<and> unat cp = unat b) \<or>
     (unat b div 32 = 6 \<and> need = 2 \<and> unat cp = unat b mod 32) \<or>
     (unat b div 16 = 14 \<and> need = 3 \<and> unat cp = unat b mod 16) \<or>
     (unat b div 8 = 30 \<and> need = 4 \<and> unat cp = unat b mod 8)"
proof -
  have m: "unat (ucast b AND 0x1F :: codepoint) = unat b mod 32" "unat (ucast b AND 0x0F :: codepoint) = unat b mod 16"
    "unat (ucast b AND 0x07 :: codepoint) = unat b mod 8"
    by (simp_all add: unat_bits(1) word_arith)
  have e: "w = cp \<longleftrightarrow> unat cp = unat w" for w :: codepoint
    by (auto simp: word_unat_eq_iff)
  have lt: "b < 0x80 \<longleftrightarrow> unat b < 128" by (simp add: word_less_nat_alt)
  show ?thesis
    unfolding lead_byte_def lt byte_class
    by (auto simp: e m)
qed

section \<open>One encoded character\<close>

lemma div_mod_split: "k < m \<Longrightarrow> (q * m + k) div m = q \<and> (q * m + k) mod m = (k :: nat)"
  by simp

lemma lead_split:
  "(k :: nat) < 32 \<Longrightarrow> (192 + k) div 32 = 6 \<and> k = (192 + k) mod 32"
  "k < 16 \<Longrightarrow> (224 + k) div 16 = 14 \<and> k = (224 + k) mod 16"
  "k < 8 \<Longrightarrow> (240 + k) div 8 = 30 \<and> k = (240 + k) mod 8"
  using div_mod_split [of k 32 6] div_mod_split [of k 16 14] div_mod_split [of k 8 30] by simp_all

lemma append_six_digits:
  assumes "list_all2 (\<lambda>b y. unat b = 128 + y \<and> y < 64) t ys"
  shows "list_all continuation_byte t \<and> append_six c t = foldl (\<lambda>a y. a * 64 + y) c ys"
  using assms
proof (induction t ys arbitrary: c rule: list_all2_induct)
  case (Cons b t y ys)
  then have "unat b div 64 = 2" "unat b mod 64 = y" using div_mod_split [of y 64 2] by simp_all
  with Cons.IH show ?case by (simp add: continuation_byte_def)
qed simp

lemma of_nat_codepoint: "n < 64 \<Longrightarrow> unat (of_nat n :: codepoint) = n"
  by (simp add: unat_of_nat)

text \<open>The digits of a code point in base 64.\<close>

lemma base64_digits:
  "(c :: nat) div 64 * 64 + c mod 64 = c"
  "(c div 4096 * 64 + c div 64 mod 64) * 64 + c mod 64 = c"
  "((c div 262144 * 64 + c div 4096 mod 64) * 64 + c div 64 mod 64) * 64 + c mod 64 = c"
proof -
  have d: "k div 64 * 64 + k mod 64 = k" for k :: nat by (rule div_mult_mod_eq)
  have e: "c div 64 div 64 = c div 4096" "c div 4096 div 64 = c div 262144"
    by (simp_all flip: div_mult2_eq)
  show "c div 64 * 64 + c mod 64 = c" by (rule d)
  show "(c div 4096 * 64 + c div 64 mod 64) * 64 + c mod 64 = c"
    using d [of "c div 64"] d [of c] unfolding e by simp
  show "((c div 262144 * 64 + c div 4096 mod 64) * 64 + c div 64 mod 64) * 64 + c mod 64 = c"
    using d [of "c div 4096"] d [of "c div 64"] d [of c] unfolding e by simp
qed

lemma shape_intro:
  assumes "con_utf8_encode cp = b # t" "lead_byte b = Some (need, lead)" "need = Suc (length ys)" "need \<le> 4"
    "list_all2 (\<lambda>b y. unat b = 128 + y \<and> y < 64) t ys" "unat lead < 32 \<or> ys = []"
    "foldl (\<lambda>a y. a * 64 + y) (unat lead) ys = unat cp" "\<not> malformed_scalar need cp"
  shows "con_utf8_encode cp = b # t \<and> lead_byte b = Some (need, lead) \<and>
    need = Suc (length t) \<and> need \<le> 4 \<and> list_all continuation_byte t \<and>
    append_six (unat lead) t = unat cp \<and> \<not> malformed_scalar need cp \<and>
    (unat lead + 1) * 64 ^ length t \<le> 4294967296"
proof -
  have len: "length t = length ys" using assms(5) by (rule list_all2_lengthD)
  have "(unat lead + 1) * 64 ^ length ys \<le> 4294967296"
  proof (cases "ys = []")
    case True
    then show ?thesis using unsigned_less [where 'a = nat, of lead] by simp
  next
    case False
    then have "(unat lead + 1) * 64 ^ length ys \<le> 64 * 64 ^ 3"
      using assms(3,4,6) by (intro mult_le_mono power_increasing) simp_all
    then show ?thesis by simp
  qed
  with assms append_six_digits [OF assms(5), of "unat lead"] len show ?thesis by simp
qed

lemma encode_shape:
  assumes "scalar cp"
  shows "\<exists>b t need lead. con_utf8_encode cp = b # t \<and> lead_byte b = Some (need, lead) \<and>
    need = Suc (length t) \<and> need \<le> 4 \<and> list_all continuation_byte t \<and>
    append_six (unat lead) t = unat cp \<and> \<not> malformed_scalar need cp \<and>
    (unat lead + 1) * 64 ^ length t \<le> 4294967296"
proof -
  let ?c = "unat cp"
  have c: "?c \<le> 1114111" "\<not> (55296 \<le> ?c \<and> ?c \<le> 57343)"
    using assms by (auto simp: scalar_def unat_cp_numerals)
  note enc = encode_numbers [OF c(1)]
  consider (1) "?c < 128" | (2) "128 \<le> ?c" "?c < 2048" | (3) "2048 \<le> ?c" "?c < 65536" | (4) "65536 \<le> ?c"
    by linarith
  then show ?thesis
  proof cases
    case 1
    then obtain b where b: "con_utf8_encode cp = [b]" "unat b = ?c"
      using enc by (auto simp: utf8_numbers_def)
    then have "lead_byte b = Some (1, cp)" using 1 by (simp add: lead_byte_numbers)
    moreover have "\<not> malformed_scalar 1 cp" using c by (simp add: malformed_scalar_def unat_cp_numerals)
    ultimately show ?thesis using shape_intro [OF b(1), of 1 cp "[]"] by auto
  next
    case 2
    then obtain b b1 where b: "con_utf8_encode cp = [b, b1]" "unat b = 192 + ?c div 64" "unat b1 = 128 + ?c mod 64"
      using enc by (auto simp: utf8_numbers_def)
    have l: "?c div 64 < 32" using 2 by linarith
    have v: "unat (of_nat (?c div 64) :: codepoint) = ?c div 64" using l by (intro of_nat_codepoint) simp
    have lb: "lead_byte b = Some (2, of_nat (?c div 64))"
      unfolding lead_byte_numbers b v using lead_split(1) [OF l] by blast
    have mf: "\<not> malformed_scalar 2 cp" using 2 c by (simp add: malformed_scalar_def unat_cp_numerals)
    show ?thesis
      by (intro exI, rule shape_intro [OF b(1), of 2 "of_nat (?c div 64)" "[?c mod 64]"])
        (use lb mf l b base64_digits(1) [of ?c] in \<open>simp_all add: v\<close>)
  next
    case 3
    then obtain b b1 b2 where b: "con_utf8_encode cp = [b, b1, b2]" "unat b = 224 + ?c div 4096"
      "unat b1 = 128 + ?c div 64 mod 64" "unat b2 = 128 + ?c mod 64"
      using enc by (auto simp: utf8_numbers_def)
    have l: "?c div 4096 < 16" using 3 by linarith
    have v: "unat (of_nat (?c div 4096) :: codepoint) = ?c div 4096" using l by (intro of_nat_codepoint) simp
    have lb: "lead_byte b = Some (3, of_nat (?c div 4096))"
      unfolding lead_byte_numbers b v using lead_split(2) [OF l] by blast
    have mf: "\<not> malformed_scalar 3 cp" using 3 c by (simp add: malformed_scalar_def unat_cp_numerals)
    show ?thesis
      by (intro exI, rule shape_intro [OF b(1), of 3 "of_nat (?c div 4096)" "[?c div 64 mod 64, ?c mod 64]"])
        (use lb mf l b base64_digits(2) [of ?c] in \<open>simp_all add: v\<close>)
  next
    case 4
    then obtain b b1 b2 b3 where b: "con_utf8_encode cp = [b, b1, b2, b3]" "unat b = 240 + ?c div 262144"
      "unat b1 = 128 + ?c div 4096 mod 64" "unat b2 = 128 + ?c div 64 mod 64" "unat b3 = 128 + ?c mod 64"
      using enc by (auto simp: utf8_numbers_def)
    have l: "?c div 262144 < 8" using c(1) by linarith
    have v: "unat (of_nat (?c div 262144) :: codepoint) = ?c div 262144" using l by (intro of_nat_codepoint) simp
    have lb: "lead_byte b = Some (4, of_nat (?c div 262144))"
      unfolding lead_byte_numbers b v using lead_split(3) [OF l] by blast
    have mf: "\<not> malformed_scalar 4 cp" using 4 c by (simp add: malformed_scalar_def unat_cp_numerals)
    show ?thesis
      by (intro exI, rule shape_intro [OF b(1), of 4 "of_nat (?c div 262144)" "[?c div 4096 mod 64, ?c div 64 mod 64, ?c mod 64]"])
        (use lb mf l b base64_digits(3) [of ?c] in \<open>simp_all add: v\<close>)
  qed
qed

lemma decode_encode:
  assumes "scalar cp"
  obtains b t where "con_utf8_encode cp = b # t" "\<And>s. con_utf8_decode b (t @ s) = (cp, s)"
proof -
  from encode_shape [OF assms] obtain b t need lead where
    e: "con_utf8_encode cp = b # t" and l: "lead_byte b = Some (need, lead)" and n: "need = Suc (length t)"
    and c: "list_all continuation_byte t" "append_six (unat lead) t = unat cp"
    and m: "\<not> malformed_scalar need cp" and r: "(unat lead + 1) * 64 ^ length t \<le> 4294967296"
    by blast
  have "con_utf8_decode b (t @ s) = (cp, s)" for s
  proof -
    from continuation_app [OF c(1) r, of s] obtain cp' where
      cp': "continuation (length t) (t @ s) lead = Some (cp', s)" "unat cp' = unat cp"
      using c(2) by auto
    then have "cp' = cp" by (simp add: word_unat_eq_iff)
    with cp' l n m show ?thesis by (simp add: con_utf8_decode_def)
  qed
  with e show thesis by (rule that)
qed

lemma scalar_small: "unat cp < 55296 \<Longrightarrow> scalar cp"
  by (simp add: scalar_def unat_cp_numerals)

lemma lead_byte_need: "lead_byte b = Some (need, cp) \<Longrightarrow> 1 \<le> need \<and> need \<le> 4"
  by (auto simp: lead_byte_def split: if_splits)

lemma byte_scalar: "scalar (ucast (b :: byte))"
  using byte_unat(1) [of b] by (intro scalar_small) (simp del: byte_unat)

lemma malformed_scalarD: "\<not> malformed_scalar need cp \<Longrightarrow> scalar cp"
  by (auto simp: malformed_scalar_def scalar_def not_less)

lemma continuation_suffix:
  "continuation n s cp = Some (cp', s') \<Longrightarrow> \<exists>t. s = t @ s' \<and> length t = n"
  by (induction n s cp rule: continuation.induct) (auto split: if_splits intro: exI [of _ "_ # _"])

lemma decode_total:
  assumes "con_utf8_decode b s = (cp, s')"
  shows "scalar cp \<and> (\<exists>t. b # s = t @ s' \<and> 1 \<le> length t \<and> length t \<le> 4)"
proof (cases "lead_byte b")
  case None
  with assms have "cp = ucast b" "s' = s" by (simp_all add: con_utf8_decode_def)
  then show ?thesis using byte_scalar by (auto intro: exI [of _ "[b]"])
next
  case (Some nc)
  obtain need lead where nc: "nc = (need, lead)" by (cases nc)
  note n = lead_byte_need [OF Some [unfolded nc]]
  show ?thesis
  proof (cases "need > Suc (length s)")
    case True
    with assms Some nc have "cp = 0x3f" "s' = []" by (simp_all add: con_utf8_decode_def)
    with True n show ?thesis by (auto intro: scalar_small exI [of _ "b # s"])
  next
    case False
    show ?thesis
    proof (cases "continuation (need - 1) s lead")
      case None
      with assms Some nc False have "cp = ucast b" "s' = s" by (simp_all add: con_utf8_decode_def)
      then show ?thesis using byte_scalar by (auto intro: exI [of _ "[b]"])
    next
      case c: (Some r)
      obtain cp' s'' where r: "r = (cp', s'')" by (cases r)
      from assms Some nc False c r have eq: "cp = (if malformed_scalar need cp' then 0x3f else cp')" "s' = s''"
        by (simp_all add: con_utf8_decode_def)
      from continuation_suffix [OF c [unfolded r]] obtain t where t: "s = t @ s''" "length t = need - 1" by blast
      have "scalar cp" using eq(1) by (auto intro: malformed_scalarD scalar_small)
      with t eq(2) n show ?thesis by (auto intro: exI [of _ "b # t"])
    qed
  qed
qed

section \<open>Canonical forms\<close>

text \<open>A lead byte with its continuation bytes that spell a code point in shortest form.\<close>

definition canonical :: "byte \<Rightarrow> byte list \<Rightarrow> codepoint \<Rightarrow> bool" where
  "canonical b t cp \<longleftrightarrow>
     (case lead_byte b of
        None \<Rightarrow> False
      | Some (need, lead) \<Rightarrow> need = Suc (length t) \<and> list_all continuation_byte t \<and>
          append_six (unat lead) t = unat cp \<and> \<not> malformed_scalar need cp)"

lemma encode_canonical: "scalar cp \<Longrightarrow> con_utf8_encode cp = b # t \<Longrightarrow> canonical b t cp"
  using encode_shape [of cp] by (auto simp: canonical_def)

lemma append_six_range:
  "c * 64 ^ length t \<le> append_six c t \<and> append_six c t < (c + 1) * 64 ^ length t"
proof (induction t arbitrary: c)
  case (Cons b t)
  have "c * 64 ^ length (b # t) \<le> (c * 64 + unat b mod 64) * 64 ^ length t" by (simp add: algebra_simps)
  moreover have "(c * 64 + unat b mod 64 + 1) * 64 ^ length t \<le> (c + 1) * 64 ^ length (b # t)"
  proof -
    have "c * 64 + unat b mod 64 + 1 \<le> (c + 1) * 64"
      using mod_less_divisor [of 64 "unat b"] by simp
    then have "(c * 64 + unat b mod 64 + 1) * 64 ^ length t \<le> (c + 1) * 64 * 64 ^ length t"
      by (rule mult_le_mono1)
    then show ?thesis by (simp add: algebra_simps)
  qed
  moreover note Cons.IH [of "c * 64 + unat b mod 64"]
  ultimately show ?case unfolding append_six_simps by linarith
qed simp

lemma continuation_byte_inj:
  "continuation_byte b \<Longrightarrow> continuation_byte b' \<Longrightarrow> unat b mod 64 = unat b' mod 64 \<Longrightarrow> b = b'"
  unfolding continuation_byte_def word_unat_eq_iff by (metis div_mult_mod_eq)

lemma append_six_inj:
  assumes "length t = length t'" "append_six c t = append_six c' t'"
    "list_all continuation_byte t" "list_all continuation_byte t'"
  shows "c = c' \<and> t = t'"
  using assms
proof (induction t t' arbitrary: c c' rule: list_induct2)
  case (Cons b t b' t')
  then have eq: "c * 64 + unat b mod 64 = c' * 64 + unat b' mod 64" and t: "t = t'" by auto
  have "c = c'" "unat b mod 64 = unat b' mod 64"
    using arg_cong [OF eq, of "\<lambda>n. n div 64"] arg_cong [OF eq, of "\<lambda>n. n mod 64"] by simp_all
  with t Cons.prems show ?case by (auto intro: continuation_byte_inj)
qed simp

lemma canonical_range:
  assumes "canonical b t cp"
  shows "length t \<le> 3 \<and> (length t = 0 \<longrightarrow> unat cp < 128) \<and>
    (length t = 1 \<longrightarrow> 128 \<le> unat cp \<and> unat cp < 2048) \<and>
    (length t = 2 \<longrightarrow> 2048 \<le> unat cp \<and> unat cp < 65536) \<and> (length t = 3 \<longrightarrow> 65536 \<le> unat cp)"
proof -
  from assms obtain lead where l: "lead_byte b = Some (Suc (length t), lead)" "append_six (unat lead) t = unat cp"
    "\<not> malformed_scalar (Suc (length t)) cp"
    by (auto simp: canonical_def split: option.splits prod.splits)
  note r = append_six_range [of "unat lead" t, unfolded l(2)]
  have len: "length t = 0 \<or> length t = 1 \<or> length t = 2 \<or> length t = 3"
    using lead_byte_need [OF l(1)] by linarith
  have u: "length t = 0 \<Longrightarrow> unat lead < 128" "length t = 1 \<Longrightarrow> unat lead < 32" "length t = 2 \<Longrightarrow> unat lead < 16"
    using l(1) unfolding lead_byte_numbers by auto
  have m: "length t = 1 \<Longrightarrow> 128 \<le> unat cp" "length t = 2 \<Longrightarrow> 2048 \<le> unat cp" "length t = 3 \<Longrightarrow> 65536 \<le> unat cp"
    using l(3) by (simp_all add: malformed_scalar_def unat_cp_numerals)
  have "length t = 1 \<Longrightarrow> unat cp < 2048"
  proof -
    assume n: "length t = 1"
    then have "(unat lead + 1) * 64 ^ length t \<le> 32 * 64" using u(2) by simp
    with r show ?thesis by linarith
  qed
  moreover have "length t = 2 \<Longrightarrow> unat cp < 65536"
  proof -
    assume n: "length t = 2"
    then have "(unat lead + 1) * 64 ^ length t \<le> 16 * 64 ^ 2" using u(3) by (simp del: One_nat_def)
    with r show ?thesis by simp
  qed
  moreover have "length t = 0 \<Longrightarrow> unat cp < 128" using u(1) r by simp
  moreover have "length t \<le> 3" using len by linarith
  ultimately show ?thesis using m by blast
qed

lemma canonical_length:
  assumes "canonical b t cp" "canonical b' t' cp"
  shows "length t = length t'"
proof -
  have cases: "n = 0 \<or> n = 1 \<or> n = 2 \<or> n = 3" if "n \<le> 3" for n :: nat using that by linarith
  note r = canonical_range [OF assms(1)] canonical_range [OF assms(2)]
  from cases [OF r(1) [THEN conjunct1]] cases [OF r(2) [THEN conjunct1]] show ?thesis
    by (elim disjE; insert r; simp)
qed

lemma canonical_unique:
  assumes "canonical b t cp" "canonical b' t' cp"
  shows "b = b' \<and> t = t'"
proof -
  note len = canonical_length [OF assms]
  from assms(1) obtain lead where l: "lead_byte b = Some (Suc (length t), lead)" "append_six (unat lead) t = unat cp"
    "list_all continuation_byte t"
    by (auto simp: canonical_def split: option.splits prod.splits)
  from assms(2) obtain lead' where l': "lead_byte b' = Some (Suc (length t), lead')" "append_six (unat lead') t' = unat cp"
    "list_all continuation_byte t'"
    by (auto simp: canonical_def len split: option.splits prod.splits)
  from append_six_inj [OF len, of "unat lead" "unat lead'"] l l' have tt: "t = t'" "unat lead = unat lead'" by auto
  have "unat b = unat b'"
    using l(1) l'(1) tt(2) unfolding lead_byte_numbers by (elim disjE) (auto, (metis div_mult_mod_eq)+)
  with tt(1) show ?thesis by (simp add: word_unat_eq_iff)
qed

lemma canonical_encode: "canonical b t cp \<Longrightarrow> scalar cp \<Longrightarrow> con_utf8_encode cp = b # t"
  using encode_shape [of cp] encode_canonical [of cp] canonical_unique [of b t cp] by metis

section \<open>Properties\<close>

text \<open>
  C21. The lenient decoder always makes progress and stays in bounds on arbitrary bytes: it consumes
  between one and four bytes of the span, and whatever it answers is a Unicode scalar value, never a
  surrogate and never above 0x10FFFF.
\<close>

theorem utf8_decode_total:
  assumes "con_utf8_decode b s = (cp, s')"
  shows "scalar cp \<and> (\<exists>t. b # s = t @ s' \<and> 1 \<le> length t \<and> length t \<le> 4)"
  using assms by (rule decode_total)

theorem utf8_decode_total_witness:
  "con_utf8_decode 0xED [0xA0, 0x80, 0x41] = (0x3f, [0x41]) \<and> scalar 0x3f"
proof -
  have eq: "con_utf8_decode 0xED [0xA0, 0x80, 0x41] = (0x3f, [0x41])" by code_simp
  with utf8_decode_total [OF eq] show ?thesis by simp
qed

text \<open>
  C18. Decoding inverts encoding on every Unicode scalar value, whatever bytes follow, so the
  character count and the cell count of an encoded text are its length and the sum of its widths.
\<close>

theorem utf8_round_trip:
  assumes "list_all scalar cps"
  shows "con_utf8_count (concat (map con_utf8_encode cps)) = length cps \<and>
    con_utf8_cellcount (concat (map con_utf8_encode cps)) = sum_list (map con_cp_width cps) \<and>
    (cps \<noteq> [] \<longrightarrow> (case concat (map con_utf8_encode cps) of
       [] \<Rightarrow> False
     | b # s \<Rightarrow> con_utf8_decode b s = (hd cps, concat (map con_utf8_encode (tl cps)))))"
  using assms
proof (induction cps)
  case (Cons cp cps)
  then have "scalar cp" by simp
  then obtain b t where "con_utf8_encode cp = b # t" "\<And>s. con_utf8_decode b (t @ s) = (cp, s)"
    by (rule decode_encode) blast
  with Cons show ?case by simp
qed simp

theorem utf8_round_trip_witness:
  "con_utf8_count (concat (map con_utf8_encode [0x41, 0xE9, 0x20AC, 0x1F600])) = 4 \<and>
   con_utf8_cellcount (concat (map con_utf8_encode [0x41, 0xE9, 0x20AC, 0x1F600])) = 5"
proof -
  have "list_all scalar [0x41, 0xE9, 0x20AC, 0x1F600]" by code_simp
  moreover have "sum_list (map con_cp_width [0x41, 0xE9, 0x20AC, 0x1F600]) = 5" by code_simp
  ultimately show ?thesis using utf8_round_trip [of "[0x41, 0xE9, 0x20AC, 0x1F600]"] by simp
qed

end
