(* ===== verification/Clipboard.thy ===== *)
theory Clipboard
  imports Utf8
begin

text \<open>
  The clipboard path of the console: \<open>osc_clipboard.c\<close> (collecting, decoding and applying an OSC 52
  string), \<open>read_clipboard.c\<close> (asynchronous clipboard reads answered as Base64) and
  \<open>copy_clipboard.c\<close> (the queue of clipboard writes). The clipboard server, the snip hooks, the
  message ports and the allocator are outside the repository: their answers are arguments of the
  operations. A buffer of known length is the list of its bytes; the collector's write is \<open>None\<close>
  when it would fall outside the allocation.
\<close>

section \<open>Collecting the string\<close>

definition conclip_write_max :: nat where "conclip_write_max = 1048576"

definition osc_clipboard_max :: nat where
  "osc_clipboard_max = (conclip_write_max + 2) div 3 * 4 + 256"

record osc_unit =
  oscClipboard :: "byte list"
  oscClipboardCapacity :: nat
  oscClipboardInvalid :: bool
  oscCopyDisabled :: byte

definition con_osc_clipboard_reset :: "osc_unit \<Rightarrow> osc_unit" where
  "con_osc_clipboard_reset u =
     u\<lparr>oscClipboard := [], oscClipboardCapacity := 0, oscClipboardInvalid := False\<rparr>"

definition con_osc_clipboard_byte :: "osc_unit \<Rightarrow> byte \<Rightarrow> bool \<Rightarrow> osc_unit option" where
  "con_osc_clipboard_byte u b alloc =
     (if oscCopyDisabled u AND 1 \<noteq> 0 \<and> \<not> oscCopyDisabled u AND 2 \<noteq> 0 then
        Some (u\<lparr>oscClipboardInvalid := True\<rparr>)
      else if oscClipboardInvalid u then Some u
      else
        let len = length (oscClipboard u) in
        if len = osc_clipboard_max \<or> (oscCopyDisabled u AND 1 \<noteq> 0 \<and> len \<ge> 258) then
          Some (u\<lparr>oscClipboardInvalid := True\<rparr>)
        else
          let full = (len = oscClipboardCapacity u);
              capacity = min (if oscClipboardCapacity u \<noteq> 0 then oscClipboardCapacity u * 2 else 256)
                             osc_clipboard_max
          in
          if full \<and> \<not> alloc then Some (u\<lparr>oscClipboardInvalid := True\<rparr>)
          else
            let u' = (if full then u\<lparr>oscClipboardCapacity := capacity\<rparr> else u) in
            if len < oscClipboardCapacity u' then Some (u'\<lparr>oscClipboard := oscClipboard u @ [b]\<rparr>)
            else None)"

section \<open>Base64\<close>

definition osc_base64_digit :: "byte \<Rightarrow> byte option" where
  "osc_base64_digit b =
     (if b \<ge> 0x41 \<and> b \<le> 0x5a then Some (b - 0x41)
      else if b \<ge> 0x61 \<and> b \<le> 0x7a then Some (b - 0x61 + 26)
      else if b \<ge> 0x30 \<and> b \<le> 0x39 then Some (b - 0x30 + 52)
      else if b = 0x2b then Some 62
      else if b = 0x2f then Some 63
      else None)"

text \<open>One group of four characters: the bytes stored, or \<open>None\<close> for the failure return.\<close>

definition base64_group :: "byte \<Rightarrow> byte \<Rightarrow> byte \<Rightarrow> byte \<Rightarrow> bool \<Rightarrow> byte list option" where
  "base64_group w x y z final =
     (case (osc_base64_digit w, osc_base64_digit x) of
        (Some a, Some b) \<Rightarrow>
          if y = 0x3d then
            (if \<not> final \<or> z \<noteq> 0x3d \<or> b AND 15 \<noteq> 0 then None
             else Some [push_bit 2 a OR drop_bit 4 b])
          else if z = 0x3d then
            (case osc_base64_digit y of
               None \<Rightarrow> None
             | Some c \<Rightarrow>
                 if \<not> final \<or> c AND 3 \<noteq> 0 then None
                 else Some [push_bit 2 a OR drop_bit 4 b, push_bit 4 b OR drop_bit 2 c])
          else
            (case (osc_base64_digit y, osc_base64_digit z) of
               (Some c, Some d) \<Rightarrow>
                 Some [push_bit 2 a OR drop_bit 4 b, push_bit 4 b OR drop_bit 2 c, push_bit 6 c OR d]
             | _ \<Rightarrow> None)
      | _ \<Rightarrow> None)"

fun write_bytes :: "byte list \<Rightarrow> nat \<Rightarrow> byte list \<Rightarrow> byte list" where
  "write_bytes bytes k [] = bytes"
| "write_bytes bytes k (w # ws) = write_bytes (bytes[k := w]) (Suc k) ws"

text \<open>The loop works in place: it writes below the position it reads from.\<close>

function osc_decode_loop :: "nat \<Rightarrow> nat \<Rightarrow> byte list \<Rightarrow> nat \<Rightarrow> byte list \<times> nat option" where
  "osc_decode_loop len i bytes k =
     (if i < len then
        case base64_group (bytes ! i) (bytes ! (i + 1)) (bytes ! (i + 2)) (bytes ! (i + 3)) (i + 4 = len) of
          None \<Rightarrow> (bytes, None)
        | Some ws \<Rightarrow> osc_decode_loop len (i + 4) (write_bytes bytes k ws) (k + length ws)
      else (bytes, Some k))"
  by pat_completeness auto
termination by (relation "measure (\<lambda>(len, i, _). len - i)") auto

declare osc_decode_loop.simps [simp del]

text \<open>The buffer after the call, and on success the decoded length and the target.\<close>

definition osc_clipboard_decode :: "byte list \<Rightarrow> byte list \<times> (nat \<times> byte) option" where
  "osc_clipboard_decode bytes =
     (let len = length bytes; split = length (takeWhile (\<lambda>b. b \<noteq> 0x3b) bytes) in
      if split = len \<or> split > 255 then (bytes, None)
      else
        let target = (if split \<noteq> 0 then bytes ! 0 else 0x63) in
        if target \<noteq> 0x63 \<and> target \<noteq> 0x70 \<and> target \<noteq> 0x73 then (bytes, None)
        else
          let start = split + 1; cnt = len - start in
          if cnt mod 4 \<noteq> 0 \<or> cnt div 4 * 3 > conclip_write_max + 2 then (bytes, None)
          else
            (case osc_decode_loop len start bytes 0 of
               (bytes', None) \<Rightarrow> (bytes', None)
             | (bytes', Some k) \<Rightarrow>
                 if k > conclip_write_max then (bytes', None) else (bytes', Some (k, target))))"

section \<open>UTF-8 validation\<close>

definition clip_lead :: "byte \<Rightarrow> (nat \<times> codepoint) option" where
  "clip_lead b =
     (if b \<ge> 0xc2 \<and> b \<le> 0xdf then Some (1, ucast b AND 31)
      else if b \<ge> 0xe0 \<and> b \<le> 0xef then Some (2, ucast b AND 15)
      else if b \<ge> 0xf0 \<and> b \<le> 0xf4 then Some (3, ucast b AND 7)
      else None)"

definition clip_bad :: "nat \<Rightarrow> codepoint \<Rightarrow> bool" where
  "clip_bad n cp \<longleftrightarrow>
     (n = 2 \<and> cp < 0x800) \<or> (n = 3 \<and> cp < 0x10000) \<or> cp > 0x10ffff \<or> (cp \<ge> 0xd800 \<and> cp \<le> 0xdfff)"

text \<open>One character of the text: the rest, or \<open>None\<close> for the return of false.\<close>

definition clip_char :: "byte \<Rightarrow> byte list \<Rightarrow> byte list option" where
  "clip_char b s =
     (if b < 0x80 then Some s
      else
        case clip_lead b of
          None \<Rightarrow> None
        | Some (n, cp) \<Rightarrow>
            if length s < n then None
            else
              (case continuation n s cp of
                 None \<Rightarrow> None
               | Some (cp', s') \<Rightarrow> if clip_bad n cp' then None else Some s'))"

lemma clip_char_length: "clip_char b s = Some s' \<Longrightarrow> length s' \<le> length s"
  by (auto simp: clip_char_def dest: continuation_length split: if_splits option.splits prod.splits)

function con_osc_clipboard_utf8 :: "byte list \<Rightarrow> bool" where
  "con_osc_clipboard_utf8 [] = True"
| "con_osc_clipboard_utf8 (b # s) =
     (case clip_char b s of None \<Rightarrow> False | Some s' \<Rightarrow> con_osc_clipboard_utf8 s')"
  by pat_completeness auto
termination by (relation "measure length") (auto dest: clip_char_length)

section \<open>Writing the clipboard\<close>

datatype clip_status = Text_ok | Text_unsupported | Text_error

text \<open>
  A queued write. \<open>cj_legacy\<close> is the request code: false for \<open>CONCLIP_WRITE_TEXT\<close>, true for
  the legacy code 'C'. \<open>cj_reply\<close> is the server's reply, once it is at the port.
\<close>

record copy_job =
  cj_bytes :: "byte list"
  cj_legacy :: bool
  cj_reply :: "clip_status option"

definition con_copy_clipboard_request ::
  "copy_job list \<Rightarrow> byte list \<Rightarrow> bool \<Rightarrow> bool \<Rightarrow> bool \<Rightarrow> int \<times> copy_job list" where
  "con_copy_clipboard_request jobs bytes available alloc port =
     (if \<not> available then (0, jobs)
      else if length bytes > conclip_write_max then (-1, jobs)
      else if length jobs \<ge> 16 then (-1, jobs)
      else if \<not> alloc then (-1, jobs)
      else if \<not> port then (0, jobs)
      else (1, \<lparr>cj_bytes = bytes, cj_legacy = False, cj_reply = None\<rparr> # jobs))"

fun con_copy_clipboard_poll :: "bool \<Rightarrow> copy_job list \<Rightarrow> copy_job list" where
  "con_copy_clipboard_poll port [] = []"
| "con_copy_clipboard_poll port (j # js) =
     (case cj_reply j of
        None \<Rightarrow> j # con_copy_clipboard_poll port js
      | Some status \<Rightarrow>
          if \<not> cj_legacy j \<and> status = Text_unsupported \<and> cj_bytes j \<noteq> [] \<and> length (cj_bytes j) \<le> 32767 \<and> port
          then j\<lparr>cj_legacy := True, cj_reply := None\<rparr> # con_copy_clipboard_poll port js
          else con_copy_clipboard_poll port js)"

text \<open>The console base as the clipboard code sees it: the snip buffer, the hooks and what they got.\<close>

record clip_base =
  copyBuffer :: "byte list"
  sniphooks :: nat
  hook_calls :: "byte list list"
  copy_jobs :: "copy_job list"

record clip_env =
  e_available :: bool
  e_job :: bool
  e_port :: bool
  e_alloc :: bool
  e_hook :: bool

definition con_osc_clipboard_apply :: "clip_env \<Rightarrow> clip_base \<Rightarrow> osc_unit \<Rightarrow> clip_base \<times> osc_unit" where
  "con_osc_clipboard_apply e base u =
     (if oscCopyDisabled u AND 1 \<noteq> 0 \<or> oscClipboardInvalid u then (base, u)
      else
        (case osc_clipboard_decode (oscClipboard u) of
           (bytes, None) \<Rightarrow> (base, u\<lparr>oscClipboard := bytes\<rparr>)
         | (bytes, Some (len, target)) \<Rightarrow>
             let u' = u\<lparr>oscClipboard := bytes\<rparr>; text = take len bytes in
             if \<not> con_osc_clipboard_utf8 text then (base, u')
             else
               let (result, jobs) =
                     (if target = 0x63 \<and> sniphooks base = 0
                      then con_copy_clipboard_request (copy_jobs base) text (e_available e) (e_job e) (e_port e)
                      else (0, copy_jobs base));
                   base' = base\<lparr>copy_jobs := jobs\<rparr>
               in
               if result \<noteq> 0 then (base', u')
               else if len \<noteq> 0 \<and> \<not> e_alloc e then (base', u')
               else
                 (base'\<lparr>copyBuffer := text,
                        hook_calls := hook_calls base @
                          (if target = 0x63 \<and> sniphooks base \<noteq> 0 \<and> e_hook e
                           then replicate (sniphooks base) text else [])\<rparr>, u')))"

section \<open>Reading the clipboard\<close>

text \<open>
  A reply message: the status, the data pointer (\<open>None\<close> for NULL) with the capacity of its
  allocation as the length of the list, and the announced length. A unit is identified by a number;
  its generation and its flag byte are looked up when the reply is delivered.
\<close>

record read_reply =
  rr_ok :: bool
  rr_data :: "byte list option"
  rr_length :: nat

record read_job =
  rj_unit :: nat
  rj_generation :: nat
  rj_target :: byte
  rj_st :: bool
  rj_valid :: bool
  rj_reply :: "read_reply option"

definition con_osc_read_cancel :: "nat \<Rightarrow> read_job list \<Rightarrow> read_job list" where
  "con_osc_read_cancel unit jobs =
     map (\<lambda>j. if rj_unit j = unit then j\<lparr>rj_valid := False\<rparr> else j) jobs"

text \<open>The reply the request makes itself when no server is there.\<close>

definition local_reply :: "byte list \<Rightarrow> bool \<Rightarrow> read_reply" where
  "local_reply buffer alloc =
     (if length buffer \<le> conclip_write_max \<and> (buffer = [] \<or> alloc)
      then \<lparr>rr_ok = True, rr_data = (if buffer = [] then None else Some buffer), rr_length = length buffer\<rparr>
      else \<lparr>rr_ok = False, rr_data = None, rr_length = 0\<rparr>)"

definition con_osc_read_request ::
  "byte list \<Rightarrow> read_job list \<Rightarrow> nat \<Rightarrow> nat \<Rightarrow> byte \<Rightarrow> byte \<Rightarrow> bool \<Rightarrow> bool \<Rightarrow> bool \<Rightarrow> bool
     \<Rightarrow> bool \<times> read_job list" where
  "con_osc_read_request buffer jobs unit generation disabled target st alloc port copy_alloc =
     (if disabled AND 2 = 0 then (False, jobs)
      else if length jobs \<ge> 16 then (False, jobs)
      else if \<not> alloc then (False, jobs)
      else
        let port' = (target = 0x63 \<and> port) in
        (True,
         \<lparr>rj_unit = unit, rj_generation = generation, rj_target = target, rj_st = st, rj_valid = True,
          rj_reply = (if port' then None else Some (local_reply buffer copy_alloc))\<rparr> # jobs))"

definition base64_alphabet :: "byte list" where
  "base64_alphabet =
     map (\<lambda>i. of_nat (0x41 + i)) [0..<26] @ map (\<lambda>i. of_nat (0x61 + i)) [0..<26] @
     map (\<lambda>i. of_nat (0x30 + i)) [0..<10] @ [0x2b, 0x2f]"

definition alphabet_at :: "codepoint \<Rightarrow> byte" where
  "alphabet_at v = base64_alphabet ! unat (v AND 63)"

text \<open>The encoding loop of \<open>osc_read_deliver\<close>, three bytes at a time.\<close>

fun read_encode :: "byte list \<Rightarrow> byte list" where
  "read_encode [] = []"
| "read_encode [x] =
     (let v = push_bit 16 (ucast x :: codepoint) in
      [alphabet_at (drop_bit 18 v), alphabet_at (drop_bit 12 v), 0x3d, 0x3d])"
| "read_encode [x, y] =
     (let v = push_bit 16 (ucast x :: codepoint) OR push_bit 8 (ucast y) in
      [alphabet_at (drop_bit 18 v), alphabet_at (drop_bit 12 v), alphabet_at (drop_bit 6 v), 0x3d])"
| "read_encode (x # y # z # rest) =
     (let v = push_bit 16 (ucast x :: codepoint) OR push_bit 8 (ucast y) OR ucast z in
      [alphabet_at (drop_bit 18 v), alphabet_at (drop_bit 12 v), alphabet_at (drop_bit 6 v), alphabet_at v]
        @ read_encode rest)"

text \<open>The bytes injected for a delivered reply, if any.\<close>

definition osc_read_deliver :: "bool \<Rightarrow> read_job \<Rightarrow> byte list option" where
  "osc_read_deliver alloc j =
     (case rj_reply j of
        None \<Rightarrow> None
      | Some r \<Rightarrow>
          let len = rr_length r; data = (case rr_data r of None \<Rightarrow> [] | Some d \<Rightarrow> d) in
          if \<not> rr_ok r \<or> len > conclip_write_max \<or> len > length data \<or>
             \<not> con_osc_clipboard_utf8 (take len data) then None
          else if \<not> alloc then None
          else Some ([0x1b, 0x5d, 0x35, 0x32, 0x3b] @ [rj_target j, 0x3b] @ read_encode (take len data) @
                 (if rj_st j then [0x1b, 0x5c] else [0x07])))"

text \<open>The poll loop: what is injected into which unit, and the jobs that stay.\<close>

fun con_osc_read_poll ::
  "(nat \<Rightarrow> nat \<Rightarrow> bool) \<Rightarrow> (nat \<Rightarrow> byte) \<Rightarrow> bool \<Rightarrow> read_job list \<Rightarrow> (nat \<times> byte list) list \<times> read_job list" where
  "con_osc_read_poll valid_unit flags alloc [] = ([], [])"
| "con_osc_read_poll valid_unit flags alloc (j # js) =
     (let (out, kept) = con_osc_read_poll valid_unit flags alloc js in
      case rj_reply j of
        None \<Rightarrow> (out, j # kept)
      | Some r \<Rightarrow>
          ((if rj_valid j \<and> valid_unit (rj_unit j) (rj_generation j) \<and> flags (rj_unit j) AND 2 \<noteq> 0
            then case osc_read_deliver alloc j of None \<Rightarrow> out | Some bytes \<Rightarrow> (rj_unit j, bytes) # out
            else out), kept))"

text \<open>\<open>con_osc_clipboard_read\<close>: whether the string was a query, and the jobs.\<close>

definition con_osc_clipboard_read ::
  "byte list \<Rightarrow> read_job list \<Rightarrow> nat \<Rightarrow> nat \<Rightarrow> osc_unit \<Rightarrow> bool \<Rightarrow> bool \<Rightarrow> bool \<Rightarrow> bool
     \<Rightarrow> bool \<times> read_job list" where
  "con_osc_clipboard_read buffer jobs unit generation u st alloc port copy_alloc =
     (if oscClipboardInvalid u then (False, jobs)
      else
        let bytes = oscClipboard u; split = length (takeWhile (\<lambda>b. b \<noteq> 0x3b) bytes) in
        if split > 255 \<or> split + 2 \<noteq> length bytes \<or> bytes ! (split + 1) \<noteq> 0x3f then (False, jobs)
        else
          let target = (if split \<noteq> 0 then bytes ! 0 else 0x63) in
          if (target = 0x63 \<or> target = 0x70 \<or> target = 0x73) \<and> oscCopyDisabled u AND 2 \<noteq> 0
          then (True, snd (con_osc_read_request buffer jobs unit generation (oscCopyDisabled u) target st
                             alloc port copy_alloc))
          else (True, jobs))"

section \<open>Base64: decoding inverts the encoder of the read path\<close>

lemma nth_alphabet:
  assumes "n < 64"
  shows "osc_base64_digit (base64_alphabet ! n) = Some (of_nat n)"
proof -
  have "map osc_base64_digit base64_alphabet = map (\<lambda>n. Some (of_nat n)) [0..<64]" by code_simp
  then have "map osc_base64_digit base64_alphabet ! n = Some (of_nat n)" using assms by simp
  moreover have "length base64_alphabet = 64" by (simp add: base64_alphabet_def)
  ultimately show ?thesis using assms by simp
qed

lemma digit_alphabet:
  assumes "osc_base64_digit b = Some a"
  shows "unat a < 64 \<and> base64_alphabet ! unat a = b"
proof -
  have nat: "b = of_nat (unat b)" by simp
  have sub: "k \<le> b \<Longrightarrow> unat (b - k) = unat b - unat k" for k by (rule unat_sub)
  have le: "k \<le> b \<longleftrightarrow> unat k \<le> unat b" "b \<le> k \<longleftrightarrow> unat b \<le> unat k" for k by (simp_all add: word_le_nat_alt)
  have add: "unat (c + k) = unat c + unat k" if "unat c + unat k < 256" for c k :: byte
    using that by (simp add: unat_word_ariths)
  consider "0x41 \<le> b" "b \<le> 0x5a" "a = b - 0x41" | "0x61 \<le> b" "b \<le> 0x7a" "a = b - 0x61 + 26"
    | "0x30 \<le> b" "b \<le> 0x39" "a = b - 0x30 + 52" | "b = 0x2b" "a = 62" | "b = 0x2f" "a = 63"
    using assms by (auto simp: osc_base64_digit_def split: if_splits)
  then show ?thesis
  proof cases
    case 1
    then have "unat a = unat b - 65" "65 \<le> unat b" "unat b \<le> 90" using sub [of "0x41"] by (simp_all add: le)
    moreover from this obtain k where k: "unat b = 65 + k" by (metis le_Suc_ex)
    moreover have "b = of_nat (65 + k)" using nat unfolding k .
    ultimately show ?thesis by (simp add: base64_alphabet_def nth_append)
  next
    case 2
    then have "unat a = unat b - 97 + 26" "97 \<le> unat b" "unat b \<le> 122" using sub [of "0x61"] sub [of 71]
      by (simp_all add: le add)
    moreover from this obtain k where k: "unat b = 97 + k" by (metis le_Suc_ex)
    moreover have "b = of_nat (97 + k)" using nat unfolding k .
    ultimately show ?thesis by (simp add: base64_alphabet_def nth_append)
  next
    case 3
    then have "unat a = unat b - 48 + 52" "48 \<le> unat b" "unat b \<le> 57" using sub [of "0x30"]
      by (simp_all add: le add)
    moreover from this obtain k where k: "unat b = 48 + k" by (metis le_Suc_ex)
    moreover have "b = of_nat (48 + k)" using nat unfolding k .
    ultimately show ?thesis by (simp add: base64_alphabet_def nth_append)
  qed (simp_all add: base64_alphabet_def nth_append)
qed

lemma digit_padding: "osc_base64_digit 0x3d = None"
  by code_simp

lemma alphabet_digit: "osc_base64_digit (alphabet_at v) = Some (ucast (v AND 63))"
proof -
  have u: "unat (v AND 63) < 64" by (simp add: unat_bits(1) word_arith)
  have "of_nat (unat (v AND 63)) = (ucast (v AND 63) :: byte)" by simp
  with nth_alphabet [OF u] show ?thesis by (simp only: alphabet_at_def)
qed

text \<open>The three bytes come back from their four digits.\<close>

lemma sextets3:
  fixes x y z :: byte
  defines "v \<equiv> push_bit 16 (ucast x :: codepoint) OR push_bit 8 (ucast y) OR ucast z"
  defines "a \<equiv> ucast (drop_bit 18 v AND 63) :: byte"
    and "b \<equiv> ucast (drop_bit 12 v AND 63) :: byte"
    and "c \<equiv> ucast (drop_bit 6 v AND 63) :: byte"
    and "d \<equiv> ucast (v AND 63) :: byte"
  shows "push_bit 2 a OR drop_bit 4 b = x"
    and "push_bit 4 b OR drop_bit 2 c = y"
    and "push_bit 6 c OR d = z"
  unfolding assms
  by (rule bits8; simp add: bit_simps bit_byte_high)+


text \<open>One byte and two bytes, with the padding's canonical zero bits.\<close>

lemma sextets1:
  fixes x :: byte
  defines "v \<equiv> push_bit 16 (ucast x :: codepoint)"
  defines "a \<equiv> ucast (drop_bit 18 v AND 63) :: byte"
    and "b \<equiv> ucast (drop_bit 12 v AND 63) :: byte"
  shows "push_bit 2 a OR drop_bit 4 b = x" and "b AND 15 = 0"
  unfolding assms
  by (rule bits8; simp add: bit_simps bit_byte_high)+

lemma sextets2:
  fixes x y :: byte
  defines "v \<equiv> push_bit 16 (ucast x :: codepoint) OR push_bit 8 (ucast y)"
  defines "a \<equiv> ucast (drop_bit 18 v AND 63) :: byte"
    and "b \<equiv> ucast (drop_bit 12 v AND 63) :: byte"
    and "c \<equiv> ucast (drop_bit 6 v AND 63) :: byte"
  shows "push_bit 2 a OR drop_bit 4 b = x" and "push_bit 4 b OR drop_bit 2 c = y" and "c AND 3 = 0"
  unfolding assms
  by (rule bits8; simp add: bit_simps bit_byte_high)+

text \<open>And the digits come back from the three bytes.\<close>

lemma sixes: "unat (a :: byte) < 64 \<Longrightarrow> \<not> bit a 6 \<and> \<not> bit a 7"
proof -
  assume "unat a < 64"
  then have "take_bit 6 a = a"
    by (simp add: word_unat_eq_iff unsigned_take_bit_eq take_bit_nat_eq_self)
  then show ?thesis by (metis bit_take_bit_iff less_irrefl numeral_less_iff semiring_norm(76) semiring_norm(78) semiring_norm(79) semiring_norm(81))
qed

lemma write_bytes_eq:
  "k + length ws \<le> length bytes \<Longrightarrow> write_bytes bytes k ws = take k bytes @ ws @ drop (k + length ws) bytes"
proof (induction ws arbitrary: bytes k)
  case (Cons w ws)
  then have "write_bytes bytes k (w # ws) =
      take (Suc k) (bytes[k := w]) @ ws @ drop (Suc k + length ws) (bytes[k := w])" by simp
  also have "take (Suc k) (bytes[k := w]) = take k bytes @ [w]"
    using Cons.prems by (simp add: take_Suc_conv_app_nth)
  finally show ?case by simp
qed simp

lemma base64_group_length: "base64_group w x y z f = Some ws \<Longrightarrow> length ws \<le> 3"
  by (auto simp: base64_group_def split: option.splits if_splits prod.splits)

text \<open>The groups of a payload decoded into a separate buffer.\<close>

fun decode_groups :: "byte list \<Rightarrow> byte list option" where
  "decode_groups [] = Some []"
| "decode_groups (w # x # y # z # rest) =
     (case base64_group w x y z (rest = []) of
        None \<Rightarrow> None
      | Some ws \<Rightarrow> map_option ((@) ws) (decode_groups rest))"
| "decode_groups _ = None"

text \<open>Decoding in place never reads a byte it has already overwritten.\<close>

lemma osc_decode_loop_eq:
  assumes "k \<le> i" "i \<le> length bytes" "(length bytes - i) mod 4 = 0"
  shows "case decode_groups (drop i bytes) of
      None \<Rightarrow> snd (osc_decode_loop (length bytes) i bytes k) = None
    | Some ws \<Rightarrow> snd (osc_decode_loop (length bytes) i bytes k) = Some (k + length ws) \<and>
        take (k + length ws) (fst (osc_decode_loop (length bytes) i bytes k)) = take k bytes @ ws"
  using assms
proof (induction "length bytes - i" arbitrary: i bytes k rule: less_induct)
  case less
  show ?case
  proof (cases "i < length bytes")
    case False
    then show ?thesis using less.prems by (simp add: osc_decode_loop.simps)
  next
    case True
    obtain q where "length bytes - i = 4 * q"
      using less.prems(3) by (auto simp: mod_eq_0_iff_dvd elim: dvdE)
    then have q: "length bytes = i + 4 * q" using less.prems(2) by simp
    with True obtain p where p: "q = Suc p" by (cases q) auto
    have four: "i + 4 \<le> length bytes" by (simp add: q p)
    define w x y z where "w = bytes ! i" "x = bytes ! (i + 1)" "y = bytes ! (i + 2)" "z = bytes ! (i + 3)"
    have d: "drop i bytes = w # x # y # z # drop (i + 4) bytes"
      using four unfolding w_x_y_z_def
      by (simp add: Cons_nth_drop_Suc numeral_eq_Suc)
    have last: "(length bytes \<le> i + 4) = (i + 4 = length bytes)" using four by auto
    show ?thesis
    proof (cases "base64_group w x y z (i + 4 = length bytes)")
      case None
      with True show ?thesis
        unfolding d by (simp add: last osc_decode_loop.simps [of _ i] w_x_y_z_def)
    next
      case (Some ws)
      let ?b = "write_bytes bytes k ws"
      have room: "k + length ws \<le> i + 3" using base64_group_length [OF Some] less.prems(1) by simp
      then have eq: "?b = take k bytes @ ws @ drop (k + length ws) bytes"
        using four by (intro write_bytes_eq) simp
      then have len: "length ?b = length bytes" using room four by simp
      have dr: "drop (i + 4) ?b = drop (i + 4) bytes"
        using room four less.prems(1) unfolding eq by (simp add: add.commute)
      have tk: "take (k + length ws) ?b = take k bytes @ ws"
        unfolding eq using room four by simp
      have m: "(length bytes - (i + 4)) mod 4 = 0"
        by (simp add: q p)
      from less.hyps [of ?b "i + 4" "k + length ws"] room four m True
      have IH: "case decode_groups (drop (i + 4) bytes) of
          None \<Rightarrow> snd (osc_decode_loop (length bytes) (i + 4) ?b (k + length ws)) = None
        | Some vs \<Rightarrow> snd (osc_decode_loop (length bytes) (i + 4) ?b (k + length ws)) = Some (k + length ws + length vs) \<and>
            take (k + length ws + length vs) (fst (osc_decode_loop (length bytes) (i + 4) ?b (k + length ws))) =
              take (k + length ws) ?b @ vs"
        unfolding len dr by simp
      have step: "osc_decode_loop (length bytes) i bytes k = osc_decode_loop (length bytes) (i + 4) ?b (k + length ws)"
        using True Some by (simp add: osc_decode_loop.simps [of _ i] w_x_y_z_def)
      show ?thesis
        using IH unfolding d step by (simp add: last Some tk add.assoc split: option.splits)
    qed
  qed
qed

text \<open>The encoder and the group decoder are inverse to each other.\<close>

lemma alphabet_padding [simp]: "alphabet_at v \<noteq> 0x3d"
  using alphabet_digit [of v] digit_padding by auto

lemma decode_read_encode: "decode_groups (read_encode bytes) = Some bytes"
proof (induction bytes rule: read_encode.induct)
  case (2 x)
  show ?case
    using sextets1 [of x] by (simp add: Let_def base64_group_def alphabet_digit)
next
  case (3 x y)
  show ?case
    using sextets2 [of x y] by (simp add: Let_def base64_group_def alphabet_digit)
next
  case (4 x y z rest)
  then show ?case
    using sextets3 [of x y z] by (simp add: Let_def base64_group_def alphabet_digit)
qed simp

lemma read_encode_length: "length (read_encode bytes) = 4 * ((length bytes + 2) div 3)"
proof (induction bytes rule: read_encode.induct)
  case (4 x y z rest)
  have "(length (x # y # z # rest) + 2) div 3 = (length rest + 2) div 3 + 1"
    using div_add_self1 [of 3 "length rest + 2"] by simp
  with 4 show ?case by (simp only: read_encode.simps Let_def) simp
qed (simp_all add: Let_def)

lemma alphabet_eq:
  assumes "osc_base64_digit b = Some a" "ucast (v AND 63) = a"
  shows "alphabet_at v = b"
proof -
  have "unat (v AND 63) < 64" by (simp add: unat_bits(1) word_arith)
  then have "unat (v AND 63) = unat a" using assms(2) by (auto simp: unat_ucast_cp)
  with digit_alphabet [OF assms(1)] show ?thesis by (simp add: alphabet_at_def)
qed

text \<open>The digits of a decoded group, bit by bit.\<close>

lemma group_bits3:
  fixes a b c d :: byte
  assumes "unat a < 64" "unat b < 64" "unat c < 64" "unat d < 64"
  defines "v \<equiv> push_bit 16 (ucast (push_bit 2 a OR drop_bit 4 b) :: codepoint) OR
    push_bit 8 (ucast (push_bit 4 b OR drop_bit 2 c)) OR ucast (push_bit 6 c OR d)"
  shows "ucast (drop_bit 18 v AND 63) = a" "ucast (drop_bit 12 v AND 63) = b"
    "ucast (drop_bit 6 v AND 63) = c" "ucast (v AND 63) = d"
  unfolding v_def
  by (rule bits8; use assms(1-4) [THEN sixes] in \<open>simp add: bit_simps bit_byte_high\<close>)+

lemma group_bits2:
  fixes a b c :: byte
  assumes "unat a < 64" "unat b < 64" "unat c < 64" "c AND 3 = 0"
  defines "v \<equiv> push_bit 16 (ucast (push_bit 2 a OR drop_bit 4 b) :: codepoint) OR
    push_bit 8 (ucast (push_bit 4 b OR drop_bit 2 c))"
  shows "ucast (drop_bit 18 v AND 63) = a" "ucast (drop_bit 12 v AND 63) = b" "ucast (drop_bit 6 v AND 63) = c"
proof -
  have "bit (c AND 3) 0 = False" "bit (c AND 3) 1 = False" using assms(4) by simp_all
  then have low: "\<not> bit c 0 \<and> \<not> bit c 1" by (simp add: bit_simps)
  show "ucast (drop_bit 18 v AND 63) = a" "ucast (drop_bit 12 v AND 63) = b" "ucast (drop_bit 6 v AND 63) = c"
    unfolding v_def
    by (rule bits8; use low assms(1-3) [THEN sixes] in \<open>simp add: bit_simps bit_byte_high\<close>)+
qed

lemma group_bits1:
  fixes a b :: byte
  assumes "unat a < 64" "unat b < 64" "b AND 15 = 0"
  defines "v \<equiv> push_bit 16 (ucast (push_bit 2 a OR drop_bit 4 b) :: codepoint)"
  shows "ucast (drop_bit 18 v AND 63) = a" "ucast (drop_bit 12 v AND 63) = b"
proof -
  have "bit (b AND 15) 0 = False" "bit (b AND 15) 1 = False" "bit (b AND 15) 2 = False" "bit (b AND 15) 3 = False"
    using assms(3) by simp_all
  then have low: "\<not> bit b 0 \<and> \<not> bit b 1 \<and> \<not> bit b 2 \<and> \<not> bit b 3" by (simp add: bit_simps)
  show "ucast (drop_bit 18 v AND 63) = a" "ucast (drop_bit 12 v AND 63) = b"
    unfolding v_def
    by (rule bits8; use low assms(1,2) [THEN sixes] in \<open>simp add: bit_simps bit_byte_high\<close>)+
qed

lemma read_encode_decode: "decode_groups payload = Some bytes \<Longrightarrow> read_encode bytes = payload"
proof (induction payload arbitrary: bytes rule: decode_groups.induct)
  case (2 w x y z rest)
  from 2(2) obtain ws vs where g: "base64_group w x y z (rest = []) = Some ws"
    and r: "decode_groups rest = Some vs" and b: "bytes = ws @ vs"
    by (auto split: option.splits)
  have ih: "read_encode vs = rest" using 2(1) [OF g r] .
  from g obtain p q where p: "osc_base64_digit w = Some p" and q: "osc_base64_digit x = Some q"
    by (auto simp: base64_group_def split: option.splits)
  note pq = digit_alphabet [OF p, THEN conjunct1] digit_alphabet [OF q, THEN conjunct1]
  consider (1) "y = 0x3d" "z = 0x3d" "rest = []" "q AND 15 = 0" "ws = [push_bit 2 p OR drop_bit 4 q]"
    | (2) c where "y \<noteq> 0x3d" "z = 0x3d" "rest = []" "osc_base64_digit y = Some c" "c AND 3 = 0"
        "ws = [push_bit 2 p OR drop_bit 4 q, push_bit 4 q OR drop_bit 2 c]"
    | (3) c d where "osc_base64_digit y = Some c" "osc_base64_digit z = Some d"
        "ws = [push_bit 2 p OR drop_bit 4 q, push_bit 4 q OR drop_bit 2 c, push_bit 6 c OR d]"
    using g p q by (auto simp: base64_group_def split: option.splits if_splits)
  then show ?case
  proof cases
    case 1
    then show ?thesis using r group_bits1 [OF pq 1(4)]
      by (simp add: b Let_def alphabet_eq [OF p] alphabet_eq [OF q])
  next
    case (2 c)
    then show ?thesis using r group_bits2 [OF pq digit_alphabet [OF 2(4), THEN conjunct1] 2(5)]
      by (simp add: b Let_def alphabet_eq [OF p] alphabet_eq [OF q] alphabet_eq [OF 2(4)])
  next
    case (3 c d)
    then show ?thesis
      using group_bits3 [OF pq digit_alphabet [OF 3(1), THEN conjunct1] digit_alphabet [OF 3(2), THEN conjunct1]]
      by (simp add: b Let_def ih alphabet_eq [OF p] alphabet_eq [OF q] alphabet_eq [OF 3(1)] alphabet_eq [OF 3(2)])
  qed
qed (auto split: option.splits)

section \<open>The decoder against its specification\<close>

text \<open>What an accepted OSC 52 string looks like: a target field, a semicolon, canonical Base64.\<close>

definition osc_target :: "byte list \<Rightarrow> byte" where
  "osc_target field = (if field = [] then 0x63 else hd field)"

definition osc_string :: "byte list \<Rightarrow> byte list \<Rightarrow> byte list" where
  "osc_string field text = field @ 0x3b # read_encode text"

definition osc_field_ok :: "byte list \<Rightarrow> bool" where
  "osc_field_ok field \<longleftrightarrow> 0x3b \<notin> set field \<and> length field \<le> 255 \<and> osc_target field \<in> set [0x63, 0x70, 0x73]"

lemma decode_accepts:
  assumes "osc_field_ok field" "length text \<le> conclip_write_max"
  shows "\<exists>bytes. osc_clipboard_decode (osc_string field text) = (bytes, Some (length text, osc_target field)) \<and>
    take (length text) bytes = text"
proof -
  let ?s = "osc_string field text" and ?split = "length field"
  have tw: "length (takeWhile (\<lambda>b. b \<noteq> 0x3b) ?s) = ?split"
    using assms(1) by (simp add: osc_string_def osc_field_ok_def)
  have hd: "(if ?split \<noteq> 0 then ?s ! 0 else 0x63) = osc_target field"
    by (cases field) (auto simp: osc_string_def osc_target_def)
  have len: "length ?s - (?split + 1) = 4 * ((length text + 2) div 3)"
    by (simp add: osc_string_def read_encode_length)
  have m: "(length ?s - (?split + 1)) mod 4 = 0" "(length ?s - (?split + 1)) div 4 * 3 \<le> conclip_write_max + 2"
    using assms(2) unfolding len by simp_all
  have d: "drop (?split + 1) ?s = read_encode text" by (simp add: osc_string_def)
  have "?split + 1 \<le> length ?s" by (simp add: osc_string_def)
  from osc_decode_loop_eq [OF _ this m(1), of 0, unfolded d decode_read_encode]
  have loop: "snd (osc_decode_loop (length ?s) (?split + 1) ?s 0) = Some (length text)"
    "take (length text) (fst (osc_decode_loop (length ?s) (?split + 1) ?s 0)) = text" by simp_all
  obtain bytes where b: "osc_decode_loop (length ?s) (?split + 1) ?s 0 = (bytes, Some (length text))"
    using loop(1) by (metis prod.collapse)
  have "?split \<noteq> length ?s" by (simp add: osc_string_def)
  then have "osc_clipboard_decode ?s = (bytes, Some (length text, osc_target field))"
    unfolding osc_clipboard_decode_def Let_def tw hd b using assms m
    by (simp add: osc_field_ok_def)
  with loop(2) b show ?thesis by simp
qed

lemma decode_inv:
  assumes "osc_clipboard_decode s = (bytes, Some (k, target))"
  shows "\<exists>field text. s = osc_string field text \<and> osc_field_ok field \<and> target = osc_target field \<and>
    k = length text \<and> take k bytes = text \<and> length text \<le> conclip_write_max"
proof -
  define field where "field = takeWhile (\<lambda>b. b \<noteq> 0x3b) s"
  define start where "start = length field + 1"
  note e = assms [unfolded osc_clipboard_decode_def Let_def, folded field_def, folded start_def]
  have g: "length field \<noteq> length s" "length field \<le> 255" "(length s - start) mod 4 = 0"
    and t: "target = (if length field \<noteq> 0 then s ! 0 else 0x63)" "target \<in> set [0x63, 0x70, 0x73]"
    and l: "osc_decode_loop (length s) start s 0 = (bytes, Some k)" "k \<le> conclip_write_max"
    using e by (auto split: if_splits prod.splits option.splits)
  have "length field < length s" using g(1) length_takeWhile_le [of "\<lambda>b. b \<noteq> 0x3b" s] by (simp add: field_def)
  then have s: "s = field @ 0x3b # drop start s"
    unfolding field_def start_def
    by (metis (mono_tags, lifting) Cons_nth_drop_Suc Suc_eq_plus1 append_take_drop_id nth_length_takeWhile takeWhile_eq_take)
  have le: "start \<le> length s" using \<open>length field < length s\<close> by (simp add: start_def)
  from osc_decode_loop_eq [OF _ le g(3), of 0] l obtain ws where
    ws: "decode_groups (drop start s) = Some ws" "k = length ws" "take k bytes = ws"
    by (auto split: option.splits)
  have "0x3b \<notin> set field" unfolding field_def by (auto dest: set_takeWhileD)
  moreover have "target = osc_target field"
    unfolding t(1) osc_target_def by (subst s) (cases field; simp)
  ultimately have "s = osc_string field ws \<and> osc_field_ok field \<and> target = osc_target field \<and>
    k = length ws \<and> take k bytes = ws \<and> length ws \<le> conclip_write_max"
    using s read_encode_decode [OF ws(1)] g(2) t(2) ws l(2) by (simp add: osc_string_def osc_field_ok_def)
  then show ?thesis by blast
qed

section \<open>The validator accepts exactly the encodings of scalar values\<close>

lemma div_range:
  assumes "0 < m"
  shows "n div m = q \<longleftrightarrow> q * m \<le> n \<and> n < Suc q * (m :: nat)"
proof
  assume q: "n div m = q"
  have "n < m + n div m * m"
    using div_mult_mod_eq [of n m] mod_less_divisor [OF assms, of n] by linarith
  then show "q * m \<le> n \<and> n < Suc q * m" using q by auto
qed (rule div_nat_eqI; simp add: mult.commute)

lemma div_ranges:
  "n div 32 = 6 \<longleftrightarrow> 192 \<le> n \<and> n < (224 :: nat)" "n div 16 = 14 \<longleftrightarrow> 224 \<le> n \<and> n < (240 :: nat)"
  "n div 8 = 30 \<longleftrightarrow> 240 \<le> n \<and> n < (248 :: nat)"
  by (simp_all add: div_range)

lemma clip_lead_iff:
  "clip_lead b = Some (n, cp) \<longleftrightarrow> lead_byte b = Some (Suc n, cp) \<and> 194 \<le> unat b \<and> unat b \<le> 244"
proof -
  have w: "x \<le> b \<longleftrightarrow> unat x \<le> unat b" "b \<le> x \<longleftrightarrow> unat b \<le> unat x" "b < x \<longleftrightarrow> unat b < unat x" for x
    by (simp_all add: word_le_nat_alt word_less_nat_alt)
  show ?thesis
    unfolding clip_lead_def lead_byte_def byte_class div_ranges w
    by auto
qed

lemma lead_small: "lead_byte b = Some (Suc n, lead) \<Longrightarrow> n \<noteq> 0 \<Longrightarrow> unat lead < 32"
  unfolding lead_byte_numbers by (auto intro: less_trans [OF mod_less_divisor])

lemma lead_room:
  assumes "lead_byte b = Some (Suc n, lead)"
  shows "(unat lead + 1) * 64 ^ n \<le> 4294967296"
proof (cases "n = 0")
  case True
  then show ?thesis using assms byte_unat(1) [of b] by (auto simp: lead_byte_numbers)
next
  case False
  have "n \<le> 3" using lead_byte_need [OF assms] by simp
  then have "(unat lead + 1) * 64 ^ n \<le> 64 * 64 ^ 3"
    using lead_small [OF assms False] by (intro mult_le_mono power_increasing) simp_all
  then show ?thesis by simp
qed

text \<open>A sequence of more than one byte that passes the checks is the shortest form of a scalar.\<close>

lemma clip_sequence_sound:
  assumes "clip_lead b = Some (n, lead)" and c: "continuation n s lead = Some (cp, s')" and bad: "\<not> clip_bad n cp"
  shows "\<exists>t. scalar cp \<and> canonical b t cp \<and> s = t @ s'"
proof -
  have lb: "lead_byte b = Some (Suc n, lead)" "194 \<le> unat b" using assms(1) by (simp_all add: clip_lead_iff)
  from continuation_inv [OF c lead_room [OF lb(1)]] obtain t where
    t: "s = t @ s'" "length t = n" "list_all continuation_byte t" "unat cp = append_six (unat lead) t" by blast
  have "n = 1 \<Longrightarrow> 128 \<le> unat cp"
  proof -
    assume n: "n = 1"
    then have "unat lead = unat b mod 32" "unat b div 32 = 6" using lb(1) by (auto simp: lead_byte_numbers)
    then have "2 \<le> unat lead" using lb(2) div_mult_mod_eq [of "unat b" 32] by linarith
    then have "2 * 64 \<le> unat lead * 64 ^ length t" using n t(2) by simp
    then show ?thesis using append_six_range [of "unat lead" t] t(4) by linarith
  qed
  with bad have "\<not> malformed_scalar (Suc n) cp" "scalar cp"
    by (auto simp: clip_bad_def malformed_scalar_def scalar_def unat_cp_numerals)
  with lb t show ?thesis by (auto simp: canonical_def)
qed

lemma canonical_ascii: "b < 0x80 \<Longrightarrow> canonical b [] (ucast b)"
  using byte_scalar [of b] by (auto simp: canonical_def malformed_scalar_def scalar_def not_less lead_byte_def)

lemma canonical_single:
  assumes "canonical b [] cp"
  shows "b < 0x80 \<and> cp = ucast b"
  using assms by (auto simp: canonical_def lead_byte_def malformed_scalar_def word_unat_eq_iff split: if_splits option.splits)

lemma clip_sequence_complete:
  assumes "scalar cp" "canonical b t cp" "t \<noteq> []"
  shows "\<exists>lead. clip_lead b = Some (length t, lead) \<and> continuation (length t) (t @ s) lead = Some (cp, s) \<and>
    \<not> clip_bad (length t) cp \<and> \<not> b < 0x80"
proof -
  from assms(2) obtain lead where l: "lead_byte b = Some (Suc (length t), lead)" "list_all continuation_byte t"
    "append_six (unat lead) t = unat cp" "\<not> malformed_scalar (Suc (length t)) cp"
    by (auto simp: canonical_def split: option.splits prod.splits)
  note r = append_six_range [of "unat lead" t, unfolded l(3)] and range = canonical_range [OF assms(2)]
  have high: "\<not> b < 0x80"
    using l(1) assms(3) unfolding lead_byte_numbers word_less_nat_alt by auto
  have num: "length t = 1 \<and> 192 \<le> unat b \<and> unat b < 224 \<and> unat lead = unat b mod 32 \<or>
      length t = 2 \<and> 224 \<le> unat b \<and> unat b < 240 \<or>
      length t = 3 \<and> 240 \<le> unat b \<and> unat lead = unat b mod 8 \<and> unat b div 8 = 30"
    using l(1) assms(3) unfolding lead_byte_numbers div_ranges by auto
  have "194 \<le> unat b \<and> unat b \<le> 244"
    using num
  proof (elim disjE conjE)
    assume n: "length t = 1" and b: "192 \<le> unat b" "unat b < 224" "unat lead = unat b mod 32"
    have "128 \<le> unat cp" using range n by simp
    then have "2 \<le> unat lead" using r n by simp
    moreover have "unat b div 32 = 6" using b by (simp add: div_ranges)
    ultimately show ?thesis using b div_mult_mod_eq [of "unat b" 32] by linarith
  next
    assume n: "length t = 3" and b: "240 \<le> unat b" "unat lead = unat b mod 8" "unat b div 8 = 30"
    have "unat lead * 262144 \<le> 1114111"
      using r n assms(1) by (simp add: scalar_def unat_cp_numerals)
    then show ?thesis using b div_mult_mod_eq [of "unat b" 8] by linarith
  qed simp
  then have cl: "clip_lead b = Some (length t, lead)" using l(1) by (simp add: clip_lead_iff)
  from continuation_app [OF l(2) lead_room [OF l(1)], of s] obtain cp' where
    c: "continuation (length t) (t @ s) lead = Some (cp', s)" "unat cp' = unat cp" using l(3) by auto
  then have "cp' = cp" by (simp add: word_unat_eq_iff)
  moreover have "\<not> clip_bad (length t) cp"
    using l(4) assms(1) by (auto simp: clip_bad_def malformed_scalar_def scalar_def unat_cp_numerals)
  ultimately show ?thesis using high cl c(1) by simp
qed

lemma clip_char_sound:
  assumes "clip_char b s = Some s'"
  shows "\<exists>cp t. scalar cp \<and> canonical b t cp \<and> s = t @ s'"
proof (cases "b < 0x80")
  case True
  with assms byte_scalar canonical_ascii show ?thesis by (auto simp: clip_char_def)
next
  case False
  with assms obtain n lead cp where "clip_lead b = Some (n, lead)"
    and "continuation n s lead = Some (cp, s')" and "\<not> clip_bad n cp"
    by (auto simp: clip_char_def split: option.splits prod.splits if_splits)
  from clip_sequence_sound [OF this] show ?thesis by blast
qed

lemma clip_char_complete:
  assumes "scalar cp" "canonical b t cp"
  shows "clip_char b (t @ s) = Some s"
proof (cases "t = []")
  case True
  then show ?thesis using assms(2) canonical_single by (auto simp: clip_char_def)
next
  case False
  then show ?thesis using clip_sequence_complete [OF assms False, of s] by (auto simp: clip_char_def)
qed

lemma clip_utf8_iff:
  "con_osc_clipboard_utf8 bytes \<longleftrightarrow> (\<exists>cps. list_all scalar cps \<and> bytes = concat (map con_utf8_encode cps))"
proof
  show "con_osc_clipboard_utf8 bytes \<Longrightarrow> \<exists>cps. list_all scalar cps \<and> bytes = concat (map con_utf8_encode cps)"
  proof (induction bytes rule: con_osc_clipboard_utf8.induct)
    case (2 b s)
    then obtain s' where s': "clip_char b s = Some s'" "con_osc_clipboard_utf8 s'" by (auto split: option.splits)
    from 2(1) [OF s'] obtain cps where "list_all scalar cps" "s' = concat (map con_utf8_encode cps)" by blast
    moreover from clip_char_sound [OF s'(1)] obtain cp t where "scalar cp" "canonical b t cp" "s = t @ s'" by blast
    ultimately show ?case by (intro exI [of _ "cp # cps"]) (simp add: canonical_encode)
  qed (auto intro: exI [of _ "[]"])
next
  assume "\<exists>cps. list_all scalar cps \<and> bytes = concat (map con_utf8_encode cps)"
  then obtain cps where "list_all scalar cps" "bytes = concat (map con_utf8_encode cps)" by blast
  then show "con_osc_clipboard_utf8 bytes"
  proof (induction cps arbitrary: bytes)
    case (Cons cp cps)
    then have sc: "scalar cp" by simp
    then obtain b t where e: "con_utf8_encode cp = b # t" by (rule decode_encode)
    from clip_char_complete [OF sc encode_canonical [OF sc e]]
    have "clip_char b (t @ concat (map con_utf8_encode cps)) = Some (concat (map con_utf8_encode cps))" .
    with Cons e show ?case by simp
  qed simp
qed

section \<open>Properties\<close>

text \<open>
  C8. \<open>osc_clipboard_decode\<close>, which decodes in the buffer it reads, accepts exactly the strings
  that consist of a target field, a semicolon and the canonical Base64 of at most one MiB, and leaves
  exactly those bytes at the front of the buffer: nothing malformed, unpadded or non-canonical passes.
\<close>

theorem clipboard_decode_exact:
  "(\<exists>bytes k target. osc_clipboard_decode s = (bytes, Some (k, target)) \<and> take k bytes = text \<and> k = length text \<and> t = target)
   \<longleftrightarrow> (\<exists>field. s = osc_string field text \<and> osc_field_ok field \<and> t = osc_target field \<and>
         length text \<le> conclip_write_max)"
proof
  assume "\<exists>bytes k target. osc_clipboard_decode s = (bytes, Some (k, target)) \<and> take k bytes = text \<and> k = length text \<and> t = target"
  then show "\<exists>field. s = osc_string field text \<and> osc_field_ok field \<and> t = osc_target field \<and> length text \<le> conclip_write_max"
    using decode_inv by blast
next
  assume "\<exists>field. s = osc_string field text \<and> osc_field_ok field \<and> t = osc_target field \<and> length text \<le> conclip_write_max"
  then show "\<exists>bytes k target. osc_clipboard_decode s = (bytes, Some (k, target)) \<and> take k bytes = text \<and> k = length text \<and> t = target"
    using decode_accepts by blast
qed

text \<open>
  C25. The validator accepts exactly the byte strings that are the UTF-8 encoding of a sequence of
  Unicode scalar values: no overlong form, surrogate, truncated or out of range sequence.
\<close>

theorem clipboard_utf8_exact:
  "con_osc_clipboard_utf8 bytes \<longleftrightarrow> (\<exists>cps. list_all scalar cps \<and> bytes = concat (map con_utf8_encode cps))"
  by (rule clip_utf8_iff)

fun collect :: "(byte \<times> bool) list \<Rightarrow> osc_unit \<Rightarrow> osc_unit option" where
  "collect [] u = Some u"
| "collect ((b, alloc) # bs) u =
     (case con_osc_clipboard_byte u b alloc of None \<Rightarrow> None | Some u' \<Rightarrow> collect bs u')"

definition collector_ok :: "osc_unit \<Rightarrow> bool" where
  "collector_ok u \<longleftrightarrow> length (oscClipboard u) \<le> oscClipboardCapacity u \<and>
     oscClipboardCapacity u \<le> osc_clipboard_max \<and>
     (oscCopyDisabled u AND 1 \<noteq> 0 \<longrightarrow> length (oscClipboard u) \<le> 258)"

lemma collector_step:
  assumes "collector_ok u"
  shows "\<exists>u'. con_osc_clipboard_byte u b alloc = Some u' \<and> collector_ok u' \<and> oscCopyDisabled u' = oscCopyDisabled u"
proof -
  have "256 \<le> osc_clipboard_max" by (simp add: osc_clipboard_max_def)
  with assms show ?thesis
    unfolding con_osc_clipboard_byte_def Let_def collector_ok_def
    by (auto simp: not_le)
qed

lemma collect_ok:
  assumes "collector_ok u"
  shows "\<exists>u'. collect bs u = Some u' \<and> collector_ok u'"
  using assms
proof (induction bs arbitrary: u)
  case (Cons ba bs)
  obtain b alloc where ba: "ba = (b, alloc)" by (cases ba)
  from collector_step [OF Cons.prems, of b alloc] obtain u' where
    "con_osc_clipboard_byte u b alloc = Some u'" "collector_ok u'" by blast
  with Cons.IH [of u'] ba show ?case by simp
qed simp

text \<open>
  C36. Collecting any bytes after a reset never writes outside the allocation, whatever the allocator
  answers: the buffer length stays within the capacity, the capacity within the OSC 52 limit, and
  with copying disabled at most 258 bytes are kept.
\<close>

theorem clipboard_collect_bounded:
  "case collect bs (con_osc_clipboard_reset u) of None \<Rightarrow> False | Some u' \<Rightarrow> collector_ok u'"
  using collect_ok [of "con_osc_clipboard_reset u" bs]
  by (auto simp: collector_ok_def con_osc_clipboard_reset_def osc_clipboard_max_def)



lemma poll_injected:
  "(unit, bytes) \<in> set (fst (con_osc_read_poll valid_unit flags alloc jobs)) \<Longrightarrow>
     flags unit AND 2 \<noteq> 0 \<and> (\<exists>j \<in> set jobs. rj_unit j = unit \<and> rj_valid j \<and> valid_unit unit (rj_generation j))"
  by (induction jobs) (auto simp: Let_def split: option.splits prod.splits if_splits)

lemma poll_kept:
  "snd (con_osc_read_poll valid_unit flags alloc jobs) = filter (\<lambda>j. rj_reply j = None) jobs"
  by (induction jobs) (auto simp: Let_def split: option.splits prod.splits)


definition demo_read_job :: "nat \<Rightarrow> read_job" where
  "demo_read_job unit = \<lparr>rj_unit = unit, rj_generation = 7, rj_target = 0x63, rj_st = False, rj_valid = True,
     rj_reply = Some \<lparr>rr_ok = True, rr_data = Some [0x68, 0x69], rr_length = 2\<rparr>\<rparr>"



definition demo_clip_env :: clip_env where
  "demo_clip_env = \<lparr>e_available = False, e_job = True, e_port = True, e_alloc = True, e_hook = True\<rparr>"

definition demo_clip_base :: clip_base where
  "demo_clip_base = \<lparr>copyBuffer = [], sniphooks = 1, hook_calls = [], copy_jobs = []\<rparr>"

definition demo_osc_unit :: osc_unit where
  "demo_osc_unit = \<lparr>oscClipboard = [0x63, 0x3b, 0x61, 0x47, 0x6b, 0x3d], oscClipboardCapacity = 256,
     oscClipboardInvalid = False, oscCopyDisabled = 0\<rparr>"


end
