(* ===== verification/Csi.thy ===== *)
theory Csi
  imports Clipboard Keyboard
begin

text \<open>
  The sub-parsers of \<open>devs/consoleng/support.c\<close>: each looks at the bytes after an introducer and
  either declines (\<open>None\<close>) or answers the command, its parameters and the rest of the input. A
  parameter slot of the C table holds a number, a negative tag or a pointer to a string; here it is
  one of three constructors, a string parameter being the bytes the pointer and its length slot
  denote. The console classes that execute commands are reached through one call,
  \<open>Console_DoCommand\<close>; they are the field \<open>cc_do\<close> of the environment, as are the answers of
  the mode query, of the synchronized-output test and of the allocator.
\<close>

section \<open>Commands and the state the parser keeps\<close>

text \<open>The command codes of \<open>console_gcc.h\<close> the parser can answer, in four groups.\<close>

datatype control_cmd =
    C_NIL | C_ESC | C_BELL | C_BACKSPACE | C_HTAB | C_LINEFEED | C_VTAB | C_FORMFEED
  | C_CARRIAGE_RETURN | C_SHIFT_IN | C_SHIFT_OUT | C_INDEX | C_NEXT_LINE | C_H_TAB_SET | C_REVERSE_IDX

datatype edit_cmd =
    C_INSERT_CHAR | C_CURSOR_UP | C_CURSOR_DOWN | C_CURSOR_FORWARD | C_CURSOR_BACKWARD
  | C_CURSOR_NEXT_LINE | C_CURSOR_PREV_LINE | C_CURSOR_POS | C_CURSOR_COLUMN | C_CURSOR_ROW | C_CURSOR_HTAB
  | C_ERASE_IN_DISPLAY | C_ERASE_IN_LINE | C_INSERT_LINE | C_DELETE_LINE | C_DELETE_CHAR | C_ERASE_CHAR
  | C_SCROLL_UP | C_SCROLL_DOWN | C_CURSOR_TAB_CTRL | C_CLEAR_TABS | C_CURSOR_BACKTAB

datatype mode_cmd =
    C_SET_LF_MODE | C_RESET_LF_MODE | C_CURSOR_VISIBLE | C_CURSOR_INVISIBLE
  | C_SET_RAWEVENTS | C_RESET_RAWEVENTS
  | C_SET_AUTOWRAP_MODE | C_RESET_AUTOWRAP_MODE | C_SET_AUTOSCROLL_MODE | C_RESET_AUTOSCROLL_MODE
  | C_SET_PAGE_LENGTH | C_SET_LINE_LENGTH | C_SET_LEFT_OFFSET | C_SET_TOP_OFFSET
  | C_SET_UTF8_MODE | C_RESET_UTF8_MODE | C_SET_OBSCURED | C_RESET_OBSCURED
  | C_ALTERNATE_SCREEN | C_SET_CURSOR_STYLE | C_SET_CURSOR_BLINK
  | C_SET_SCROLL_REGION | C_SET_ORIGIN_MODE | C_SET_SYNC_OUTPUT

datatype text_cmd =
    C_ASCII | C_ASCII_STRING | C_REPEAT_CHAR | C_SELECT_GRAPHIC_RENDITION
  | C_SET_FONT | C_SET_TITLE | C_SET_COLOR | C_SAVE_CURSOR | C_RESTORE_CURSOR
  | C_TERMINAL_RESET | C_SCREEN_ALIGNMENT | C_DEVICE_STATUS_REPORT | C_WINDOW_STATUS_REQUEST
  | C_PRIMARY_ATTRIBUTES | C_SECONDARY_ATTRIBUTES | C_PUSH_TITLE | C_POP_TITLE
  | C_REPORT_CELL_GEOMETRY | C_REPORT_PIXEL_GEOMETRY | C_SET_HYPERLINK | C_SET_CURSOR_SHAPE
  | C_SET_OSC_CLIPBOARD

datatype con_cmd = Control control_cmd | Edit edit_cmd | Mode mode_cmd | Text text_cmd

datatype param = P nat | PNeg nat | PStr "byte list"

type_synonym parsed = "con_cmd \<times> param list \<times> byte list"

datatype con_event = Render_cursor | UnRender_cursor | Inject "byte list" | Command con_cmd "param list" bool

text \<open>
  The unit's fields the console classes may change, and those only the parser touches
  (record \<open>cunit\<close> in theory \<open>Parser\<close>). \<open>events\<close> records what reached the display and the input;
  \<open>derailed\<close> is no field of the code: it records that the read pointer was moved backwards, out of
  the input that is left, and \<open>con_parse_output\<close> then has no result.
\<close>

record modes =
  conFlags :: "32 word"
  modeLNM :: bool
  modeAWM :: bool
  modeASM :: bool
  mouseMode :: nat
  mouseSGR :: bool
  mouseUTF8 :: bool
  mouseLastValid :: bool
  mouseReportedButtons :: byte
  utf8Stash :: "byte list"
  charsets :: byte
  activeCharset :: nat
  lastPrintable :: codepoint
  hasLastPrintable :: bool
  renderUTF8 :: bool
  clip :: osc_unit
  keyb :: kb_unit
  derailed :: bool
  events :: "con_event list"

record con_class =
  cc_do :: "modes \<Rightarrow> con_cmd \<Rightarrow> param list \<Rightarrow> modes"
  cc_mode_state :: "modes \<Rightarrow> bool \<Rightarrow> nat \<Rightarrow> nat"
  cc_buffering :: "modes \<Rightarrow> bool"
  cc_alloc :: "nat \<Rightarrow> bool"

definition CF_UTF8 :: "32 word" where "CF_UTF8 = push_bit 2 1"
definition CF_OBSCURED :: "32 word" where "CF_OBSCURED = push_bit 3 1"
definition CF_BRACKETED_PASTE :: "32 word" where "CF_BRACKETED_PASTE = push_bit 4 1"
definition CF_FOCUS_REPORTING :: "32 word" where "CF_FOCUS_REPORTING = push_bit 5 1"
definition CF_COLOR_SCHEME_NOTIFY :: "32 word" where "CF_COLOR_SCHEME_NOTIFY = push_bit 6 1"
definition CF_WRAP_PENDING :: "32 word" where "CF_WRAP_PENDING = push_bit 7 1"
definition CF_APPLICATION_CURSOR :: "32 word" where "CF_APPLICATION_CURSOR = push_bit 8 1"
definition CF_APPLICATION_KEYPAD :: "32 word" where "CF_APPLICATION_KEYPAD = push_bit 9 1"
definition CF_INSERT_MODE :: "32 word" where "CF_INSERT_MODE = push_bit 10 1"
definition CF_ORIGIN_MODE :: "32 word" where "CF_ORIGIN_MODE = push_bit 11 1"
definition CF_ALTERNATE_SCROLL :: "32 word" where "CF_ALTERNATE_SCROLL = push_bit 12 1"

definition con_is_utf8 :: "modes \<Rightarrow> bool" where
  "con_is_utf8 m \<longleftrightarrow> conFlags m AND CF_UTF8 \<noteq> 0"

definition set_flag :: "32 word \<Rightarrow> bool \<Rightarrow> modes \<Rightarrow> modes" where
  "set_flag f b m = m\<lparr>conFlags := (if b then conFlags m OR f else conFlags m AND NOT f)\<rparr>"

definition emit :: "con_event \<Rightarrow> modes \<Rightarrow> modes" where
  "emit ev m = m\<lparr>events := events m @ [ev]\<rparr>"

section \<open>Shared scanners\<close>

definition is_digit :: "byte \<Rightarrow> bool" where
  "is_digit b \<longleftrightarrow> 0x30 \<le> b \<and> b \<le> 0x39"

definition digit_value :: "byte \<Rightarrow> nat" where
  "digit_value b = unat b - 48"

fun split_on :: "byte \<Rightarrow> byte list \<Rightarrow> byte list list" where
  "split_on c [] = [[]]"
| "split_on c (b # bs) =
     (if b = c then [] # split_on c bs
      else case split_on c bs of [] \<Rightarrow> [[b]] | f # fs \<Rightarrow> (b # f) # fs)"

text \<open>A decimal number that saturates at a limit after each digit.\<close>

definition decimal_sat :: "nat \<Rightarrow> byte list \<Rightarrow> nat" where
  "decimal_sat limit s = foldl (\<lambda>v b. min (v * 10 + digit_value b) limit) 0 s"

text \<open>A mode number with the overflow flag of the mode parsers: \<open>None\<close> above 65535.\<close>

definition mode_number :: "byte list \<Rightarrow> nat option" where
  "mode_number s =
     foldl (\<lambda>v b. case v of
         None \<Rightarrow> None
       | Some n \<Rightarrow> if n > (65535 - digit_value b) div 10 then None else Some (n * 10 + digit_value b)) (Some 0) s"

section \<open>Escape sequences without parameters\<close>

definition getcharset :: "byte list \<Rightarrow> modes \<Rightarrow> (parsed \<times> modes) option" where
  "getcharset s m =
     (case s of
        p0 # p1 # p2 # rest \<Rightarrow>
          if p0 \<noteq> 0x1b \<or> p1 < 0x28 \<or> p1 > 0x2b then None
          else if p2 < 0x20 \<or> p2 > 0x7e then Some ((Control C_NIL, [], p2 # rest), m)
          else
            let b = push_bit (unat (p1 - 0x28)) 1 in
            Some ((Control C_NIL, [], rest),
              m\<lparr>charsets := (if p2 = 0x30 then charsets m OR b
                             else if p2 = 0x42 then charsets m AND NOT b else charsets m)\<rparr>)
      | _ \<Rightarrow> None)"

definition getkeypadmode :: "byte list \<Rightarrow> modes \<Rightarrow> (parsed \<times> modes) option" where
  "getkeypadmode s m =
     (case s of
        p0 # p1 # rest \<Rightarrow>
          if p0 \<noteq> 0x1b \<or> (p1 \<noteq> 0x3d \<and> p1 \<noteq> 0x3e) then None
          else Some ((Control C_NIL, [], rest), set_flag CF_APPLICATION_KEYPAD (p1 = 0x3d) m)
      | _ \<Rightarrow> None)"

definition short_command :: "byte \<Rightarrow> con_cmd option" where
  "short_command b =
     (if b = 0x44 then Some (Control C_INDEX)
      else if b = 0x45 then Some (Control C_NEXT_LINE)
      else if b = 0x48 then Some (Control C_H_TAB_SET)
      else if b = 0x4d then Some (Control C_REVERSE_IDX)
      else if b = 0x37 then Some (Text C_SAVE_CURSOR)
      else if b = 0x38 then Some (Text C_RESTORE_CURSOR)
      else if b = 0x63 then Some (Text C_TERMINAL_RESET)
      else if b = 0x5a then Some (Text C_PRIMARY_ATTRIBUTES)
      else if b = 0x5c then Some (Control C_NIL)
      else None)"

definition getshortescape :: "byte list \<Rightarrow> parsed option" where
  "getshortescape s =
     (case s of
        p0 # p1 # rest \<Rightarrow>
          if p0 \<noteq> 0x1b then None
          else if p1 = 0x23 then
            (case rest of
               [] \<Rightarrow> None
             | p2 # rest' \<Rightarrow>
                 Some (if p2 = 0x38 then Text C_SCREEN_ALIGNMENT else Control C_NIL, [],
                       if p2 < 0x20 \<or> p2 > 0x7e then rest else rest'))
          else map_option (\<lambda>c. (c, [], rest)) (short_command p1)
      | _ \<Rightarrow> None)"

fun saved_cursor_scan :: "byte list \<Rightarrow> parsed option" where
  "saved_cursor_scan [] = None"
| "saved_cursor_scan (b # rest) =
     (if is_digit b \<or> b = 0x3b \<or> b = 0x3a then saved_cursor_scan rest
      else if b \<noteq> 0x73 \<and> b \<noteq> 0x75 then None
      else Some (if b = 0x73 then Text C_SAVE_CURSOR else Text C_RESTORE_CURSOR, [], rest))"

definition getansisavedcursor :: "byte list \<Rightarrow> parsed option" where
  "getansisavedcursor s =
     (case s of
        p0 # p1 # rest \<Rightarrow> if rest = [] \<or> p0 \<noteq> 0x1b \<or> p1 \<noteq> 0x5b then None else saved_cursor_scan rest
      | _ \<Rightarrow> None)"

text \<open>The selector saturates at 24, which no window command uses.\<close>

definition window_selector :: "byte list \<Rightarrow> nat" where
  "window_selector s =
     foldl (\<lambda>v b. let v' = (if v < 24 then v * 10 + digit_value b else v) in if v' > 24 then 24 else v') 0 s"

definition getwindowcommand :: "byte list \<Rightarrow> parsed option" where
  "getwindowcommand s =
     (case s of
        p0 # p1 # rest \<Rightarrow>
          if rest = [] \<or> p0 \<noteq> 0x1b \<or> p1 \<noteq> 0x5b then None
          else
            let selector = window_selector (takeWhile is_digit rest);
                tl' = dropWhile (\<lambda>b. b = 0x3b \<or> b = 0x3a \<or> is_digit b) (dropWhile is_digit rest)
            in
            (case tl' of
               [] \<Rightarrow> None
             | t # rest' \<Rightarrow>
                 if t \<noteq> 0x74 then None
                 else Some (if selector = 14 then Text C_REPORT_PIXEL_GEOMETRY
                            else if selector = 18 then Text C_REPORT_CELL_GEOMETRY
                            else if selector = 22 then Text C_PUSH_TITLE
                            else if selector = 23 then Text C_POP_TITLE
                            else Control C_NIL, [], rest'))
      | _ \<Rightarrow> None)"

section \<open>Graphic rendition with colon groups\<close>

definition max_command_params :: nat where "max_command_params = 16"

text \<open>The values collected so far and the overflow flag; one value is pushed.\<close>

definition sgr_push :: "param \<Rightarrow> param list \<times> bool \<Rightarrow> param list \<times> bool" where
  "sgr_push v acc =
     (case acc of (values, overflow) \<Rightarrow>
        if length values < max_command_params then (values @ [v], overflow) else (values, True))"

text \<open>An underline style group, the bytes after the first colon.\<close>

definition sgr_underline :: "byte list \<Rightarrow> param" where
  "sgr_underline sub =
     (let digits = takeWhile (\<lambda>b. b \<noteq> 0x3a) sub;
          style0 = decimal_sat 65535 digits;
          style = (if digits \<noteq> sub \<or> style0 > 5 then 1 else style0)
      in if style > 2 then PNeg style
         else if style = 0 then P 24 else if style = 1 then P 4 else P 21)"

text \<open>An indexed or direct color group: the values it pushes, none when it is not understood.\<close>

definition sgr_color :: "nat \<Rightarrow> byte list \<Rightarrow> param list" where
  "sgr_color code sub =
     (let parts = split_on 0x3a sub;
          fields = length parts;
          part = (\<lambda>i. if i < fields \<and> i < 5 then decimal_sat 65535 (parts ! i) else 0);
          missing = filter (\<lambda>i. i < fields \<and> parts ! i = []) [0..<5];
          indexed = (fields = 2 \<and> missing = [] \<and> part 0 = 5 \<and> part 1 \<le> 255);
          rgb = (if fields = 5 then 2 else 1);
          direct = ((fields = 4 \<or> fields = 5) \<and> part 0 = 2 \<and>
             (if fields = 4 then missing = [] else set missing \<subseteq> {1} \<and> part 1 = 0) \<and>
             part rgb \<le> 255 \<and> part (rgb + 1) \<le> 255 \<and> part (rgb + 2) \<le> 255)
      in if indexed then [P code, P 5, P (part 1)]
         else if direct then [P code, P 2, P (part rgb), P (part (rgb + 1)), P (part (rgb + 2))]
         else [])"

definition sgr_group :: "byte list \<Rightarrow> param list \<times> bool \<Rightarrow> param list \<times> bool" where
  "sgr_group field acc =
     (let digits = takeWhile (\<lambda>b. b \<noteq> 0x3a) field; value = decimal_sat 65535 digits in
      if digits = field then sgr_push (P value) acc
      else
        let sub = drop (length digits + 1) field in
        if value = 4 then sgr_push (sgr_underline sub) acc
        else if value = 38 \<or> value = 48 \<or> value = 58 then
          (case acc of (values, overflow) \<Rightarrow>
             let new = sgr_color value sub in
             if length values + length new > max_command_params then (values, True)
             else (values @ new, overflow))
        else acc)"

definition sgr_char :: "byte \<Rightarrow> bool" where
  "sgr_char b \<longleftrightarrow> b = 0x3a \<or> b = 0x3b \<or> is_digit b"

definition getcolonsgr :: "bool \<Rightarrow> byte list \<Rightarrow> parsed option" where
  "getcolonsgr modern s =
     (let body = takeWhile (\<lambda>b. b \<noteq> 0x6d) s in
      if \<not> list_all sgr_char body \<or> body = s then None
      else
        let colon = (0x3a \<in> set body);
            defaults = (\<exists>i \<in> set [0..<length body]. body ! i = 0x3b \<and>
                 (i = 0 \<or> body ! (i - 1) = 0x3b \<or> i + 1 = length body))
        in
        if \<not> colon \<and> \<not> (modern \<and> defaults) then None
        else
          (case fold sgr_group (split_on 0x3b body) ([], False) of
             (values, overflow) \<Rightarrow>
               Some (if \<not> overflow \<and> values \<noteq> [] then Text C_SELECT_GRAPHIC_RENDITION else Control C_NIL,
                     if overflow then [] else values,
                     drop (length body + 1) s)))"

section \<open>Status, margins, positions, styles\<close>

text \<open>A selector scanner that gives up once the number so far exceeds a limit.\<close>

fun selector_scan :: "nat \<Rightarrow> byte list \<Rightarrow> nat \<Rightarrow> (nat \<times> byte list) option" where
  "selector_scan limit [] v = Some (v, [])"
| "selector_scan limit (b # bs) v =
     (if \<not> is_digit b then Some (v, b # bs)
      else if v > limit then None
      else selector_scan limit bs (v * 10 + digit_value b))"

definition getstatusrequest :: "bool \<Rightarrow> byte list \<Rightarrow> parsed option" where
  "getstatusrequest native s =
     (if s \<noteq> [] \<and> hd s = 0x3f then
        (case selector_scan 996 (tl s) 0 of
           Some (v, b # rest) \<Rightarrow>
             if b = 0x6e \<and> v = 996
             then Some (Text C_DEVICE_STATUS_REPORT, [P 996, P (of_bool native)], rest) else None
         | _ \<Rightarrow> None)
      else if native \<and> (take 2 s = [0x20, 0x71] \<or> take 3 s = [0x30, 0x20, 0x71]) then
        Some (Text C_WINDOW_STATUS_REQUEST, [], drop (if hd s = 0x30 then 3 else 2) s)
      else
        let secondary = (s \<noteq> [] \<and> hd s = 0x3e); s' = (if secondary then tl s else s) in
        (case selector_scan 6 s' 0 of
           Some (v, b # rest) \<Rightarrow>
             if b = 0x63 \<and> v = 0 then
               Some (if secondary then Text C_SECONDARY_ATTRIBUTES else Text C_PRIMARY_ATTRIBUTES, [], rest)
             else if secondary \<or> b # rest = s \<or> b \<noteq> 0x6e \<or> (v \<noteq> 5 \<and> v \<noteq> 6) then None
             else Some (Text C_DEVICE_STATUS_REPORT, [P v, P (of_bool native)], rest)
         | _ \<Rightarrow> None))"

text \<open>Two numeric fields separated by a semicolon; an omitted digit sequence keeps the default.\<close>

fun field_scan :: "byte list \<Rightarrow> bool \<Rightarrow> bool \<Rightarrow> nat \<Rightarrow> nat \<Rightarrow> (bool \<times> nat \<times> nat \<times> byte list) option" where
  "field_scan [] second digits v0 v1 = Some (second, v0, v1, [])"
| "field_scan (b # bs) second digits v0 v1 =
     (if is_digit b then
        (let v = (if second then v1 else v0);
             w = min ((if digits then v else 0) * 10 + digit_value b) 65535
         in if second then field_scan bs second True v0 w else field_scan bs second True w v1)
      else if b = 0x3b then (if second then None else field_scan bs True False v0 v1)
      else Some (second, v0, v1, b # bs))"

definition getscrollregion :: "byte list \<Rightarrow> parsed option" where
  "getscrollregion s =
     (case field_scan s False False 0 0 of
        Some (_, v0, v1, b # rest) \<Rightarrow>
          if b = 0x72 then Some (Mode C_SET_SCROLL_REGION, [P v0, P v1], rest) else None
      | _ \<Rightarrow> None)"

definition getabsolutecommand :: "byte list \<Rightarrow> parsed option" where
  "getabsolutecommand s =
     (case field_scan s False False 1 1 of
        Some (second, v0, v1, b # rest) \<Rightarrow>
          if b = 0x48 \<or> b = 0x66 then Some (Edit C_CURSOR_POS, [P v0, P v1], rest)
          else if second then None
          else if b = 0x47 \<or> b = 0x60 then Some (Edit C_CURSOR_COLUMN, [P v0], rest)
          else if b = 0x64 then Some (Edit C_CURSOR_ROW, [P v0], rest)
          else None
      | _ \<Rightarrow> None)"

definition getcursorstylecommand :: "byte list \<Rightarrow> parsed option" where
  "getcursorstylecommand s =
     (let style = decimal_sat 7 (takeWhile is_digit s) in
      case dropWhile is_digit s of
        b # c # rest \<Rightarrow>
          if b = 0x20 \<and> c = 0x71 then
            Some (if style \<le> 6 then (Mode C_SET_CURSOR_STYLE, [P style], rest)
                  else (Control C_NIL, [], rest))
          else None
      | _ \<Rightarrow> None)"

section \<open>Modes\<close>

definition ansi_mode :: "con_class \<Rightarrow> bool \<Rightarrow> byte list \<Rightarrow> modes \<Rightarrow> modes" where
  "ansi_mode e setm field m =
     (case mode_number field of
        Some mode \<Rightarrow>
          if mode = 4 then set_flag CF_INSERT_MODE setm m
          else if mode = 20 then cc_do e m (Mode (if setm then C_SET_LF_MODE else C_RESET_LF_MODE)) []
          else m
      | None \<Rightarrow> m)"

definition getansimodecommand :: "con_class \<Rightarrow> byte list \<Rightarrow> modes \<Rightarrow> (parsed \<times> modes) option" where
  "getansimodecommand e s m =
     (let list = takeWhile (\<lambda>b. is_digit b \<or> b = 0x3b) s in
      case drop (length list) s of
        b # rest \<Rightarrow>
          if list = [] \<or> (b \<noteq> 0x68 \<and> b \<noteq> 0x6c) then None
          else Some ((Control C_NIL, [], rest), fold (ansi_mode e (b = 0x68)) (split_on 0x3b list) m)
      | [] \<Rightarrow> None)"

text \<open>DECRQM: the reply is built with \<open>snprintf\<close>, whose \<open>%lu\<close> is decimal notation.\<close>

definition getmoderequest :: "con_class \<Rightarrow> byte list \<Rightarrow> modes \<Rightarrow> (parsed \<times> modes) option" where
  "getmoderequest e s m =
     (let privateMode = (s \<noteq> [] \<and> hd s = 0x3f);
          s' = (if privateMode then tl s else s);
          digits = takeWhile is_digit s'
      in case drop (length digits) s' of
        b # c # rest \<Rightarrow>
          if b \<noteq> 0x24 \<or> c \<noteq> 0x70 then None
          else
            Some ((Control C_NIL, [], rest),
              case mode_number digits of
                None \<Rightarrow> m
              | Some mode \<Rightarrow>
                  emit (Inject ([0x1b, 0x5b] @ (if privateMode then [0x3f] else []) @
                    con_keyboard_decimal mode @ [0x3b] @
                    con_keyboard_decimal (cc_mode_state e m privateMode mode) @ [0x24, 0x79])) m)
      | _ \<Rightarrow> None)"

text \<open>One value of a DEC private mode list: the command answered so far and the state.\<close>

definition mouse_mode :: "nat \<Rightarrow> bool \<Rightarrow> modes \<Rightarrow> modes" where
  "mouse_mode value setm m =
     (let m1 = (if (setm \<and> mouseMode m \<noteq> value) \<or> (\<not> setm \<and> mouseMode m = value)
                then m\<lparr>mouseReportedButtons := 0\<rparr> else m);
          m2 = (if setm then m1\<lparr>mouseMode := value\<rparr>
                else if mouseMode m1 = value then m1\<lparr>mouseMode := 0\<rparr> else m1)
      in m2\<lparr>mouseLastValid := False\<rparr>)"

definition dec_mode :: "con_class \<Rightarrow> bool \<Rightarrow> nat \<Rightarrow> con_cmd \<times> modes \<Rightarrow> con_cmd \<times> modes" where
  "dec_mode e setm value cm =
     (case cm of (cmd, m) \<Rightarrow>
        if value = 1 then (cmd, set_flag CF_APPLICATION_CURSOR setm m)
        else if value = 3 then
          (cmd, cc_do e (cc_do e m (Mode C_SET_SCROLL_REGION) [P 0, P 0]) (Edit C_ERASE_IN_DISPLAY) [P 2])
        else if value = 6 then (cmd, cc_do e m (Mode C_SET_ORIGIN_MODE) [P (of_bool setm)])
        else if value = 7 then
          (cmd, cc_do e m (Mode (if setm then C_SET_AUTOWRAP_MODE else C_RESET_AUTOWRAP_MODE)) [])
        else if value = 12 then (cmd, cc_do e m (Mode C_SET_CURSOR_BLINK) [P (of_bool setm)])
        else if value = 25 then (Mode (if setm then C_CURSOR_VISIBLE else C_CURSOR_INVISIBLE), m)
        else if value = 1049 then (cmd, cc_do e m (Mode C_ALTERNATE_SCREEN) [P (of_bool setm)])
        else if value = 2026 then (cmd, cc_do e m (Mode C_SET_SYNC_OUTPUT) [P (of_bool setm)])
        else if value = 2004 then (cmd, set_flag CF_BRACKETED_PASTE setm m)
        else if value = 1000 \<or> value = 1002 \<or> value = 1003 then (cmd, mouse_mode value setm m)
        else if value = 1005 then
          (cmd, m\<lparr>mouseUTF8 := setm, mouseSGR := (if setm then False else mouseSGR m)\<rparr>)
        else if value = 1006 then
          (cmd, m\<lparr>mouseSGR := setm, mouseUTF8 := (if setm then False else mouseUTF8 m)\<rparr>)
        else if value = 1007 then (cmd, set_flag CF_ALTERNATE_SCROLL setm m)
        else if value = 1004 then (cmd, set_flag CF_FOCUS_REPORTING setm m)
        else if value = 2031 then (cmd, set_flag CF_COLOR_SCHEME_NOTIFY setm m)
        else (cmd, m))"

text \<open>The scan of the list; it stops after the first byte that is neither digit nor semicolon.\<close>

fun dec_scan ::
  "con_class \<Rightarrow> bool \<Rightarrow> byte list \<Rightarrow> nat \<Rightarrow> bool \<Rightarrow> con_cmd \<times> modes \<Rightarrow> (con_cmd \<times> modes) \<times> byte list" where
  "dec_scan e setm [] value have cm = (cm, [])"
| "dec_scan e setm (c # cs) value have cm =
     (if is_digit c then dec_scan e setm cs (min (value * 10 + digit_value c) 65535) True cm
      else
        let cm' = (if have then dec_mode e setm value cm else cm) in
        if c = 0x3b then dec_scan e setm cs 0 False cm' else (cm', cs))"

definition getdecprivatecommand :: "con_class \<Rightarrow> byte list \<Rightarrow> modes \<Rightarrow> (parsed \<times> modes) option" where
  "getdecprivatecommand e s m =
     (case s of
        q # body \<Rightarrow>
          if body = [] \<or> q \<noteq> 0x3f then None
          else
            let ps = takeWhile (\<lambda>b. 0x30 \<le> b \<and> b \<le> 0x3f) body in
            (case drop (length ps) body of
               [] \<Rightarrow> None
             | f # rest \<Rightarrow>
                 if f < 0x40 \<or> f > 0x7e then None
                 else if f \<noteq> 0x68 \<and> f \<noteq> 0x6c then Some ((Control C_NIL, [], rest), m)
                 else
                   (case dec_scan e (f = 0x68) body 0 False (Control C_NIL, m) of
                      ((cmd, m'), rest') \<Rightarrow> Some ((cmd, [], rest'), m')))
      | [] \<Rightarrow> None)"

section \<open>Commands with parameters\<close>

text \<open>The table \<open>csi2command\<close>: the command of a final byte and its greatest number of parameters.\<close>

definition csi2command :: "byte \<Rightarrow> (con_cmd \<times> nat) option" where
  "csi2command b = map_of
     [(0x40, (Edit C_INSERT_CHAR, 1)), (0x41, (Edit C_CURSOR_UP, 1)), (0x42, (Edit C_CURSOR_DOWN, 1)),
      (0x43, (Edit C_CURSOR_FORWARD, 1)), (0x44, (Edit C_CURSOR_BACKWARD, 1)),
      (0x45, (Edit C_CURSOR_NEXT_LINE, 1)), (0x46, (Edit C_CURSOR_PREV_LINE, 1)),
      (0x47, (Edit C_CURSOR_COLUMN, 1)), (0x48, (Edit C_CURSOR_POS, 2)), (0x49, (Edit C_CURSOR_HTAB, 1)),
      (0x4A, (Edit C_ERASE_IN_DISPLAY, 1)), (0x4B, (Edit C_ERASE_IN_LINE, 1)), (0x4C, (Edit C_INSERT_LINE, 1)),
      (0x4D, (Edit C_DELETE_LINE, 1)), (0x50, (Edit C_DELETE_CHAR, 1)), (0x53, (Edit C_SCROLL_UP, 1)),
      (0x54, (Edit C_SCROLL_DOWN, 1)), (0x57, (Edit C_CURSOR_TAB_CTRL, 1)), (0x58, (Edit C_ERASE_CHAR, 1)),
      (0x5A, (Edit C_CURSOR_BACKTAB, 1)), (0x60, (Edit C_CURSOR_COLUMN, 1)), (0x61, (Edit C_CURSOR_FORWARD, 1)),
      (0x62, (Text C_REPEAT_CHAR, 1)), (0x64, (Edit C_CURSOR_ROW, 1)), (0x65, (Edit C_CURSOR_DOWN, 1)),
      (0x66, (Edit C_CURSOR_POS, 2)), (0x67, (Edit C_CLEAR_TABS, 1)),
      (0x6D, (Text C_SELECT_GRAPHIC_RENDITION, max_command_params)), (0x74, (Mode C_SET_PAGE_LENGTH, 1)),
      (0x75, (Mode C_SET_LINE_LENGTH, 0)), (0x78, (Mode C_SET_LEFT_OFFSET, 1)), (0x79, (Mode C_SET_TOP_OFFSET, 1)),
      (0x7B, (Mode C_SET_RAWEVENTS, max_command_params)), (0x7D, (Mode C_RESET_RAWEVENTS, max_command_params))] b"

text \<open>
  The scanner: the values so far, whether the last byte belonged to a parameter, whether a
  separator, a parameter or a final byte may come next, and the number of separators.
\<close>

fun param_scan ::
  "byte list \<Rightarrow> nat list \<Rightarrow> bool \<Rightarrow> bool \<Rightarrow> bool \<Rightarrow> bool \<Rightarrow> nat \<Rightarrow> (con_cmd \<times> nat list \<times> byte list) option" where
  "param_scan [] vals prev sep par fin seps = None"
| "param_scan (b # rest) vals prev sep par fin seps =
     (case csi2command b of
        Some (cmd, maxparams) \<Rightarrow>
          if fin \<and> length vals \<le> maxparams \<and> (seps < maxparams \<or> (seps = 0 \<and> maxparams = 0))
          then Some (cmd, vals, rest) else None
      | None \<Rightarrow>
          if b = 0x3b then
            (if \<not> sep then None else param_scan rest vals False False True False (seps + 1))
          else if is_digit b \<or> b = 0x3e then
            (if \<not> par then None
             else if \<not> prev \<and> length vals + 1 > max_command_params then None
             else
               let vals1 = (if prev then vals else vals @ [0]);
                   v = min (last vals1 * 10 + (if b = 0x3e then 5 else digit_value b)) 65535
               in param_scan rest (butlast vals1 @ [v]) True True par True seps)
          else None)"

text \<open>\<open>console_getdefaultparams\<close> of \<open>consoleclass.c\<close>: the slots it fills.\<close>

definition console_getdefaultparams :: "con_cmd \<Rightarrow> nat list" where
  "console_getdefaultparams cmd =
     (case cmd of
        Text c \<Rightarrow> (if c = C_REPEAT_CHAR then [1] else [])
      | Edit c \<Rightarrow>
          (if c \<in> {C_CLEAR_TABS, C_CURSOR_TAB_CTRL, C_ERASE_IN_DISPLAY, C_ERASE_IN_LINE} then [0]
           else if c = C_CURSOR_POS then [1, 1] else [1])
      | Mode c \<Rightarrow> (if c = C_SET_TOP_OFFSET \<or> c = C_SET_PAGE_LENGTH then [1] else [])
      | Control _ \<Rightarrow> [])"

text \<open>
  The index of the byte after the command is kept in a \<open>BYTE\<close>, an 8-bit signed integer: it is
  negative from 128 on.
\<close>

definition byte_index :: "nat \<Rightarrow> int" where
  "byte_index n = sint (of_nat n :: byte)"

text \<open>
  The answer: the command, the slots that are defined (the parsed values over the defaults) and what
  is added to the read pointer.
\<close>

definition getparamcommand :: "byte list \<Rightarrow> (con_cmd \<times> param list \<times> int) option" where
  "getparamcommand s =
     (case param_scan s [] False True True True 0 of
        None \<Rightarrow> None
      | Some (cmd, vals, rest) \<Rightarrow>
          Some (cmd, map P (vals @ drop (length vals) (console_getdefaultparams cmd)),
                byte_index (length s - length rest)))"

end
