(* ===== verification/Parser.thy ===== *)
theory Parser
  imports Csi
begin

text \<open>
  The output parser of \<open>devs/consoleng/support.c\<close>: control strings, text spans, the dispatcher
  \<open>string2command\<close> and the driver \<open>con_parse_output\<close>. An input buffer is the list of its
  remaining bytes. The fields only this file changes are in \<open>cunit\<close>; everything the console
  classes may change is in its field \<open>md\<close>, so \<open>Console_DoCommand\<close> acts on \<open>md\<close> alone.
\<close>

datatype osc_state = OSC_IDLE | OSC_COLLECT | OSC_OVERFLOW | OSC_GOT_ESC | OSC_OVERFLOW_ESC

record cunit =
  dcsDiscard :: bool
  oscState :: osc_state
  oscBuf :: "byte list"
  pendingCSI :: "byte list"
  md :: modes

definition con_oscbuf_size :: nat where "con_oscbuf_size = 2048"
definition pending_csi_size :: nat where "pending_csi_size = 64"

abbreviation utf8_unit :: "cunit \<Rightarrow> bool" where
  "utf8_unit u \<equiv> con_is_utf8 (md u)"

section \<open>Discarded control strings\<close>

definition discard_prefix :: "byte list \<Rightarrow> bool \<Rightarrow> nat" where
  "discard_prefix s utf8 =
     (if length s \<ge> 2 \<and> s ! 0 = 0x1b \<and> s ! 1 \<in> set [0x50, 0x58, 0x5e, 0x5f] then 2
      else if length s \<ge> 1 \<and> \<not> utf8 \<and> s ! 0 \<in> set [0x90, 0x98, 0x9e, 0x9f] then 1
      else 0)"

text \<open>The rest of the input and whether the string goes on.\<close>

fun consume_dcs :: "bool \<Rightarrow> byte list \<Rightarrow> byte list \<times> bool" where
  "consume_dcs utf8 [] = ([], True)"
| "consume_dcs utf8 (b # s) =
     (if b = 0x1b then (b # s, False)
      else if b = 0x18 \<or> b = 0x1a \<or> (b = 0x9c \<and> \<not> utf8) then (s, False)
      else consume_dcs utf8 s)"

section \<open>Operating system commands\<close>

text \<open>One payload byte in the collecting state.\<close>

definition osc_store :: "con_class \<Rightarrow> byte \<Rightarrow> cunit \<Rightarrow> cunit" where
  "osc_store e b u =
     (if oscBuf u = [0x35, 0x32, 0x3b] then
        (case con_osc_clipboard_byte (clip (md u)) b (cc_alloc e (oscClipboardCapacity (clip (md u)))) of
           None \<Rightarrow> u
         | Some c \<Rightarrow> u\<lparr>md := (md u)\<lparr>clip := c\<rparr>\<rparr>)
      else
        let limit = (if take 2 (oscBuf u) = [0x38, 0x3b] then con_oscbuf_size else 256) in
        if length (oscBuf u) < limit - 1 then u\<lparr>oscBuf := oscBuf u @ [b]\<rparr>
        else u\<lparr>oscState := OSC_OVERFLOW\<rparr>)"

text \<open>
  The collecting loop: the rest of the input, the unit, and on completion whether a control other
  than BEL ended the string. ESC stays in the input.
\<close>

fun osc_collect :: "con_class \<Rightarrow> byte list \<Rightarrow> cunit \<Rightarrow> byte list \<times> cunit \<times> bool option" where
  "osc_collect e [] u = ([], u, None)"
| "osc_collect e (b # s) u =
     (if b = 0x07 \<or> b = 0x18 \<or> b = 0x1A then (s, u, Some (b \<noteq> 0x07))
      else if b = 0x1b then (b # s, u, Some True)
      else if b = 0x9C \<and> \<not> utf8_unit u then (s, u, Some True)
      else if b < 0x20 then osc_collect e s u
      else if oscState u = OSC_COLLECT then osc_collect e s (osc_store e b u)
      else osc_collect e s u)"

text \<open>The size digits of OSC 50: the value, whether it is valid so far, and what follows them.\<close>

fun font_size :: "byte list \<Rightarrow> nat \<Rightarrow> bool \<Rightarrow> nat \<times> bool \<times> byte list" where
  "font_size [] sz valid = (sz, valid, [])"
| "font_size (b # bs) sz valid =
     (if \<not> is_digit b then (sz, valid, b # bs)
      else if sz > (65535 - digit_value b) div 10 then font_size bs sz False
      else font_size bs (if valid then sz * 10 + digit_value b else sz) valid)"

definition osc_font :: "byte list \<Rightarrow> con_cmd \<times> param list" where
  "osc_font payload =
     (let name = takeWhile (\<lambda>b. b \<noteq> 0x2c) payload; rest = drop (length name) payload;
          (sz, valid) =
            (case rest of
               [] \<Rightarrow> (0, True)
             | _ # p \<Rightarrow>
                 (case font_size p 0 (p \<noteq> [] \<and> is_digit (hd p)) of
                    (sz, valid, tail) \<Rightarrow> (sz, valid \<and> tail = [])))
      in if name \<noteq> [] \<and> valid then (Text C_SET_FONT, [PStr name, P sz]) else (Control C_NIL, []))"

definition osc_code :: "byte list \<Rightarrow> nat \<times> nat" where
  "osc_code buf =
     (let digits = takeWhile is_digit (take 4 buf)
      in (foldl (\<lambda>v b. v * 10 + digit_value b) 0 digits, length digits))"

text \<open>The command of a completed string. \<open>ascii\<close> literals are written as their bytes.\<close>

definition cursor_shape_prefix :: "byte list" where
  "cursor_shape_prefix = [0x35, 0x30, 0x3b, 0x43, 0x75, 0x72, 0x73, 0x6f, 0x72, 0x53, 0x68, 0x61, 0x70, 0x65, 0x3d]"

definition osc_dispatch :: "byte list \<Rightarrow> bool \<Rightarrow> bool \<Rightarrow> con_cmd \<times> param list" where
  "osc_dispatch buf overflow st =
     (let (code, n) = osc_code buf; len = length buf in
      if buf = [0x35, 0x32, 0x3b] then (Text C_SET_OSC_CLIPBOARD, [P (of_bool st)])
      else if take 2 buf = [0x38, 0x3b] then
        (Text C_SET_HYPERLINK, [PStr (if overflow then [] else drop 2 buf), P (if overflow then 0 else len - 2)])
      else if \<not> overflow \<and> len > 1 \<and> (buf ! 0 = 0x30 \<or> buf ! 0 = 0x32) \<and> buf ! 1 = 0x3b then
        (Text C_SET_TITLE, [PStr (drop 2 buf)])
      else if \<not> overflow \<and> len \<ge> 15 \<and> take 15 buf = cursor_shape_prefix then
        (if len > 15 \<and> buf ! 15 \<ge> 0x30 \<and> buf ! 15 \<le> 0x32
         then (Text C_SET_CURSOR_SHAPE, [P (digit_value (buf ! 15))])
         else (Control C_NIL, []))
      else if \<not> overflow \<and> len > 3 \<and> take 3 buf = [0x35, 0x30, 0x3b] then osc_font (drop 3 buf)
      else if \<not> overflow \<and> n > 0 \<and> (n = len \<or> buf ! n = 0x3b) \<and>
              code \<in> set [4, 10, 11, 12, 104, 110, 111, 112] then
        (Text C_SET_COLOR, [P code, PStr (drop (n + 1) buf), P (of_bool st)])
      else (Control C_NIL, []))"

definition consume_osc :: "con_class \<Rightarrow> byte list \<Rightarrow> cunit \<Rightarrow> con_cmd \<times> param list \<times> byte list \<times> cunit" where
  "consume_osc e s u =
     (case osc_collect e s u of
        (rest, u', None) \<Rightarrow> (Control C_NIL, [], rest, u')
      | (rest, u', Some control_end) \<Rightarrow>
          let st = (control_end \<or> oscState u' = OSC_GOT_ESC \<or> oscState u' = OSC_OVERFLOW_ESC);
              overflow = (oscState u' = OSC_OVERFLOW \<or> oscState u' = OSC_OVERFLOW_ESC);
              (cmd, params) = osc_dispatch (oscBuf u') overflow st
          in (cmd, params, rest, u'\<lparr>oscState := OSC_IDLE, oscBuf := []\<rparr>))"

section \<open>Character sets, repetition and emission\<close>

definition graphics :: "codepoint list" where
  "graphics = [
     0x20, 0x25c6, 0x2592, 0x2409, 0x240c, 0x240d, 0x240a, 0xb0,
     0xb1, 0x2424, 0x240b, 0x2518, 0x2510, 0x250c, 0x2514, 0x253c,
     0x23ba, 0x23bb, 0x2500, 0x23bc, 0x23bd, 0x251c, 0x2524, 0x2534,
     0x252c, 0x2502, 0x2264, 0x2265, 0x3c0, 0x2260, 0xa3, 0xb7]"

definition con_charset_map :: "codepoint \<Rightarrow> codepoint" where
  "con_charset_map cp = (if cp \<ge> 0x5f \<and> cp \<le> 0x7e then graphics ! unat (cp - 0x5f) else cp)"

definition charset_active :: "modes \<Rightarrow> bool" where
  "charset_active m \<longleftrightarrow> bit (charsets m) (activeCharset m)"

text \<open>An internal span is Unicode whatever the unit's input policy.\<close>

definition render_span :: "con_class \<Rightarrow> byte list \<Rightarrow> modes \<Rightarrow> modes" where
  "render_span e s m =
     (cc_do e (m\<lparr>renderUTF8 := True\<rparr>) (Text C_ASCII_STRING) [PStr s, P (length s)])\<lparr>renderUTF8 := renderUTF8 m\<rparr>"

function repeat_spans :: "con_class \<Rightarrow> byte list \<Rightarrow> nat \<Rightarrow> modes \<Rightarrow> modes" where
  "repeat_spans e glyph n m =
     (if n = 0 then m
      else
        let c = (if n > 64 then 64 else n)
        in repeat_spans e glyph (n - c) (render_span e (concat (replicate c glyph)) m))"
  by pat_completeness auto
termination by (relation "measure (\<lambda>(_, _, n, _). n)") auto

declare repeat_spans.simps [simp del]

definition con_repeat_char :: "con_class \<Rightarrow> nat \<Rightarrow> modes \<Rightarrow> modes" where
  "con_repeat_char e repetitions m =
     (if \<not> hasLastPrintable m then m
      else
        let n = min (if repetitions = 0 then 1 else repetitions) 65535;
            cp = (if charset_active m then con_charset_map (lastPrintable m) else lastPrintable m)
        in repeat_spans e (con_utf8_encode cp) n m)"

function last_decoded :: "byte \<Rightarrow> byte list \<Rightarrow> codepoint" where
  "last_decoded b s =
     (let (cp, rest) = con_utf8_decode b s
      in if rest = [] then cp else last_decoded (hd rest) (tl rest))"
  by pat_completeness auto
termination
proof (relation "measure (\<lambda>(b, s). length s)", simp)
  fix b :: byte and s :: "byte list" and x cp rest
  assume x: "x = con_utf8_decode b s" "(cp, rest) = x" "rest \<noteq> []"
  then have "length rest \<le> length s" using con_utf8_decode_length [of b s] by (metis snd_conv)
  then show "((hd rest, tl rest), b, s) \<in> measure (\<lambda>(b, s). length s)"
    using x(3) by (cases rest) auto
qed

declare last_decoded.simps [simp del]

definition con_remember_text :: "con_cmd \<Rightarrow> param list \<Rightarrow> modes \<Rightarrow> modes" where
  "con_remember_text cmd params m =
     (case (cmd, params) of
        (Text C_ASCII, P c # _) \<Rightarrow> m\<lparr>lastPrintable := ucast (of_nat c :: byte), hasLastPrintable := True\<rparr>
      | (Text C_ASCII_STRING, PStr (b # s) # _) \<Rightarrow>
          m\<lparr>lastPrintable := (if \<not> con_is_utf8 m \<or> last (b # s) < 0x80 then ucast (last (b # s))
                             else last_decoded b s),
            hasLastPrintable := True\<rparr>
      | _ \<Rightarrow> m)"

text \<open>One character of a span under the unit's input policy.\<close>

definition next_char :: "bool \<Rightarrow> byte \<Rightarrow> byte list \<Rightarrow> codepoint \<times> byte list" where
  "next_char utf8 b s = (if utf8 then con_utf8_decode b s else (ucast b, s))"

lemma next_char_length: "length (snd (next_char utf8 b s)) \<le> length s"
  by (simp add: next_char_def con_utf8_decode_length)

text \<open>One output buffer of translated text, at most 256 bytes: the bytes and the input that is left.\<close>

function map_chunk :: "bool \<Rightarrow> byte list \<Rightarrow> byte list \<Rightarrow> byte list \<times> byte list" where
  "map_chunk utf8 [] out = (out, [])"
| "map_chunk utf8 (b # s) out =
     (if length out \<le> 252 then
        map_chunk utf8 (snd (next_char utf8 b s))
          (out @ con_utf8_encode (con_charset_map (fst (next_char utf8 b s))))
      else (out, b # s))"
  by pat_completeness auto
termination
  by (relation "measure (\<lambda>(_, s, _). length s)") (auto simp: next_char_length less_Suc_eq_le)

lemma map_chunk_length: "length (snd (map_chunk utf8 s out)) \<le> length s"
proof (induction utf8 s out rule: map_chunk.induct)
  case (2 utf8 b s out)
  then show ?case using next_char_length [of utf8 b s] by (auto intro: le_SucI order_trans)
qed simp

lemma map_chunk_progress: "s \<noteq> [] \<Longrightarrow> length (snd (map_chunk utf8 s [])) < length s"
  by (cases s) (auto simp: less_Suc_eq_le intro: order_trans [OF map_chunk_length next_char_length])

function emit_mapped :: "con_class \<Rightarrow> bool \<Rightarrow> byte list \<Rightarrow> modes \<Rightarrow> modes" where
  "emit_mapped e utf8 s m =
     (if s = [] then m
      else emit_mapped e utf8 (snd (map_chunk utf8 s [])) (render_span e (fst (map_chunk utf8 s [])) m))"
  by pat_completeness auto
termination
  by (relation "measure (\<lambda>(_, _, s, _). length s)") (auto simp: map_chunk_progress)

declare emit_mapped.simps [simp del]

definition con_emit_command :: "con_class \<Rightarrow> con_cmd \<Rightarrow> param list \<Rightarrow> modes \<Rightarrow> modes" where
  "con_emit_command e cmd params m =
     (if cmd = Text C_REPEAT_CHAR then
        con_repeat_char e (case params of P n # _ \<Rightarrow> n | _ \<Rightarrow> 0) m
      else
        let m' = con_remember_text cmd params m in
        if (cmd \<noteq> Text C_ASCII \<and> cmd \<noteq> Text C_ASCII_STRING) \<or> \<not> charset_active m'
        then cc_do e m' cmd params
        else
          emit_mapped e (con_is_utf8 m')
            (case params of P c # _ \<Rightarrow> [of_nat c] | PStr s # _ \<Rightarrow> s | _ \<Rightarrow> []) m')"

section \<open>Text spans\<close>

definition check_special :: "byte list \<Rightarrow> bool \<Rightarrow> bool" where
  "check_special s utf8 =
     (case s of
        [] \<Rightarrow> False
      | b # _ \<Rightarrow>
          if utf8 \<and> b \<ge> 0x80 \<and> b \<noteq> 0x9B then False
          else b = 0x9B \<or> b \<in> set [0x00, 0x07, 0x08, 0x09, 0x0A, 0x0B, 0x0C, 0x0D, 0x0E, 0x0F, 0x1b,
                 0x84, 0x85, 0x88, 0x8D])"

text \<open>The length of one character: its lead byte and the continuations that are there.\<close>

definition char_step :: "bool \<Rightarrow> byte \<Rightarrow> byte list \<Rightarrow> nat" where
  "char_step utf8 b s =
     (if utf8
      then 1 + length (takeWhile (\<lambda>c. c AND 0xC0 = 0x80) (take (utf8_seqlen b - 1) s))
      else 1)"

function text_rest :: "bool \<Rightarrow> bool \<Rightarrow> byte list \<Rightarrow> byte list" where
  "text_rest utf8 first [] = []"
| "text_rest utf8 first (b # s) =
     (if \<not> first \<and> check_special (b # s) utf8 then b # s
      else text_rest utf8 False (drop (char_step utf8 b s - 1) s))"
  by pat_completeness auto
termination by (relation "measure (\<lambda>(_, _, s). length s)") auto

definition con_text_span :: "byte list \<Rightarrow> bool \<Rightarrow> nat" where
  "con_text_span s utf8 = length s - length (text_rest utf8 True s)"

section \<open>The dispatcher\<close>

definition scd_tab :: "(con_cmd \<times> byte list) list" where
  "scd_tab = [
     (Mode C_SET_LF_MODE, [0x32, 0x30, 0x68]), (Mode C_RESET_LF_MODE, [0x32, 0x30, 0x6C]),
     (Mode C_SET_AUTOSCROLL_MODE, [0x3E, 0x31, 0x68]), (Mode C_RESET_AUTOSCROLL_MODE, [0x3E, 0x31, 0x6C]),
     (Mode C_SET_AUTOWRAP_MODE, [0x3E, 0x37, 0x68]), (Mode C_RESET_AUTOWRAP_MODE, [0x3E, 0x37, 0x6C]),
     (Text C_DEVICE_STATUS_REPORT, [0x36, 0x6E]),
     (Mode C_CURSOR_VISIBLE, [0x20, 0x70]), (Mode C_CURSOR_VISIBLE, [0x31, 0x20, 0x70]),
     (Mode C_CURSOR_INVISIBLE, [0x30, 0x20, 0x70]),
     (Text C_WINDOW_STATUS_REQUEST, [0x20, 0x71]), (Text C_WINDOW_STATUS_REQUEST, [0x30, 0x20, 0x71]),
     (Mode C_SET_UTF8_MODE, [0x3E, 0x38, 0x68]), (Mode C_RESET_UTF8_MODE, [0x3E, 0x38, 0x6C]),
     (Mode C_SET_OBSCURED, [0x3E, 0x39, 0x68]), (Mode C_RESET_OBSCURED, [0x3E, 0x39, 0x6C])]"

definition special_command :: "byte list \<Rightarrow> parsed option" where
  "special_command s =
     map_option (\<lambda>(cmd, str). (cmd, [], drop (length str) s))
       (List.find (\<lambda>(cmd, str). take (length str) s = str) scd_tab)"

text \<open>Any other complete control sequence is consumed as one unit.\<close>

definition csi_ignore :: "byte list \<Rightarrow> parsed option" where
  "csi_ignore s =
     (case dropWhile (\<lambda>b. 0x20 \<le> b \<and> b \<le> 0x3F) s of
        [] \<Rightarrow> None
      | b # rest \<Rightarrow> if b \<ge> 0x40 \<and> b \<le> 0x7E then Some (Control C_NIL, [], rest) else None)"

definition try_parse :: "'m \<Rightarrow> parsed option \<Rightarrow> (parsed \<times> 'm) option" where
  "try_parse m r = map_option (\<lambda>p. (p, m)) r"

definition or_else :: "'a option \<Rightarrow> 'a option \<Rightarrow> 'a option" where
  "or_else a b = (case a of None \<Rightarrow> b | Some x \<Rightarrow> Some x)"

definition keyboard_csi :: "con_class \<Rightarrow> byte list \<Rightarrow> modes \<Rightarrow> (parsed \<times> modes) option" where
  "keyboard_csi e s m =
     (case con_keyboard_csi (keyb m) s (cc_alloc e 0) of
        (n, k, replies) \<Rightarrow>
          if n = 0 then None
          else Some ((Control C_NIL, [], drop n s), fold (\<lambda>r. emit (Inject r)) replies (m\<lparr>keyb := k\<rparr>)))"

text \<open>
  A parameter command at the bytes after an introducer. The read pointer moves by the answered
  offset; a negative one leaves the input that is left.
\<close>

definition param_command :: "byte list \<Rightarrow> modes \<Rightarrow> (parsed \<times> modes) option" where
  "param_command s m =
     (case getparamcommand s of
        None \<Rightarrow> None
      | Some (cmd, params, off) \<Rightarrow>
          if off \<ge> 0 then Some ((cmd, params, drop (nat off) s), m)
          else Some ((Control C_NIL, [], []), m\<lparr>derailed := True\<rparr>))"

text \<open>The bytes after an introducer, tried in the order of the code. \<open>native\<close> is the one-byte CSI.\<close>

definition csi_command :: "con_class \<Rightarrow> bool \<Rightarrow> byte list \<Rightarrow> modes \<Rightarrow> (parsed \<times> modes) option" where
  "csi_command e native s m =
     or_else (keyboard_csi e s m)
     (or_else (try_parse m (getcolonsgr (\<not> native) s))
     (or_else (getmoderequest e s m)
     (or_else (try_parse m (getstatusrequest native s))
     (or_else (try_parse m (getscrollregion s))
     (or_else (try_parse m (getabsolutecommand s))
     (or_else (try_parse m (getcursorstylecommand s))
     (or_else (getdecprivatecommand e s m)
     (or_else (getansimodecommand e s m)
     (or_else (try_parse m (special_command s))
     (or_else (param_command s m)
       (try_parse m (csi_ignore s))))))))))))"

definition standalone :: "byte \<Rightarrow> control_cmd option" where
  "standalone b = map_of
     [(0x00, C_NIL), (0x07, C_BELL), (0x08, C_BACKSPACE), (0x09, C_HTAB), (0x0A, C_LINEFEED), (0x0B, C_VTAB),
      (0x0C, C_FORMFEED), (0x0D, C_CARRIAGE_RETURN), (0x0E, C_SHIFT_OUT), (0x0F, C_SHIFT_IN), (0x1B, C_ESC),
      (0x84, C_INDEX), (0x85, C_NEXT_LINE), (0x88, C_H_TAB_SET), (0x8D, C_REVERSE_IDX)] b"

text \<open>The length of an incomplete character at the end of a span, zero when there is none.\<close>

definition incomplete_tail :: "byte list \<Rightarrow> nat" where
  "incomplete_tail span =
     (let back = length (takeWhile (\<lambda>b. b AND 0xC0 = 0x80) (take 3 (rev span)));
          before = drop back (rev span)
      in case before of
           [] \<Rightarrow> 0
         | lead # _ \<Rightarrow> if lead AND 0xC0 = 0xC0 \<and> back + 1 < utf8_seqlen lead then back + 1 else 0)"

definition text_command :: "byte list \<Rightarrow> modes \<Rightarrow> parsed \<times> modes" where
  "text_command s m =
     (let n = con_text_span s (con_is_utf8 m); span = take n s; rest = drop n s;
          have = (if con_is_utf8 m \<and> rest = [] then incomplete_tail span else 0);
          shown = take (n - have) span
      in if have = 0 then ((Text C_ASCII_STRING, [PStr span, P n], rest), m)
         else ((if shown = [] then Control C_NIL else Text C_ASCII_STRING, [PStr shown, P (n - have)], rest),
               m\<lparr>utf8Stash := drop (n - have) span\<rparr>))"

text \<open>Escape sequences before the control sequences, in the order of the code.\<close>

definition escape_command :: "byte list \<Rightarrow> modes \<Rightarrow> (parsed \<times> modes) option" where
  "escape_command s m =
     or_else
       (case s of
          p0 # p1 # p2 # rest \<Rightarrow>
            if p0 = 0x1b \<and> p1 = 0x25 \<and> (p2 = 0x47 \<or> p2 = 0x40)
            then Some ((Mode (if p2 = 0x47 then C_SET_UTF8_MODE else C_RESET_UTF8_MODE), [], rest), m)
            else None
        | _ \<Rightarrow> None)
     (or_else (getcharset s m)
     (or_else (getkeypadmode s m)
     (or_else (try_parse m (getshortescape s))
     (or_else (try_parse m (getwindowcommand s))
       (try_parse m (getansisavedcursor s))))))"

definition csi_body :: "byte list \<Rightarrow> (bool \<times> byte list) option" where
  "csi_body s =
     (case s of
        b # rest \<Rightarrow>
          if b = 0x9B then Some (True, rest)
          else (case rest of c # rest' \<Rightarrow> if b = 0x1b \<and> c = 0x5b then Some (False, rest') else None
                | [] \<Rightarrow> None)
      | [] \<Rightarrow> None)"

text \<open>Control sequences, single controls and text.\<close>

definition plain_command :: "con_class \<Rightarrow> byte list \<Rightarrow> modes \<Rightarrow> parsed \<times> modes" where
  "plain_command e s m =
     (case (case csi_body s of None \<Rightarrow> None | Some (native, body) \<Rightarrow> csi_command e native body m) of
        Some r \<Rightarrow> r
      | None \<Rightarrow>
          (case s of
             [] \<Rightarrow> ((Control C_NIL, [], []), m)
           | b # rest \<Rightarrow>
               (case (if con_is_utf8 m \<and> b \<ge> 0x80 then None else standalone b) of
                  Some c \<Rightarrow> ((Control c, [], rest), m)
                | None \<Rightarrow> text_command s m)))"

definition string2command :: "con_class \<Rightarrow> byte list \<Rightarrow> cunit \<Rightarrow> parsed \<times> cunit" where
  "string2command e s u =
     (if dcsDiscard u then
        (case consume_dcs (utf8_unit u) s of
           (rest, on) \<Rightarrow> ((Control C_NIL, [], rest), u\<lparr>dcsDiscard := on\<rparr>))
      else if oscState u \<noteq> OSC_IDLE then
        (case consume_osc e s u of (cmd, params, rest, u') \<Rightarrow> ((cmd, params, rest), u'))
      else
        (case escape_command s (md u) of
           Some (r, m) \<Rightarrow> (r, u\<lparr>md := m\<rparr>)
         | None \<Rightarrow>
             let skip = discard_prefix s (utf8_unit u) in
             if skip \<noteq> 0 then
               (case consume_dcs (utf8_unit u) (drop skip s) of
                  (rest, on) \<Rightarrow> ((Control C_NIL, [], rest), u\<lparr>dcsDiscard := on\<rparr>))
             else if take 2 s = [0x1b, 0x5d] \<or> (\<not> utf8_unit u \<and> take 1 s = [0x9D]) then
               (case consume_osc e (drop (if hd s = 0x1b then 2 else 1) s)
                       (u\<lparr>md := (md u)\<lparr>clip := con_osc_clipboard_reset (clip (md u))\<rparr>,
                          oscState := OSC_COLLECT, oscBuf := []\<rparr>) of
                  (cmd, params, rest, u') \<Rightarrow> ((cmd, params, rest), u'))
             else
               (case plain_command e s (md u) of (r, m) \<Rightarrow> (r, u\<lparr>md := m\<rparr>))))"

section \<open>Every command makes progress\<close>

named_theorems shorter "what a sub-parser leaves is shorter than what it got"

lemma or_else_cases: "or_else a b = Some x \<longleftrightarrow> a = Some x \<or> (a = None \<and> b = Some x)"
  by (cases a) (auto simp: or_else_def)

lemma or_elseD: "or_else a b = Some x \<Longrightarrow> a = Some x \<or> b = Some x"
  by (cases a) (auto simp: or_else_def)

lemma try_parse_some: "try_parse m r = Some x \<longleftrightarrow> (\<exists>p. r = Some p \<and> x = (p, m))"
  by (cases r) (auto simp: try_parse_def)

lemma length_dropWhile: "length (dropWhile f xs) \<le> length xs"
  by (induction xs) auto

lemma dropWhile_cons_length: "dropWhile f xs = y # ys \<Longrightarrow> length ys < length xs"
  using length_dropWhile [of f xs] by simp

lemma drop_cons_length: "drop n xs = y # ys \<Longrightarrow> length ys < length xs"
  by (metis length_drop length_Cons diff_le_self less_eq_Suc_le)

lemma getcharset_shorter [shorter]: "getcharset s m = Some ((c, p, rest), m') \<Longrightarrow> length rest < length s"
  by (auto simp: getcharset_def Let_def split: list.splits if_splits)

lemma getkeypadmode_shorter [shorter]: "getkeypadmode s m = Some ((c, p, rest), m') \<Longrightarrow> length rest < length s"
  by (auto simp: getkeypadmode_def split: list.splits if_splits)

lemma getshortescape_shorter [shorter]: "getshortescape s = Some (c, p, rest) \<Longrightarrow> length rest < length s"
  by (auto simp: getshortescape_def split: list.splits if_splits)

lemma saved_cursor_shorter: "saved_cursor_scan s = Some (c, p, rest) \<Longrightarrow> length rest < length s"
  by (induction s) (auto split: if_splits)

lemma getansisavedcursor_shorter [shorter]: "getansisavedcursor s = Some (c, p, rest) \<Longrightarrow> length rest < length s"
  by (auto simp: getansisavedcursor_def dest!: saved_cursor_shorter split: list.splits if_splits)

lemma getwindowcommand_shorter [shorter]: "getwindowcommand s = Some (c, p, rest) \<Longrightarrow> length rest < length s"
proof -
  assume "getwindowcommand s = Some (c, p, rest)"
  then obtain p0 p1 s' t where s: "s = p0 # p1 # s'"
    and d: "dropWhile (\<lambda>b. b = 0x3b \<or> b = 0x3a \<or> is_digit b) (dropWhile is_digit s') = t # rest"
    by (auto simp: getwindowcommand_def Let_def split: list.splits if_splits)
  have "length rest < length (dropWhile is_digit s')" by (rule dropWhile_cons_length [OF d])
  with length_dropWhile [of is_digit s'] show "length rest < length s" by (simp add: s)
qed

lemma getcolonsgr_shorter [shorter]: "getcolonsgr b s = Some (c, p, rest) \<Longrightarrow> length rest < length s"
proof -
  assume a: "getcolonsgr b s = Some (c, p, rest)"
  then have "rest = drop (length (takeWhile (\<lambda>b. b \<noteq> 0x6d) s) + 1) s" "s \<noteq> []"
    by (auto simp: getcolonsgr_def Let_def split: if_splits prod.splits)
  then show "length rest < length s" by simp
qed

lemma getmoderequest_shorter [shorter]: "getmoderequest e s m = Some ((c, p, rest), m') \<Longrightarrow> length rest < length s"
  by (auto simp: getmoderequest_def Let_def dest!: drop_cons_length split: list.splits if_splits)

lemma selector_scan_shorter: "selector_scan l s v = Some (w, rest) \<Longrightarrow> length rest \<le> length s"
  by (induction s arbitrary: v) (auto split: if_splits dest: le_SucI)

lemma getstatusrequest_shorter [shorter]: "getstatusrequest n s = Some (c, p, rest) \<Longrightarrow> length rest < length s"
  by (cases s) (auto simp: getstatusrequest_def Let_def dest!: selector_scan_shorter
      split: option.splits list.splits if_splits prod.splits)

lemma field_scan_shorter: "field_scan s f d v w = Some (g, x, y, rest) \<Longrightarrow> length rest \<le> length s"
proof (induction s arbitrary: f d v w)
  case (Cons b s)
  then show ?case by (auto simp: Let_def split: if_splits; meson le_SucI less_SucI)
qed auto

lemma getscrollregion_shorter [shorter]: "getscrollregion s = Some (c, p, rest) \<Longrightarrow> length rest < length s"
  by (auto simp: getscrollregion_def dest!: field_scan_shorter split: option.splits list.splits if_splits prod.splits)

lemma getabsolutecommand_shorter [shorter]: "getabsolutecommand s = Some (c, p, rest) \<Longrightarrow> length rest < length s"
  by (auto simp: getabsolutecommand_def dest!: field_scan_shorter split: option.splits list.splits if_splits prod.splits)

lemma getcursorstylecommand_shorter [shorter]: "getcursorstylecommand s = Some (c, p, rest) \<Longrightarrow> length rest < length s"
  by (auto simp: getcursorstylecommand_def Let_def dest!: dropWhile_cons_length split: list.splits if_splits)

lemma dec_scan_shorter: "dec_scan e t s v h cm = (cm', rest) \<Longrightarrow> length rest \<le> length s"
proof (induction s arbitrary: v h cm)
  case (Cons b s)
  then show ?case by (auto simp: Let_def split: if_splits; meson le_SucI less_SucI)
qed auto

lemma getdecprivatecommand_shorter [shorter]:
  "getdecprivatecommand e s m = Some ((c, p, rest), m') \<Longrightarrow> length rest < length s"
  by (auto simp: getdecprivatecommand_def Let_def dest!: drop_cons_length dec_scan_shorter
      split: list.splits if_splits prod.splits)

lemma getansimodecommand_shorter [shorter]:
  "getansimodecommand e s m = Some ((c, p, rest), m') \<Longrightarrow> length rest < length s"
  by (auto simp: getansimodecommand_def Let_def dest!: drop_cons_length split: list.splits if_splits)

lemma special_command_shorter [shorter]: "special_command s = Some (c, p, rest) \<Longrightarrow> length rest < length s"
proof -
  assume "special_command s = Some (c, p, rest)"
  then obtain cmd str where f: "List.find (\<lambda>(cmd, str). take (length str) s = str) scd_tab = Some (cmd, str)"
    and r: "rest = drop (length str) s"
    by (auto simp: special_command_def)
  from f have "(cmd, str) \<in> set scd_tab" "take (length str) s = str"
    by (auto simp: find_Some_iff) (metis nth_mem)
  moreover have "list_all (\<lambda>(cmd, str). str \<noteq> []) scd_tab" by (simp add: scd_tab_def)
  ultimately have "str \<noteq> []" "s \<noteq> []" by (auto simp: list_all_iff)
  then show "length rest < length s" by (simp add: r)
qed

lemma param_scan_shorter: "param_scan s v l sp pa f k = Some (c, w, rest) \<Longrightarrow> length rest < length s"
proof (induction s arbitrary: v l sp pa f k)
  case (Cons b s)
  then show ?case by (auto simp: Let_def split: option.splits if_splits prod.splits; meson le_SucI less_SucI)
qed auto

lemma param_command_shorter [shorter]: "param_command s m = Some ((c, p, rest), m') \<Longrightarrow> length rest \<le> length s"
  by (auto simp: param_command_def split: option.splits prod.splits if_splits)

lemma csi_ignore_shorter [shorter]: "csi_ignore s = Some (c, p, rest) \<Longrightarrow> length rest < length s"
  by (auto simp: csi_ignore_def dest!: dropWhile_cons_length split: list.splits if_splits)

lemma keyboard_csi_shorter [shorter]: "keyboard_csi e s m = Some ((c, p, rest), m') \<Longrightarrow> length rest < length s"
proof -
  assume a: "keyboard_csi e s m = Some ((c, p, rest), m')"
  obtain n k r where k: "con_keyboard_csi (keyb m) s (cc_alloc e 0) = (n, k, r)" by (metis prod_cases3)
  from a k have "n \<noteq> 0" "rest = drop n s" by (auto simp: keyboard_csi_def split: if_splits)
  moreover have "s \<noteq> []" using k \<open>n \<noteq> 0\<close> by (auto simp: con_keyboard_csi_def)
  ultimately show "length rest < length s" by simp
qed

lemma text_rest_shorter: "length (text_rest utf8 first s) \<le> length s"
  by (induction utf8 first s rule: text_rest.induct) auto

lemma con_text_span_bounds: "con_text_span s utf8 \<le> length s" "s \<noteq> [] \<Longrightarrow> 0 < con_text_span s utf8"
proof -
  show "con_text_span s utf8 \<le> length s" by (simp add: con_text_span_def)
  show "0 < con_text_span s utf8" if ne: "s \<noteq> []"
  proof -
    from ne obtain b s' where s: "s = b # s'" by (cases s) auto
    have "length (text_rest utf8 True s) \<le> length (drop (char_step utf8 b s' - 1) s')"
      unfolding s using text_rest_shorter [of utf8 False "drop (char_step utf8 b s' - 1) s'"] by simp
    also have "\<dots> \<le> length s'" by simp
    finally show ?thesis by (simp add: con_text_span_def s)
  qed
qed

lemma text_command_shorter [shorter]:
  "s \<noteq> [] \<Longrightarrow> text_command s m = ((c, p, rest), m') \<Longrightarrow> length rest < length s"
  using con_text_span_bounds(2) [of s "con_is_utf8 m"]
  by (auto simp: text_command_def Let_def split: if_splits)

lemma csi_command_shorter [shorter]:
  "csi_command e n s m = Some ((c, p, rest), m') \<Longrightarrow> length rest \<le> length s"
  unfolding csi_command_def or_else_cases try_parse_some
  by (elim disjE exE conjE) (auto dest: shorter intro: less_imp_le)

lemma csi_body_shorter: "csi_body s = Some (n, body) \<Longrightarrow> length body < length s"
  by (auto simp: csi_body_def split: list.splits if_splits)

lemma escape_command_shorter [shorter]: "escape_command s m = Some ((c, p, rest), m') \<Longrightarrow> length rest < length s"
  unfolding escape_command_def or_else_cases try_parse_some
  by (elim disjE exE conjE) (auto dest: shorter split: list.splits if_splits)

lemma plain_command_shorter [shorter]:
  assumes "s \<noteq> []" "plain_command e s m = ((c, p, rest), m')"
  shows "length rest < length s"
proof (cases "case csi_body s of None \<Rightarrow> None | Some (native, body) \<Rightarrow> csi_command e native body m")
  case None
  with assms show ?thesis
    by (cases s) (auto simp: plain_command_def split: option.splits if_splits dest!: text_command_shorter [rotated])
next
  case (Some r)
  then have "r = ((c, p, rest), m')" using assms(2) by (simp add: plain_command_def)
  with Some obtain n body where "csi_body s = Some (n, body)" "csi_command e n body m = Some ((c, p, rest), m')"
    by (auto split: option.splits prod.splits)
  then show ?thesis using csi_body_shorter csi_command_shorter by fastforce
qed

lemma consume_dcs_shorter:
  "consume_dcs utf8 s = (rest, on) \<Longrightarrow> length rest \<le> length s \<and> (on \<longrightarrow> rest = [])"
  by (induction s arbitrary: rest) (auto split: if_splits)

lemma osc_store_state: "oscState (osc_store e b u) = OSC_COLLECT \<or> oscState (osc_store e b u) = OSC_OVERFLOW"
  if "oscState u = OSC_COLLECT"
  using that by (auto simp: osc_store_def Let_def split: option.splits)

lemma osc_store_keeps [simp]:
  "dcsDiscard (osc_store e b u) = dcsDiscard u" "pendingCSI (osc_store e b u) = pendingCSI u"
  "conFlags (md (osc_store e b u)) = conFlags (md u)" "utf8Stash (md (osc_store e b u)) = utf8Stash (md u)"
  by (auto simp: osc_store_def Let_def split: option.splits)

lemma osc_collect_shorter:
  "osc_collect e s u = (rest, u', r) \<Longrightarrow>
     length rest \<le> length s \<and> (r = None \<longrightarrow> rest = []) \<and> dcsDiscard u' = dcsDiscard u \<and> pendingCSI u' = pendingCSI u"
proof (induction s arbitrary: u)
  case (Cons b s)
  from Cons.prems Cons.IH [of u] Cons.IH [of "osc_store e b u"] show ?case
    by (auto split: if_splits intro: le_SucI)
qed auto

lemma consume_osc_shorter:
  assumes "consume_osc e s u = (c, p, rest, u')"
  shows "length rest \<le> length s" "oscState u' \<noteq> OSC_IDLE \<longrightarrow> rest = []" "dcsDiscard u' = dcsDiscard u"
    "pendingCSI u' = pendingCSI u"
proof -
  obtain rest0 u0 r where r: "osc_collect e s u = (rest0, u0, r)" by (metis prod_cases3)
  note sh = osc_collect_shorter [OF r]
  from assms r have "rest = rest0" "u' = u0 \<or> u' = u0\<lparr>oscState := OSC_IDLE, oscBuf := []\<rparr>"
    "r = None \<or> oscState u' = OSC_IDLE"
    by (auto simp: consume_osc_def Let_def split: option.splits prod.splits)
  with sh show "length rest \<le> length s" "oscState u' \<noteq> OSC_IDLE \<longrightarrow> rest = []" "dcsDiscard u' = dcsDiscard u"
    "pendingCSI u' = pendingCSI u"
    by auto
qed

text \<open>The measure of the driver loop: bytes left, and strings in progress.\<close>

definition parse_measure :: "byte list \<Rightarrow> cunit \<Rightarrow> nat" where
  "parse_measure s u = 3 * length s + of_bool (dcsDiscard u) + of_bool (oscState u \<noteq> OSC_IDLE)"

lemma string2command_progress:
  assumes ne: "s \<noteq> []" and eq: "string2command e s u = ((c, p, rest), u')"
  shows "parse_measure rest u' < parse_measure s u"
proof -
  have len: "1 \<le> length s" using ne by (simp add: Suc_le_eq)
  consider (dcs) "dcsDiscard u" | (osc) "\<not> dcsDiscard u" "oscState u \<noteq> OSC_IDLE"
    | (esc) r m where "\<not> dcsDiscard u" "oscState u = OSC_IDLE" "escape_command s (md u) = Some (r, m)"
    | (ctl) "\<not> dcsDiscard u" "oscState u = OSC_IDLE" "escape_command s (md u) = None"
    by (cases "escape_command s (md u)") auto
  then show ?thesis
  proof cases
    case dcs
    obtain rest0 on where d: "consume_dcs (utf8_unit u) s = (rest0, on)" by (metis surj_pair)
    from consume_dcs_shorter [OF d] dcs eq d len show ?thesis
      by (auto simp: string2command_def parse_measure_def)
  next
    case osc
    obtain c0 p0 rest0 u0 where o: "consume_osc e s u = (c0, p0, rest0, u0)" by (metis prod_cases4)
    from consume_osc_shorter [OF o] osc eq o len show ?thesis
      by (auto simp: string2command_def parse_measure_def of_bool_def)
  next
    case (esc r m)
    then have "length rest < length s"
      using eq escape_command_shorter by (cases r) (auto simp: string2command_def)
    with esc eq show ?thesis by (auto simp: string2command_def parse_measure_def split: prod.splits)
  next
    case ctl
    let ?skip = "discard_prefix s (utf8_unit u)"
    show ?thesis
    proof (cases "?skip = 0")
      case False
      then have drop: "length (drop ?skip s) < length s" using len by (simp add: discard_prefix_def)
      obtain rest0 on where d: "consume_dcs (utf8_unit u) (drop ?skip s) = (rest0, on)" by (metis surj_pair)
      from consume_dcs_shorter [OF d] False ctl eq d drop len show ?thesis
        by (auto simp: string2command_def parse_measure_def Let_def of_bool_def)
    next
      case True
      show ?thesis
      proof (cases "take 2 s = [0x1b, 0x5d] \<or> (\<not> utf8_unit u \<and> take 1 s = [0x9D])")
        case osc: True
        let ?s = "drop (if hd s = 0x1b then 2 else 1) s"
        let ?u = "u\<lparr>md := (md u)\<lparr>clip := con_osc_clipboard_reset (clip (md u))\<rparr>, oscState := OSC_COLLECT, oscBuf := []\<rparr>"
        obtain c0 p0 rest0 u0 where o: "consume_osc e ?s ?u = (c0, p0, rest0, u0)" by (metis prod_cases4)
        have "length ?s < length s" using len by auto
        with consume_osc_shorter [OF o] True ctl eq o osc len show ?thesis
          by (auto simp: string2command_def parse_measure_def of_bool_def Let_def split: if_splits)
      next
        case False
        obtain r m where pl: "plain_command e s (md u) = (r, m)" by (metis surj_pair)
        with False True ctl eq have "r = (c, p, rest)" "u' = u\<lparr>md := m\<rparr>"
          by (simp_all add: string2command_def Let_def split: if_splits)
        with plain_command_shorter [OF ne, of e "md u"] pl ctl show ?thesis
          by (auto simp: parse_measure_def)
      qed
    qed
  qed
qed

section \<open>The driver\<close>

definition esc_intermediate :: "byte \<Rightarrow> bool" where
  "esc_intermediate b \<longleftrightarrow> (b \<ge> 0x28 \<and> b \<le> 0x2b) \<or> b = 0x23 \<or> b = 0x25"

definition csi_incomplete :: "byte list \<Rightarrow> bool" where
  "csi_incomplete buf =
     (if length buf = 2 \<and> buf ! 0 = 0x1b \<and> esc_intermediate (buf ! 1) then True
      else if length buf \<ge> 1 \<and> buf ! 0 = 0x9B then list_all (\<lambda>b. 0x20 \<le> b \<and> b \<le> 0x3F) (drop 1 buf)
      else if buf = [0x1b] then True
      else if length buf \<ge> 2 \<and> buf ! 0 = 0x1b \<and> buf ! 1 = 0x5b then list_all (\<lambda>b. 0x20 \<le> b \<and> b \<le> 0x3F) (drop 2 buf)
      else False)"

text \<open>
  The loop over the commands: the unit and the bytes it leaves because output is being buffered.
  An incomplete sequence that fits goes to \<open>pendingCSI\<close>.
\<close>

function parse_loop :: "con_class \<Rightarrow> byte list \<Rightarrow> cunit \<Rightarrow> cunit \<times> byte list" where
  "parse_loop e s u =
     (if s = [] then (u, [])
      else if cc_buffering e (md u) then (u, s)
      else if csi_incomplete s \<and> length s \<le> pending_csi_size then (u\<lparr>pendingCSI := s\<rparr>, [])
      else
        parse_loop e (snd (snd (fst (string2command e s u))))
          (let ((cmd, params, _), u') = string2command e s u
           in u'\<lparr>md := con_emit_command e cmd params (md u')\<rparr>))"
  by pat_completeness auto
termination
proof (relation "measure (\<lambda>(_, s, u). parse_measure s u)", simp)
  fix e :: con_class and s :: "byte list" and u
  assume s: "s \<noteq> []"
  obtain c p rest u' where eq: "string2command e s u = ((c, p, rest), u')" by (metis prod_cases4 surj_pair)
  have "parse_measure rest (u'\<lparr>md := m\<rparr>) = parse_measure rest u'" for m by (simp add: parse_measure_def)
  with string2command_progress [OF s eq] eq
  show "((e, snd (snd (fst (string2command e s u))),
      let ((cmd, params, _), u') = string2command e s u in u'\<lparr>md := con_emit_command e cmd params (md u')\<rparr>), e, s, u)
      \<in> measure (\<lambda>(_, s, u). parse_measure s u)"
    by simp
qed

declare parse_loop.simps [simp del]

datatype io_error = No_error | IOERR_BADLENGTH | IOERR_ABORTED

definition plain_byte :: "byte \<Rightarrow> bool" where
  "plain_byte b \<longleftrightarrow> \<not> (b < 0x20 \<or> (b \<ge> 0x7f \<and> b < 0xa0))"

definition on_modes :: "(modes \<Rightarrow> modes) \<Rightarrow> cunit \<Rightarrow> cunit" where
  "on_modes f u = u\<lparr>md := f (md u)\<rparr>"

text \<open>
  Completing a character split across writes: the unit, the input that is left, and whether
  everything went into the stash without completing it.
\<close>

definition complete_stash :: "con_class \<Rightarrow> byte list \<Rightarrow> cunit \<Rightarrow> cunit \<times> byte list \<times> bool" where
  "complete_stash e s u =
     (if \<not> utf8_unit u \<or> utf8Stash (md u) = [] \<or> s = [] then (u, s, False)
      else
        let stash = utf8Stash (md u);
            need = utf8_seqlen (hd stash);
            k = min (need - length stash) (length s);
            valid = length (takeWhile (\<lambda>b. b AND 0xC0 = 0x80) (take k s));
            interrupted = (valid < k);
            stash' = stash @ take valid s;
            s' = drop valid s
        in if length stash' = need \<or> interrupted then
             let shown = (if interrupted then [0x3f] else stash') in
             (on_modes (\<lambda>m. emit Render_cursor
                 (con_emit_command e (Text C_ASCII_STRING) [PStr shown, P (length shown)]
                   (emit UnRender_cursor (m\<lparr>utf8Stash := []\<rparr>)))) u, s', False)
           else (on_modes (\<lambda>m. m\<lparr>utf8Stash := stash'\<rparr>) u, s', s' = []))"

text \<open>No result means that the read pointer left the input, see \<open>param_command\<close>.\<close>

definition con_parse_output :: "con_class \<Rightarrow> byte list \<Rightarrow> cunit \<Rightarrow> (nat \<times> io_error \<times> cunit) option" where
  "con_parse_output e buf u =
     (let towrite = length buf; pl = length (pendingCSI u) in
      if towrite = 0 then Some (0, No_error, u)
      else if towrite > 0x7fffffff - pl then Some (0, IOERR_BADLENGTH, u)
      else if pl > 0 \<and> \<not> cc_alloc e (pl + towrite) then Some (0, IOERR_ABORTED, u)
      else
        let s = pendingCSI u @ buf;
            plainText = list_all plain_byte s;
            (u1, s1, stashed) = complete_stash e s (u\<lparr>pendingCSI := []\<rparr>)
        in if stashed then Some (length s, No_error, u1)
           else
             let u2 = (if s1 \<noteq> [] \<and> \<not> plainText then on_modes (emit UnRender_cursor) u1 else u1);
                 (u3, left) = parse_loop e s1 u2;
                 u4 = (if \<not> plainText then on_modes (emit Render_cursor) u3 else u3)
             in if derailed (md u4) then None
                else Some (sub32 towrite (length left), No_error, u4))"

end
