(* ===== verification/Console_Class.thy ===== *)
theory Console_Class
  imports Parser
begin

text \<open>
  The part of the console classes that the parser and its queries depend on: the mode and character
  set commands of \<open>console_docommand\<close> and the answers of \<open>console_mode_state\<close>
  (\<open>consoleclass.c\<close>), the mode changes of a terminal reset and of origin mode
  (\<open>stdconclass.c\<close>). Every command is also recorded as an event; drawing is not modelled.
\<close>

definition console_mode_state :: "modes \<Rightarrow> bool \<Rightarrow> nat \<Rightarrow> nat" where
  "console_mode_state m privateMode mode =
     (let flag = (\<lambda>f. conFlags m AND f \<noteq> 0);
          enabled =
            (if \<not> privateMode then
               (if mode = 4 then Some (flag CF_INSERT_MODE)
                else if mode = 20 then Some (modeLNM m) else None)
             else if mode = 1 then Some (flag CF_APPLICATION_CURSOR)
             else if mode = 6 then Some (flag CF_ORIGIN_MODE)
             else if mode = 7 then Some (modeAWM m)
             else if mode = 1000 \<or> mode = 1002 \<or> mode = 1003 then Some (mouseMode m = mode)
             else if mode = 1004 then Some (flag CF_FOCUS_REPORTING)
             else if mode = 1005 then Some (mouseUTF8 m)
             else if mode = 1006 then Some (mouseSGR m)
             else if mode = 1007 then Some (flag CF_ALTERNATE_SCROLL)
             else if mode = 2004 then Some (flag CF_BRACKETED_PASTE)
             else if mode = 2031 then Some (flag CF_COLOR_SCHEME_NOTIFY)
             else None)
      in case enabled of None \<Rightarrow> 0 | Some b \<Rightarrow> if b then 1 else 2)"

definition stdcon_reset_state :: "modes \<Rightarrow> modes" where
  "stdcon_reset_state m =
     m\<lparr>conFlags := conFlags m AND NOT (CF_BRACKETED_PASTE OR CF_FOCUS_REPORTING OR
          CF_COLOR_SCHEME_NOTIFY OR CF_WRAP_PENDING OR CF_APPLICATION_CURSOR OR
          CF_APPLICATION_KEYPAD OR CF_INSERT_MODE OR CF_ORIGIN_MODE OR CF_ALTERNATE_SCROLL),
       charsets := 0, activeCharset := 0,
       keyb := (con_keyboard_dispose (keyb m))\<lparr>keyboardAlternate := False\<rparr>,
       mouseMode := 0, mouseReportedButtons := 0,
       mouseSGR := False, mouseUTF8 := False, mouseLastValid := False,
       modeAWM := True, modeASM := True, modeLNM := False\<rparr>"

text \<open>The mode part of \<open>stdcon_origin_mode\<close>; the cursor it homes is not modelled.\<close>

definition stdcon_origin_mode :: "bool \<Rightarrow> modes \<Rightarrow> modes" where
  "stdcon_origin_mode enabled m = set_flag CF_WRAP_PENDING False (set_flag CF_ORIGIN_MODE enabled m)"

definition console_docommand :: "modes \<Rightarrow> con_cmd \<Rightarrow> param list \<Rightarrow> modes" where
  "console_docommand m cmd params =
     (case cmd of
        Control C_SHIFT_IN \<Rightarrow> m\<lparr>activeCharset := 0\<rparr>
      | Control C_SHIFT_OUT \<Rightarrow> m\<lparr>activeCharset := 1\<rparr>
      | Mode C_SET_LF_MODE \<Rightarrow> m\<lparr>modeLNM := True\<rparr>
      | Mode C_RESET_LF_MODE \<Rightarrow> m\<lparr>modeLNM := False\<rparr>
      | Mode C_SET_AUTOSCROLL_MODE \<Rightarrow> m\<lparr>modeASM := True\<rparr>
      | Mode C_RESET_AUTOSCROLL_MODE \<Rightarrow> m\<lparr>modeASM := False\<rparr>
      | Mode C_SET_AUTOWRAP_MODE \<Rightarrow> m\<lparr>modeAWM := True\<rparr>
      | Mode C_RESET_AUTOWRAP_MODE \<Rightarrow> m\<lparr>modeAWM := False\<rparr>
      | Mode C_SET_OBSCURED \<Rightarrow> set_flag CF_OBSCURED True m
      | Mode C_RESET_OBSCURED \<Rightarrow> set_flag CF_OBSCURED False m
      | Mode C_SET_UTF8_MODE \<Rightarrow> (set_flag CF_UTF8 True m)\<lparr>utf8Stash := []\<rparr>
      | Mode C_RESET_UTF8_MODE \<Rightarrow> (set_flag CF_UTF8 False m)\<lparr>utf8Stash := []\<rparr>
      | Mode C_SET_ORIGIN_MODE \<Rightarrow> stdcon_origin_mode (params \<noteq> [] \<and> hd params \<noteq> P 0) m
      | Text C_TERMINAL_RESET \<Rightarrow> stdcon_reset_state m
      | _ \<Rightarrow> m)"

text \<open>The class as the parser's environment; the allocator's answers stay open.\<close>

definition unit_class :: "(nat \<Rightarrow> bool) \<Rightarrow> con_class" where
  "unit_class alloc =
     \<lparr>cc_do = (\<lambda>m cmd params. emit (Command cmd params (renderUTF8 m)) (console_docommand m cmd params)),
      cc_mode_state = console_mode_state, cc_buffering = (\<lambda>_. False), cc_alloc = alloc\<rparr>"

end
