(* ===== verification/Parser_Laws.thy ===== *)
theory Parser_Laws
  imports Console_Class
begin

text \<open>
  What the output parser promises, proved against the interface of the console classes: the locale
  \<open>console_class\<close> asks of \<open>Console_DoCommand\<close> only that it keeps the bounded buffers of
  the unit within their bounds, and the model's class is an instance.
\<close>

section \<open>Bounds of the unit's buffers\<close>

definition modes_ok :: "modes \<Rightarrow> bool" where
  "modes_ok m \<longleftrightarrow> length (utf8Stash m) \<le> 3 \<and> collector_ok (clip m) \<and> kb_unit_ok (keyb m)"

definition cunit_ok :: "cunit \<Rightarrow> bool" where
  "cunit_ok u \<longleftrightarrow> length (pendingCSI u) \<le> pending_csi_size \<and> length (oscBuf u) < con_oscbuf_size \<and> modes_ok (md u)"

lemma modes_ok_update [simp]:
  "modes_ok (m\<lparr>conFlags := a1\<rparr>) = modes_ok m" "modes_ok (m\<lparr>mouseMode := a2\<rparr>) = modes_ok m"
  "modes_ok (m\<lparr>mouseSGR := a3\<rparr>) = modes_ok m" "modes_ok (m\<lparr>mouseUTF8 := a3\<rparr>) = modes_ok m"
  "modes_ok (m\<lparr>mouseLastValid := a3\<rparr>) = modes_ok m" "modes_ok (m\<lparr>mouseReportedButtons := a4\<rparr>) = modes_ok m"
  "modes_ok (m\<lparr>charsets := a4\<rparr>) = modes_ok m" "modes_ok (m\<lparr>activeCharset := a2\<rparr>) = modes_ok m"
  "modes_ok (m\<lparr>lastPrintable := a5\<rparr>) = modes_ok m" "modes_ok (m\<lparr>hasLastPrintable := a3\<rparr>) = modes_ok m"
  "modes_ok (m\<lparr>renderUTF8 := a3\<rparr>) = modes_ok m" "modes_ok (m\<lparr>events := a6\<rparr>) = modes_ok m"
  "modes_ok (m\<lparr>modeLNM := a3\<rparr>) = modes_ok m" "modes_ok (m\<lparr>modeAWM := a3\<rparr>) = modes_ok m"
  "modes_ok (m\<lparr>modeASM := a3\<rparr>) = modes_ok m" "modes_ok (m\<lparr>derailed := a3\<rparr>) = modes_ok m"
  by (simp_all add: modes_ok_def)

lemma modes_ok_ops [simp]:
  "modes_ok (set_flag f b m) = modes_ok m" "modes_ok (emit ev m) = modes_ok m"
  "modes_ok (mouse_mode v b m) = modes_ok m"
  by (simp_all add: set_flag_def emit_def mouse_mode_def Let_def)

lemma modes_ok_remember [simp]: "modes_ok (con_remember_text c p m) = modes_ok m"
  by (simp add: con_remember_text_def split: con_cmd.split text_cmd.split list.split param.split)

lemma incomplete_tail_le: "incomplete_tail span \<le> 3"
proof -
  let ?bk = "length (takeWhile (\<lambda>b. b AND 0xC0 = 0x80) (take 3 (rev span)))"
  have "utf8_seqlen lead \<le> 4" for lead by (simp add: utf8_seqlen_def)
  have "?bk + 1 \<le> 3" if "?bk + 1 < utf8_seqlen lead" for lead
    using that \<open>utf8_seqlen lead \<le> 4\<close> by linarith
  then show ?thesis
    by (auto simp: incomplete_tail_def Let_def split: list.split)
qed

lemma text_command_ok: "modes_ok m \<Longrightarrow> text_command s m = (r, m') \<Longrightarrow> modes_ok m'"
proof -
  assume ok: "modes_ok m" and t: "text_command s m = (r, m')"
  define n where "n = con_text_span s (con_is_utf8 m)"
  from ok t incomplete_tail_le [of s] show "modes_ok m'"
    by (auto simp: text_command_def Let_def n_def [symmetric] modes_ok_def split: if_splits)
qed

lemma collector_reset_ok: "collector_ok (con_osc_clipboard_reset c)"
  by (simp add: collector_ok_def con_osc_clipboard_reset_def osc_clipboard_max_def)

lemma osc_store_ok:
  assumes "cunit_ok u"
  shows "cunit_ok (osc_store e b u)"
proof (cases "oscBuf u = [0x35, 0x32, 0x3b]")
  case True
  from assms have "collector_ok (clip (md u))" by (simp add: cunit_ok_def modes_ok_def)
  from collector_step [OF this] obtain c where
    c: "con_osc_clipboard_byte (clip (md u)) b (cc_alloc e (oscClipboardCapacity (clip (md u)))) = Some c"
       "collector_ok c" by blast
  with assms True show ?thesis by (simp add: osc_store_def cunit_ok_def modes_ok_def)
next
  case False
  with assms show ?thesis by (auto simp: osc_store_def cunit_ok_def Let_def con_oscbuf_size_def)
qed

lemma osc_collect_ok: "cunit_ok u \<Longrightarrow> osc_collect e s u = (rest, u', r) \<Longrightarrow> cunit_ok u'"
proof (induction s arbitrary: u)
  case (Cons b s)
  from Cons.prems Cons.IH [of u] Cons.IH [of "osc_store e b u"] osc_store_ok [of u e b] show ?case
    by (auto split: if_splits)
qed auto

lemma consume_osc_ok: "cunit_ok u \<Longrightarrow> consume_osc e s u = (c, p, rest, u') \<Longrightarrow> cunit_ok u'"
proof -
  assume ok: "cunit_ok u" and eq: "consume_osc e s u = (c, p, rest, u')"
  obtain rest0 u0 r where r: "osc_collect e s u = (rest0, u0, r)" by (metis prod_cases3)
  have "cunit_ok u0" by (rule osc_collect_ok [OF ok r])
  with eq r show ?thesis
    by (auto simp: consume_osc_def Let_def cunit_ok_def con_oscbuf_size_def split: option.splits prod.splits)
qed

section \<open>The interface of the console classes\<close>

locale console_class =
  fixes e :: con_class
  assumes command_ok: "modes_ok m \<Longrightarrow> modes_ok (cc_do e m cmd params)"
begin

lemma dec_mode_ok: "modes_ok (snd cm) \<Longrightarrow> modes_ok (snd (dec_mode e t v cm))"
  by (cases cm) (simp add: dec_mode_def command_ok)

lemma dec_scan_ok: "modes_ok (snd cm) \<Longrightarrow> dec_scan e t s v h cm = (cm', rest) \<Longrightarrow> modes_ok (snd cm')"
proof (induction s arbitrary: v h cm)
  case (Cons b s)
  from Cons.prems Cons.IH dec_mode_ok [of cm t v] show ?case
    by (auto simp: Let_def split: if_splits)
qed simp

lemma ansi_modes_ok: "modes_ok m \<Longrightarrow> modes_ok (fold (ansi_mode e t) fs m)"
  by (induction fs arbitrary: m) (simp_all add: ansi_mode_def command_ok split: option.split)

lemma keyboard_csi_ok: "modes_ok m \<Longrightarrow> keyboard_csi e s m = Some (r, m') \<Longrightarrow> modes_ok m'"
proof -
  assume ok: "modes_ok m" and eq: "keyboard_csi e s m = Some (r, m')"
  obtain n k rs where k: "con_keyboard_csi (keyb m) s (cc_alloc e 0) = (n, k, rs)" by (metis prod_cases3)
  then have "kb_unit_ok k" using kb_step_ok [of "keyb m" "Kb_csi s (cc_alloc e 0)"] ok by (simp add: modes_ok_def)
  then have "modes_ok (m\<lparr>keyb := k\<rparr>)" using ok by (simp add: modes_ok_def)
  moreover have "modes_ok (fold (\<lambda>r. emit (Inject r)) rs x) = modes_ok x" for x
    by (induction rs arbitrary: x) simp_all
  ultimately show "modes_ok m'" using eq k by (auto simp: keyboard_csi_def split: if_splits)
qed

lemma getmoderequest_ok: "modes_ok m \<Longrightarrow> getmoderequest e s m = Some (r, m') \<Longrightarrow> modes_ok m'"
  by (auto simp: getmoderequest_def Let_def split: list.splits if_splits option.splits)

lemma getansimodecommand_ok: "modes_ok m \<Longrightarrow> getansimodecommand e s m = Some (r, m') \<Longrightarrow> modes_ok m'"
  by (auto simp: getansimodecommand_def Let_def ansi_modes_ok split: list.splits if_splits)

lemma getdecprivatecommand_ok: "modes_ok m \<Longrightarrow> getdecprivatecommand e s m = Some (r, m') \<Longrightarrow> modes_ok m'"
  using dec_scan_ok [of "(Control C_NIL, m)"]
  by (fastforce simp: getdecprivatecommand_def Let_def split: list.splits if_splits prod.splits)

lemma param_command_ok: "modes_ok m \<Longrightarrow> param_command s m = Some (r, m') \<Longrightarrow> modes_ok m'"
  by (auto simp: param_command_def split: option.splits prod.splits if_splits)

lemma csi_command_ok: "modes_ok m \<Longrightarrow> csi_command e n s m = Some (r, m') \<Longrightarrow> modes_ok m'"
  unfolding csi_command_def
  by (auto dest!: or_elseD simp: try_parse_some
    intro: keyboard_csi_ok getmoderequest_ok getansimodecommand_ok getdecprivatecommand_ok
      param_command_ok)

lemma escape_command_ok: "modes_ok m \<Longrightarrow> escape_command s m = Some (r, m') \<Longrightarrow> modes_ok m'"
  unfolding escape_command_def or_else_cases try_parse_some
  by (elim disjE exE conjE)
    (auto simp: getcharset_def getkeypadmode_def Let_def split: list.splits if_splits)

lemma plain_command_ok:
  assumes "modes_ok m" "plain_command e s m = (r, m')"
  shows "modes_ok m'"
proof (cases "case csi_body s of None \<Rightarrow> None | Some (native, body) \<Rightarrow> csi_command e native body m")
  case None
  with assms show ?thesis
    by (auto simp: plain_command_def intro: text_command_ok split: list.splits option.splits if_splits)
next
  case (Some q)
  with assms(2) have q: "q = (r, m')" by (simp add: plain_command_def)
  from Some obtain n body where "csi_command e n body m = Some q" by (auto split: option.splits)
  then show ?thesis using csi_command_ok [OF assms(1)] q by blast
qed

lemma string2command_ok: "cunit_ok u \<Longrightarrow> string2command e s u = (r, u') \<Longrightarrow> cunit_ok u'"
proof -
  assume ok: "cunit_ok u" and eq: "string2command e s u = (r, u')"
  have upd: "cunit_ok (u\<lparr>dcsDiscard := b\<rparr>)" "modes_ok m \<Longrightarrow> cunit_ok (u\<lparr>md := m\<rparr>)" for b m
    using ok by (simp_all add: cunit_ok_def)
  have start: "cunit_ok (u\<lparr>md := (md u)\<lparr>clip := con_osc_clipboard_reset (clip (md u))\<rparr>,
      oscState := OSC_COLLECT, oscBuf := []\<rparr>)"
    using ok collector_reset_ok by (simp add: cunit_ok_def modes_ok_def con_oscbuf_size_def)
  have m: "modes_ok (md u)" using ok by (simp add: cunit_ok_def)
  show "cunit_ok u'"
    using eq ok
    by (auto simp: string2command_def Let_def split: if_splits option.splits prod.splits
        dest: consume_osc_ok consume_osc_ok [OF start] intro!: upd intro: escape_command_ok [OF m] plain_command_ok [OF m])
qed

lemma render_span_ok: "modes_ok m \<Longrightarrow> modes_ok (render_span e s m)"
  by (simp add: render_span_def command_ok)

lemma repeat_spans_ok: "modes_ok m \<Longrightarrow> modes_ok (repeat_spans e g n m)"
proof (induction n arbitrary: m rule: less_induct)
  case (less n)
  show ?case
  proof (cases "n = 0")
    case True
    then show ?thesis using less.prems by (simp add: repeat_spans.simps)
  next
    case False
    let ?c = "if n > 64 then 64 else n"
    have "modes_ok (repeat_spans e g (n - ?c) (render_span e (concat (replicate ?c g)) m))"
      using False by (intro less.IH render_span_ok less.prems) simp
    then show ?thesis using False by (subst repeat_spans.simps) (simp only: Let_def if_False)
  qed
qed

lemma emit_mapped_ok: "modes_ok m \<Longrightarrow> modes_ok (emit_mapped e utf8 s m)"
proof (induction "length s" arbitrary: s m rule: less_induct)
  case less
  show ?case
  proof (cases "s = []")
    case True
    then show ?thesis using less.prems by (simp add: emit_mapped.simps)
  next
    case False
    have "modes_ok (emit_mapped e utf8 (snd (map_chunk utf8 s [])) (render_span e (fst (map_chunk utf8 s [])) m))"
      by (intro less.hyps render_span_ok less.prems map_chunk_progress False)
    then show ?thesis using False by (subst emit_mapped.simps) simp
  qed
qed

lemma con_emit_command_ok: "modes_ok m \<Longrightarrow> modes_ok (con_emit_command e c p m)"
  by (simp add: con_emit_command_def Let_def command_ok emit_mapped_ok con_repeat_char_def repeat_spans_ok)

lemma complete_stash_ok:
  assumes "cunit_ok u" "complete_stash e s u = (u', s', b)"
  shows "cunit_ok u'"
proof -
  define stash need where "stash = utf8Stash (md u)" "need = utf8_seqlen (hd stash)"
  define k where "k = min (need - length stash) (length s)"
  define valid where "valid = length (takeWhile (\<lambda>b. b AND 0xC0 = 0x80) (take k s))"
  have m: "modes_ok (md u)" and len: "length stash \<le> 3"
    using assms(1) by (simp_all add: cunit_ok_def modes_ok_def stash_need_def)
  have upd: "modes_ok (f (md u)) \<Longrightarrow> cunit_ok (on_modes f u)" for f
    using assms(1) by (simp add: cunit_ok_def on_modes_def)
  have "valid \<le> k" using length_takeWhile_le [of _ "take k s"] by (simp add: valid_def order_trans)
  moreover have "need \<le> 4" by (simp add: stash_need_def utf8_seqlen_def)
  ultimately have "length (stash @ take valid s) \<noteq> need \<Longrightarrow> length (stash @ take valid s) \<le> 3"
    using len by (auto simp: k_def min_def split: if_splits)
  then have 1: "length (stash @ take valid s) \<noteq> need \<Longrightarrow> modes_ok (md u\<lparr>utf8Stash := stash @ take valid s\<rparr>)"
    using m by (simp add: modes_ok_def)
  have 2: "modes_ok (md u\<lparr>utf8Stash := []\<rparr>)" using m by (simp add: modes_ok_def)
  show ?thesis
    using assms 1 2
    by (auto simp: complete_stash_def Let_def stash_need_def [symmetric] k_def [symmetric] valid_def [symmetric]
      split: if_splits intro!: upd con_emit_command_ok)
qed

lemma parse_loop_ok: "cunit_ok u \<Longrightarrow> cunit_ok (fst (parse_loop e s u))"
proof (induction "parse_measure s u" arbitrary: s u rule: less_induct)
  case less
  show ?case
  proof (cases "s = [] \<or> cc_buffering e (md u) \<or> csi_incomplete s \<and> length s \<le> pending_csi_size")
    case True
    then show ?thesis using less.prems
      by (subst parse_loop.simps) (auto simp: cunit_ok_def)
  next
    case False
    then have ne: "s \<noteq> []" by blast
    obtain c p rest u' where eq: "string2command e s u = ((c, p, rest), u')" by (metis prod_cases3 surj_pair)
    have ok: "cunit_ok u'" by (rule string2command_ok [OF less.prems eq])
    let ?u = "u'\<lparr>md := con_emit_command e c p (md u')\<rparr>"
    have "parse_measure rest ?u < parse_measure s u"
      using string2command_progress [OF ne eq] by (simp add: parse_measure_def)
    moreover have "cunit_ok ?u" using ok con_emit_command_ok by (simp add: cunit_ok_def)
    ultimately have "cunit_ok (fst (parse_loop e rest ?u))" by (rule less.hyps)
    moreover have "parse_loop e s u = parse_loop e rest ?u"
      using ne False by (subst parse_loop.simps) (simp only: de_Morgan_disj if_False eq Let_def prod.case fst_conv snd_conv)
    ultimately show ?thesis by simp
  qed
qed

lemma con_parse_output_ok:
  assumes "cunit_ok u"
    and "con_parse_output e buf u = Some (n, err, u')"
  shows "cunit_ok u'"
proof -
  have on: "cunit_ok x \<Longrightarrow> cunit_ok (on_modes (emit ev) x)" for x ev
    by (simp add: cunit_ok_def on_modes_def)
  have clear: "cunit_ok (u\<lparr>pendingCSI := []\<rparr>)" using assms by (simp add: cunit_ok_def)
  obtain u1 s1 b where cs: "complete_stash e (pendingCSI u @ buf) (u\<lparr>pendingCSI := []\<rparr>) = (u1, s1, b)"
    by (metis prod_cases3)
  have u1: "cunit_ok u1" by (rule complete_stash_ok [OF clear cs])
  define plain where "plain = list_all plain_byte (pendingCSI u @ buf)"
  define u2 where "u2 = (if s1 \<noteq> [] \<and> \<not> plain then on_modes (emit UnRender_cursor) u1 else u1)"
  have "cunit_ok u2" using u1 on by (simp add: u2_def)
  then have "cunit_ok (fst (parse_loop e s1 u2))" by (rule parse_loop_ok)
  with assms u1 on cs show ?thesis
    unfolding con_parse_output_def Let_def cs prod.case plain_def [symmetric]
    unfolding u2_def [symmetric]
    by (auto split: prod.splits if_splits)
qed

end

section \<open>The model's console class\<close>

interpretation unit_console: console_class "unit_class alloc" for alloc
proof
  fix m cmd params
  assume ok: "modes_ok m"
  have reset: "modes_ok (stdcon_reset_state m)"
    using ok by (simp add: stdcon_reset_state_def modes_ok_def con_keyboard_dispose_def kb_unit_ok_def)
  have utf8: "modes_ok (set_flag f b m\<lparr>utf8Stash := []\<rparr>)" for f b
    using ok by (simp add: modes_ok_def set_flag_def)
  have "modes_ok (console_docommand m cmd params)"
    using ok reset utf8
    by (simp add: console_docommand_def stdcon_origin_mode_def
      split: con_cmd.split control_cmd.split mode_cmd.split text_cmd.split)
  then show "modes_ok (cc_do (unit_class alloc) m cmd params)" by (simp add: unit_class_def)
qed

end
