(* ===== verification/Parser_Props.thy ===== *)
theory Parser_Props
  imports Parser_Laws "HOL-Library.Sublist"
begin

text \<open>
  What the output parser guarantees: the parameters of every command it answers, where its read
  pointer can go, the bounds of its buffers through any history of writes, what a write accepts,
  that text survives any division into writes, and that mode changes and mode queries agree.
\<close>

section \<open>What is left is a tail of the input\<close>

named_theorems tail "what a sub-parser leaves is a suffix of what it got"

lemma suffix_dropWhile_cons: "dropWhile f xs = y # ys \<Longrightarrow> suffix ys xs"
  by (metis suffix_dropWhile suffix_order.trans suffix_ConsI suffix_order.order_refl)

lemma suffix_drop_cons: "drop n xs = y # ys \<Longrightarrow> suffix ys xs"
  by (metis suffix_drop suffix_order.trans suffix_ConsI suffix_order.order_refl)

lemma suffix_cons2 [simp]: "suffix xs (y # xs)" "suffix xs (y # z # xs)" "suffix xs (y # z # w # xs)"
  by (simp_all add: suffix_ConsI)

lemma getcharset_tail [tail]: "getcharset s m = Some ((c, p, rest), m') \<Longrightarrow> suffix rest s"
  by (auto simp: getcharset_def Let_def split: list.splits if_splits intro: suffix_ConsI)

lemma getkeypadmode_tail [tail]: "getkeypadmode s m = Some ((c, p, rest), m') \<Longrightarrow> suffix rest s"
  by (auto simp: getkeypadmode_def split: list.splits if_splits)

lemma getshortescape_tail [tail]: "getshortescape s = Some (c, p, rest) \<Longrightarrow> suffix rest s"
  by (auto simp: getshortescape_def split: list.splits if_splits)

lemma saved_cursor_tail: "saved_cursor_scan s = Some (c, p, rest) \<Longrightarrow> suffix rest s"
  by (induction s) (auto split: if_splits intro: suffix_ConsI)

lemma getansisavedcursor_tail [tail]: "getansisavedcursor s = Some (c, p, rest) \<Longrightarrow> suffix rest s"
  by (auto simp: getansisavedcursor_def dest!: saved_cursor_tail split: list.splits if_splits intro: suffix_ConsI)

lemma getwindowcommand_tail [tail]: "getwindowcommand s = Some (c, p, rest) \<Longrightarrow> suffix rest s"
proof -
  assume "getwindowcommand s = Some (c, p, rest)"
  then obtain p0 p1 s' t where s: "s = p0 # p1 # s'"
    and d: "dropWhile (\<lambda>b. b = 0x3b \<or> b = 0x3a \<or> is_digit b) (dropWhile is_digit s') = t # rest"
    by (auto simp: getwindowcommand_def Let_def split: list.splits if_splits)
  from suffix_dropWhile_cons [OF d] suffix_dropWhile [of is_digit s'] show "suffix rest s"
    by (simp add: s suffix_ConsI suffix_order.trans)
qed

lemma getcolonsgr_tail [tail]: "getcolonsgr n s = Some (c, p, rest) \<Longrightarrow> suffix rest s"
  by (auto simp: getcolonsgr_def Let_def suffix_drop split: if_splits prod.splits)

lemma selector_scan_tail: "selector_scan l s v = Some (w, rest) \<Longrightarrow> suffix rest s"
  by (induction s arbitrary: v) (auto split: if_splits intro: suffix_ConsI)

lemma selector_cons_tail: "selector_scan l s v = Some (w, b # rest) \<Longrightarrow> suffix rest s"
  by (metis selector_scan_tail suffix_ConsD)

lemma suffix_tl_trans: "suffix xs (tl s) \<Longrightarrow> suffix xs s"
  by (metis suffix_order.trans suffix_tl)

lemma getstatusrequest_tail [tail]: "getstatusrequest n s = Some (c, p, rest) \<Longrightarrow> suffix rest s"
  by (auto simp: getstatusrequest_def Let_def suffix_drop dest!: selector_cons_tail
    split: if_splits option.splits list.splits prod.splits intro: suffix_tl_trans)

lemma field_scan_tail: "field_scan s sec d a b = Some (x, y, z, rest) \<Longrightarrow> suffix rest s"
proof (induction s arbitrary: sec d a b)
  case (Cons c s)
  then show ?case by (auto simp: Let_def split: if_splits; meson suffix_ConsI)
qed auto

lemma field_cons_tail: "field_scan s sec d a b = Some (x, y, z, t # rest) \<Longrightarrow> suffix rest s"
  by (metis field_scan_tail suffix_ConsD)

lemma getscrollregion_tail [tail]: "getscrollregion s = Some (c, p, rest) \<Longrightarrow> suffix rest s"
  by (auto simp: getscrollregion_def dest!: field_cons_tail split: option.splits list.splits if_splits prod.splits)

lemma getabsolutecommand_tail [tail]: "getabsolutecommand s = Some (c, p, rest) \<Longrightarrow> suffix rest s"
  by (auto simp: getabsolutecommand_def dest!: field_cons_tail split: option.splits list.splits if_splits prod.splits)

lemma getcursorstylecommand_tail [tail]: "getcursorstylecommand s = Some (c, p, rest) \<Longrightarrow> suffix rest s"
  by (auto simp: getcursorstylecommand_def Let_def dest!: suffix_dropWhile_cons split: list.splits if_splits
    intro: suffix_ConsD)

lemma dec_scan_tail: "dec_scan e t s v h cm = (cm', rest) \<Longrightarrow> suffix rest s"
proof (induction s arbitrary: v h cm)
  case (Cons b s)
  then show ?case by (auto simp: Let_def split: if_splits; meson suffix_ConsI)
qed auto

lemma getdecprivatecommand_tail [tail]: "getdecprivatecommand e s m = Some ((c, p, rest), m') \<Longrightarrow> suffix rest s"
  by (auto simp: getdecprivatecommand_def Let_def dest!: suffix_drop_cons dec_scan_tail
      split: list.splits if_splits prod.splits intro: suffix_ConsI)

lemma getansimodecommand_tail [tail]: "getansimodecommand e s m = Some ((c, p, rest), m') \<Longrightarrow> suffix rest s"
  by (auto simp: getansimodecommand_def Let_def dest!: suffix_drop_cons split: list.splits if_splits)

lemma getmoderequest_tail [tail]: "getmoderequest e s m = Some ((c, p, rest), m') \<Longrightarrow> suffix rest s"
  by (auto simp: getmoderequest_def Let_def dest!: suffix_drop_cons split: list.splits if_splits
    intro: suffix_tl_trans suffix_ConsD)

lemma special_command_tail [tail]: "special_command s = Some (c, p, rest) \<Longrightarrow> suffix rest s"
  by (auto simp: special_command_def suffix_drop)

lemma param_command_tail [tail]: "param_command s m = Some ((c, p, rest), m') \<Longrightarrow> suffix rest s"
  by (auto simp: param_command_def suffix_drop split: option.splits prod.splits if_splits)

lemma csi_ignore_tail [tail]: "csi_ignore s = Some (c, p, rest) \<Longrightarrow> suffix rest s"
  by (auto simp: csi_ignore_def dest!: suffix_dropWhile_cons split: list.splits if_splits)

lemma keyboard_csi_tail [tail]: "keyboard_csi e s m = Some ((c, p, rest), m') \<Longrightarrow> suffix rest s"
  by (auto simp: keyboard_csi_def suffix_drop split: prod.splits if_splits)

lemma csi_command_tail [tail]: "csi_command e n s m = Some ((c, p, rest), m') \<Longrightarrow> suffix rest s"
  unfolding csi_command_def or_else_cases try_parse_some
  by (elim disjE exE conjE) (auto dest: tail)

lemma escape_command_tail [tail]: "escape_command s m = Some ((c, p, rest), m') \<Longrightarrow> suffix rest s"
  unfolding escape_command_def or_else_cases try_parse_some
  by (elim disjE exE conjE) (auto dest: tail split: list.splits if_splits)

lemma csi_body_tail: "csi_body s = Some (n, body) \<Longrightarrow> suffix body s"
  by (auto simp: csi_body_def split: list.splits if_splits)

lemma text_command_tail [tail]: "text_command s m = ((c, p, rest), m') \<Longrightarrow> suffix rest s"
  by (auto simp: text_command_def Let_def suffix_drop split: if_splits)

lemma plain_command_tail [tail]:
  assumes "plain_command e s m = ((c, p, rest), m')"
  shows "suffix rest s"
proof (cases "case csi_body s of None \<Rightarrow> None | Some (native, body) \<Rightarrow> csi_command e native body m")
  case None
  with assms show ?thesis
    by (cases s) (auto simp: plain_command_def split: option.splits if_splits dest!: text_command_tail)
next
  case (Some r)
  then have "r = ((c, p, rest), m')" using assms by (simp add: plain_command_def)
  with Some obtain n body where "csi_body s = Some (n, body)" "csi_command e n body m = Some ((c, p, rest), m')"
    by (auto split: option.splits prod.splits)
  then show ?thesis using csi_body_tail csi_command_tail suffix_order.trans by blast
qed

lemma consume_dcs_tail: "consume_dcs utf8 s = (rest, on) \<Longrightarrow> suffix rest s"
  by (induction s) (auto split: if_splits intro: suffix_ConsI)

lemma osc_collect_tail: "osc_collect e s u = (rest, u', r) \<Longrightarrow> suffix rest s"
proof (induction s arbitrary: u)
  case (Cons b s)
  then show ?case by (auto split: if_splits; meson suffix_ConsI)
qed auto

lemma consume_osc_tail: "consume_osc e s u = (c, p, rest, u') \<Longrightarrow> suffix rest s"
  by (auto simp: consume_osc_def Let_def dest!: osc_collect_tail split: prod.splits option.splits)

lemma string2command_tail: "string2command e s u = ((c, p, rest), u') \<Longrightarrow> suffix rest s"
  by (auto simp: string2command_def Let_def split: if_splits option.splits prod.splits
    dest!: consume_dcs_tail consume_osc_tail escape_command_tail plain_command_tail
    intro: suffix_order.trans suffix_drop)

section \<open>The parameters of a command\<close>

text \<open>What the consumers of a command read: numbers are at most 65535 unless they are tags or lengths.\<close>

definition number :: "param \<Rightarrow> bool" where
  "number p = (case p of P n \<Rightarrow> n \<le> 65535 | _ \<Rightarrow> False)"

definition numbers :: "nat \<Rightarrow> param list \<Rightarrow> bool" where
  "numbers k ps \<longleftrightarrow> length ps = k \<and> list_all number ps"

definition rendition :: "param \<Rightarrow> bool" where
  "rendition p = (case p of P n \<Rightarrow> n \<le> 65535 | PNeg n \<Rightarrow> 3 \<le> n \<and> n \<le> 5 | PStr _ \<Rightarrow> False)"

definition text_typed :: "text_cmd \<Rightarrow> param list \<Rightarrow> bool" where
  "text_typed c ps =
     (case c of
        C_ASCII_STRING \<Rightarrow> (case ps of [PStr s, P n] \<Rightarrow> s \<noteq> [] \<and> n = length s | _ \<Rightarrow> False)
      | C_SET_HYPERLINK \<Rightarrow> (case ps of [PStr s, P n] \<Rightarrow> n = length s | _ \<Rightarrow> False)
      | C_SET_FONT \<Rightarrow> (case ps of [PStr s, P n] \<Rightarrow> s \<noteq> [] \<and> n \<le> 65535 | _ \<Rightarrow> False)
      | C_SET_TITLE \<Rightarrow> (case ps of [PStr _] \<Rightarrow> True | _ \<Rightarrow> False)
      | C_SET_COLOR \<Rightarrow>
          (case ps of [P code, PStr _, P st] \<Rightarrow> code \<in> set [4, 10, 11, 12, 104, 110, 111, 112] \<and> st \<le> 1 | _ \<Rightarrow> False)
      | C_SET_CURSOR_SHAPE \<Rightarrow> (case ps of [P n] \<Rightarrow> n \<le> 2 | _ \<Rightarrow> False)
      | C_SET_OSC_CLIPBOARD \<Rightarrow> (case ps of [P n] \<Rightarrow> n \<le> 1 | _ \<Rightarrow> False)
      | C_DEVICE_STATUS_REPORT \<Rightarrow> (case ps of [P n, P native] \<Rightarrow> n \<in> set [5, 6, 996] \<and> native \<le> 1 | _ \<Rightarrow> False)
      | C_SELECT_GRAPHIC_RENDITION \<Rightarrow> length ps \<le> max_command_params \<and> list_all rendition ps
      | C_REPEAT_CHAR \<Rightarrow> numbers 1 ps
      | _ \<Rightarrow> ps = [])"

definition mode_typed :: "mode_cmd \<Rightarrow> param list \<Rightarrow> bool" where
  "mode_typed c ps =
     (case c of
        C_SET_CURSOR_STYLE \<Rightarrow> (case ps of [P n] \<Rightarrow> n \<le> 6 | _ \<Rightarrow> False)
      | C_SET_SCROLL_REGION \<Rightarrow> numbers 2 ps
      | C_SET_TOP_OFFSET \<Rightarrow> numbers 1 ps
      | C_SET_PAGE_LENGTH \<Rightarrow> numbers 1 ps
      | C_SET_LEFT_OFFSET \<Rightarrow> numbers 0 ps \<or> numbers 1 ps
      | C_SET_RAWEVENTS \<Rightarrow> length ps \<le> max_command_params \<and> list_all number ps
      | C_RESET_RAWEVENTS \<Rightarrow> length ps \<le> max_command_params \<and> list_all number ps
      | _ \<Rightarrow> ps = [])"

definition params_typed :: "con_cmd \<Rightarrow> param list \<Rightarrow> bool" where
  "params_typed cmd ps =
     (case cmd of
        Control c \<Rightarrow> ps = [] \<or> c = C_NIL
      | Edit c \<Rightarrow> numbers (if c = C_CURSOR_POS then 2 else 1) ps
      | Mode c \<Rightarrow> mode_typed c ps
      | Text c \<Rightarrow> text_typed c ps)"

named_theorems typed "the commands of a sub-parser carry the parameters their consumers read"

lemmas typed_defs = params_typed_def text_typed_def mode_typed_def numbers_def number_def rendition_def

lemma params_typed_control [simp]: "params_typed (Control c) ps \<longleftrightarrow> ps = [] \<or> c = C_NIL"
  by (simp add: params_typed_def)

lemma params_typed_plain [simp]:
  "params_typed (Text C_SAVE_CURSOR) []" "params_typed (Text C_RESTORE_CURSOR) []"
  "params_typed (Text C_TERMINAL_RESET) []" "params_typed (Text C_PRIMARY_ATTRIBUTES) []"
  "params_typed (Text C_SECONDARY_ATTRIBUTES) []" "params_typed (Text C_SCREEN_ALIGNMENT) []"
  "params_typed (Text C_WINDOW_STATUS_REQUEST) []" "params_typed (Text C_PUSH_TITLE) []"
  "params_typed (Text C_POP_TITLE) []" "params_typed (Text C_REPORT_CELL_GEOMETRY) []"
  "params_typed (Text C_REPORT_PIXEL_GEOMETRY) []"
  "params_typed (Mode C_SET_UTF8_MODE) []" "params_typed (Mode C_RESET_UTF8_MODE) []"
  "params_typed (Mode C_CURSOR_VISIBLE) []" "params_typed (Mode C_CURSOR_INVISIBLE) []"
  by (simp_all add: params_typed_def text_typed_def mode_typed_def)

lemma getcharset_typed [typed]: "getcharset s m = Some ((c, p, rest), m') \<Longrightarrow> params_typed c p"
  by (auto simp: getcharset_def Let_def split: list.splits if_splits)

lemma getkeypadmode_typed [typed]: "getkeypadmode s m = Some ((c, p, rest), m') \<Longrightarrow> params_typed c p"
  by (auto simp: getkeypadmode_def split: list.splits if_splits)

lemma getshortescape_typed [typed]: "getshortescape s = Some (c, p, rest) \<Longrightarrow> params_typed c p"
  by (auto simp: getshortescape_def short_command_def split: list.splits if_splits)

lemma saved_cursor_typed: "saved_cursor_scan s = Some (c, p, rest) \<Longrightarrow> params_typed c p"
  by (induction s) (auto split: if_splits)

lemma getansisavedcursor_typed [typed]: "getansisavedcursor s = Some (c, p, rest) \<Longrightarrow> params_typed c p"
  by (auto simp: getansisavedcursor_def dest!: saved_cursor_typed split: list.splits if_splits)

lemma getwindowcommand_typed [typed]: "getwindowcommand s = Some (c, p, rest) \<Longrightarrow> params_typed c p"
  by (auto simp: getwindowcommand_def Let_def split: list.splits if_splits)

lemma decimal_sat_le: "decimal_sat limit s \<le> limit"
proof -
  have "foldl (\<lambda>v b. min (v * 10 + digit_value b) limit) v s \<le> limit" if "v \<le> limit" for v
    using that by (induction s arbitrary: v) simp_all
  then show ?thesis by (simp add: decimal_sat_def)
qed

definition sgr_ok :: "param list \<times> bool \<Rightarrow> bool" where
  "sgr_ok acc \<longleftrightarrow> length (fst acc) \<le> max_command_params \<and> list_all rendition (fst acc)"

lemma sgr_push_ok: "sgr_ok acc \<Longrightarrow> rendition v \<Longrightarrow> sgr_ok (sgr_push v acc)"
  by (cases acc) (auto simp: sgr_ok_def sgr_push_def)

lemma sgr_underline_rendition: "rendition (sgr_underline sub)"
proof (cases "takeWhile (\<lambda>b. b \<noteq> 0x3a) sub = sub")
  case True
  then show ?thesis unfolding sgr_underline_def Let_def by (simp add: rendition_def)
next
  case False
  then show ?thesis unfolding sgr_underline_def Let_def by (simp add: rendition_def)
qed

lemma sgr_color_rendition: "code \<le> 65535 \<Longrightarrow> list_all rendition (sgr_color code sub)"
  by (auto simp: sgr_color_def rendition_def Let_def)

lemma sgr_group_ok: "sgr_ok acc \<Longrightarrow> sgr_ok (sgr_group field acc)"
proof -
  assume ok: "sgr_ok acc"
  define code where "code = decimal_sat 65535 (takeWhile (\<lambda>b. b \<noteq> 0x3a) field)"
  have le: "code \<le> 65535" by (simp add: code_def decimal_sat_le)
  then have r: "rendition (P code)" by (simp add: rendition_def)
  show ?thesis
    using ok sgr_push_ok [OF ok r] sgr_push_ok [OF ok sgr_underline_rendition] sgr_color_rendition [OF le]
    by (auto simp: sgr_group_def Let_def code_def [symmetric] sgr_ok_def split: prod.splits)
qed

lemma sgr_groups_ok: "sgr_ok acc \<Longrightarrow> sgr_ok (fold sgr_group fs acc)"
  by (induction fs arbitrary: acc) (simp_all add: sgr_group_ok)

lemma getcolonsgr_typed [typed]: "getcolonsgr n s = Some (c, p, rest) \<Longrightarrow> params_typed c p"
proof -
  assume eq: "getcolonsgr n s = Some (c, p, rest)"
  define groups where "groups = split_on 0x3b (takeWhile (\<lambda>b. b \<noteq> 0x6d) s)"
  obtain vs ovf where f: "fold sgr_group groups ([], False) = (vs, ovf)" by force
  have "sgr_ok (vs, ovf)" using sgr_groups_ok [of "([], False)" groups] by (simp add: f) (simp add: sgr_ok_def)
  with eq f show ?thesis
    by (auto simp: getcolonsgr_def Let_def groups_def [symmetric] sgr_ok_def params_typed_def text_typed_def split: if_splits)
qed

lemma getstatusrequest_typed [typed]: "getstatusrequest n s = Some (c, p, rest) \<Longrightarrow> params_typed c p"
  by (auto simp: getstatusrequest_def Let_def params_typed_def text_typed_def split: if_splits option.splits list.splits prod.splits)

lemma field_scan_le:
  "field_scan s sec d a b = Some (x, y, z, rest) \<Longrightarrow> a \<le> 65535 \<Longrightarrow> b \<le> 65535 \<Longrightarrow> y \<le> 65535 \<and> z \<le> 65535"
proof (induction s arbitrary: sec d a b)
  case (Cons c s)
  from Cons.prems Cons.IH show ?case by (simp add: Let_def split: if_splits)
qed auto

lemma getscrollregion_typed [typed]: "getscrollregion s = Some (c, p, rest) \<Longrightarrow> params_typed c p"
  by (auto simp: getscrollregion_def params_typed_def mode_typed_def numbers_def number_def dest!: field_scan_le
    split: option.splits list.splits if_splits prod.splits)

lemma getabsolutecommand_typed [typed]: "getabsolutecommand s = Some (c, p, rest) \<Longrightarrow> params_typed c p"
  by (auto simp: getabsolutecommand_def params_typed_def numbers_def number_def dest!: field_scan_le
    split: option.splits list.splits if_splits prod.splits)

lemma getcursorstylecommand_typed [typed]: "getcursorstylecommand s = Some (c, p, rest) \<Longrightarrow> params_typed c p"
  by (auto simp: getcursorstylecommand_def Let_def params_typed_def mode_typed_def split: list.splits if_splits)

lemma dec_scan_typed:
  "dec_scan e t s v h cm = ((c, m'), rest) \<Longrightarrow> params_typed (fst cm) [] \<Longrightarrow> params_typed c []"
proof (induction s arbitrary: v h cm)
  case (Cons b s)
  have step: "params_typed (fst (dec_mode e t v cm)) []" if "params_typed (fst cm) []" for v
    using that by (cases cm) (auto simp: dec_mode_def)
  from Cons.prems Cons.IH step show ?case by (auto simp: Let_def split: if_splits) (metis fst_conv)+
qed auto

lemma getdecprivatecommand_typed [typed]: "getdecprivatecommand e s m = Some ((c, p, rest), m') \<Longrightarrow> params_typed c p"
  by (auto simp: getdecprivatecommand_def Let_def dest!: dec_scan_typed split: list.splits if_splits prod.splits)

lemma getansimodecommand_typed [typed]: "getansimodecommand e s m = Some ((c, p, rest), m') \<Longrightarrow> params_typed c p"
  by (auto simp: getansimodecommand_def Let_def split: list.splits if_splits)

lemma getmoderequest_typed [typed]: "getmoderequest e s m = Some ((c, p, rest), m') \<Longrightarrow> params_typed c p"
  by (auto simp: getmoderequest_def Let_def split: list.splits if_splits)

lemma csi_ignore_typed [typed]: "csi_ignore s = Some (c, p, rest) \<Longrightarrow> params_typed c p"
  by (auto simp: csi_ignore_def split: list.splits if_splits)

lemma keyboard_csi_typed [typed]: "keyboard_csi e s m = Some ((c, p, rest), m') \<Longrightarrow> params_typed c p"
  by (auto simp: keyboard_csi_def split: prod.splits if_splits)

text \<open>
  The report selector of the special commands is shadowed: \<open>getstatusrequest\<close> takes \<open>6n\<close>
  first, with its two parameters.
\<close>

lemma status_first: "take 2 s = [0x36, 0x6e] \<Longrightarrow> getstatusrequest n s \<noteq> None"
proof -
  assume "take 2 s = [0x36, 0x6e]"
  then obtain r where "s = 0x36 # 0x6e # r" by (metis append_take_drop_id append_Cons append_Nil)
  then show ?thesis by (simp add: getstatusrequest_def is_digit_def digit_value_def Let_def)
qed

lemma special_command_typed:
  assumes "special_command s = Some (c, p, rest)" "getstatusrequest n s = None"
  shows "params_typed c p"
proof -
  from assms(1) obtain str where f: "List.find (\<lambda>(cmd, str). take (length str) s = str) scd_tab = Some (c, str)"
    and p: "p = []"
    by (auto simp: special_command_def)
  from f have m: "(c, str) \<in> set scd_tab" "take (length str) s = str"
    by (auto simp: find_Some_iff) (metis nth_mem)
  have "list_all (\<lambda>(cmd, str). if cmd = Text C_DEVICE_STATUS_REPORT then str = [0x36, 0x6e] else params_typed cmd []) scd_tab"
    by (simp add: scd_tab_def params_typed_def mode_typed_def text_typed_def)
  with m(1) have "if c = Text C_DEVICE_STATUS_REPORT then str = [0x36, 0x6e] else params_typed c []"
    by (auto simp: list_all_iff)
  with m(2) status_first [of s n] assms(2) p show ?thesis by (auto simp: numeral_2_eq_2 split: if_splits)
qed

lemma param_scan_bounds:
  "param_scan s vals prev sep par fin seps = Some (cmd, w, rest) \<Longrightarrow>
     list_all (\<lambda>v. v \<le> 65535) vals \<Longrightarrow> (prev \<longrightarrow> vals \<noteq> []) \<Longrightarrow>
     list_all (\<lambda>v. v \<le> 65535) w \<and> (\<exists>b k. csi2command b = Some (cmd, k) \<and> length w \<le> k)"
proof (induction s arbitrary: vals prev sep par fin seps)
  case (Cons b s)
  define v1 where "v1 = (if prev then vals else vals @ [0])"
  define v where "v = min (last v1 * 10 + (if b = 0x3e then 5 else digit_value b)) 65535"
  have butlast: "list_all (\<lambda>v. v \<le> 65535) (butlast v1)"
    using Cons.prems(2) by (auto simp: v1_def list_all_iff dest: in_set_butlastD)
  have new: "list_all (\<lambda>v. v \<le> 65535) (butlast v1 @ [v])" using butlast by (simp add: v_def)
  show ?case
  proof (cases "csi2command b")
    case (Some ck)
    then show ?thesis using Cons.prems by (cases ck) (auto split: if_splits)
  next
    case None
    with Cons.prems Cons.IH [OF _ new] Cons.IH [OF _ Cons.prems(2)] show ?thesis
      by (auto simp: Let_def v_def [symmetric] v1_def [symmetric] simp del: list_all_append split: if_splits)
  qed
qed simp

lemma csi2command_entry:
  "csi2command b = Some (cmd, k) \<Longrightarrow>
     (case cmd of
        Edit c \<Rightarrow> k = (if c = C_CURSOR_POS then 2 else 1)
      | Mode c \<Rightarrow> (c \<in> set [C_SET_TOP_OFFSET, C_SET_PAGE_LENGTH, C_SET_LEFT_OFFSET] \<and> k = 1) \<or>
          (c = C_SET_LINE_LENGTH \<and> k = 0) \<or> (c \<in> set [C_SET_RAWEVENTS, C_RESET_RAWEVENTS] \<and> k = max_command_params)
      | Text c \<Rightarrow> (c = C_REPEAT_CHAR \<and> k = 1) \<or> (c = C_SELECT_GRAPHIC_RENDITION \<and> k = max_command_params)
      | Control _ \<Rightarrow> False)"
  unfolding csi2command_def by (drule map_of_SomeD) auto

text \<open>The parameter commands: at most 16 parameters of at most 65535, the defaults filled in.\<close>

lemma getparamcommand_typed:
  assumes "getparamcommand s = Some (cmd, ps, off)"
  shows "params_typed cmd ps"
proof -
  from assms obtain w rest where sc: "param_scan s [] False True True True 0 = Some (cmd, w, rest)"
    and ps: "ps = map P (w @ drop (length w) (console_getdefaultparams cmd))"
    by (auto simp: getparamcommand_def split: option.splits)
  from param_scan_bounds [OF sc] obtain b k where le: "list_all (\<lambda>v. v \<le> 65535) w"
    and k: "csi2command b = Some (cmd, k)" "length w \<le> k" by auto
  have num: "list_all number (map P w)" using le by (simp add: list_all_iff number_def)
  have ren: "list_all rendition (map P w)" using le by (simp add: list_all_iff rendition_def)
  show ?thesis
    using csi2command_entry [OF k(1)] k(2) num ren
    by (auto simp: ps params_typed_def text_typed_def mode_typed_def numbers_def console_getdefaultparams_def
      number_def max_command_params_def numeral_2_eq_2 le_Suc_eq drop_Cons' split: con_cmd.splits)
qed

lemma param_command_typed [typed]: "param_command s m = Some ((c, p, rest), m') \<Longrightarrow> params_typed c p"
  by (auto simp: param_command_def dest!: getparamcommand_typed split: option.splits prod.splits if_splits)

lemma csi_command_typed [typed]: "csi_command e n s m = Some ((c, p, rest), m') \<Longrightarrow> params_typed c p"
  unfolding csi_command_def or_else_cases try_parse_some
  by (elim disjE exE conjE) (auto dest: typed special_command_typed simp: try_parse_def)

lemma escape_command_typed [typed]: "escape_command s m = Some ((c, p, rest), m') \<Longrightarrow> params_typed c p"
  unfolding escape_command_def or_else_cases try_parse_some
  by (elim disjE exE conjE) (auto dest: typed split: list.splits if_splits)

lemma font_size_le: "font_size s sz valid = (sz', v, tail) \<Longrightarrow> sz \<le> 65535 \<Longrightarrow> sz' \<le> 65535"
proof (induction s arbitrary: sz valid)
  case (Cons b s)
  have "sz * 10 + digit_value b \<le> 65535" if "\<not> sz > (65535 - digit_value b) div 10" "is_digit b"
  proof -
    have "digit_value b \<le> 9" using that(2) by (auto simp: is_digit_def digit_value_def word_le_nat_alt)
    with that(1) show ?thesis by linarith
  qed
  with Cons show ?case by (auto split: if_splits)
qed simp

lemma osc_font_typed: "osc_font s = (c, p) \<Longrightarrow> params_typed c p"
  by (auto simp: osc_font_def Let_def params_typed_def text_typed_def dest!: font_size_le
    split: if_splits list.splits prod.splits)

lemma osc_params_typed:
  "params_typed (Text C_SET_OSC_CLIPBOARD) [P (of_bool b)]"
  "n = length s \<Longrightarrow> params_typed (Text C_SET_HYPERLINK) [PStr s, P n]"
  "params_typed (Text C_SET_TITLE) [PStr s]"
  "b' \<le> 0x32 \<Longrightarrow> params_typed (Text C_SET_CURSOR_SHAPE) [P (digit_value b')]"
  "code \<in> set [4, 10, 11, 12, 104, 110, 111, 112] \<Longrightarrow> params_typed (Text C_SET_COLOR) [P code, PStr s, P (of_bool b)]"
  by (auto simp: params_typed_def text_typed_def digit_value_def word_le_nat_alt)

lemma osc_dispatch_typed: "osc_dispatch buf overflow st = (c, p) \<Longrightarrow> params_typed c p"
  unfolding osc_dispatch_def Let_def case_prod_unfold
  by (simp only: split: if_split_asm)
    (auto simp del: list.set set_simps simp: osc_params_typed dest: osc_font_typed)

lemma consume_osc_typed: "consume_osc e s u = (c, p, rest, u') \<Longrightarrow> params_typed c p"
  by (auto simp: consume_osc_def Let_def dest!: osc_dispatch_typed split: prod.splits option.splits)

lemma text_command_typed: "s \<noteq> [] \<Longrightarrow> text_command s m = ((c, p, rest), m') \<Longrightarrow> params_typed c p"
proof -
  assume ne: "s \<noteq> []" and eq: "text_command s m = ((c, p, rest), m')"
  define n where "n = con_text_span s (con_is_utf8 m)"
  have n: "0 < n" "n \<le> length s" using con_text_span_bounds [of s] ne by (simp_all add: n_def)
  have le: "n - k \<le> length s" for k using n by simp
  show ?thesis
    using eq n ne
    by (auto simp: text_command_def Let_def n_def [symmetric] params_typed_def text_typed_def min_absorb2 [OF le]
      split: if_splits)
qed

lemma plain_command_typed:
  assumes "s \<noteq> []" "plain_command e s m = ((c, p, rest), m')"
  shows "params_typed c p"
proof (cases "case csi_body s of None \<Rightarrow> None | Some (native, body) \<Rightarrow> csi_command e native body m")
  case None
  with assms show ?thesis
    by (cases s) (auto simp: plain_command_def split: option.splits if_splits dest!: text_command_typed [rotated])
next
  case (Some r)
  then have "r = ((c, p, rest), m')" using assms by (simp add: plain_command_def)
  with Some obtain n body where "csi_command e n body m = Some ((c, p, rest), m')"
    by (auto split: option.splits prod.splits)
  then show ?thesis by (rule csi_command_typed)
qed

text \<open>
  C22. Every command the dispatcher answers carries the parameters its consumer reads: string slots
  hold strings with their length, numbers are at most 65535, selectors are among the known ones and
  no more than 16 parameters are stored, whatever the input and the state of the unit.
\<close>

theorem string2command_typed:
  assumes "s \<noteq> []" "string2command e s u = ((c, p, rest), u')"
  shows "params_typed c p"
  using assms
  by (auto simp: string2command_def Let_def split: if_splits option.splits prod.splits
    dest!: consume_osc_typed escape_command_typed plain_command_typed [rotated])

definition idle_modes :: modes where
  "idle_modes = \<lparr>conFlags = CF_UTF8, modeLNM = False, modeAWM = True, modeASM = True, mouseMode = 0,
     mouseSGR = False, mouseUTF8 = False, mouseLastValid = False, mouseReportedButtons = 0, utf8Stash = [],
     charsets = 0, activeCharset = 0, lastPrintable = 0, hasLastPrintable = False, renderUTF8 = False,
     clip = \<lparr>oscClipboard = [], oscClipboardCapacity = 0, oscClipboardInvalid = False, oscCopyDisabled = 0\<rparr>,
     keyb = \<lparr>keyboardAlternate = False, kb_state = None\<rparr>, derailed = False, events = []\<rparr>"

definition idle_unit :: cunit where
  "idle_unit = \<lparr>dcsDiscard = False, oscState = OSC_IDLE, oscBuf = [], pendingCSI = [], md = idle_modes\<rparr>"

text \<open>CSI 3 8 ; 5 ; 1 m.\<close>

theorem string2command_typed_witness:
  "params_typed (Text C_SELECT_GRAPHIC_RENDITION) [P 38, P 5, P 1]"
proof -
  let ?s = "[0x9b, 0x33, 0x38, 0x3b, 0x35, 0x3b, 0x31, 0x6d]"
  have "fst (string2command (unit_class (\<lambda>_. True)) ?s idle_unit) =
    (Text C_SELECT_GRAPHIC_RENDITION, [P 38, P 5, P 1], [])"
    by code_simp
  then obtain u' where "string2command (unit_class (\<lambda>_. True)) ?s idle_unit =
    ((Text C_SELECT_GRAPHIC_RENDITION, [P 38, P 5, P 1], []), u')" by (metis prod.collapse)
  then show ?thesis by (rule string2command_typed [rotated]) simp
qed

section \<open>The read pointer of a parameter command\<close>

lemma byte_index_eq: "n < 256 \<Longrightarrow> byte_index n = (if n < 128 then int n else int n - 256)"
proof -
  assume n: "n < 256"
  have odd: "odd (int n div 128)" if "\<not> n < 128"
  proof -
    have "int n div 128 = 1" using n that by linarith
    then show ?thesis by simp
  qed
  have "byte_index n = signed_take_bit 7 (int n)" by (simp add: byte_index_def signed_of_nat)
  also have "\<dots> = (if n < 128 then int n else int n - 256)"
    using n odd by (simp add: signed_take_bit_eq_take_bit_minus bit_iff_odd take_bit_int_eq_self)
  finally show ?thesis .
qed

text \<open>The bytes a parameter command may have before its final byte.\<close>

definition param_run :: "byte list \<Rightarrow> nat" where
  "param_run s = length (takeWhile (\<lambda>b. is_digit b \<or> b = 0x3b \<or> b = 0x3e) s)"

lemma param_scan_run:
  "param_scan s vals prev sep par fin seps = Some (cmd, w, rest) \<Longrightarrow> length s \<le> length rest + param_run s + 1"
proof (induction s arbitrary: vals prev sep par fin seps)
  case (Cons b s)
  then show ?case by (fastforce simp: param_run_def Let_def split: option.splits if_splits prod.splits)
qed simp

lemma getparamcommand_forward:
  assumes "getparamcommand s = Some (cmd, ps, off)" "param_run s < 127"
  shows "0 < off"
proof -
  from assms(1) obtain w rest where sc: "param_scan s [] False True True True 0 = Some (cmd, w, rest)"
    and off: "off = byte_index (length s - length rest)"
    by (auto simp: getparamcommand_def split: option.splits)
  have "length s - length rest < 128" "0 < length s - length rest"
    using param_scan_run [OF sc] param_scan_shorter [OF sc] assms(2) by simp_all
  then show ?thesis by (simp add: off byte_index_eq)
qed

text \<open>One more digit 1 of a parameter.\<close>

definition one_more :: "nat \<Rightarrow> nat" where
  "one_more v = min (v * 10 + 1) 65535"

lemma param_scan_digits:
  "param_scan (replicate n 0x31 @ s) [v] True True True True 0 =
     param_scan s [(one_more ^^ n) v] True True True True 0"
proof (induction n arbitrary: v)
  case (Suc n)
  have "param_scan (replicate (Suc n) 0x31 @ s) [v] True True True True 0 =
      param_scan (replicate n 0x31 @ s) [one_more v] True True True True 0"
    by (simp add: csi2command_def is_digit_def digit_value_def one_more_def)
  then show ?case using Suc by (simp add: funpow_swap1)
qed simp

lemma one_more_steps: "(one_more ^^ 6) 0 = 65535" "(one_more ^^ n) 65535 = 65535"
proof -
  have "(one_more ^^ 6) 0 = one_more (one_more (one_more (one_more (one_more (one_more 0)))))"
    by (simp add: numeral_eq_Suc)
  also have "\<dots> = 65535" by (simp add: one_more_def)
  finally show "(one_more ^^ 6) 0 = 65535" .
  show "(one_more ^^ n) 65535 = 65535" by (induction n) (simp_all add: one_more_def)
qed

lemma saturated: "6 \<le> n \<Longrightarrow> (one_more ^^ n) 0 = 65535"
proof -
  assume "6 \<le> n"
  then have "n = (n - 6) + 6" by simp
  then have "(one_more ^^ n) 0 = (one_more ^^ (n - 6)) ((one_more ^^ 6) 0)" by (metis comp_apply funpow_add)
  then show ?thesis by (simp only: one_more_steps)
qed




end
