(* ===== verification/Parser_Accept.thy ===== *)
theory Parser_Accept
  imports Parser_Props
begin

text \<open>
  What a write accepts. A class that keeps the carry-over of a split character alone is a
  \<open>steady_class\<close>; for it the character stash and the stash of an incomplete control sequence are
  never used together, a write that is not refused is taken as a whole, and one whose control
  sequences have fewer than 127 parameter bytes always has a result.
\<close>

section \<open>The carry-over of a split character\<close>

definition steady :: "modes \<Rightarrow> modes \<Rightarrow> bool" where
  "steady m m' \<longleftrightarrow> derailed m' = derailed m \<and> (utf8Stash m = [] \<longrightarrow> utf8Stash m' = [])"

definition stash_ok :: "modes \<Rightarrow> bool" where
  "stash_ok m \<longleftrightarrow> utf8Stash m = [] \<or>
     (con_is_utf8 m \<and> length (utf8Stash m) < utf8_seqlen (hd (utf8Stash m)))"

definition carry_ok :: "cunit \<Rightarrow> bool" where
  "carry_ok u \<longleftrightarrow> \<not> derailed (md u) \<and> stash_ok (md u) \<and> (pendingCSI u = [] \<or> utf8Stash (md u) = [])"

locale steady_class = console_class +
  assumes do_steady: "steady m (cc_do e m cmd params)"
    and do_text: "cmd = Text C_ASCII_STRING \<or> cmd = Control C_NIL \<Longrightarrow>
      utf8Stash (cc_do e m cmd params) = utf8Stash m \<and> con_is_utf8 (cc_do e m cmd params) = con_is_utf8 m"
    and not_buffering: "\<not> cc_buffering e m"

lemma steady_left [simp]: "steady (m\<lparr>clip := c\<rparr>) m' = steady m m'"
  by (simp add: steady_def)

lemma steady_refl [simp]: "steady m m"
  by (simp add: steady_def)

lemma steady_trans: "steady a b \<Longrightarrow> steady b c \<Longrightarrow> steady a c"
  by (simp add: steady_def)

lemma steady_update [simp]:
  "steady m (m'\<lparr>mouseMode := a2\<rparr>) = steady m m'" "steady m (m'\<lparr>mouseSGR := a3\<rparr>) = steady m m'"
  "steady m (m'\<lparr>mouseUTF8 := a3\<rparr>) = steady m m'" "steady m (m'\<lparr>mouseLastValid := a3\<rparr>) = steady m m'"
  "steady m (m'\<lparr>mouseReportedButtons := a4\<rparr>) = steady m m'" "steady m (m'\<lparr>charsets := a4\<rparr>) = steady m m'"
  "steady m (m'\<lparr>lastPrintable := a5\<rparr>) = steady m m'" "steady m (m'\<lparr>hasLastPrintable := a3\<rparr>) = steady m m'"
  "steady m (m'\<lparr>renderUTF8 := a3\<rparr>) = steady m m'" "steady m (m'\<lparr>events := a6\<rparr>) = steady m m'"
  "steady m (m'\<lparr>keyb := a7\<rparr>) = steady m m'" "steady m (m'\<lparr>clip := a8\<rparr>) = steady m m'"
  "steady m (m'\<lparr>conFlags := a9\<rparr>) = steady m m'"
  by (simp_all add: steady_def)

lemma steady_ops [simp]:
  "steady m (set_flag f b m') = steady m m'" "steady m (emit ev m') = steady m m'"
  "steady m (mouse_mode v b m') = steady m m'"
  by (simp_all add: set_flag_def emit_def mouse_mode_def Let_def)

lemma steady_emits [simp]: "steady m (fold (\<lambda>r. emit (Inject r)) rs m') = steady m m'"
  by (induction rs arbitrary: m') simp_all

lemma steady_remember [simp]: "steady m (con_remember_text c p m') = steady m m'"
  by (simp add: con_remember_text_def split: con_cmd.split text_cmd.split list.split param.split)

lemma remember_keeps [simp]:
  "utf8Stash (con_remember_text c p m) = utf8Stash m" "con_is_utf8 (con_remember_text c p m) = con_is_utf8 m"
  by (simp_all add: con_remember_text_def con_is_utf8_def split: con_cmd.split text_cmd.split list.split param.split)

text \<open>The text case: a stash is left only at the end of the input, and it is an incomplete character.\<close>

lemma incomplete_tail_stash:
  assumes "incomplete_tail span \<noteq> 0"
  shows "drop (length span - incomplete_tail span) span \<noteq> [] \<and>
    length (drop (length span - incomplete_tail span) span) < utf8_seqlen (hd (drop (length span - incomplete_tail span) span))"
proof -
  define bk where "bk = length (takeWhile (\<lambda>b. b AND 0xC0 = 0x80) (take 3 (rev span)))"
  obtain lead more where before: "drop bk (rev span) = lead # more" and len: "bk + 1 < utf8_seqlen lead"
    and tail: "incomplete_tail span = bk + 1"
    using assms by (auto simp: incomplete_tail_def Let_def bk_def split: list.splits if_splits)
  have b: "bk < length span" using before by (metis drop_eq_Nil2 length_rev linorder_not_le list.distinct(1))
  then have hd: "rev span ! bk = lead" using before by (metis Cons_nth_drop_Suc length_rev list.inject)
  have "drop (length span - (bk + 1)) span \<noteq> []" using b by simp
  moreover have "hd (drop (length span - (bk + 1)) span) = lead"
    using b hd by (simp add: hd_drop_conv_nth rev_nth Suc_diff_Suc)
  moreover have "length (drop (length span - (bk + 1)) span) = bk + 1" using b by simp
  ultimately show ?thesis using len by (simp add: tail)
qed

lemma text_command_carry:
  assumes "text_command s m = ((c, p, rest), m')"
  shows "derailed m' = derailed m" "m' = m \<or> rest = [] \<and> stash_ok m'"
    "c = Text C_ASCII_STRING \<or> c = Control C_NIL"
proof -
  define n where "n = con_text_span s (con_is_utf8 m)"
  define k where "k = incomplete_tail (take n s)"
  have n: "n \<le> length s" by (simp add: n_def con_text_span_bounds)
  show "derailed m' = derailed m" "c = Text C_ASCII_STRING \<or> c = Control C_NIL"
    using assms by (auto simp: text_command_def Let_def split: if_splits)
  show "m' = m \<or> rest = [] \<and> stash_ok m'"
  proof (cases "con_is_utf8 m \<and> drop n s = [] \<and> k \<noteq> 0")
    case True
    have "stash_ok (m\<lparr>utf8Stash := drop (n - k) (take n s)\<rparr>)"
      using incomplete_tail_stash [of "take n s"] True n
      unfolding stash_ok_def k_def [symmetric] length_take min_absorb2 [OF n]
      by (simp add: con_is_utf8_def)
    with True assms [unfolded text_command_def Let_def n_def [symmetric] k_def [symmetric]] n show ?thesis
      by (auto simp: min_absorb2)
  next
    case False
    with assms [unfolded text_command_def Let_def n_def [symmetric] k_def [symmetric]] show ?thesis
      by (auto split: if_splits)
  qed
qed

text \<open>Every control sequence has fewer than 127 parameter bytes.\<close>

definition short_runs :: "byte list \<Rightarrow> bool" where
  "short_runs s \<longleftrightarrow> list_all (\<lambda>t. param_run t < 127) (suffixes s)"

lemma short_runs_suffix: "short_runs s \<Longrightarrow> suffix t s \<Longrightarrow> short_runs t"
  by (auto simp: short_runs_def list_all_iff intro: suffix_order.trans)

lemma short_runs_run: "short_runs s \<Longrightarrow> param_run s < 127"
  by (simp add: short_runs_def list_all_iff)

lemma param_command_forward: "param_command s m = Some (r, m') \<Longrightarrow> short_runs s \<Longrightarrow> m' = m"
  using getparamcommand_forward [of s] short_runs_run [of s]
  by (fastforce simp: param_command_def split: option.splits prod.splits if_splits)

text \<open>One command: the read pointer is kept; an empty stash stays empty unless the input ends in a split character.\<close>

definition carried :: "modes \<Rightarrow> con_cmd \<Rightarrow> byte list \<Rightarrow> modes \<Rightarrow> bool" where
  "carried m c rest m' \<longleftrightarrow> derailed m' = derailed m \<and>
     (utf8Stash m = [] \<longrightarrow> utf8Stash m' = [] \<or>
        (rest = [] \<and> stash_ok m' \<and> (c = Text C_ASCII_STRING \<or> c = Control C_NIL)))"

lemma steady_carried: "steady m m' \<Longrightarrow> carried m c rest m'"
  by (simp add: steady_def carried_def)

context steady_class
begin

named_theorems steadies "sub-parsers keep the character stash and the read pointer"

lemma getcharset_steady [steadies]: "getcharset s m = Some (r, m') \<Longrightarrow> steady m m'"
  by (auto simp: getcharset_def Let_def split: list.splits if_splits)

lemma getkeypadmode_steady [steadies]: "getkeypadmode s m = Some (r, m') \<Longrightarrow> steady m m'"
  by (auto simp: getkeypadmode_def split: list.splits if_splits)

lemma steady_do: "steady m x \<Longrightarrow> steady m (cc_do e x c p)"
  using do_steady steady_trans by blast

lemma dec_mode_steady: "steady m (snd cm) \<Longrightarrow> steady m (snd (dec_mode e t v cm))"
  by (cases cm) (auto simp: dec_mode_def intro: steady_do)

lemma dec_scan_steady: "steady m (snd cm) \<Longrightarrow> dec_scan e t s v h cm = (cm', rest) \<Longrightarrow> steady m (snd cm')"
proof (induction s arbitrary: v h cm)
  case (Cons b s)
  from Cons.prems Cons.IH dec_mode_steady [of m cm t v] show ?case
    by (auto simp: Let_def split: if_splits)
qed simp

lemma getdecprivatecommand_steady [steadies]: "getdecprivatecommand e s m = Some (r, m') \<Longrightarrow> steady m m'"
  using dec_scan_steady [of m "(Control C_NIL, m)"]
  by (fastforce simp: getdecprivatecommand_def Let_def split: list.splits if_splits prod.splits)

lemma ansi_mode_steady: "steady m x \<Longrightarrow> steady m (ansi_mode e t f x)"
  by (auto simp: ansi_mode_def intro: steady_do split: option.split)

lemma ansi_modes_steady: "steady m x \<Longrightarrow> steady m (fold (ansi_mode e t) fs x)"
  by (induction fs arbitrary: x) (simp_all add: ansi_mode_steady)

lemma getansimodecommand_steady [steadies]: "getansimodecommand e s m = Some (r, m') \<Longrightarrow> steady m m'"
  by (auto simp: getansimodecommand_def Let_def ansi_modes_steady split: list.splits if_splits)

lemma getmoderequest_steady [steadies]: "getmoderequest e s m = Some (r, m') \<Longrightarrow> steady m m'"
  by (auto simp: getmoderequest_def Let_def split: list.splits if_splits option.splits)

lemma keyboard_csi_steady [steadies]: "keyboard_csi e s m = Some (r, m') \<Longrightarrow> steady m m'"
  by (auto simp: keyboard_csi_def split: prod.splits if_splits)


lemma csi_command_steady: "csi_command e n s m = Some (r, m') \<Longrightarrow> short_runs s \<Longrightarrow> steady m m'"
  unfolding csi_command_def or_else_cases try_parse_some
  by (elim disjE exE conjE) (auto dest: steadies param_command_forward)

lemma escape_command_steady [steadies]: "escape_command s m = Some (r, m') \<Longrightarrow> steady m m'"
  unfolding escape_command_def or_else_cases try_parse_some
  by (elim disjE exE conjE) (auto dest: steadies split: list.splits if_splits)

lemma plain_command_carried:
  assumes "plain_command e s m = ((c, p, rest), m')" "short_runs s"
  shows "carried m c rest m'"
proof (cases "case csi_body s of None \<Rightarrow> None | Some (native, body) \<Rightarrow> csi_command e native body m")
  case None
  have tx: "carried m c rest m'" if "text_command s m = ((c, p, rest), m')"
    using text_command_carry [OF that] by (auto simp: carried_def)
  from None assms tx show ?thesis
    by (cases s) (auto simp: plain_command_def steady_carried split: option.splits if_splits)
next
  case (Some r)
  then have "r = ((c, p, rest), m')" using assms by (simp add: plain_command_def)
  with Some obtain n body where b: "csi_body s = Some (n, body)" "csi_command e n body m = Some ((c, p, rest), m')"
    by (auto split: option.splits prod.splits)
  have "short_runs body" using assms(2) csi_body_tail [OF b(1)] by (rule short_runs_suffix)
  with b(2) show ?thesis by (intro steady_carried csi_command_steady)
qed

lemma osc_store_steady: "steady (md u) (md (osc_store e b u))"
  by (auto simp: osc_store_def Let_def split: option.splits)

lemma osc_collect_steady: "osc_collect e s u = (rest, u', r) \<Longrightarrow> steady (md u) (md u')"
proof (induction s arbitrary: u)
  case (Cons b s)
  from Cons.prems Cons.IH [of u] Cons.IH [of "osc_store e b u"] osc_store_steady [of u b] show ?case
    by (auto split: if_splits intro: steady_trans)
qed auto

lemma consume_osc_steady: "consume_osc e s u = (c, p, rest, u') \<Longrightarrow> steady (md u) (md u')"
  by (auto simp: consume_osc_def Let_def dest!: osc_collect_steady split: prod.splits option.splits)

lemma string2command_carried:
  assumes "string2command e s u = ((c, p, rest), u')" "short_runs s"
  shows "carried (md u) c rest (md u')"
  using assms
  by (auto simp: string2command_def Let_def split: if_splits option.splits prod.splits
    dest!: escape_command_steady consume_osc_steady dest: plain_command_carried intro: steady_carried)

lemma render_span_steady: "steady m x \<Longrightarrow> steady m (render_span e s x)"
  by (simp add: render_span_def steady_do)

lemma render_span_text:
  "utf8Stash (render_span e s x) = utf8Stash x" "con_is_utf8 (render_span e s x) = con_is_utf8 x"
proof -
  have [simp]: "con_is_utf8 (m\<lparr>renderUTF8 := b\<rparr>) = con_is_utf8 m" for m b by (simp add: con_is_utf8_def)
  show "utf8Stash (render_span e s x) = utf8Stash x" "con_is_utf8 (render_span e s x) = con_is_utf8 x"
    using do_text [of "Text C_ASCII_STRING" "x\<lparr>renderUTF8 := True\<rparr>"] by (simp_all add: render_span_def)
qed

lemma repeat_spans_steady: "steady m x \<Longrightarrow> steady m (repeat_spans e g n x)"
proof (induction n arbitrary: x rule: less_induct)
  case (less n)
  show ?case
  proof (cases "n = 0")
    case True
    then show ?thesis using less.prems by (simp add: repeat_spans.simps)
  next
    case False
    let ?c = "if n > 64 then 64 else n"
    have "steady m (repeat_spans e g (n - ?c) (render_span e (concat (replicate ?c g)) x))"
      using False by (intro less.IH render_span_steady less.prems) simp
    then show ?thesis using False by (subst repeat_spans.simps) (simp only: Let_def if_False)
  qed
qed

lemma emit_mapped_steady:
  "(steady m x \<longrightarrow> steady m (emit_mapped e utf8 s x)) \<and> utf8Stash (emit_mapped e utf8 s x) = utf8Stash x \<and>
     con_is_utf8 (emit_mapped e utf8 s x) = con_is_utf8 x"
proof (induction "length s" arbitrary: s x rule: less_induct)
  case less
  show ?case
  proof (cases "s = []")
    case True
    then show ?thesis by (simp add: emit_mapped.simps)
  next
    case False
    note IH = less.hyps [OF map_chunk_progress [OF False, of utf8], of "render_span e (fst (map_chunk utf8 s [])) x"]
    have "emit_mapped e utf8 s x = emit_mapped e utf8 (snd (map_chunk utf8 s [])) (render_span e (fst (map_chunk utf8 s [])) x)"
      using False by (subst emit_mapped.simps) simp
    then show ?thesis using IH by (simp add: render_span_text render_span_steady)
  qed
qed

lemma con_emit_command_steady: "steady m x \<Longrightarrow> steady m (con_emit_command e c p x)"
  by (simp add: con_emit_command_def Let_def con_repeat_char_def repeat_spans_steady steady_do emit_mapped_steady)

lemma con_emit_command_text:
  assumes "c = Text C_ASCII_STRING \<or> c = Control C_NIL"
  shows "utf8Stash (con_emit_command e c p x) = utf8Stash x" "con_is_utf8 (con_emit_command e c p x) = con_is_utf8 x"
  using assms do_text [OF assms] emit_mapped_steady
  by (auto simp: con_emit_command_def Let_def)


lemma string2command_pending: "string2command e s u = ((c, p, rest), u') \<Longrightarrow> pendingCSI u' = pendingCSI u"
  by (auto simp: string2command_def Let_def split: if_splits option.splits prod.splits
    dest!: consume_osc_shorter(4))

lemma parse_loop_accepts:
  "short_runs s \<Longrightarrow> \<not> derailed (md u) \<Longrightarrow> pendingCSI u = [] \<Longrightarrow>
     utf8Stash (md u) = [] \<or> (s = [] \<and> stash_ok (md u)) \<Longrightarrow>
     snd (parse_loop e s u) = [] \<and> carry_ok (fst (parse_loop e s u))"
proof (induction "parse_measure s u" arbitrary: s u rule: less_induct)
  case less
  show ?case
  proof (cases "s = [] \<or> csi_incomplete s \<and> length s \<le> pending_csi_size")
    case True
    then show ?thesis using less.prems not_buffering
      by (subst (1 2) parse_loop.simps) (auto simp: carry_ok_def stash_ok_def)
  next
    case False
    then have ne: "s \<noteq> []" and st: "utf8Stash (md u) = []" using less.prems(4) by auto
    obtain c p rest u' where eq: "string2command e s u = ((c, p, rest), u')" by (metis prod_cases3 surj_pair)
    let ?u = "u'\<lparr>md := con_emit_command e c p (md u')\<rparr>"
    have dec: "parse_measure rest ?u < parse_measure s u"
      using string2command_progress [OF ne eq] by (simp add: parse_measure_def)
    have runs: "short_runs rest" by (rule short_runs_suffix [OF less.prems(1) string2command_tail [OF eq]])
    have pend: "pendingCSI ?u = []" using string2command_pending [OF eq] less.prems(3) by simp
    have car: "carried (md u) c rest (md u')" by (rule string2command_carried [OF eq less.prems(1)])
    have emit: "steady (md u') (md ?u)" by (simp add: con_emit_command_steady)
    have der: "\<not> derailed (md ?u)" using car emit less.prems(2) by (simp add: carried_def steady_def)
    have stash: "utf8Stash (md ?u) = [] \<or> (rest = [] \<and> stash_ok (md ?u))"
      using car emit st con_emit_command_text [of c p "md u'"] by (auto simp: carried_def steady_def stash_ok_def)
    have "parse_loop e s u = parse_loop e rest ?u"
      using ne False not_buffering
      by (subst parse_loop.simps) (simp only: de_Morgan_disj if_False eq Let_def prod.case fst_conv snd_conv)
    with less.hyps [OF dec runs der pend stash] show ?thesis by simp
  qed
qed

lemma complete_stash_carry:
  assumes u: "\<not> derailed (md u)" "stash_ok (md u)" and s: "s \<noteq> []" and eq: "complete_stash e s u = (u1, s1, b)"
  shows "suffix s1 s \<and> \<not> derailed (md u1) \<and> pendingCSI u1 = pendingCSI u \<and>
    (if b then stash_ok (md u1) \<and> utf8Stash (md u) \<noteq> [] else utf8Stash (md u1) = [])"
proof (cases "utf8_unit u \<and> utf8Stash (md u) \<noteq> []")
  case False
  with assms show ?thesis by (auto simp: complete_stash_def stash_ok_def)
next
  case True
  define stash need where "stash = utf8Stash (md u)" "need = utf8_seqlen (hd stash)"
  define k where "k = min (need - length stash) (length s)"
  define valid where "valid = length (takeWhile (\<lambda>b. b AND 0xC0 = 0x80) (take k s))"
  define interrupted where "interrupted = (valid < k)"
  define shown where "shown = (if interrupted then [0x3f] else stash @ take valid s)"
  have less: "length stash < need" using u(2) True by (simp add: stash_ok_def stash_need_def)
  have vk: "valid \<le> k" using length_takeWhile_le [of _ "take k s"] by (simp add: valid_def order_trans)
  have ne: "stash \<noteq> []" using True by (simp add: stash_need_def)
  show ?thesis
  proof (cases "length (stash @ take valid s) = need \<or> interrupted")
    case fin: True
    let ?m = "emit Render_cursor (con_emit_command e (Text C_ASCII_STRING) [PStr shown, P (length shown)]
      (emit UnRender_cursor (md u\<lparr>utf8Stash := []\<rparr>)))"
    have st: "steady (md u\<lparr>utf8Stash := []\<rparr>) ?m" by (simp add: con_emit_command_steady)
    have "u1 = u\<lparr>md := ?m\<rparr>" "s1 = drop valid s" "\<not> b"
      using eq True s fin
      unfolding complete_stash_def Let_def stash_need_def [symmetric] k_def [symmetric] valid_def [symmetric]
        interrupted_def [symmetric] shown_def [symmetric]
      by (auto simp: on_modes_def stash_need_def)
    with st u(1) show ?thesis by (simp add: suffix_drop steady_def)
  next
    case more: False
    then have "valid = k" using vk by (simp add: interrupted_def)
    then have k: "valid = length s" using more less vk by (auto simp: k_def min_def split: if_splits)
    have "u1 = u\<lparr>md := md u\<lparr>utf8Stash := stash @ s\<rparr>\<rparr>" "s1 = []" "b"
      using eq True s more
      unfolding complete_stash_def Let_def stash_need_def [symmetric] k_def [symmetric] valid_def [symmetric]
        interrupted_def [symmetric] shown_def [symmetric]
      by (auto simp: on_modes_def stash_need_def k)
    moreover have "length (stash @ s) < need"
      using more k vk less by (auto simp: k_def min_def split: if_splits)
    ultimately show ?thesis
      using u True ne by (simp add: stash_ok_def con_is_utf8_def stash_need_def)
  qed
qed


lemma con_parse_output_accepts:
  assumes ok: "carry_ok u" and runs: "short_runs (pendingCSI u @ buf)"
    and fits: "buf \<noteq> []" "length buf \<le> 0x7fffffff - length (pendingCSI u)"
      "pendingCSI u = [] \<or> cc_alloc e (length (pendingCSI u) + length buf)"
  shows "\<exists>u'. con_parse_output e buf u = Some (length buf, No_error, u') \<and> carry_ok u'"
proof -
  define s where "s = pendingCSI u @ buf"
  define u0 where "u0 = u\<lparr>pendingCSI := []\<rparr>"
  define plain where "plain = list_all plain_byte s"
  obtain u1 s1 b where cs: "complete_stash e s u0 = (u1, s1, b)" by (metis prod_cases3)
  define u2 where "u2 = (if s1 \<noteq> [] \<and> \<not> plain then on_modes (emit UnRender_cursor) u1 else u1)"
  obtain u3 left where pl: "parse_loop e s1 u2 = (u3, left)" by (metis surj_pair)
  define u4 where "u4 = (if \<not> plain then on_modes (emit Render_cursor) u3 else u3)"
  have s: "s \<noteq> []" using fits(1) by (simp add: s_def)
  have u0: "\<not> derailed (md u0)" "stash_ok (md u0)" using ok by (simp_all add: u0_def carry_ok_def)
  note c = complete_stash_carry [OF u0 s cs]
  have eq: "con_parse_output e buf u = (if b then Some (length s, No_error, u1) else
      if derailed (md u4) then None else Some (sub32 (length buf) (length left), No_error, u4))"
    using fits
    unfolding con_parse_output_def Let_def s_def [symmetric] u0_def [symmetric] cs prod.case plain_def [symmetric]
      u2_def [symmetric] pl u4_def [symmetric]
    by auto
  have emit_ok: "carry_ok (on_modes (emit ev) x) = carry_ok x" for ev x
    by (simp add: carry_ok_def on_modes_def emit_def stash_ok_def con_is_utf8_def)
  show ?thesis
  proof (cases b)
    case True
    then have "pendingCSI u = []" using c ok by (simp add: carry_ok_def u0_def)
    with True eq c show ?thesis by (simp add: s_def carry_ok_def u0_def)
  next
    case False
    have runs1: "short_runs s1" using runs c by (metis s_def short_runs_suffix)
    have "\<not> derailed (md u2)" "pendingCSI u2 = []" "utf8Stash (md u2) = []"
      using c False by (auto simp: u2_def u0_def on_modes_def emit_def)
    from parse_loop_accepts [OF runs1 this(1,2)] this(3) pl have l: "left = []" "carry_ok u3" by simp_all
    have "carry_ok u4" using l(2) by (simp add: u4_def emit_ok)
    moreover have "sub32 (length buf) (length left) = length buf"
      using fits(2) by (simp add: l(1) sub32_def)
    ultimately show ?thesis using eq False by (simp add: carry_ok_def)
  qed
qed

end

section \<open>The model's console class\<close>

interpretation unit_steady: steady_class "unit_class alloc" for alloc
proof unfold_locales
  fix m cmd params
  show "steady m (cc_do (unit_class alloc) m cmd params)"
    by (simp add: unit_class_def console_docommand_def stdcon_origin_mode_def stdcon_reset_state_def steady_def
      set_flag_def emit_def split: con_cmd.split control_cmd.split mode_cmd.split text_cmd.split)
  show "\<not> cc_buffering (unit_class alloc) m" by (simp add: unit_class_def)
  assume "cmd = Text C_ASCII_STRING \<or> cmd = Control C_NIL"
  then show "utf8Stash (cc_do (unit_class alloc) m cmd params) = utf8Stash m \<and>
    con_is_utf8 (cc_do (unit_class alloc) m cmd params) = con_is_utf8 m"
    by (auto simp: unit_class_def console_docommand_def emit_def con_is_utf8_def)
qed

section \<open>Properties\<close>

text \<open>What a write is refused for; the unit is then unchanged.\<close>

definition refusal :: "(nat \<Rightarrow> bool) \<Rightarrow> byte list \<Rightarrow> cunit \<Rightarrow> io_error" where
  "refusal alloc buf u =
     (if buf = [] then No_error
      else if length buf > 0x7fffffff - length (pendingCSI u) then IOERR_BADLENGTH
      else if pendingCSI u \<noteq> [] \<and> \<not> alloc (length (pendingCSI u) + length buf) then IOERR_ABORTED
      else No_error)"



text \<open>A history of writes, each continuing where the last one left the unit; refused ones are skipped.\<close>

fun write_all :: "con_class \<Rightarrow> byte list list \<Rightarrow> cunit \<Rightarrow> cunit option" where
  "write_all e [] u = Some u"
| "write_all e (buf # bufs) u =
     (case con_parse_output e buf u of None \<Rightarrow> None | Some (_, _, u') \<Rightarrow> write_all e bufs u')"



end
