(* ===== verification/Parser_Modes.thy ===== *)
theory Parser_Modes
  imports Parser_Accept
begin

text \<open>
  Mode changes and mode queries agree: a private mode set or reset by its control sequence is
  reported as such, and no independent mode changes.
\<close>

lemma flag_bit: "i < 32 \<Longrightarrow> x AND push_bit i 1 \<noteq> 0 \<longleftrightarrow> bit (x :: 32 word) i"
proof
  assume i: "i < 32"
  show "bit x i" if "x AND push_bit i 1 \<noteq> 0"
  proof (rule ccontr)
    assume "\<not> bit x i"
    then have "x AND push_bit i 1 = 0" by (intro bit_eqI) (auto simp: bit_simps)
    with that show False by simp
  qed
  show "x AND push_bit i 1 \<noteq> 0" if "bit x i"
  proof
    assume "x AND push_bit i 1 = 0"
    then have "bit (x AND push_bit i 1) i = False" by simp
    with that i show False by (simp add: bit_simps)
  qed
qed

lemma set_flag_bit: "i < 32 \<Longrightarrow> bit (conFlags (set_flag (push_bit i 1) b m)) j = (if j = i then b else bit (conFlags m) j)"
  by (auto simp: set_flag_def bit_simps dest: bit_imp_le_length)

lemmas flag_defs = CF_UTF8_def CF_OBSCURED_def CF_BRACKETED_PASTE_def CF_FOCUS_REPORTING_def CF_COLOR_SCHEME_NOTIFY_def
  CF_WRAP_PENDING_def CF_APPLICATION_CURSOR_def CF_APPLICATION_KEYPAD_def CF_INSERT_MODE_def CF_ORIGIN_MODE_def
  CF_ALTERNATE_SCROLL_def

lemma flag_zero: "i < 32 \<Longrightarrow> x AND push_bit i 1 = 0 \<longleftrightarrow> \<not> bit (x :: 32 word) i"
  using flag_bit [of i x] by blast

lemma flag_reads:
  "x AND CF_FOCUS_REPORTING = 0 \<longleftrightarrow> \<not> bit x 5" "x AND CF_BRACKETED_PASTE = 0 \<longleftrightarrow> \<not> bit x 4"
  "x AND CF_COLOR_SCHEME_NOTIFY = 0 \<longleftrightarrow> \<not> bit x 6" "x AND CF_APPLICATION_CURSOR = 0 \<longleftrightarrow> \<not> bit x 8"
  "x AND CF_ORIGIN_MODE = 0 \<longleftrightarrow> \<not> bit x 11" "x AND CF_ALTERNATE_SCROLL = 0 \<longleftrightarrow> \<not> bit x 12"
  unfolding flag_defs by (rule flag_zero; simp)+

lemma flag_writes:
  "bit (conFlags (set_flag CF_FOCUS_REPORTING b m)) j = (if j = 5 then b else bit (conFlags m) j)"
  "bit (conFlags (set_flag CF_BRACKETED_PASTE b m)) j = (if j = 4 then b else bit (conFlags m) j)"
  "bit (conFlags (set_flag CF_COLOR_SCHEME_NOTIFY b m)) j = (if j = 6 then b else bit (conFlags m) j)"
  "bit (conFlags (set_flag CF_APPLICATION_CURSOR b m)) j = (if j = 8 then b else bit (conFlags m) j)"
  "bit (conFlags (set_flag CF_ORIGIN_MODE b m)) j = (if j = 11 then b else bit (conFlags m) j)"
  "bit (conFlags (set_flag CF_ALTERNATE_SCROLL b m)) j = (if j = 12 then b else bit (conFlags m) j)"
  "bit (conFlags (set_flag CF_WRAP_PENDING b m)) j = (if j = 7 then b else bit (conFlags m) j)"
  unfolding flag_defs by (rule set_flag_bit; simp)+

lemma set_flag_fields [simp]:
  "modeAWM (set_flag f b m) = modeAWM m" "mouseMode (set_flag f b m) = mouseMode m"
  "mouseSGR (set_flag f b m) = mouseSGR m" "mouseUTF8 (set_flag f b m) = mouseUTF8 m"
  by (simp_all add: set_flag_def)

text \<open>The private modes with a state of their own, and which of them exclude each other.\<close>

definition dec_modes :: "nat list" where
  "dec_modes = [1, 6, 7, 1000, 1002, 1003, 1004, 1005, 1006, 1007, 2004, 2031]"

definition exclusive :: "nat \<Rightarrow> nat \<Rightarrow> bool" where
  "exclusive a b \<longleftrightarrow> {a, b} \<subseteq> {1000, 1002, 1003} \<or> {a, b} \<subseteq> {1005, 1006}"

lemma console_mode_state_bits:
  "console_mode_state m True 1 = (if bit (conFlags m) 8 then 1 else 2)"
  "console_mode_state m True 6 = (if bit (conFlags m) 11 then 1 else 2)"
  "console_mode_state m True 7 = (if modeAWM m then 1 else 2)"
  "console_mode_state m True 1000 = (if mouseMode m = 1000 then 1 else 2)"
  "console_mode_state m True 1002 = (if mouseMode m = 1002 then 1 else 2)"
  "console_mode_state m True 1003 = (if mouseMode m = 1003 then 1 else 2)"
  "console_mode_state m True 1004 = (if bit (conFlags m) 5 then 1 else 2)"
  "console_mode_state m True 1005 = (if mouseUTF8 m then 1 else 2)"
  "console_mode_state m True 1006 = (if mouseSGR m then 1 else 2)"
  "console_mode_state m True 1007 = (if bit (conFlags m) 12 then 1 else 2)"
  "console_mode_state m True 2004 = (if bit (conFlags m) 4 then 1 else 2)"
  "console_mode_state m True 2031 = (if bit (conFlags m) 6 then 1 else 2)"
  by (simp_all add: console_mode_state_def flag_reads)

lemmas mode_facts = console_mode_state_bits console_mode_state_bits(1) [simplified] flag_writes

lemma mouse_mode_fields:
  "mouseMode (mouse_mode v b m) = (if b then v else if mouseMode m = v then 0 else mouseMode m)"
  "conFlags (mouse_mode v b m) = conFlags m" "modeAWM (mouse_mode v b m) = modeAWM m"
  "mouseSGR (mouse_mode v b m) = mouseSGR m" "mouseUTF8 (mouse_mode v b m) = mouseUTF8 m"
  by (simp_all add: mouse_mode_def Let_def)

lemma emit_fields [simp]:
  "conFlags (emit ev m) = conFlags m" "modeAWM (emit ev m) = modeAWM m" "mouseMode (emit ev m) = mouseMode m"
  "mouseSGR (emit ev m) = mouseSGR m" "mouseUTF8 (emit ev m) = mouseUTF8 m"
  by (simp_all add: emit_def)

lemma dec_mode_state:
  assumes "mode \<in> set dec_modes" "mode' \<in> set dec_modes" "mode' = mode \<or> \<not> exclusive mode mode'"
  shows "fst (dec_mode (unit_class alloc) b mode (Control C_NIL, m)) = Control C_NIL"
    "console_mode_state (snd (dec_mode (unit_class alloc) b mode (Control C_NIL, m))) True mode' =
       (if mode' = mode then if b then 1 else 2 else console_mode_state m True mode')"
proof -
  show "fst (dec_mode (unit_class alloc) b mode (Control C_NIL, m)) = Control C_NIL"
    using assms(1) by (auto simp: dec_modes_def dec_mode_def)
  have *: "list_all (\<lambda>mode. list_all (\<lambda>mode'. mode' = mode \<or> \<not> exclusive mode mode' \<longrightarrow>
      console_mode_state (snd (dec_mode (unit_class alloc) b mode (Control C_NIL, m))) True mode' =
       (if mode' = mode then if b then 1 else 2 else console_mode_state m True mode')) dec_modes) dec_modes"
    by (simp add: dec_modes_def exclusive_def dec_mode_def mode_facts mouse_mode_fields unit_class_def console_docommand_def
      stdcon_origin_mode_def)
  then show "console_mode_state (snd (dec_mode (unit_class alloc) b mode (Control C_NIL, m))) True mode' =
       (if mode' = mode then if b then 1 else 2 else console_mode_state m True mode')"
    using assms by (auto simp: list_all_iff)
qed


lemma dec_scan_digits:
  "list_all is_digit ds \<Longrightarrow> dec_scan e t (ds @ c # s) v h cm =
     dec_scan e t (c # s) (foldl (\<lambda>v b. min (v * 10 + digit_value b) 65535) v ds) (h \<or> ds \<noteq> []) cm"
  by (induction ds arbitrary: v h) auto

text \<open>The scanners read back what \<open>con_keyboard_decimal\<close> writes.\<close>

lemma digit_value_digit: "d < 10 \<Longrightarrow> digit_value (of_nat (48 + d)) = d"
  using digit_word(2) [of d] by (simp add: digit_value_def)

lemma decimal_sat_snoc: "decimal_sat l (s @ [b]) = min (decimal_sat l s * 10 + digit_value b) l"
  by (simp add: decimal_sat_def)

lemma mode_number_snoc:
  "mode_number s = Some n \<Longrightarrow> n * 10 + digit_value b \<le> 65535 \<Longrightarrow> mode_number (s @ [b]) = Some (n * 10 + digit_value b)"
  by (auto simp: mode_number_def)

lemma decimal_read:
  "v \<le> 65535 \<Longrightarrow> decimal_sat 65535 (con_keyboard_decimal v) = v \<and> mode_number (con_keyboard_decimal v) = Some v"
proof (induction v rule: less_induct)
  case (less v)
  have v: "v = v div 10 * 10 + v mod 10" by simp
  have dv: "digit_value (of_nat (48 + v mod 10)) = v mod 10" by (simp add: digit_value_digit del: of_nat_add)
  let ?pre = "if v div 10 = 0 then [] else con_keyboard_decimal (v div 10)"
  have pre: "decimal_sat 65535 ?pre = v div 10 \<and> mode_number ?pre = Some (v div 10)"
  proof (cases "v div 10 = 0")
    case True
    then show ?thesis by (simp add: decimal_sat_def mode_number_def)
  next
    case False
    then have "v div 10 < v" by (cases v) auto
    with less False show ?thesis by simp
  qed
  have "decimal_sat 65535 (con_keyboard_decimal v) = v"
    using pre less.prems dv by (subst decimal_unfold) (simp add: decimal_sat_snoc del: of_nat_add)
  moreover have "mode_number (con_keyboard_decimal v) = Some v"
    using mode_number_snoc [of ?pre "v div 10" "of_nat (48 + v mod 10)"] pre less.prems dv
    by (subst decimal_unfold) (simp del: of_nat_add)
  ultimately show ?case by simp
qed

lemma dec_modes_decimal:
  assumes "mode \<in> set dec_modes"
  shows "list_all is_digit (con_keyboard_decimal mode)" "con_keyboard_decimal mode \<noteq> []"
    "decimal_sat 65535 (con_keyboard_decimal mode) = mode" "mode_number (con_keyboard_decimal mode) = Some mode"
proof -
  have le: "mode \<le> 65535" using assms by (auto simp: dec_modes_def)
  show "list_all is_digit (con_keyboard_decimal mode)"
    using decimal_digits [of mode] by (auto simp: list_all_iff is_digit_def digit_def)
  show "con_keyboard_decimal mode \<noteq> []" by (subst decimal_unfold) simp
  show "decimal_sat 65535 (con_keyboard_decimal mode) = mode" "mode_number (con_keyboard_decimal mode) = Some mode"
    using decimal_read [OF le] by simp_all
qed

lemma digits_then:
  assumes "list_all is_digit ds" "\<not> is_digit c"
  shows "takeWhile is_digit (ds @ c # s) = ds" "dropWhile is_digit (ds @ c # s) = c # s"
  using assms by (induction ds) simp_all



end
