(* ===== verification/Parser_Text.thy ===== *)
theory Parser_Text
  imports Parser_Modes
begin

text \<open>
  Text written to a UTF-8 console reaches the display unchanged whatever way it is divided into
  writes, and the payload of an unsupported control string never does.
\<close>

section \<open>Characters as the parser sees them\<close>

abbreviation cont :: "byte \<Rightarrow> bool" where "cont b \<equiv> b AND 0xC0 = 0x80"

definition text_char :: "byte list \<Rightarrow> bool" where
  "text_char c =
     (case c of
        [] \<Rightarrow> False
      | b # t \<Rightarrow> 0x20 \<le> b \<and> \<not> cont b \<and> utf8_seqlen b = length c \<and> list_all cont t)"

text \<open>A character that has begun and is not finished.\<close>

definition text_part :: "byte list \<Rightarrow> bool" where
  "text_part p =
     (case p of
        [] \<Rightarrow> False
      | b # t \<Rightarrow> 0x20 \<le> b \<and> \<not> cont b \<and> length p < utf8_seqlen b \<and> list_all cont t)"

lemma seqlen_lead: "1 < utf8_seqlen b \<Longrightarrow> b AND 0xC0 = 0xC0"
proof -
  assume "1 < utf8_seqlen b"
  then have "unat b div 32 = 6 \<or> unat b div 16 = 14 \<or> unat b div 8 = 30"
    by (auto simp: utf8_seqlen_def byte_class split: if_splits)
  then have "unat b div 64 = 3" by linarith
  then show ?thesis by (simp add: word_unat_eq_iff byte_high)
qed

lemma seqlen_le: "utf8_seqlen b \<le> 4"
  by (simp add: utf8_seqlen_def)

lemma text_char_encode:
  assumes "scalar cp" "0x20 \<le> cp"
  shows "text_char (con_utf8_encode cp)"
proof -
  from encode_shape [OF assms(1)] obtain b t need lead where
    e: "con_utf8_encode cp = b # t" and l: "lead_byte b = Some (need, lead)" and n: "need = Suc (length t)"
    and c: "list_all continuation_byte t" and v: "append_six (unat lead) t = unat cp"
    by blast
  have ct: "list_all cont t" using c by (simp add: list_all_iff continuation_byte_def byte_class)
  from l have num: "(unat b < 128 \<and> need = 1 \<and> unat lead = unat b) \<or> (unat b div 32 = 6 \<and> need = 2)
      \<or> (unat b div 16 = 14 \<and> need = 3) \<or> (unat b div 8 = 30 \<and> need = 4)"
    by (auto simp: lead_byte_numbers)
  then have "unat b div 64 \<noteq> 2" by linarith
  then have nc: "\<not> cont b" by (simp add: byte_class)
  have sl: "utf8_seqlen b = need"
    using num by (auto simp: utf8_seqlen_def byte_class)
  have "32 \<le> unat b"
  proof (cases "need = 1")
    case True
    then have "t = []" using n by simp
    moreover have "unat lead = unat b" using num True by auto
    ultimately show ?thesis using v assms(2) by (simp add: word_le_nat_alt)
  next
    case False
    then show ?thesis using num by linarith
  qed
  then have "0x20 \<le> b" by (simp add: word_le_nat_alt)
  with ct nc sl n show ?thesis by (simp add: e text_char_def)
qed

lemma text_char_first:
  assumes "text_char (b # t) \<or> text_part (b # t)"
  shows "\<not> check_special ((b # s) :: byte list) True" "b \<noteq> 0x1b" "b \<noteq> 0x9b" "0x20 \<le> b"
    "b < 0x80 \<or> b AND 0xC0 = 0xC0"
proof -
  have b: "0x20 \<le> b" "\<not> cont b" using assms by (auto simp: text_char_def text_part_def)
  then show "0x20 \<le> b" by simp
  have n: "32 \<le> unat b" "unat b div 64 \<noteq> 2" using b by (simp_all add: word_le_nat_alt byte_class)
  have l: "unat b < 256" using byte_unat(1) [of b] by linarith
  then have "unat b < 128 \<or> unat b div 64 = 3" using n by linarith
  then show "b < 0x80 \<or> b AND 0xC0 = 0xC0" by (simp add: word_less_nat_alt word_unat_eq_iff byte_high)
  show e: "b \<noteq> 0x1b" "b \<noteq> 0x9b" using n by auto
  show "\<not> check_special (b # s) True"
    using b n e by (auto simp: check_special_def)
qed

section \<open>A span of text\<close>

lemma takeWhile_all: "list_all f xs \<Longrightarrow> takeWhile f xs = xs"
  by (induction xs) auto

lemma text_rest_char:
  assumes "text_char c"
  shows "text_rest True first (c @ s) = text_rest True False s"
proof -
  from assms obtain b t where c: "c = b # t" and sl: "utf8_seqlen b = Suc (length t)" and ct: "list_all cont t"
    by (auto simp: text_char_def split: list.splits)
  have "char_step True b (t @ s) = Suc (length t)"
    using ct by (simp add: char_step_def sl takeWhile_all)
  moreover have "\<not> check_special (b # t @ s) True" using assms text_char_first(1) [of b t] by (simp add: c)
  ultimately show ?thesis by (simp add: c)
qed

lemma text_rest_part:
  assumes "text_part c"
  shows "text_rest True first c = []"
proof -
  from assms obtain b t where c: "c = b # t" and sl: "Suc (length t) < utf8_seqlen b" and ct: "list_all cont t"
    by (auto simp: text_part_def split: list.splits)
  have "char_step True b t = Suc (length t)"
    using ct sl by (simp add: char_step_def takeWhile_all)
  moreover have "\<not> check_special (b # t) True" using assms text_char_first(1) [of b t] by (simp add: c)
  ultimately show ?thesis by (simp add: c)
qed

lemma text_rest_text:
  assumes "list_all text_char cs" "p = [] \<or> text_part p"
  shows "text_rest True first (concat cs @ p) = []"
  using assms(1)
proof (induction cs arbitrary: first)
  case Nil
  then show ?case using assms(2) text_rest_part by auto
next
  case (Cons c cs)
  then show ?case by (simp add: text_rest_char)
qed

lemma tail_after_lead:
  assumes "list_all cont t" "\<not> cont b" "length t \<le> 3"
  shows "incomplete_tail (xs @ b # t) =
    (if b AND 0xC0 = 0xC0 \<and> length t + 1 < utf8_seqlen b then length t + 1 else 0)"
proof -
  have r: "rev (xs @ b # t) = rev t @ b # rev xs" by simp
  have "takeWhile cont (take 3 (rev t @ b # rev xs)) = rev t"
  proof (cases "length t = 3")
    case True
    then show ?thesis using assms(1) by (simp add: takeWhile_all list_all_iff)
  next
    case False
    then obtain k where k: "3 - length t = Suc k" using assms(3) by (metis Suc_diff_Suc diff_is_0_eq' le_neq_implies_less zero_less_diff)
    have "take 3 (rev t @ b # rev xs) = rev t @ b # take k (rev xs)" using assms(3) by (simp add: k)
    then show ?thesis using assms by (simp add: takeWhile_append list_all_iff)
  qed
  then show ?thesis by (simp add: incomplete_tail_def Let_def r del: rev_append)
qed

lemma text_last:
  assumes "text_char c \<or> text_part c"
  obtains b t where "c = b # t" "list_all cont t" "\<not> cont b" "length t \<le> 3"
proof -
  from assms obtain b t where "c = b # t" "list_all cont t" "\<not> cont b" "length c \<le> utf8_seqlen b"
    by (auto simp: text_char_def text_part_def split: list.splits)
  with seqlen_le [of b] show thesis by (intro that) auto
qed

lemma incomplete_tail_text:
  assumes "list_all text_char cs" "p = [] \<or> text_part p"
  shows "incomplete_tail (concat cs @ p) = length p"
proof (cases "p = []")
  case False
  then have p: "text_part p" using assms(2) by simp
  then obtain b t where c: "p = b # t" "list_all cont t" "\<not> cont b" "length t \<le> 3" using text_last by blast
  moreover have "length t + 1 < utf8_seqlen b" using p c by (simp add: text_part_def)
  ultimately show ?thesis using seqlen_lead [of b] by (simp add: tail_after_lead)
next
  case True
  show ?thesis
  proof (cases cs rule: rev_cases)
    case Nil
    then show ?thesis using True by (simp add: incomplete_tail_def)
  next
    case (snoc cs' c)
    then have tc: "text_char c" using assms(1) by simp
    then obtain b t where c: "c = b # t" "list_all cont t" "\<not> cont b" "length t \<le> 3" using text_last by blast
    moreover have "utf8_seqlen b = length t + 1" using tc c by (simp add: text_char_def)
    ultimately show ?thesis using True snoc by (simp add: tail_after_lead)
  qed
qed

section \<open>One write of text\<close>

definition ground :: "cunit \<Rightarrow> bool" where
  "ground u \<longleftrightarrow> \<not> dcsDiscard u \<and> oscState u = OSC_IDLE \<and> utf8_unit u \<and> \<not> charset_active (md u)"

lemma text_command_text:
  assumes "con_is_utf8 m" "list_all text_char cs" "p = [] \<or> text_part p" "concat cs @ p \<noteq> []"
  shows "text_command (concat cs @ p) m =
    ((if concat cs = [] then Control C_NIL else Text C_ASCII_STRING,
      [PStr (concat cs), P (length (concat cs))], []),
     if p = [] then m else m\<lparr>utf8Stash := p\<rparr>)"
proof -
  have n: "con_text_span (concat cs @ p) True = length (concat cs @ p)"
    by (simp add: con_text_span_def text_rest_text [OF assms(2,3)])
  define T where "T = concat cs"
  have "T @ p \<noteq> []" using assms(4) by (simp only: T_def) simp
  with assms(1) n incomplete_tail_text [OF assms(2,3)] show ?thesis
    unfolding text_command_def Let_def T_def [symmetric] by auto
qed

lemma escape_command_none: "s = b # r \<Longrightarrow> b \<noteq> 0x1b \<Longrightarrow> escape_command s m = None"
  by (auto simp: escape_command_def getcharset_def getkeypadmode_def getshortescape_def getwindowcommand_def
    getansisavedcursor_def or_else_def try_parse_def split: list.split)

lemma standalone_none:
  assumes "0x20 \<le> b" "b < 0x80"
  shows "standalone b = None"
proof (rule ccontr)
  assume "standalone b \<noteq> None"
  then obtain c where "standalone b = Some c" by blast
  then show False using assms unfolding standalone_def by - (drule map_of_SomeD, auto)
qed

lemma text_begins:
  assumes "list_all text_char cs" "p = [] \<or> text_part p" "concat cs @ p = b # r"
  shows "\<exists>t. text_char (b # t) \<or> text_part (b # t)"
proof (cases cs)
  case Nil
  then show ?thesis using assms by (cases p) auto
next
  case (Cons c cs')
  then have "text_char c" using assms(1) by simp
  then obtain b' t where "c = b' # t" by (cases c) (auto simp: text_char_def)
  with Cons assms(3) \<open>text_char c\<close> show ?thesis by auto
qed

lemma string2command_text:
  assumes "ground u" "list_all text_char cs" "p = [] \<or> text_part p" "concat cs @ p \<noteq> []"
  shows "string2command e (concat cs @ p) u =
    ((if concat cs = [] then Control C_NIL else Text C_ASCII_STRING,
      [PStr (concat cs), P (length (concat cs))], []),
     if p = [] then u else u\<lparr>md := (md u)\<lparr>utf8Stash := p\<rparr>\<rparr>)"
proof -
  obtain b r where s: "concat cs @ p = b # r" using assms(4) by (cases "concat cs @ p") auto
  from text_begins [OF assms(2,3) s] obtain t where t: "text_char (b # t) \<or> text_part (b # t)" by blast
  note f = text_char_first(2-5) [OF t]
  have utf8: "utf8_unit u" using assms(1) by (simp add: ground_def)
  have std: "(if con_is_utf8 (md u) \<and> b \<ge> 0x80 then None else standalone b) = None"
    using utf8 standalone_none [OF f(3)] by (auto simp: not_le)
  have "plain_command e (b # r) (md u) = text_command (b # r) (md u)"
    using f(1,2) std by (auto simp: plain_command_def csi_body_def split: list.split)
  moreover have "discard_prefix (b # r) True = 0" "take 2 (b # r) \<noteq> [0x1b, 0x5d]"
    using f(1) by (simp_all add: discard_prefix_def)
  ultimately show ?thesis
    using assms(1) escape_command_none [of "b # r" b r "md u"] f(1) utf8
      text_command_text [OF utf8 assms(2-4)]
    unfolding s by (simp add: string2command_def ground_def)
qed

text \<open>What the display has been given: the text of the string commands, in order.\<close>

definition displayed :: "con_event list \<Rightarrow> byte list" where
  "displayed evs = concat (map (\<lambda>ev. case ev of
     Command (Text C_ASCII_STRING) (PStr s # _) _ \<Rightarrow> s | _ \<Rightarrow> []) evs)"

lemma displayed_append [simp]: "displayed (a @ b) = displayed a @ displayed b"
  by (simp add: displayed_def)

lemma displayed_emit [simp]:
  "displayed (events (emit ev m)) = displayed (events m) @ displayed [ev]"
  by (simp add: emit_def)

definition shows_text :: "byte list \<Rightarrow> byte list \<Rightarrow> cunit \<Rightarrow> cunit \<Rightarrow> bool" where
  "shows_text txt stash u u' \<longleftrightarrow> ground u' \<and> pendingCSI u' = pendingCSI u \<and> derailed (md u') = derailed (md u) \<and>
     utf8Stash (md u') = stash \<and> displayed (events (md u')) = displayed (events (md u)) @ txt"

lemma emit_text:
  assumes "ground u" "c = (if txt = [] then Control C_NIL else Text C_ASCII_STRING)" "utf8Stash (md u) = st"
  shows "shows_text txt st u (u\<lparr>md := con_emit_command (unit_class alloc) c [PStr txt, P (length txt)] (md u)\<rparr>)"
  using assms
  by (cases "txt")
    (auto simp: con_emit_command_def con_remember_text_def shows_text_def ground_def unit_class_def console_docommand_def
    charset_active_def con_is_utf8_def displayed_def emit_def Let_def)


lemma shows_text_trans:
  assumes "shows_text a st u u'" "shows_text b st' u' u''"
  shows "shows_text (a @ b) st' u u''"
  using assms by (simp add: shows_text_def)

lemma csi_incomplete_text:
  assumes "list_all text_char cs" "p = [] \<or> text_part p" "concat cs @ p \<noteq> []"
  shows "\<not> csi_incomplete (concat cs @ p)"
proof -
  obtain b r where s: "concat cs @ p = b # r" using assms(3) by (cases "concat cs @ p") auto
  from text_begins [OF assms(1,2) s] obtain t where t: "text_char (b # t) \<or> text_part (b # t)" by blast
  show ?thesis using text_char_first(2,3) [OF t] unfolding s by (simp add: csi_incomplete_def)
qed

lemma parse_loop_text:
  assumes "ground u" "list_all text_char cs" "p = [] \<or> text_part p" "utf8Stash (md u) = []"
  shows "\<exists>u'. parse_loop (unit_class alloc) (concat cs @ p) u = (u', []) \<and> shows_text (concat cs) p u u'"
proof (cases "concat cs @ p = []")
  case True
  then have "concat cs = []" "p = []" by (simp_all only: append_is_Nil_conv)
  moreover have "parse_loop (unit_class alloc) [] u = (u, [])" by (simp add: parse_loop.simps)
  moreover have "shows_text [] [] u u" using assms(1,4) by (simp add: shows_text_def)
  ultimately show ?thesis by (intro exI [of _ u]) (simp only: append_Nil simp_thms)
next
  case False
  define s where "s = concat cs @ p"
  define u1 where "u1 = (if p = [] then u else u\<lparr>md := (md u)\<lparr>utf8Stash := p\<rparr>\<rparr>)"
  define c where "c = (if concat cs = [] then Control C_NIL else Text C_ASCII_STRING)"
  let ?u = "u1\<lparr>md := con_emit_command (unit_class alloc) c [PStr (concat cs), P (length (concat cs))] (md u1)\<rparr>"
  have ne: "s \<noteq> []" using False by (simp only: s_def) simp
  have step: "string2command (unit_class alloc) s u = ((c, [PStr (concat cs), P (length (concat cs))], []), u1)"
    unfolding s_def c_def u1_def by (rule string2command_text [OF assms(1-3) False])
  have inc: "\<not> csi_incomplete s" unfolding s_def by (rule csi_incomplete_text [OF assms(2,3) False])
  have buf: "\<not> cc_buffering (unit_class alloc) m" for m by (simp add: unit_class_def)
  have "parse_loop (unit_class alloc) s u = parse_loop (unit_class alloc) [] ?u"
    using ne inc buf
    by (subst parse_loop.simps) (simp only: if_False simp_thms step Let_def prod.case fst_conv snd_conv)
  also have "\<dots> = (?u, [])" by (simp add: parse_loop.simps)
  finally have loop: "parse_loop (unit_class alloc) s u = (?u, [])" .
  have g: "ground u1" using assms(1) by (simp add: u1_def ground_def con_is_utf8_def charset_active_def)
  have st: "utf8Stash (md u1) = p" using assms(4) by (simp add: u1_def)
  have "shows_text (concat cs) p u1 ?u" by (rule emit_text [OF g c_def st])
  moreover have "shows_text [] (utf8Stash (md u1)) u u1"
    using assms(1) g by (simp add: shows_text_def u1_def displayed_def)
  ultimately have "shows_text (concat cs) p u ?u" using shows_text_trans [of "[]"] by force
  with loop show ?thesis by (auto simp: s_def)
qed

lemma text_char_unfold: "text_char c \<Longrightarrow> c \<noteq> [] \<and> utf8_seqlen (hd c) = length c \<and> list_all cont (tl c) \<and> \<not> cont (hd c)"
  by (auto simp: text_char_def split: list.splits)

lemma text_part_unfold: "text_part c \<Longrightarrow> c \<noteq> [] \<and> length c < utf8_seqlen (hd c) \<and> list_all cont (tl c) \<and> \<not> cont (hd c)"
  by (auto simp: text_part_def split: list.splits)

lemma complete_stash_text:
  assumes "ground u" "utf8Stash (md u) = t0" "text_part t0" "s \<noteq> []" "list_all text_char cs" "p = [] \<or> text_part p"
    and eq: "t0 @ s = concat cs @ p"
  shows "(cs = [] \<and> complete_stash e s u = (u\<lparr>md := (md u)\<lparr>utf8Stash := p\<rparr>\<rparr>, [], True)) \<or>
    (\<exists>c cs'. cs = c # cs' \<and> complete_stash e s u =
      (u\<lparr>md := emit Render_cursor (con_emit_command e (Text C_ASCII_STRING) [PStr c, P (length c)]
        (emit UnRender_cursor ((md u)\<lparr>utf8Stash := []\<rparr>)))\<rparr>, concat cs' @ p, False))"
proof -
  note t0 = text_part_unfold [OF assms(3)]
  define need where "need = utf8_seqlen (hd t0)"
  define k where "k = min (need - length t0) (length s)"
  have utf8: "utf8_unit u" using assms(1) by (simp add: ground_def)
  have cs_def: "complete_stash e s u =
    (let valid = length (takeWhile cont (take k s)); interrupted = (valid < k);
         stash' = t0 @ take valid s; s' = drop valid s
     in if length stash' = need \<or> interrupted then
          let shown = (if interrupted then [0x3f] else stash') in
          (on_modes (\<lambda>m. emit Render_cursor
             (con_emit_command e (Text C_ASCII_STRING) [PStr shown, P (length shown)]
               (emit UnRender_cursor (m\<lparr>utf8Stash := []\<rparr>)))) u, s', False)
        else (on_modes (\<lambda>m. m\<lparr>utf8Stash := stash'\<rparr>) u, s', s' = []))"
    using utf8 assms(2,4) t0 unfolding complete_stash_def need_def k_def by (simp add: Let_def)
  show ?thesis
  proof (cases cs)
    case Nil
    then have p: "p = t0 @ s" "text_part p" using eq assms(4,6) by auto
    note pu = text_part_unfold [OF p(2)]
    have hd: "hd p = hd t0" using p(1) t0 by simp
    have len: "length t0 + length s < need" using pu hd by (simp add: need_def p(1))
    have "list_all cont (take k s)" using pu t0 p(1)
      by (auto simp: tl_append list_all_iff dest: in_set_takeD split: list.splits)
    then have "takeWhile cont (take k s) = take k s" by (rule takeWhile_all)
    moreover have "k = length s" using len by (simp add: k_def)
    ultimately have "k = length s" "length (takeWhile cont s) = length s"
      by (simp_all only: take_all order_refl)
    then show ?thesis using Nil p(1) len by (simp add: cs_def Let_def on_modes_def)
  next
    case (Cons c cs')
    then have c: "text_char c" using assms(5) by simp
    note cu = text_char_unfold [OF c]
    have hd: "hd c = hd t0" using eq Cons t0 cu by (metis concat.simps(2) hd_append2 append_is_Nil_conv)
    have need: "need = length c" using cu hd by (simp add: need_def)
    then have lt: "length t0 < length c" using t0 by (simp add: need_def)
    have "t0 @ s = c @ (concat cs' @ p)" using eq Cons by simp
    then obtain us where us: "c = t0 @ us" "s = us @ concat cs' @ p"
      using lt by (auto simp: append_eq_append_conv2)
    then have c_eq: "c = t0 @ take (length c - length t0) s" and s_eq: "s = take (length c - length t0) s @ concat cs' @ p"
      by simp_all
    have le: "length c - length t0 \<le> length s" using c_eq lt by (metis length_append length_take min.cobounded1 add_diff_cancel_left')
    have k: "k = length c - length t0" using le by (simp add: k_def need)
    have "list_all cont (take k s)" using cu t0 c_eq k
      by (metis list_all_append tl_append2)
    then have tw: "takeWhile cont (take k s) = take k s" by (rule takeWhile_all)
    have lk: "length (take k s) = k" using le k by simp
    have "drop k s = concat cs' @ p" using s_eq k lk by (metis append_eq_conv_conj)
    moreover have lv: "length (takeWhile cont (take k s)) = k" by (simp only: tw lk)
    moreover have "t0 @ take k s = c" using c_eq k by simp
    ultimately have "complete_stash e s u =
      (u\<lparr>md := emit Render_cursor (con_emit_command e (Text C_ASCII_STRING) [PStr c, P (length c)]
        (emit UnRender_cursor ((md u)\<lparr>utf8Stash := []\<rparr>)))\<rparr>, concat cs' @ p, False)"
      unfolding cs_def Let_def lv by (simp add: need on_modes_def)
    with Cons show ?thesis by blast
  qed
qed

lemma emit_cursor_text:
  "shows_text a st u u' \<Longrightarrow> ev \<in> {Render_cursor, UnRender_cursor} \<Longrightarrow> shows_text a st u (on_modes (emit ev) u')"
  by (auto simp: shows_text_def on_modes_def ground_def con_is_utf8_def charset_active_def displayed_def emit_def)

lemma write_text:
  assumes "ground u" "pendingCSI u = []" "\<not> derailed (md u)" "buf \<noteq> []" "length buf \<le> 0x7fffffff"
    and "utf8Stash (md u) = [] \<or> text_part (utf8Stash (md u))"
    and cs: "list_all text_char cs" and p: "p = [] \<or> text_part p"
    and eq: "utf8Stash (md u) @ buf = concat cs @ p"
  shows "\<exists>u'. con_parse_output (unit_class alloc) buf u = Some (length buf, No_error, u') \<and> shows_text (concat cs) p u u'"
proof -
  let ?e = "unit_class alloc"
  define plain where "plain = list_all plain_byte buf"
  define after where "after = (\<lambda>(u1, s1, stashed). if stashed then Some (length buf, No_error, u1) else
    (case parse_loop ?e s1 (if s1 \<noteq> [] \<and> \<not> plain then on_modes (emit UnRender_cursor) u1 else u1) of
      (u3, left) \<Rightarrow> let u4 = (if \<not> plain then on_modes (emit Render_cursor) u3 else u3) in
        if derailed (md u4) then None else Some (sub32 (length buf) (length left), No_error, u4)))"
  have u: "u\<lparr>pendingCSI := []\<rparr> = u" using assms(2) by (cases u) simp
  have cpo: "con_parse_output ?e buf u = after (complete_stash ?e buf u)"
    using assms(2,4,5) unfolding con_parse_output_def Let_def after_def
    by (simp add: u plain_def case_prod_unfold)
  have loop: "\<exists>u'. after (u1, concat cs' @ p, False) = Some (length buf, No_error, u') \<and> shows_text (a @ concat cs') p u u'"
    if a: "shows_text a [] u u1" and cs': "list_all text_char cs'" for a u1 cs'
  proof -
    define u2 where "u2 = (if concat cs' @ p \<noteq> [] \<and> \<not> plain then on_modes (emit UnRender_cursor) u1 else u1)"
    have 2: "shows_text a [] u u2" using a emit_cursor_text by (simp add: u2_def)
    then have g: "ground u2" "utf8Stash (md u2) = []" by (simp_all add: shows_text_def)
    from parse_loop_text [OF g(1) cs' p g(2), of alloc] obtain u3 where
      l: "parse_loop ?e (concat cs' @ p) u2 = (u3, [])" and 3: "shows_text (concat cs') p u2 u3" by blast
    define u4 where "u4 = (if \<not> plain then on_modes (emit Render_cursor) u3 else u3)"
    have 4: "shows_text (a @ concat cs') p u u4"
      using shows_text_trans [OF 2 3] emit_cursor_text by (simp add: u4_def)
    then have "\<not> derailed (md u4)" using assms(3) by (simp add: shows_text_def)
    moreover have "sub32 (length buf) 0 = length buf" using assms(5) by (simp add: sub32_def)
    ultimately have "after (u1, concat cs' @ p, False) = Some (length buf, No_error, u4)"
      unfolding after_def prod.case if_False u2_def [symmetric] l u4_def [symmetric] Let_def by simp
    with 4 show ?thesis by blast
  qed
  show ?thesis
  proof (cases "utf8Stash (md u) = []")
    case True
    then have "complete_stash ?e buf u = (u, concat cs @ p, False)" using eq by (simp add: complete_stash_def)
    moreover have "shows_text [] [] u u" using assms(1) True by (simp add: shows_text_def displayed_def)
    ultimately show ?thesis using loop [of "[]" u cs] cs cpo by simp
  next
    case False
    then have part: "text_part (utf8Stash (md u))" using assms(6) by simp
    from complete_stash_text [OF assms(1) refl part assms(4) cs p eq, of ?e]
    consider (more) "cs = []" "complete_stash ?e buf u = (u\<lparr>md := (md u)\<lparr>utf8Stash := p\<rparr>\<rparr>, [], True)"
      | (full) c cs' where "cs = c # cs'" "complete_stash ?e buf u =
      (u\<lparr>md := emit Render_cursor (con_emit_command ?e (Text C_ASCII_STRING) [PStr c, P (length c)]
        (emit UnRender_cursor ((md u)\<lparr>utf8Stash := []\<rparr>)))\<rparr>, concat cs' @ p, False)"
      by blast
    then show ?thesis
    proof cases
      case more
      then have "con_parse_output ?e buf u = Some (length buf, No_error, u\<lparr>md := (md u)\<lparr>utf8Stash := p\<rparr>\<rparr>)"
        using cpo by (simp add: after_def)
      moreover have "shows_text [] p u (u\<lparr>md := (md u)\<lparr>utf8Stash := p\<rparr>\<rparr>)"
        using assms(1) by (simp add: shows_text_def ground_def con_is_utf8_def charset_active_def displayed_def)
      ultimately show ?thesis using more by auto
    next
      case full
      let ?v = "on_modes (emit UnRender_cursor) (u\<lparr>md := (md u)\<lparr>utf8Stash := []\<rparr>\<rparr>)"
      let ?w = "?v\<lparr>md := con_emit_command ?e (Text C_ASCII_STRING) [PStr c, P (length c)] (md ?v)\<rparr>"
      have c: "c \<noteq> []" "list_all text_char cs'" using cs full(1) text_char_unfold by auto
      have v: "shows_text [] [] u ?v"
        using assms(1) by (simp add: shows_text_def ground_def con_is_utf8_def charset_active_def displayed_def on_modes_def emit_def)
      then have g: "ground ?v" "utf8Stash (md ?v) = []" by (simp_all add: shows_text_def)
      have "shows_text c [] ?v ?w" using emit_text [OF g(1) _ g(2), of "Text C_ASCII_STRING" c alloc] c(1) by simp
      then have "shows_text c [] u ?w" using shows_text_trans [OF v] by force
      then have "shows_text c [] u (on_modes (emit Render_cursor) ?w)" by (rule emit_cursor_text) simp
      from loop [OF this c(2)] full show ?thesis by (simp add: cpo on_modes_def)
    qed
  qed
qed

section \<open>Any division into writes\<close>

lemma prefix_part: "text_char (a @ b) \<Longrightarrow> a \<noteq> [] \<Longrightarrow> b \<noteq> [] \<Longrightarrow> text_part a"
  by (cases a) (auto simp: text_char_def text_part_def)

lemma text_split:
  assumes "list_all text_char cs" "a @ b = concat cs"
  shows "\<exists>cs1 cs2 p. cs = cs1 @ cs2 \<and> a = concat cs1 @ p \<and> p @ b = concat cs2 \<and> (p = [] \<or> text_part p)"
  using assms
proof (induction cs arbitrary: a)
  case Nil
  then show ?case by simp
next
  case (Cons c cs)
  then consider us where "a = c @ us" "us @ b = concat cs" | us where "c = a @ us" "us \<noteq> []" "b = us @ concat cs"
    by (auto simp: append_eq_append_conv2) metis
  then show ?case
  proof cases
    case 1
    with Cons.IH [of us] Cons.prems(1) obtain cs1 cs2 p where
      "cs = cs1 @ cs2" "us = concat cs1 @ p" "p @ b = concat cs2" "p = [] \<or> text_part p" by auto
    with 1 show ?thesis by (intro exI [of _ "c # cs1"] exI [of _ cs2] exI [of _ p]) simp
  next
    case 2
    have "a = [] \<or> text_part a" using prefix_part [of a us] 2 Cons.prems(1) by auto
    with 2 show ?thesis by (intro exI [of _ "[]"] exI [of _ "c # cs"] exI [of _ a]) simp
  qed
qed

lemma write_all_text:
  assumes "ground u" "pendingCSI u = []" "\<not> derailed (md u)"
    and "utf8Stash (md u) = [] \<or> text_part (utf8Stash (md u))"
    and "list_all text_char cs" "utf8Stash (md u) @ concat bufs = concat cs"
    and "list_all (\<lambda>buf. length buf \<le> 0x7fffffff) bufs"
  shows "\<exists>u'. write_all (unit_class alloc) bufs u = Some u' \<and> shows_text (concat cs) [] u u'"
  using assms
proof (induction bufs arbitrary: u cs)
  case Nil
  define st where "st = utf8Stash (md u)"
  have eq: "st = concat cs" using Nil.prems(6) unfolding st_def by (simp only: concat.simps append_Nil2)
  have "\<not> text_part st"
  proof
    assume part: "text_part st"
    have "incomplete_tail st = 0" using incomplete_tail_text [OF Nil.prems(5), of "[]"] unfolding eq by simp
    moreover have "incomplete_tail st = length st" using incomplete_tail_text [of "[]" st] part by simp
    ultimately show False using part by (simp add: text_part_def)
  qed
  then have "utf8Stash (md u) = []" "concat cs = []" using Nil.prems(4) eq by (simp_all only: st_def) simp_all
  then have "shows_text (concat cs) [] u u" using Nil.prems(1) unfolding shows_text_def
    by (simp only:) simp
  then show ?case by (intro exI [of _ u]) simp
next
  case (Cons buf bufs)
  show ?case
  proof (cases "buf = []")
    case True
    then have "con_parse_output (unit_class alloc) buf u = Some (0, No_error, u)" by (simp add: con_parse_output_def)
    then show ?thesis using Cons.IH [OF Cons.prems(1-5)] Cons.prems(6,7) True by simp
  next
    case False
    have "(utf8Stash (md u) @ buf) @ concat bufs = concat cs" using Cons.prems(6) by simp
    from text_split [OF Cons.prems(5) this] obtain cs1 cs2 p where
      cs: "cs = cs1 @ cs2" "utf8Stash (md u) @ buf = concat cs1 @ p" "p @ concat bufs = concat cs2"
        "p = [] \<or> text_part p" by blast
    have c12: "list_all text_char cs1" "list_all text_char cs2" using Cons.prems(5) cs(1) by simp_all
    have len: "length buf \<le> 0x7fffffff" using Cons.prems(7) by simp
    from write_text [OF Cons.prems(1-3) False len Cons.prems(4) c12(1) cs(4,2), of alloc] obtain u1 where
      w: "con_parse_output (unit_class alloc) buf u = Some (length buf, No_error, u1)"
      and sh: "shows_text (concat cs1) p u u1" by blast
    then have u1: "ground u1" "pendingCSI u1 = []" "\<not> derailed (md u1)" "utf8Stash (md u1) = p"
      using Cons.prems(2,3) by (simp_all add: shows_text_def)
    from Cons.IH [OF u1(1-3), unfolded u1(4), OF cs(4) c12(2) cs(3)] Cons.prems(7) obtain u' where
      "write_all (unit_class alloc) bufs u1 = Some u'" "shows_text (concat cs2) [] u1 u'" by auto
    then show ?thesis using w shows_text_trans [OF sh] cs(1) by auto
  qed
qed

text \<open>
  C1. Text reaches the display unchanged however it is divided into writes: for any code points from
  U+0020 up, encoded as UTF-8 and cut anywhere, inside characters included, the strings the display
  is given concatenate to exactly the bytes written, and nothing stays behind in the carry-over
  buffers.
\<close>

theorem text_any_division:
  assumes "ground u" "pendingCSI u = []" "utf8Stash (md u) = []" "\<not> derailed (md u)"
    and "list_all (\<lambda>cp. scalar cp \<and> 0x20 \<le> cp) cps" "concat bufs = concat (map con_utf8_encode cps)"
    and "list_all (\<lambda>buf. length buf \<le> 0x7fffffff) bufs"
  shows "\<exists>u'. write_all (unit_class alloc) bufs u = Some u' \<and> utf8Stash (md u') = [] \<and> pendingCSI u' = [] \<and>
    displayed (events (md u')) = displayed (events (md u)) @ concat bufs"
proof -
  have "list_all text_char (map con_utf8_encode cps)"
    using assms(5) text_char_encode by (auto simp: list_all_iff)
  from write_all_text [OF assms(1,2,4) disjI1 [OF assms(3)] this, of bufs alloc] assms(2,3,6,7)
  show ?thesis by (auto simp: shows_text_def)
qed

text \<open>The Euro sign, cut after its second byte.\<close>

theorem text_any_division_witness:
  "\<exists>u'. write_all (unit_class (\<lambda>_. True)) [[0xe2, 0x82], [0xac]] idle_unit = Some u' \<and>
     displayed (events (md u')) = [0xe2, 0x82, 0xac]"
proof -
  have g: "ground idle_unit" "pendingCSI idle_unit = []" "utf8Stash (md idle_unit) = []" "\<not> derailed (md idle_unit)"
    by (simp_all add: ground_def idle_unit_def idle_modes_def con_is_utf8_def charset_active_def CF_UTF8_def)
  have e: "list_all (\<lambda>cp. scalar cp \<and> 0x20 \<le> cp) [0x20ac]" by (simp add: scalar_def)
  have c: "concat [[0xe2, 0x82], [0xac]] = concat (map con_utf8_encode [0x20ac])" by code_simp
  have "displayed (events (md idle_unit)) = []" by (simp add: idle_unit_def idle_modes_def displayed_def)
  with text_any_division [OF g e c, of "\<lambda>_. True"] show ?thesis
    by (simp del: write_all.simps) blast
qed

section \<open>Unsupported control strings\<close>

text \<open>Payload: neither a terminator nor the start of another sequence.\<close>

definition payload_byte :: "byte \<Rightarrow> bool" where
  "payload_byte b \<longleftrightarrow> b \<notin> set [0x18, 0x1a, 0x1b, 0x9b]"

definition string_intro :: "byte list \<Rightarrow> bool" where
  "string_intro i \<longleftrightarrow> i \<in> set [[0x1b, 0x50], [0x1b, 0x58], [0x1b, 0x5e], [0x1b, 0x5f]]"

definition silent :: "cunit \<Rightarrow> cunit \<Rightarrow> bool" where
  "silent u u' \<longleftrightarrow> dcsDiscard u' \<and> pendingCSI u' = [] \<and> utf8Stash (md u') = [] \<and> \<not> derailed (md u') \<and> utf8_unit u' \<and>
     displayed (events (md u')) = displayed (events (md u))"

lemma consume_dcs_payload: "list_all payload_byte s \<Longrightarrow> consume_dcs True s = ([], True)"
  by (induction s) (auto simp: payload_byte_def)

lemma nil_command:
  "con_emit_command (unit_class alloc) (Control C_NIL) [] m = emit (Command (Control C_NIL) [] (renderUTF8 m)) m"
  by (simp add: con_emit_command_def con_remember_text_def unit_class_def console_docommand_def)

lemma string_step:
  assumes "utf8_unit u" "s \<noteq> []"
    and "(dcsDiscard u \<and> list_all payload_byte s) \<or>
      (\<exists>i p. s = i @ p \<and> string_intro i \<and> list_all payload_byte p \<and> \<not> dcsDiscard u \<and> oscState u = OSC_IDLE)"
  shows "string2command e s u = ((Control C_NIL, [], []), u\<lparr>dcsDiscard := True\<rparr>) \<and> \<not> csi_incomplete s"
  using assms(3)
proof
  assume a: "dcsDiscard u \<and> list_all payload_byte s"
  then obtain b r where s: "s = b # r" "payload_byte b" using assms(2) by (cases s) auto
  then have "\<not> csi_incomplete s" by (auto simp: csi_incomplete_def payload_byte_def)
  with a assms(1) show ?thesis by (simp add: string2command_def consume_dcs_payload)
next
  assume "\<exists>i p. s = i @ p \<and> string_intro i \<and> list_all payload_byte p \<and> \<not> dcsDiscard u \<and> oscState u = OSC_IDLE"
  then obtain c p where s: "s = 0x1b # c # p" and c: "c \<in> set [0x50, 0x58, 0x5e, 0x5f]"
    and p: "list_all payload_byte p" and u: "\<not> dcsDiscard u" "oscState u = OSC_IDLE"
    by (auto simp: string_intro_def)
  have "c = 0x50 \<or> c = 0x58 \<or> c = 0x5e \<or> c = 0x5f" using c by simp
  then have "getcharset s (md u) = None" "getkeypadmode s (md u) = None" "getshortescape s = None"
    "getwindowcommand s = None" "getansisavedcursor s = None" "c \<noteq> 0x25"
    by (elim disjE; simp add: s getcharset_def getkeypadmode_def getshortescape_def short_command_def
      getwindowcommand_def getansisavedcursor_def split: list.split)+
  then have "escape_command s (md u) = None"
    by (simp add: escape_command_def or_else_def try_parse_def s split: list.split)
  moreover have "discard_prefix s True = 2" using c by (auto simp: s discard_prefix_def)
  moreover have "\<not> csi_incomplete s" using c by (auto simp: s csi_incomplete_def esc_intermediate_def)
  ultimately show ?thesis using assms(1) u p by (simp add: string2command_def s consume_dcs_payload)
qed

lemma write_string:
  assumes u: "pendingCSI u = []" "utf8Stash (md u) = []" "\<not> derailed (md u)" "utf8_unit u"
    and s: "s \<noteq> []" "length s \<le> 0x7fffffff"
    and c: "(dcsDiscard u \<and> list_all payload_byte s) \<or>
      (\<exists>i p. s = i @ p \<and> string_intro i \<and> list_all payload_byte p \<and> \<not> dcsDiscard u \<and> oscState u = OSC_IDLE)"
  shows "\<exists>u'. con_parse_output (unit_class alloc) s u = Some (length s, No_error, u') \<and> silent u u'"
proof -
  let ?e = "unit_class alloc"
  define plain where "plain = list_all plain_byte s"
  define u2 where "u2 = (if \<not> plain then on_modes (emit UnRender_cursor) u else u)"
  define u3 where "u3 = on_modes (con_emit_command ?e (Control C_NIL) []) (u2\<lparr>dcsDiscard := True\<rparr>)"
  define u4 where "u4 = (if \<not> plain then on_modes (emit Render_cursor) u3 else u3)"
  have u2: "utf8_unit u2" "dcsDiscard u2 = dcsDiscard u" "oscState u2 = oscState u"
    using u(4) by (simp_all add: u2_def on_modes_def emit_def con_is_utf8_def)
  have step: "string2command ?e s u2 = ((Control C_NIL, [], []), u2\<lparr>dcsDiscard := True\<rparr>)" "\<not> csi_incomplete s"
    using string_step [OF u2(1) s(1), of ?e] c u2(2,3) by simp_all
  have "\<not> cc_buffering ?e m" for m by (simp add: unit_class_def)
  with step s(1) have "parse_loop ?e s u2 = parse_loop ?e [] u3"
    by (subst parse_loop.simps) (simp add: u3_def on_modes_def)
  then have loop: "parse_loop ?e s u2 = (u3, [])" by (simp add: parse_loop.simps)
  have v: "u\<lparr>pendingCSI := []\<rparr> = u" using u(1) by (cases u) simp
  have cs: "complete_stash ?e s u = (u, s, False)" using u(2) by (simp add: complete_stash_def)
  have sil: "silent u u4"
    using u by (simp add: silent_def u4_def u3_def u2_def on_modes_def nil_command emit_def displayed_def con_is_utf8_def)
  have "sub32 (length s) 0 = length s" using s(2) by (simp add: sub32_def)
  then have "con_parse_output ?e s u = Some (length s, No_error, u4)"
    using u s loop sil
    unfolding con_parse_output_def Let_def
    by (simp add: v cs plain_def [symmetric] u2_def [symmetric] u4_def [symmetric] silent_def)
  with sil show ?thesis by blast
qed



end
