(* ===== verification/Charmap.thy ===== *)
theory Charmap
  imports Hyperlink
begin

text \<open>
  The retained text of a console, \<open>devs/consoleng/charmap.c\<close>: lines of cells, their growth and
  truncation, and the insertion and deletion of rows. The chain of line nodes is a list in
  \<open>next\<close> order and a node is its position in it. The five arrays that are always allocated
  together are one list of cells, as long as the allocated capacity; the two optional arrays are
  lists of the same length. The hyperlink pool is threaded through: \<open>None\<close> is a memory fault.
\<close>

section \<open>Lines\<close>

record cell =
  cell_text :: codepoint
  cell_fg :: byte
  cell_bg :: byte
  cell_flags :: byte
  cell_roles :: "64 word"

definition zero_cell :: cell where
  "zero_cell = \<lparr>cell_text = 0, cell_fg = 0, cell_bg = 0, cell_flags = 0, cell_roles = 0\<rparr>"

definition CHARMAP_ERASED :: byte where "CHARMAP_ERASED = 0x21"

record charmap_line =
  line_size :: nat
  capacity :: nat
  cells :: "cell list"
  wrapColumns :: nat
  wrapPadding :: byte
  links :: "addr option list option"
  underlineColors :: "codepoint list option"

definition charmap_newline :: charmap_line where
  "charmap_newline = \<lparr>line_size = 0, capacity = 0, cells = [], wrapColumns = 0, wrapPadding = 0,
     links = None, underlineColors = None\<rparr>"

text \<open>\<open>SetMem\<close> of the elements from \<open>i\<close> to \<open>j\<close> (exclusive).\<close>

definition set_range :: "'a \<Rightarrow> nat \<Rightarrow> nat \<Rightarrow> 'a list \<Rightarrow> 'a list" where
  "set_range v i j xs = take i xs @ replicate (min j (length xs) - i) v @ drop (max i (min j (length xs))) xs"

section \<open>Resizing\<close>

text \<open>Releasing the references of an optional array from position \<open>i\<close>, \<open>n\<close> of them.\<close>

definition release_links :: "con_link_pool \<Rightarrow> addr option list option \<Rightarrow> nat \<Rightarrow> nat
    \<Rightarrow> (addr option list option \<times> con_link_pool) option" where
  "release_links p ls i n =
     (case ls of
        None \<Rightarrow> Some (None, p)
      | Some cs \<Rightarrow> do {
          (ok, cs', p') \<leftarrow> con_link_fill p (Some (drop i cs)) n None;
          Some (map_option (\<lambda>c. take i cs @ c) cs', p')
        })"

definition new_capacity :: "nat \<Rightarrow> nat \<Rightarrow> nat" where
  "new_capacity cap newsize =
     (let growth = (if cap div 2 < 8 then 8 else cap div 2);
          n = add32 cap growth
      in if n < newsize \<or> n < cap then newsize else n)"

definition sizeof_uquad :: nat where "sizeof_uquad = 8"

text \<open>
  \<open>ok\<close> says whether all the allocations succeed: the code makes all of them and gives all of them
  back when one fails.
\<close>

definition charmap_resize :: "con_link_pool \<Rightarrow> bool \<Rightarrow> charmap_line \<Rightarrow> nat \<Rightarrow> (charmap_line \<times> con_link_pool) option" where
  "charmap_resize p ok line newsize =
     (let oldsize = line_size line; oldcapacity = (if capacity line \<noteq> 0 then capacity line else oldsize);
          l0 = (if newsize < oldsize then line\<lparr>wrapColumns := 0, wrapPadding := 0\<rparr> else line)
      in
      if newsize \<noteq> 0 \<and> newsize \<le> capacity line then
        if newsize > oldsize then
          Some (l0\<lparr>cells := set_range zero_cell oldsize newsize (cells l0),
              underlineColors := map_option (set_range 0 oldsize newsize) (underlineColors l0),
              line_size := newsize\<rparr>, p)
        else if newsize < oldsize then do {
          (ls, p') \<leftarrow> release_links p (links l0) newsize (oldsize - newsize);
          Some (l0\<lparr>links := ls, cells := set_range zero_cell newsize oldsize (cells l0),
              underlineColors := map_option (set_range 0 newsize oldsize) (underlineColors l0),
              line_size := newsize\<rparr>, p')
        }
        else Some (l0\<lparr>line_size := newsize\<rparr>, p)
      else if newsize \<noteq> 0 then
        let newcap = new_capacity (capacity line) newsize in
        if newcap > ulong_max div sizeof_uquad \<or> \<not> ok then Some (l0, p)
        else
          let n = min oldsize newsize in do {
          (_, p') \<leftarrow> release_links p (map_option (set_range None 0 n) (links l0)) 0 oldcapacity;
          Some (l0\<lparr>cells := take n (cells l0) @ replicate (newcap - n) zero_cell,
              links := map_option (\<lambda>ls. take n ls @ replicate (newcap - n) None) (links l0),
              underlineColors := map_option (\<lambda>u. take n u @ replicate (newcap - n) 0) (underlineColors l0),
              line_size := newsize, capacity := newcap\<rparr>, p')
        }
      else do {
        (_, p') \<leftarrow> release_links p (links l0) 0 oldcapacity;
        Some (l0\<lparr>cells := [], links := None, underlineColors := None, line_size := 0, capacity := 0\<rparr>, p')
      })"

definition charmap_dispose_line :: "con_link_pool \<Rightarrow> charmap_line \<Rightarrow> con_link_pool option" where
  "charmap_dispose_line p line = map_option snd (release_links p (links line) 0 (capacity line))"

fun charmap_dispose_lines :: "con_link_pool \<Rightarrow> charmap_line list \<Rightarrow> con_link_pool option" where
  "charmap_dispose_lines p [] = Some p"
| "charmap_dispose_lines p (l # ls) = do { p' \<leftarrow> charmap_dispose_line p l; charmap_dispose_lines p' ls }"

section \<open>Optional arrays\<close>

definition charmap_links :: "con_link_pool \<Rightarrow> bool \<Rightarrow> charmap_line \<Rightarrow> nat \<Rightarrow> nat \<Rightarrow> addr option
    \<Rightarrow> (bool \<times> charmap_line \<times> con_link_pool) option" where
  "charmap_links p ok line start cnt link =
     (if start > line_size line \<or> cnt > line_size line - start then Some (False, line, p)
      else if cnt = 0 then Some (True, line, p)
      else case links line of
        None \<Rightarrow>
          if link = None then Some (True, line, p)
          else if capacity line = 0 \<or> capacity line > ulong_max div sizeof_pointer \<or> \<not> ok then Some (False, line, p)
          else
            let cs = replicate (capacity line) None in do {
            (filled, cs', p') \<leftarrow> con_link_fill p (Some (drop start cs)) cnt link;
            Some (if filled then (True, line\<lparr>links := map_option (\<lambda>c. take start cs @ c) cs'\<rparr>, p') else (False, line, p'))
          }
      | Some cs \<Rightarrow> do {
          (filled, cs', p') \<leftarrow> con_link_fill p (Some (drop start cs)) cnt link;
          Some (filled, line\<lparr>links := map_option (\<lambda>c. take start cs @ c) cs'\<rparr>, p')
        })"

definition charmap_underline_colors :: "bool \<Rightarrow> charmap_line \<Rightarrow> nat \<Rightarrow> nat \<Rightarrow> codepoint \<Rightarrow> bool \<times> charmap_line" where
  "charmap_underline_colors ok line start cnt color =
     (if start > line_size line \<or> cnt > line_size line - start then (False, line)
      else if cnt = 0 then (True, line)
      else case underlineColors line of
        None \<Rightarrow>
          if color = 0 then (True, line)
          else if capacity line = 0 \<or> capacity line > ulong_max div 4 \<or> \<not> ok then (False, line)
          else (True, line\<lparr>underlineColors := Some (set_range color start (start + cnt) (replicate (capacity line) 0))\<rparr>)
      | Some u \<Rightarrow> (True, line\<lparr>underlineColors := Some (set_range color start (start + cnt) u)\<rparr>))"

section \<open>Well-formed lines\<close>

definition line_ok :: "charmap_line \<Rightarrow> bool" where
  "line_ok l \<longleftrightarrow> line_size l \<le> capacity l \<and> capacity l \<le> ulong_max \<and> length (cells l) = capacity l \<and>
     (case links l of None \<Rightarrow> True
      | Some cs \<Rightarrow> length cs = capacity l \<and> list_all (\<lambda>c. c = None) (drop (line_size l) cs)) \<and>
     (case underlineColors l of None \<Rightarrow> True | Some u \<Rightarrow> length u = capacity l)"

definition line_owners :: "charmap_line \<Rightarrow> addr multiset" where
  "line_owners l = (case links l of None \<Rightarrow> {#} | Some cs \<Rightarrow> owners cs)"

lemma newline_ok [simp]: "line_ok charmap_newline" "line_owners charmap_newline = {#}"
  by (simp_all add: line_ok_def charmap_newline_def line_owners_def)

lemma length_set_range [simp]: "length (set_range v i j xs) = length xs"
  by (auto simp: set_range_def min_def max_def)

lemma nth_set_range: "k < length xs \<Longrightarrow> set_range v i j xs ! k = (if i \<le> k \<and> k < j then v else xs ! k)"
  by (auto simp: set_range_def nth_append min_def max_def)

lemma line_owners_links [simp]:
  "line_owners (l\<lparr>cells := a\<rparr>) = line_owners l" "line_owners (l\<lparr>underlineColors := b\<rparr>) = line_owners l"
  "line_owners (l\<lparr>line_size := n\<rparr>) = line_owners l" "line_owners (l\<lparr>capacity := n\<rparr>) = line_owners l"
  "line_owners (l\<lparr>wrapColumns := n\<rparr>) = line_owners l" "line_owners (l\<lparr>wrapPadding := x\<rparr>) = line_owners l"
  "line_owners (l\<lparr>links := ls\<rparr>) = (case ls of None \<Rightarrow> {#} | Some cs \<Rightarrow> owners cs)"
  by (simp_all add: line_owners_def)

lemma owners_none: "list_all (\<lambda>c. c = None) cs \<Longrightarrow> owners cs = {#}"
  by (induction cs) auto

lemma owners_nones [simp]: "owners (replicate n None) = {#}"
  by (induction n) auto

definition owners_opt :: "addr option list option \<Rightarrow> addr multiset" where
  "owners_opt ls = (case ls of None \<Rightarrow> {#} | Some cs \<Rightarrow> owners cs)"

lemma line_owners_opt: "line_owners l = owners_opt (links l)"
  by (simp add: line_owners_def owners_opt_def)

lemma release_links_owned:
  assumes "owned p (owners_opt ls + R)" and "case ls of None \<Rightarrow> True | Some cs \<Rightarrow> i + n \<le> length cs"
  shows "\<exists>p'. release_links p ls i n =
      Some (map_option (\<lambda>cs. take i cs @ replicate n None @ drop (i + n) cs) ls, p') \<and>
    owned p' (owners_opt (map_option (\<lambda>cs. take i cs @ replicate n None @ drop (i + n) cs) ls) + R)"
proof (cases ls)
  case None
  then show ?thesis using assms(1) by (simp add: release_links_def)
next
  case (Some cs)
  have "owned p (owners (drop i cs) + (owners (take i cs) + R))"
    using assms(1) Some owners_take_drop [of cs i] by (simp add: owners_opt_def ac_simps)
  moreover have "n \<le> length (drop i cs)" using assms(2) Some by simp
  ultimately obtain p' where
    f: "con_link_fill p (Some (drop i cs)) n None = Some (True, Some (replicate n None @ drop n (drop i cs)), p')"
    and o: "owned p' (owners (replicate n None @ drop n (drop i cs)) + (owners (take i cs) + R))"
    using fill_owned [of p "drop i cs" "owners (take i cs) + R" None n] by (auto simp del: drop_drop)
  then show ?thesis using Some by (simp add: release_links_def owners_opt_def ac_simps)
qed

lemma new_capacity_bounds:
  assumes "newsize \<le> ulong_max" "cap \<le> ulong_max"
  shows "newsize \<le> new_capacity cap newsize" "new_capacity cap newsize \<le> ulong_max"
  using assms add32_bound by (auto simp: new_capacity_def Let_def)

lemma drop_nones: "list_all (\<lambda>c. c = None) (drop n cs) \<Longrightarrow> n \<le> m \<Longrightarrow> list_all (\<lambda>c. c = None) (drop m cs)"
proof -
  assume a: "list_all (\<lambda>c. c = None) (drop n cs)" "n \<le> m"
  then have "set (drop m cs) \<subseteq> set (drop n cs)" by (simp add: set_drop_subset_set_drop)
  with a(1) show ?thesis by (auto simp: list_all_iff)
qed

text \<open>The pool and the line after a resize: the size asked for, or nothing changed.\<close>

definition resized :: "charmap_line \<Rightarrow> nat \<Rightarrow> charmap_line \<Rightarrow> bool" where
  "resized l newsize l' \<longleftrightarrow> line_size l' = newsize \<and>
     (\<forall>k. k < min (line_size l) newsize \<longrightarrow> cells l' ! k = cells l ! k) \<and>
     (\<forall>k. line_size l \<le> k \<and> k < newsize \<longrightarrow> cells l' ! k = zero_cell)"

lemma resize_grow_in_place:
  assumes ok: "line_ok l" and n: "line_size l < newsize" "newsize \<le> capacity l"
  shows "\<exists>l'. charmap_resize p a l newsize = Some (l', p) \<and> line_ok l' \<and> line_owners l' = line_owners l \<and> resized l newsize l'"
proof -
  let ?l = "l\<lparr>cells := set_range zero_cell (line_size l) newsize (cells l),
    underlineColors := map_option (set_range 0 (line_size l) newsize) (underlineColors l), line_size := newsize\<rparr>"
  have "charmap_resize p a l newsize = Some (?l, p)"
    using n by (simp add: charmap_resize_def Let_def)
  moreover have "line_ok ?l"
    using ok n drop_nones [of "line_size l" _ newsize]
    by (auto simp: line_ok_def split: option.splits)
  moreover have "resized l newsize ?l"
    using ok n by (auto simp: resized_def nth_set_range line_ok_def)
  ultimately show ?thesis by auto
qed

lemma resize_shrink_in_place:
  assumes ok: "line_ok l" and n: "newsize < line_size l" "newsize \<noteq> 0" and own: "owned p (line_owners l + R)"
  shows "\<exists>l' p'. charmap_resize p a l newsize = Some (l', p') \<and> line_ok l' \<and> owned p' (line_owners l' + R) \<and> resized l newsize l'"
proof -
  have cap: "newsize \<le> capacity l" using ok n by (simp add: line_ok_def)
  let ?n = "line_size l - newsize"
  have len: "case links l of None \<Rightarrow> True | Some cs \<Rightarrow> newsize + ?n \<le> length cs"
    using ok n by (auto simp: line_ok_def split: option.splits)
  from release_links_owned [of p "links l" R newsize ?n] own len line_owners_opt obtain p' where
    r: "release_links p (links l) newsize ?n =
      Some (map_option (\<lambda>cs. take newsize cs @ replicate ?n None @ drop (newsize + ?n) cs) (links l), p')"
    and o: "owned p' (owners_opt (map_option (\<lambda>cs. take newsize cs @ replicate ?n None @ drop (newsize + ?n) cs) (links l)) + R)"
    by auto
  let ?l = "l\<lparr>wrapColumns := 0, wrapPadding := 0,
    links := map_option (\<lambda>cs. take newsize cs @ replicate ?n None @ drop (newsize + ?n) cs) (links l),
    cells := set_range zero_cell newsize (line_size l) (cells l),
    underlineColors := map_option (set_range 0 newsize (line_size l)) (underlineColors l), line_size := newsize\<rparr>"
  have "charmap_resize p a l newsize = Some (?l, p')"
    using n cap r by (simp add: charmap_resize_def Let_def)
  moreover have "line_ok ?l"
    using ok n by (auto simp: line_ok_def list_all_iff split: option.splits)
  moreover have "resized l newsize ?l"
    using ok n by (auto simp: resized_def nth_set_range line_ok_def)
  ultimately show ?thesis using o by (auto simp: line_owners_opt)
qed

lemma resize_move:
  assumes ok: "line_ok l" and n: "capacity l < newsize" "newsize \<le> ulong_max" and own: "owned p (line_owners l + R)"
  shows "\<exists>l' p'. charmap_resize p a l newsize = Some (l', p') \<and> line_ok l' \<and> owned p' (line_owners l' + R) \<and>
    (resized l newsize l' \<or> (l' = l \<and> p' = p))"
proof -
  define nc where "nc = new_capacity (capacity l) newsize"
  define oc where "oc = (if capacity l \<noteq> 0 then capacity l else line_size l)"
  have sz: "line_size l \<le> capacity l" "length (cells l) = capacity l" "oc = capacity l" "capacity l \<le> ulong_max"
    using ok by (auto simp: line_ok_def oc_def)
  have nc: "newsize \<le> nc" "nc \<le> ulong_max" using new_capacity_bounds n(2) sz(4) by (simp_all add: nc_def)
  show ?thesis
  proof (cases "nc > ulong_max div sizeof_uquad \<or> \<not> a")
    case True
    then have "charmap_resize p a l newsize = Some (l, p)"
      using n sz by (simp add: charmap_resize_def Let_def nc_def)
    with ok own show ?thesis by auto
  next
    case False
    let ?n = "line_size l"
    let ?rest = "map_option (set_range None 0 ?n) (links l)"
    have none: "owners_opt ?rest = {#}"
    proof (cases "links l")
      case (Some cs)
      have "list_all (\<lambda>c. c = None) (set_range None 0 ?n cs)"
        using ok Some by (auto simp: line_ok_def list_all_iff set_range_def max_def min_def)
      with Some show ?thesis by (simp add: owners_opt_def owners_none)
    qed (simp add: owners_opt_def)
    have front: "owners_opt (map_option (\<lambda>ls. take ?n ls @ replicate (nc - ?n) None) (links l)) = line_owners l"
    proof (cases "links l")
      case (Some cs)
      have "owners (drop ?n cs) = {#}" using ok Some by (auto simp: line_ok_def intro: owners_none)
      with Some show ?thesis using owners_take_drop [of cs ?n] by (simp add: owners_opt_def line_owners_opt)
    qed (simp add: owners_opt_def line_owners_opt)
    have len: "case ?rest of None \<Rightarrow> True | Some cs \<Rightarrow> 0 + oc \<le> length cs"
      using ok sz(3) by (auto simp: line_ok_def split: option.splits)
    from release_links_owned [of p ?rest "line_owners l + R" 0 oc] own none len obtain ls p' where
      r: "release_links p ?rest 0 oc = Some (ls, p')" and o: "owned p' (owners_opt ls + (line_owners l + R))"
      and ls: "ls = map_option (\<lambda>cs. take 0 cs @ replicate oc None @ drop (0 + oc) cs) ?rest"
      by auto
    have "owners_opt ls = {#}"
      using ok sz(3) by (auto simp: ls owners_opt_def line_ok_def split: option.splits)
    then have o': "owned p' (line_owners l + R)" using o by simp
    let ?l = "l\<lparr>cells := take ?n (cells l) @ replicate (nc - ?n) zero_cell,
      links := map_option (\<lambda>ls. take ?n ls @ replicate (nc - ?n) None) (links l),
      underlineColors := map_option (\<lambda>u. take ?n u @ replicate (nc - ?n) 0) (underlineColors l),
      line_size := newsize, capacity := nc\<rparr>"
    have "charmap_resize p a l newsize = Some (?l, p')"
      using n sz False r by (simp add: charmap_resize_def Let_def nc_def oc_def min_def)
    moreover have "line_ok ?l"
      using ok n nc sz by (auto simp: line_ok_def list_all_iff split: option.splits dest: in_set_dropD)
    moreover have "resized l newsize ?l"
      using sz n nc by (auto simp: resized_def nth_append)
    ultimately show ?thesis using o' front by (auto simp: line_owners_opt)
  qed
qed

lemma resize_zero:
  assumes ok: "line_ok l" and own: "owned p (line_owners l + R)"
  shows "\<exists>l' p'. charmap_resize p a l 0 = Some (l', p') \<and> line_ok l' \<and> owned p' (line_owners l' + R) \<and> resized l 0 l'"
proof -
  define oc where "oc = (if capacity l \<noteq> 0 then capacity l else line_size l)"
  have oc: "oc = capacity l" using ok by (auto simp: line_ok_def oc_def)
  have len: "case links l of None \<Rightarrow> True | Some cs \<Rightarrow> 0 + oc \<le> length cs"
    using ok oc by (auto simp: line_ok_def split: option.splits)
  from release_links_owned [of p "links l" R 0 oc] own len line_owners_opt obtain p' where
    r: "release_links p (links l) 0 oc = Some (map_option (\<lambda>cs. take 0 cs @ replicate oc None @ drop (0 + oc) cs) (links l), p')"
    and o: "owned p' (owners_opt (map_option (\<lambda>cs. take 0 cs @ replicate oc None @ drop (0 + oc) cs) (links l)) + R)"
    by auto
  have "owners_opt (map_option (\<lambda>cs. take 0 cs @ replicate oc None @ drop (0 + oc) cs) (links l)) = {#}"
    using ok oc by (auto simp: owners_opt_def line_ok_def split: option.splits)
  with o have o': "owned p' R" by simp
  show ?thesis
    using ok r o' by (auto simp: charmap_resize_def Let_def oc_def line_ok_def resized_def)
qed

text \<open>
  C23. Resizing a line never faults and keeps lines and reference counts well formed: the result has
  the size asked for, the cells below both sizes are as they were, newly visible cells are zero and
  carry no link of an earlier use, and every reference given up is released; or, only where a larger
  allocation was needed, nothing at all has changed.
\<close>

theorem charmap_resize_safe:
  assumes "line_ok l" and "owned p (line_owners l + R)" and "newsize \<le> ulong_max"
  shows "\<exists>l' p'. charmap_resize p ok l newsize = Some (l', p') \<and> line_ok l' \<and> owned p' (line_owners l' + R) \<and>
    (resized l newsize l' \<or> (capacity l < newsize \<and> l' = l \<and> p' = p))"
proof -
  consider "newsize = 0" | "newsize \<noteq> 0" "newsize < line_size l" | "newsize \<noteq> 0" "newsize = line_size l"
    | "line_size l < newsize" "newsize \<le> capacity l" | "capacity l < newsize"
    by linarith
  then show ?thesis
  proof cases
    case 1
    then show ?thesis using resize_zero [OF assms(1,2)] by blast
  next
    case 2
    then show ?thesis using resize_shrink_in_place [OF assms(1) 2(2,1) assms(2)] by blast
  next
    case 3
    then have "charmap_resize p ok l newsize = Some (l, p)"
      using assms(1) by (simp add: charmap_resize_def Let_def line_ok_def)
    then show ?thesis using assms 3 by (auto simp: resized_def)
  next
    case 4
    then show ?thesis using resize_grow_in_place [OF assms(1) 4, of p ok] assms(2) by auto
  next
    case 5
    then show ?thesis using resize_move [OF assms(1) 5 assms(3,2), of ok] by blast
  qed
qed

theorem charmap_resize_safe_witness:
  "\<exists>l' p'. charmap_resize empty_pool True charmap_newline 5 = Some (l', p') \<and> line_ok l' \<and>
     resized charmap_newline 5 l'"
proof -
  have own: "owned empty_pool (line_owners charmap_newline + {#})"
    by (simp add: owned_def pool_ok_def empty_pool_def refs_of_def)
  have "charmap_resize empty_pool True charmap_newline 5 \<noteq> Some (charmap_newline, empty_pool)"
    by (simp add: charmap_resize_def charmap_newline_def new_capacity_def add32_def Let_def release_links_def
      sizeof_uquad_def ulong_max_def)
  then show ?thesis
    using charmap_resize_safe [OF newline_ok(1) own, of 5 True] by (auto simp: ulong_max_def)
qed

end
