(* ===== verification/Charmap_Rows.thy ===== *)
theory Charmap_Rows
  imports Charmap
begin

text \<open>
  Inserting and deleting rows (\<open>charmap_edit_lines\<close>, \<open>charmap_append_blanks\<close> of
  \<open>devs/consoleng/charmap.c\<close>). The code moves rows by swapping the contents of nodes; the
  lemmas say that what it computes is the surgery on the list of rows one expects. The chain is a
  list of lines and a node pointer an integer position in it, off the list for NULL.
\<close>

section \<open>Fresh rows\<close>

definition erased_cell :: "byte \<Rightarrow> byte \<Rightarrow> 64 word \<Rightarrow> cell" where
  "erased_cell fg bg roles =
     \<lparr>cell_text = 0x20, cell_fg = fg, cell_bg = bg, cell_flags = CHARMAP_ERASED, cell_roles = roles\<rparr>"

text \<open>
  One fresh row: the line if the node and its arrays could be had. \<open>nodes\<close> and \<open>arrays\<close> are the
  allocator's answers for the row with a given number.
\<close>

definition erased_row :: "con_link_pool \<Rightarrow> bool \<Rightarrow> bool \<Rightarrow> nat \<Rightarrow> cell \<Rightarrow> (charmap_line option \<times> charmap_line list \<times> con_link_pool) option" where
  "erased_row p node arr width c =
     (if \<not> node then Some (None, [], p)
      else do {
        (l, p') \<leftarrow> charmap_resize p arr charmap_newline width;
        Some (if line_size l \<noteq> width then (None, [l], p')
              else (Some (l\<lparr>cells := replicate width c @ drop width (cells l)\<rparr>), [], p'))
      })"

fun fresh_rows :: "con_link_pool \<Rightarrow> (nat \<Rightarrow> bool) \<Rightarrow> (nat \<Rightarrow> bool) \<Rightarrow> nat \<Rightarrow> nat \<Rightarrow> cell \<Rightarrow> charmap_line list
    \<Rightarrow> (bool \<times> charmap_line list \<times> con_link_pool) option" where
  "fresh_rows p nodes arrays 0 width c acc = Some (True, acc, p)"
| "fresh_rows p nodes arrays (Suc n) width c acc = do {
     (r, partial, p') \<leftarrow> erased_row p (nodes (length acc)) (arrays (length acc)) width c;
     (case r of
        None \<Rightarrow> Some (False, acc @ partial, p')
      | Some l \<Rightarrow> fresh_rows p' nodes arrays n width c (acc @ [l]))
   }"

section \<open>Moving rows\<close>

definition charmap_swap_cells :: "nat \<Rightarrow> nat \<Rightarrow> charmap_line list \<Rightarrow> charmap_line list" where
  "charmap_swap_cells i j rows = rows[i := rows ! j, j := rows ! i]"

function shift_down :: "charmap_line list \<Rightarrow> int \<Rightarrow> int \<Rightarrow> int \<Rightarrow> charmap_line list \<times> int" where
  "shift_down rows line source lo =
     (if source < 0 \<or> source = lo - 1 then (rows, line)
      else shift_down (charmap_swap_cells (nat line) (nat source) rows) (line - 1) (source - 1) lo)"
  by pat_completeness auto
termination by (relation "measure (\<lambda>(_, _, source, _). nat (source + 1))") auto

function shift_up :: "charmap_line list \<Rightarrow> int \<Rightarrow> int \<Rightarrow> int \<Rightarrow> charmap_line list \<times> int" where
  "shift_up rows line source hi =
     (if source \<ge> int (length rows) \<or> source = hi + 1 then (rows, line)
      else shift_up (charmap_swap_cells (nat line) (nat source) rows) (line + 1) (source + 1) hi)"
  by pat_completeness auto
termination
  by (relation "measure (\<lambda>(rows, _, source, _). nat (int (length rows) - source))") (auto simp: charmap_swap_cells_def)

declare shift_down.simps [simp del] shift_up.simps [simp del]

text \<open>Each fresh row takes the place of a row of the chain, which it replaces in its own list.\<close>

fun place_rows :: "int \<Rightarrow> charmap_line list \<Rightarrow> int \<Rightarrow> charmap_line list \<Rightarrow> (charmap_line list \<times> charmap_line list) option" where
  "place_rows dir rows line [] = Some (rows, [])"
| "place_rows dir rows line (b # bs) =
     (if line < 0 \<or> line \<ge> int (length rows) then None
      else do {
        (rows', lost) \<leftarrow> place_rows dir (rows[nat line := b]) (line + dir) bs;
        Some (rows', rows ! nat line # lost)
      })"

definition clear_wrap :: "int \<Rightarrow> charmap_line list \<Rightarrow> charmap_line list" where
  "clear_wrap i rows =
     (if i < 0 \<or> i \<ge> int (length rows) then rows
      else rows[nat i := (rows ! nat i)\<lparr>wrapColumns := 0, wrapPadding := 0\<rparr>])"

definition charmap_edit_lines ::
  "con_link_pool \<Rightarrow> (nat \<Rightarrow> bool) \<Rightarrow> (nat \<Rightarrow> bool) \<Rightarrow> charmap_line list \<Rightarrow> nat \<Rightarrow> nat \<Rightarrow> nat \<Rightarrow> bool \<Rightarrow> nat \<Rightarrow>
     byte \<Rightarrow> byte \<Rightarrow> 64 word \<Rightarrow> (bool \<times> charmap_line list \<times> con_link_pool) option" where
  "charmap_edit_lines p nodes arrays rows lo hi cnt ins width fg bg roles = do {
     (ok, blank, p1) \<leftarrow> fresh_rows p nodes arrays cnt width (erased_cell fg bg roles) [];
     (if \<not> ok then do { p2 \<leftarrow> charmap_dispose_lines p1 blank; Some (False, rows, p2) }
      else if (if ins then cnt > hi + 1 else cnt > length rows - lo) \<or> (\<not> ins \<and> cnt > hi + 1) then None
      else do {
        let (rows1, line) =
          (if ins then shift_down rows (int hi) (int hi - int cnt) (int lo)
           else shift_up rows (int lo) (int lo + int cnt) (int hi));
        (rows2, lost) \<leftarrow> place_rows (if ins then - 1 else 1) rows1 line blank;
        let rows3 = clear_wrap (int hi - (if ins then 0 else int cnt)) (clear_wrap (int lo - 1) rows2);
        p2 \<leftarrow> charmap_dispose_lines p1 lost;
        Some (True, rows3, p2)
      })
   }"

definition charmap_append_blanks ::
  "con_link_pool \<Rightarrow> (nat \<Rightarrow> bool) \<Rightarrow> (nat \<Rightarrow> bool) \<Rightarrow> charmap_line list \<Rightarrow> nat option \<Rightarrow> nat \<Rightarrow> nat \<Rightarrow>
     byte \<Rightarrow> byte \<Rightarrow> 64 word \<Rightarrow> (bool \<times> charmap_line list \<times> con_link_pool) option" where
  "charmap_append_blanks p nodes arrays rows after cnt width fg bg roles =
     (case after of
        None \<Rightarrow> Some (False, rows, p)
      | Some a \<Rightarrow>
          if cnt = 0 then Some (False, rows, p)
          else do {
            (ok, blank, p1) \<leftarrow> fresh_rows p nodes arrays cnt width (erased_cell fg bg roles) [];
            (if \<not> ok then do { p2 \<leftarrow> charmap_dispose_lines p1 blank; Some (False, rows, p2) }
             else Some (True, take (a + 1) rows @ blank @ drop (a + 1) rows, p1))
          })"


section \<open>Rows owning references\<close>

definition rows_owners :: "charmap_line list \<Rightarrow> addr multiset" where
  "rows_owners ls = sum_mset (image_mset line_owners (mset ls))"

lemma rows_owners_simps [simp]:
  "rows_owners [] = {#}" "rows_owners (l # ls) = line_owners l + rows_owners ls"
  "rows_owners (ls @ ms) = rows_owners ls + rows_owners ms"
  by (simp_all add: rows_owners_def)

lemma rows_owners_mset: "mset ls = mset ms \<Longrightarrow> rows_owners ls = rows_owners ms"
  by (simp add: rows_owners_def)

lemma rows_owners_none: "(\<And>l. l \<in> set ls \<Longrightarrow> line_owners l = {#}) \<Longrightarrow> rows_owners ls = {#}"
  by (induction ls) auto

lemma dispose_line_owned:
  assumes "line_ok l" and "owned p (line_owners l + R)"
  shows "\<exists>p'. charmap_dispose_line p l = Some p' \<and> owned p' R"
proof -
  have len: "case links l of None \<Rightarrow> True | Some cs \<Rightarrow> 0 + capacity l \<le> length cs"
    using assms(1) by (auto simp: line_ok_def split: option.splits)
  let ?ls = "map_option (\<lambda>cs. take 0 cs @ replicate (capacity l) None @ drop (0 + capacity l) cs) (links l)"
  obtain p' where r: "release_links p (links l) 0 (capacity l) = Some (?ls, p')" and o: "owned p' (owners_opt ?ls + R)"
    using release_links_owned [of p "links l" R 0 "capacity l"] assms(2) len by (auto simp: line_owners_opt)
  have "owners_opt ?ls = {#}"
    using assms(1) by (auto simp: owners_opt_def line_ok_def split: option.splits)
  with r o show ?thesis by (simp add: charmap_dispose_line_def)
qed

lemma dispose_lines_owned:
  "list_all line_ok ls \<Longrightarrow> owned p (rows_owners ls + R) \<Longrightarrow> \<exists>p'. charmap_dispose_lines p ls = Some p' \<and> owned p' R"
proof (induction ls arbitrary: p)
  case (Cons l ls)
  then obtain p' where "charmap_dispose_line p l = Some p'" "owned p' (rows_owners ls + R)"
    using dispose_line_owned [of l p "rows_owners ls + R"] by (auto simp: ac_simps)
  with Cons show ?case by simp
qed simp

section \<open>Fresh rows are all alike\<close>

text \<open>The row that an allocation which succeeds builds.\<close>

definition blank_row :: "nat \<Rightarrow> cell \<Rightarrow> charmap_line" where
  "blank_row width c = charmap_newline\<lparr>cells := replicate width c @ replicate (new_capacity 0 width - width) zero_cell,
     line_size := width, capacity := (if width = 0 then 0 else new_capacity 0 width)\<rparr>"

definition row_width_ok :: "nat \<Rightarrow> bool" where
  "row_width_ok width \<longleftrightarrow> 0 < width \<and> width \<le> ulong_max \<and> new_capacity 0 width \<le> ulong_max div sizeof_uquad"

lemma newline_fields [simp]:
  "line_size charmap_newline = 0" "capacity charmap_newline = 0" "cells charmap_newline = []"
  "links charmap_newline = None" "underlineColors charmap_newline = None"
  by (simp_all add: charmap_newline_def)

lemma newline_resize:
  assumes "row_width_ok w"
  shows "charmap_resize p a charmap_newline w = Some (if a then charmap_newline\<lparr>cells := replicate (new_capacity 0 w) zero_cell,
      line_size := w, capacity := new_capacity 0 w\<rparr> else charmap_newline, p)"
  using assms by (auto simp: charmap_resize_def Let_def row_width_ok_def release_links_def charmap_newline_def)

lemma erased_row_eq:
  assumes "row_width_ok w"
  shows "erased_row p node arr w c =
    (if node \<and> arr then Some (Some (blank_row w c), [], p) else Some (None, if node then [charmap_newline] else [], p))"
proof -
  have "w \<noteq> 0" using assms by (simp add: row_width_ok_def)
  then show ?thesis
    by (auto simp: erased_row_def newline_resize [OF assms] blank_row_def)
qed

lemma fresh_rows_ok:
  assumes "row_width_ok w" and "\<forall>k < length acc + n. nodes k \<and> arrays k"
  shows "fresh_rows p nodes arrays n w c acc = Some (True, acc @ replicate n (blank_row w c), p)"
  using assms(2)
proof (induction n arbitrary: acc)
  case (Suc n)
  then show ?case by (simp add: erased_row_eq [OF assms(1)] replicate_append_same)
qed simp

lemma blank_row_ok: "row_width_ok w \<Longrightarrow> line_ok (blank_row w c)" "line_owners (blank_row w c) = {#}"
  using new_capacity_bounds [of w 0]
  by (auto simp: line_ok_def blank_row_def line_owners_def charmap_newline_def row_width_ok_def)

lemma fresh_rows_fail:
  assumes "row_width_ok w" and "k < length acc + n" and "\<not> (nodes k \<and> arrays k)" and "length acc \<le> k"
    and "list_all (\<lambda>l. links l = None) acc"
  shows "\<exists>b. fresh_rows p nodes arrays n w c acc = Some (False, b, p) \<and> list_all (\<lambda>l. links l = None) b"
  using assms(2-)
proof (induction n arbitrary: acc)
  case (Suc n)
  show ?case
  proof (cases "nodes (length acc) \<and> arrays (length acc)")
    case True
    then have "k \<noteq> length acc" using Suc.prems(2) by auto
    moreover have "links (blank_row w c) = None" by (simp add: blank_row_def)
    ultimately show ?thesis using Suc True by (simp add: erased_row_eq [OF assms(1)])
  next
    case False
    with Suc.prems show ?thesis by (auto simp: erased_row_eq [OF assms(1)])
  qed
qed simp

lemma dispose_unlinked: "list_all (\<lambda>l. links l = None) ls \<Longrightarrow> charmap_dispose_lines p ls = Some p"
  by (induction ls) (simp_all add: charmap_dispose_line_def release_links_def)

section \<open>Shifting\<close>

lemma length_swap [simp]: "length (charmap_swap_cells i j rows) = length rows"
  by (simp add: charmap_swap_cells_def)

lemma nth_swap:
  assumes "i < length rows" "j < length rows" "k < length rows"
  shows "charmap_swap_cells i j rows ! k = (if k = j then rows ! i else if k = i then rows ! j else rows ! k)"
  using assms by (auto simp: charmap_swap_cells_def nth_list_update)

lemma mset_swap_cells:
  "i < length rows \<Longrightarrow> j < length rows \<Longrightarrow> mset (charmap_swap_cells i j rows) = mset rows"
  unfolding charmap_swap_cells_def by (rule mset_swap)

text \<open>
  After the exchange of \<open>n\<close> pairs the moved rows stand at their new places, no row outside has
  changed, and none is lost: the displaced rows are in between.
\<close>

lemma shift_down_spec:
  assumes "lo + n + d \<le> length rows"
  shows "\<exists>rows'. shift_down rows (int (lo + n + d) - 1) (int (lo + n) - 1) (int lo) = (rows', int (lo + d) - 1) \<and>
    length rows' = length rows \<and> mset rows' = mset rows \<and>
    (\<forall>k < length rows. k < lo \<or> lo + n + d \<le> k \<longrightarrow> rows' ! k = rows ! k) \<and>
    (\<forall>k < n. rows' ! (lo + d + k) = rows ! (lo + k))"
  using assms
proof (induction n arbitrary: rows)
  case 0
  then show ?case by (subst shift_down.simps) (auto simp: nth_append)
next
  case (Suc n)
  define r where "r = charmap_swap_cells (lo + n + d) (lo + n) rows"
  have len: "lo + n + d \<le> length r" using Suc.prems by (simp add: r_def)
  from Suc.IH [OF this] obtain rows' where
    s: "shift_down r (int (lo + n + d) - 1) (int (lo + n) - 1) (int lo) = (rows', int (lo + d) - 1)"
    and h: "length rows' = length r" "mset rows' = mset r"
      "\<forall>k < length r. k < lo \<or> lo + n + d \<le> k \<longrightarrow> rows' ! k = r ! k"
      "\<forall>k < n. rows' ! (lo + d + k) = r ! (lo + k)" by blast
  have r: "length r = length rows" "mset r = mset rows"
    using Suc.prems by (simp_all add: r_def mset_swap_cells)
  have nth: "k < length rows \<Longrightarrow> r ! k = (if k = lo + n then rows ! (lo + n + d) else if k = lo + n + d then rows ! (lo + n) else rows ! k)" for k
    using Suc.prems by (simp add: r_def nth_swap)
  have "shift_down rows (int (lo + Suc n + d) - 1) (int (lo + Suc n) - 1) (int lo) = (rows', int (lo + d) - 1)"
  proof -
    have "nat (int (lo + Suc n + d) - 1) = lo + n + d" "nat (int (lo + Suc n) - 1) = lo + n"
      "int (lo + Suc n + d) - 1 - 1 = int (lo + n + d) - 1" "int (lo + Suc n) - 1 - 1 = int (lo + n) - 1"
      "\<not> (int (lo + Suc n) - 1 < 0 \<or> int (lo + Suc n) - 1 = int lo - 1)" by linarith+
    then show ?thesis using s by (subst shift_down.simps) (simp only: r_def if_False)
  qed
  moreover have "\<forall>k < length rows. k < lo \<or> lo + Suc n + d \<le> k \<longrightarrow> rows' ! k = rows ! k"
    using h(3) r(1) nth by auto
  moreover have "\<forall>k < Suc n. rows' ! (lo + d + k) = rows ! (lo + k)"
  proof (intro allI impI)
    fix k assume k: "k < Suc n"
    show "rows' ! (lo + d + k) = rows ! (lo + k)"
    proof (cases "k = n")
      case True
      have "rows' ! (lo + n + d) = r ! (lo + n + d)" using h(3) r(1) Suc.prems by simp
      also have "\<dots> = rows ! (lo + n)" using nth [of "lo + n + d"] Suc.prems by simp
      finally show ?thesis using True by (simp add: ac_simps)
    next
      case False
      with k have "rows' ! (lo + d + k) = r ! (lo + k)" using h(4) by simp
      then show ?thesis using nth [of "lo + k"] k False Suc.prems by simp
    qed
  qed
  ultimately show ?case using h r by auto
qed

lemma shift_up_spec:
  assumes "lo + n + d \<le> length rows" and "lo + n + d = hi + 1"
  shows "\<exists>rows'. shift_up rows (int lo) (int (lo + d)) (int hi) = (rows', int (lo + n)) \<and>
    length rows' = length rows \<and> mset rows' = mset rows \<and>
    (\<forall>k < length rows. k < lo \<or> hi < k \<longrightarrow> rows' ! k = rows ! k) \<and>
    (\<forall>k < n. rows' ! (lo + k) = rows ! (lo + d + k))"
  using assms
proof (induction n arbitrary: rows lo)
  case 0
  then show ?case by (subst shift_up.simps) (auto simp: nth_append)
next
  case (Suc n)
  define r where "r = charmap_swap_cells lo (lo + d) rows"
  have len: "Suc lo + n + d \<le> length r" "Suc lo + n + d = hi + 1" using Suc.prems by (simp_all add: r_def)
  from Suc.IH [OF this] obtain rows' where
    s: "shift_up r (int (Suc lo)) (int (Suc lo + d)) (int hi) = (rows', int (Suc lo + n))"
    and h: "length rows' = length r" "mset rows' = mset r"
      "\<forall>k < length r. k < Suc lo \<or> hi < k \<longrightarrow> rows' ! k = r ! k"
      "\<forall>k < n. rows' ! (Suc lo + k) = r ! (Suc lo + d + k)" by blast
  have r: "length r = length rows" "mset r = mset rows"
    using Suc.prems by (simp_all add: r_def mset_swap_cells)
  have nth: "k < length rows \<Longrightarrow> r ! k = (if k = lo + d then rows ! lo else if k = lo then rows ! (lo + d) else rows ! k)" for k
    using Suc.prems by (simp add: r_def nth_swap)
  have "shift_up rows (int lo) (int (lo + d)) (int hi) = (rows', int (lo + Suc n))"
    using s Suc.prems by (subst shift_up.simps) (simp add: r_def nat_int_add algebra_simps)
  moreover have "\<forall>k < length rows. k < lo \<or> hi < k \<longrightarrow> rows' ! k = rows ! k"
    using h(3) r(1) nth Suc.prems by auto
  moreover have "\<forall>k < Suc n. rows' ! (lo + k) = rows ! (lo + d + k)"
  proof (intro allI impI)
    fix k assume k: "k < Suc n"
    show "rows' ! (lo + k) = rows ! (lo + d + k)"
    proof (cases k)
      case 0
      have "rows' ! lo = r ! lo" using h(3) r(1) Suc.prems by simp
      also have "\<dots> = rows ! (lo + d)" using nth [of lo] Suc.prems by auto
      finally show ?thesis using 0 by simp
    next
      case (Suc j)
      with k have "rows' ! (Suc lo + j) = r ! (Suc lo + d + j)" using h(4) by simp
      then show ?thesis using nth [of "Suc lo + d + j"] Suc k Suc.prems by simp
    qed
  qed
  ultimately show ?case using h r by auto
qed


section \<open>The surgery\<close>

lemma place_rows_mset:
  "place_rows dir rows line bs = Some (rows', lost) \<Longrightarrow> mset lost + mset rows' = mset rows + mset bs"
proof (induction bs arbitrary: rows line rows' lost)
  case (Cons b bs)
  then obtain l where l: "0 \<le> line" "line < int (length rows)" "lost = rows ! nat line # l"
    "place_rows dir (rows[nat line := b]) (line + dir) bs = Some (rows', l)"
    by (auto split: if_splits Option.bind_splits)
  from Cons.IH [OF l(4)] have "mset l + mset rows' = mset (rows[nat line := b]) + mset bs" .
  moreover have "rows ! nat line \<in># mset rows" using l(1,2) by simp
  ultimately show ?case using l(1,2,3) by (simp add: mset_update)
qed simp

lemma place_down:
  "lo + d \<le> length rows \<Longrightarrow>
   \<exists>lost. place_rows (- 1) rows (int (lo + d) - 1) (replicate d b) = Some (take lo rows @ replicate d b @ drop (lo + d) rows, lost)"
proof (induction d arbitrary: rows)
  case (Suc d)
  have n: "nat (int (lo + Suc d) - 1) = lo + d" "int (lo + Suc d) - 1 + - 1 = int (lo + d) - 1"
    "\<not> (int (lo + Suc d) - 1 < 0 \<or> int (length rows) \<le> int (lo + Suc d) - 1)" using Suc.prems by linarith+
  obtain lost where "place_rows (- 1) (rows[lo + d := b]) (int (lo + d) - 1) (replicate d b) =
      Some (take lo (rows[lo + d := b]) @ replicate d b @ drop (lo + d) (rows[lo + d := b]), lost)"
    using Suc.IH [of "rows[lo + d := b]"] Suc.prems by auto
  moreover have "drop (lo + d) (rows[lo + d := b]) = b # drop (lo + Suc d) rows"
    using Suc.prems by (simp add: upd_conv_take_nth_drop)
  moreover have "replicate d b @ b # drop (lo + Suc d) rows = replicate (Suc d) b @ drop (lo + Suc d) rows"
    by (simp add: replicate_app_Cons_same)
  ultimately show ?case by (simp only: n place_rows.simps replicate.simps if_False) simp
qed simp

lemma place_up:
  "lo + d \<le> length rows \<Longrightarrow>
   \<exists>lost. place_rows 1 rows (int lo) (replicate d b) = Some (take lo rows @ replicate d b @ drop (lo + d) rows, lost)"
proof (induction d arbitrary: rows lo)
  case (Suc d)
  obtain lost where "place_rows 1 (rows[lo := b]) (int (Suc lo)) (replicate d b) =
      Some (take (Suc lo) (rows[lo := b]) @ replicate d b @ drop (Suc lo + d) (rows[lo := b]), lost)"
    using Suc.IH [of "Suc lo" "rows[lo := b]"] Suc.prems by auto
  moreover have "take (Suc lo) (rows[lo := b]) = take lo rows @ [b]"
    using Suc.prems by (simp add: upd_conv_take_nth_drop)
  ultimately show ?case using Suc.prems by (simp add: ac_simps)
qed simp

lemma shifted_down_tail:
  assumes "length r = length rows" and "lo + n + d \<le> length rows"
    and "\<forall>k < length rows. k < lo \<or> lo + n + d \<le> k \<longrightarrow> r ! k = rows ! k"
    and "\<forall>k < n. r ! (lo + d + k) = rows ! (lo + k)"
  shows "take lo r = take lo rows" "drop (lo + d) r = take n (drop lo rows) @ drop (lo + n + d) rows"
proof -
  show "take lo r = take lo rows" using assms by (intro nth_equalityI) auto
  show "drop (lo + d) r = take n (drop lo rows) @ drop (lo + n + d) rows"
  proof (rule nth_equalityI)
    fix i assume "i < length (drop (lo + d) r)"
    then show "drop (lo + d) r ! i = (take n (drop lo rows) @ drop (lo + n + d) rows) ! i"
      using assms by (cases "i < n") (auto simp: nth_append ac_simps)
  qed (use assms in auto)
qed

lemma shifted_up_front:
  assumes "length r = length rows" and "lo + n + d \<le> length rows"
    and "\<forall>k < length rows. k < lo \<or> lo + n + d \<le> k \<longrightarrow> r ! k = rows ! k"
    and "\<forall>k < n. r ! (lo + k) = rows ! (lo + d + k)"
  shows "take (lo + n) r = take lo rows @ take n (drop (lo + d) rows)" "drop (lo + n + d) r = drop (lo + n + d) rows"
proof -
  show "drop (lo + n + d) r = drop (lo + n + d) rows" using assms by (intro nth_equalityI) auto
  show "take (lo + n) r = take lo rows @ take n (drop (lo + d) rows)"
  proof (rule nth_equalityI)
    fix i assume i: "i < length (take (lo + n) r)"
    show "take (lo + n) r ! i = (take lo rows @ take n (drop (lo + d) rows)) ! i"
    proof (cases "i < lo")
      case False
      then obtain k where "i = lo + k" by (metis less_eqE linorder_not_less)
      then show ?thesis using i assms by (auto simp: nth_append)
    qed (use assms i in \<open>auto simp: nth_append\<close>)
  qed (use assms in auto)
qed

text \<open>What inserting or deleting rows in the region from \<open>lo\<close> to \<open>hi\<close> means.\<close>

definition edited_rows :: "bool \<Rightarrow> nat \<Rightarrow> nat \<Rightarrow> nat \<Rightarrow> charmap_line \<Rightarrow> charmap_line list \<Rightarrow> charmap_line list" where
  "edited_rows ins lo hi cnt b rows =
     (let region = take (hi + 1 - lo) (drop lo rows)
      in take lo rows @
         (if ins then replicate cnt b @ take (hi + 1 - lo - cnt) region else drop cnt region @ replicate cnt b) @
         drop (hi + 1) rows)"

definition displaced_rows :: "bool \<Rightarrow> nat \<Rightarrow> nat \<Rightarrow> nat \<Rightarrow> charmap_line list \<Rightarrow> charmap_line list" where
  "displaced_rows ins lo hi cnt rows =
     (let region = take (hi + 1 - lo) (drop lo rows)
      in if ins then drop (hi + 1 - lo - cnt) region else take cnt region)"

lemma edited_rows_mset:
  assumes "lo \<le> hi" "cnt \<le> hi + 1 - lo" "hi < length rows"
  shows "mset (edited_rows ins lo hi cnt b rows) + mset (displaced_rows ins lo hi cnt rows) = mset rows + mset (replicate cnt b)"
proof -
  define region where "region = take (hi + 1 - lo) (drop lo rows)"
  have "drop (hi + 1) rows = drop (hi + 1 - lo) (drop lo rows)" using assms by simp
  then have rows: "rows = take lo rows @ region @ drop (hi + 1) rows"
    by (simp only: region_def append_take_drop_id)
  have split: "mset region = mset (take k region) + mset (drop k region)" for k
    by (simp flip: mset_append)
  have "mset rows = mset (take lo rows) + mset region + mset (drop (hi + 1) rows)"
    by (subst rows) simp
  then show ?thesis
    using split [of "hi + 1 - lo - cnt"] split [of cnt]
    unfolding edited_rows_def displaced_rows_def Let_def region_def [symmetric]
    by (cases ins) (simp_all add: ac_simps)
qed


lemma edited_rows_place:
  assumes "lo \<le> hi" "cnt \<le> hi + 1 - lo" "hi < length rows"
    and "(if ins then shift_down rows (int hi) (int hi - int cnt) (int lo)
          else shift_up rows (int lo) (int lo + int cnt) (int hi)) = (rows1, line)"
  shows "\<exists>lost. place_rows (if ins then - 1 else 1) rows1 line (replicate cnt b) = Some (edited_rows ins lo hi cnt b rows, lost) \<and>
    mset lost = mset (displaced_rows ins lo hi cnt rows)"
proof -
  define n where "n = hi + 1 - lo - cnt"
  have hi: "lo + n + cnt = hi + 1" using assms by (simp add: n_def)
  have region: "take (hi + 1 - lo - cnt) (take (hi + 1 - lo) (drop lo rows)) = take n (drop lo rows)"
    "drop cnt (take (hi + 1 - lo) (drop lo rows)) = take n (drop (lo + cnt) rows)"
    using hi by (simp_all add: n_def drop_take ac_simps)
  have "\<exists>lost. place_rows (if ins then - 1 else 1) rows1 line (replicate cnt b) = Some (edited_rows ins lo hi cnt b rows, lost) \<and>
     mset rows1 = mset rows"
  proof (cases ins)
    case True
    have eq: "int hi = int (lo + n + cnt) - 1" "int (lo + n + cnt) - 1 - int cnt = int (lo + n) - 1" using hi by linarith+
    obtain r where s: "shift_down rows (int (lo + n + cnt) - 1) (int (lo + n) - 1) (int lo) = (r, int (lo + cnt) - 1)"
      and h: "length r = length rows" "mset r = mset rows"
        "\<forall>k < length rows. k < lo \<or> lo + n + cnt \<le> k \<longrightarrow> r ! k = rows ! k" "\<forall>k < n. r ! (lo + cnt + k) = rows ! (lo + k)"
      using shift_down_spec [of lo n cnt rows] hi assms(3) by auto
    have "(r, int (lo + cnt) - 1) = (rows1, line)" using assms(4) True s by (simp only: eq if_True)
    then have r: "rows1 = r" "line = int (lo + cnt) - 1" by simp_all
    show ?thesis
      using place_down [of lo cnt r b] shifted_down_tail [OF h(1) _ h(3,4)] hi assms(3) h(1,2) True
      unfolding edited_rows_def Let_def region r by auto
  next
    case False
    have eq: "int lo + int cnt = int (lo + cnt)" by simp
    obtain r where s: "shift_up rows (int lo) (int (lo + cnt)) (int hi) = (r, int (lo + n))"
      and h: "length r = length rows" "mset r = mset rows"
        "\<forall>k < length rows. k < lo \<or> hi < k \<longrightarrow> r ! k = rows ! k" "\<forall>k < n. r ! (lo + k) = rows ! (lo + cnt + k)"
      using shift_up_spec [of lo n cnt rows hi] hi assms(3) by auto
    have h3: "\<forall>k < length rows. k < lo \<or> lo + n + cnt \<le> k \<longrightarrow> r ! k = rows ! k" using h(3) hi by auto
    have "(r, int (lo + n)) = (rows1, line)" using assms(4) False s by (simp only: eq if_False)
    then have r: "rows1 = r" "line = int (lo + n)" by simp_all
    show ?thesis
      using place_up [of "lo + n" cnt r b] shifted_up_front [OF h(1) _ h3 h(4)] hi assms(3) h(1,2) False
      unfolding edited_rows_def Let_def region r by auto
  qed
  then obtain lost where p: "place_rows (if ins then - 1 else 1) rows1 line (replicate cnt b) = Some (edited_rows ins lo hi cnt b rows, lost)"
    and m: "mset rows1 = mset rows" by blast
  have "mset lost + mset (edited_rows ins lo hi cnt b rows) = mset rows + mset (replicate cnt b)"
    using place_rows_mset [OF p] m by simp
  also have "\<dots> = mset (displaced_rows ins lo hi cnt rows) + mset (edited_rows ins lo hi cnt b rows)"
    by (simp only: edited_rows_mset [OF assms(1-3), of ins b, symmetric] add.commute)
  finally show ?thesis using p by simp
qed

lemma displaced_subset: "set (displaced_rows ins lo hi cnt rows) \<subseteq> set rows"
  by (auto simp: displaced_rows_def Let_def dest!: in_set_dropD in_set_takeD)

text \<open>
  C12. Inserting and deleting rows. When every replacement row can be allocated the chain becomes
  exactly the edited list - the rows of the region moved by \<open>cnt\<close> places, blank rows in the gap,
  nothing outside the region touched but the wrap marker before the region and the one at the splice -
  the displaced rows are disposed of, and the links still shown are exactly those still owned. When one
  cannot, the chain and the hyperlink pool are as they were.
\<close>

theorem edit_lines_surgery:
  assumes "lo \<le> hi" "cnt \<le> hi + 1 - lo" "hi < length rows" and "row_width_ok w" and "list_all line_ok rows"
    and "owned p (rows_owners rows + R)"
  shows "if \<forall>k < cnt. nodes k \<and> arrays k
    then \<exists>p'. charmap_edit_lines p nodes arrays rows lo hi cnt ins w fg bg roles =
        Some (True, clear_wrap (int hi - (if ins then 0 else int cnt)) (clear_wrap (int lo - 1)
          (edited_rows ins lo hi cnt (blank_row w (erased_cell fg bg roles)) rows)), p') \<and>
      owned p' (rows_owners (edited_rows ins lo hi cnt (blank_row w (erased_cell fg bg roles)) rows) + R)
    else charmap_edit_lines p nodes arrays rows lo hi cnt ins w fg bg roles = Some (False, rows, p)"
proof (cases "\<forall>k < cnt. nodes k \<and> arrays k")
  case True
  define b where "b = blank_row w (erased_cell fg bg roles)"
  define new where "new = edited_rows ins lo hi cnt b rows"
  define gone where "gone = displaced_rows ins lo hi cnt rows"
  obtain rows1 line where s: "(if ins then shift_down rows (int hi) (int hi - int cnt) (int lo)
      else shift_up rows (int lo) (int lo + int cnt) (int hi)) = (rows1, line)" by fastforce
  obtain lost where pl: "place_rows (if ins then - 1 else 1) rows1 line (replicate cnt b) = Some (new, lost)"
    and lost: "mset lost = mset gone"
    using edited_rows_place [OF assms(1-3) s, of b] by (auto simp: new_def gone_def)
  have "rows_owners (replicate cnt b) = {#}"
    using blank_row_ok(2) by (intro rows_owners_none) (auto simp: b_def)
  then have "rows_owners new + rows_owners gone = rows_owners rows"
    using edited_rows_mset [OF assms(1-3), of ins b] rows_owners_mset [of "new @ gone" "rows @ replicate cnt b"]
    by (simp add: new_def gone_def)
  then have own: "owned p (rows_owners lost + (rows_owners new + R))"
    using assms(6) rows_owners_mset [OF lost] by (simp add: ac_simps)
  have "set lost \<subseteq> set rows"
    using mset_eq_setD [OF lost] displaced_subset by (auto simp: gone_def)
  then have "list_all line_ok lost" using assms(5) by (auto simp: list_all_iff)
  from dispose_lines_owned [OF this own] obtain p' where p': "charmap_dispose_lines p lost = Some p'" "owned p' (rows_owners new + R)"
    by blast
  have g: "\<not> ((if ins then hi + 1 < cnt else length rows - lo < cnt) \<or> \<not> ins \<and> hi + 1 < cnt)"
    using assms(1-3) by auto
  have "fresh_rows p nodes arrays cnt w (erased_cell fg bg roles) [] = Some (True, replicate cnt b, p)"
    using fresh_rows_ok [OF assms(4), of "[]" cnt] True by (simp add: b_def)
  then have "charmap_edit_lines p nodes arrays rows lo hi cnt ins w fg bg roles =
      Some (True, clear_wrap (int hi - (if ins then 0 else int cnt)) (clear_wrap (int lo - 1) new), p')"
    using pl p'(1) g by (simp only: charmap_edit_lines_def s Let_def prod.case bind.bind_lunit not_True_eq_False if_False)
  with p'(2) True show ?thesis by (auto simp: new_def b_def)
next
  case False
  then obtain k where "k < cnt" "\<not> (nodes k \<and> arrays k)" by blast
  with fresh_rows_fail [OF assms(4), of k "[]" cnt nodes arrays] obtain b where
    "fresh_rows p nodes arrays cnt w (erased_cell fg bg roles) [] = Some (False, b, p)" "list_all (\<lambda>l. links l = None) b"
    by fastforce
  then have "charmap_edit_lines p nodes arrays rows lo hi cnt ins w fg bg roles = Some (False, rows, p)"
    by (simp add: charmap_edit_lines_def dispose_unlinked)
  with False show ?thesis by auto
qed


definition letter_row :: "codepoint \<Rightarrow> charmap_line" where
  "letter_row t = blank_row 1 (zero_cell\<lparr>cell_text := t\<rparr>)"

lemma row_width_one: "row_width_ok 1"
  by (simp add: row_width_ok_def new_capacity_def add32_def Let_def ulong_max_def sizeof_uquad_def)

lemma letter_row_ok [simp]:
  "line_ok (letter_row t)" "line_owners (letter_row t) = {#}" "letter_row t\<lparr>wrapColumns := 0, wrapPadding := 0\<rparr> = letter_row t"
  using blank_row_ok(1) [OF row_width_one] blank_row_ok(2) by (simp_all add: letter_row_def) (simp add: blank_row_def charmap_newline_def)

theorem edit_lines_surgery_witness:
  "\<exists>p'. charmap_edit_lines empty_pool (\<lambda>_. True) (\<lambda>_. True) (map letter_row [65, 66, 67]) 0 1 1 True 1 0 0 0 =
     Some (True, [blank_row 1 (erased_cell 0 0 0), letter_row 65, letter_row 67], p')"
proof -
  have "owned empty_pool (rows_owners (map letter_row [65, 66, 67]) + {#})"
    by (simp add: owned_def pool_ok_def empty_pool_def refs_of_def)
  from edit_lines_surgery [OF _ _ _ row_width_one _ this, of 0 1 1 "\<lambda>_. True" "\<lambda>_. True" True 0 0 0]
  show ?thesis by (auto simp: edited_rows_def clear_wrap_def)
qed

section \<open>Appending\<close>

text \<open>
  Appending blank rows puts \<open>cnt\<close> of them behind the row \<open>a\<close> and leaves every other row and
  the hyperlink pool alone; if one allocation fails nothing changes.
\<close>

lemma append_blanks_all_or_nothing:
  assumes "row_width_ok w"
  shows "charmap_append_blanks p nodes arrays rows after cnt w fg bg roles =
    (case after of
       None \<Rightarrow> Some (False, rows, p)
     | Some a \<Rightarrow>
         if 0 < cnt \<and> (\<forall>k < cnt. nodes k \<and> arrays k)
         then Some (True, take (a + 1) rows @ replicate cnt (blank_row w (erased_cell fg bg roles)) @ drop (a + 1) rows, p)
         else Some (False, rows, p))"
proof (cases "after")
  case (Some a)
  show ?thesis
  proof (cases "\<forall>k < cnt. nodes k \<and> arrays k")
    case True
    then show ?thesis
      using fresh_rows_ok [OF assms, of "[]" cnt] Some by (simp add: charmap_append_blanks_def)
  next
    case False
    then obtain k where "k < cnt" "\<not> (nodes k \<and> arrays k)" by blast
    with fresh_rows_fail [OF assms, of k "[]" cnt nodes arrays] obtain b where
      "fresh_rows p nodes arrays cnt w (erased_cell fg bg roles) [] = Some (False, b, p)" "list_all (\<lambda>l. links l = None) b"
      by fastforce
    then show ?thesis using Some False by (auto simp: charmap_append_blanks_def dispose_unlinked)
  qed
qed (simp add: charmap_append_blanks_def)

end
