(* ===== verification/Reflow.thy ===== *)
theory Reflow
  imports Charmap_Rows Utf8 "HOL-Library.Sublist"
begin

text \<open>
  Laying retained text out again for another width (\<open>devs/consoleng/charmap_reflow.c\<close>). The old
  chain and the rows being built are lists of lines; a pointer to a line of either is its position.
  \<open>al\<close> answers the allocations, one answer for each step that may allocate; \<open>None\<close> is a memory
  fault, a result \<open>False\<close> the code's \<open>fail\<close>.
\<close>

section \<open>The builder\<close>

definition CELL_WIDE_CONT :: codepoint where "CELL_WIDE_CONT = 0xFFFFFFFE"
definition CHARMAP_REFLOW_ANCHORS :: nat where "CHARMAP_REFLOW_ANCHORS = 8"

record charmap_anchor =
  anchor_line :: "nat option"
  anchor_column :: nat
  anchor_extend :: bool
  newLine :: "nat option"
  newColumn :: nat
  newRow :: nat

record reflow_builder =
  width :: nat
  rows :: "charmap_line list"
  pool :: con_link_pool
  calls :: nat

definition tail_row :: "reflow_builder \<Rightarrow> charmap_line" where
  "tail_row b = last (rows b)"

definition set_tail :: "charmap_line \<Rightarrow> reflow_builder \<Rightarrow> reflow_builder" where
  "set_tail l b = b\<lparr>rows := butlast (rows b) @ [l]\<rparr>"

definition reflow_row :: "(nat \<Rightarrow> bool) \<Rightarrow> reflow_builder \<Rightarrow> bool \<Rightarrow> bool \<times> reflow_builder" where
  "reflow_row al b contd =
     (if \<not> al (calls b) then (False, b\<lparr>calls := calls b + 1\<rparr>)
      else
        let b1 = (if rows b \<noteq> [] \<and> contd then set_tail ((tail_row b)\<lparr>wrapColumns := width b\<rparr>) b else b)
        in (True, b1\<lparr>rows := rows b1 @ [charmap_newline], calls := calls b + 1\<rparr>))"

definition reflow_cell :: "(nat \<Rightarrow> bool) \<Rightarrow> reflow_builder \<Rightarrow> cell \<Rightarrow> codepoint \<Rightarrow> addr option \<Rightarrow> (bool \<times> reflow_builder) option" where
  "reflow_cell al b c ucolor link =
     (let line = tail_row b; x = line_size line; k = calls b in do {
        (room, line1, p1) \<leftarrow>
          (if capacity line = 0 then do {
             (l, p) \<leftarrow> charmap_resize (pool b) (al k) line (width b);
             Some (if line_size l \<noteq> width b then (False, l, p) else (True, l\<lparr>line_size := 0\<rparr>, p))
           } else Some (True, line, pool b));
        (if \<not> room then Some (False, (set_tail line1 b)\<lparr>pool := p1, calls := k + 3\<rparr>)
         else if x \<ge> length (cells line1) then None
         else
           let line2 = line1\<lparr>cells := (cells line1)[x := c], line_size := line_size line1 + 1\<rparr>;
               (colored, line3) = charmap_underline_colors (al (k + 1)) line2 x 1 ucolor in
           if \<not> colored then Some (False, (set_tail line3 b)\<lparr>pool := p1, calls := k + 3\<rparr>)
           else do {
             (linked, line4, p2) \<leftarrow> charmap_links p1 (al (k + 2)) line3 x 1 link;
             Some (linked, (set_tail line4 b)\<lparr>pool := p2, calls := k + 3\<rparr>)
           })
      })"

definition reflow_map :: "charmap_anchor list \<Rightarrow> nat \<Rightarrow> nat \<Rightarrow> reflow_builder \<Rightarrow> nat \<Rightarrow> charmap_anchor list" where
  "reflow_map as old col b outcolumn =
     map (\<lambda>a. if anchor_line a = Some old \<and> anchor_column a = col
              then a\<lparr>newLine := Some (length (rows b) - 1), newColumn := outcolumn, newRow := length (rows b) - 1\<rparr>
              else a) as"

section \<open>What a retained row holds\<close>

definition line_end :: "charmap_line \<Rightarrow> nat" where
  "line_end old =
     (let e = (if wrapColumns old \<noteq> 0 \<and> line_size old > wrapColumns old then wrapColumns old else line_size old)
      in if wrapColumns old \<noteq> 0 \<and> wrapPadding old \<noteq> 0 \<and> e = line_size old \<and> e \<noteq> 0 \<and> cells old \<noteq> [] \<and>
            cell_text (cells old ! (e - 1)) = 0x20 then e - 1 else e)"

definition trailing_blank :: "charmap_line \<Rightarrow> nat \<Rightarrow> nat \<Rightarrow> bool" where
  "trailing_blank old stored i \<longleftrightarrow>
     cells old \<noteq> [] \<and>
     (let c = cells old ! i; t = cells old ! (stored - 1) in
        cell_text c = 0x20 \<and>
        (case links old of None \<Rightarrow> True | Some ls \<Rightarrow> ls ! i = None) \<and>
        ((cell_flags t \<noteq> CHARMAP_ERASED \<and> cell_roles c = 0x0102 \<and> cell_flags c = 0) \<or>
         (cell_flags c = CHARMAP_ERASED \<and> cell_flags t = CHARMAP_ERASED \<and> cell_fg c = cell_fg t \<and>
          cell_bg c = cell_bg t \<and> cell_roles c = cell_roles t \<and>
          (case underlineColors old of None \<Rightarrow> True | Some u \<Rightarrow> u ! i = u ! (stored - 1)))))"

fun trim_end :: "charmap_line \<Rightarrow> nat \<Rightarrow> nat \<Rightarrow> nat" where
  "trim_end old stored 0 = 0"
| "trim_end old stored (Suc e) = (if trailing_blank old stored e then trim_end old stored e else Suc e)"

definition extended_end :: "charmap_anchor list \<Rightarrow> nat \<Rightarrow> nat \<Rightarrow> nat" where
  "extended_end as old e = foldl (\<lambda>e a. if anchor_line a = Some old \<and> anchor_extend a \<and> anchor_column a > e then anchor_column a else e) e as"

definition source_cell :: "charmap_line \<Rightarrow> nat \<Rightarrow> nat \<Rightarrow> cell" where
  "source_cell old stored x =
     (if x < stored \<and> cells old \<noteq> [] then cells old ! x
      else \<lparr>cell_text = 0x20, cell_fg = 0, cell_bg = 0, cell_flags = 0, cell_roles = 0x0102\<rparr>)"

definition source_color :: "charmap_line \<Rightarrow> nat \<Rightarrow> nat \<Rightarrow> codepoint" where
  "source_color old stored x =
     (if x < stored then (case underlineColors old of None \<Rightarrow> 0 | Some u \<Rightarrow> u ! x) else 0)"

definition source_link :: "charmap_line \<Rightarrow> nat \<Rightarrow> nat \<Rightarrow> addr option" where
  "source_link old stored x =
     (if x < stored then (case links old of None \<Rightarrow> None | Some ls \<Rightarrow> ls ! x) else None)"

text \<open>The reads of a row stay inside its arrays.\<close>

definition readable :: "charmap_line \<Rightarrow> bool" where
  "readable old \<longleftrightarrow> (cells old = [] \<or> line_size old \<le> length (cells old)) \<and>
     (case links old of None \<Rightarrow> True | Some ls \<Rightarrow> line_size old \<le> length ls) \<and>
     (case underlineColors old of None \<Rightarrow> True | Some u \<Rightarrow> line_size old \<le> length u)"

section \<open>Reflow\<close>

definition wrap_row :: "(nat \<Rightarrow> bool) \<Rightarrow> reflow_builder \<Rightarrow> cell \<Rightarrow> codepoint \<Rightarrow> (bool \<times> reflow_builder) option" where
  "wrap_row al b c ucolor =
     (if line_size (tail_row b) < width b then do {
        (ok, b1) \<leftarrow> reflow_cell al b (c\<lparr>cell_text := 0x20\<rparr>) ucolor None;
        Some (if \<not> ok then (False, b1)
              else reflow_row al (set_tail ((tail_row b1)\<lparr>wrapPadding := 1\<rparr>) b1) True)
      }
      else Some (reflow_row al b True))"

function reflow_text :: "(nat \<Rightarrow> bool) \<Rightarrow> nat \<Rightarrow> charmap_line \<Rightarrow> nat \<Rightarrow> nat \<Rightarrow> nat \<Rightarrow> charmap_anchor list \<Rightarrow> reflow_builder
    \<Rightarrow> (bool \<times> charmap_anchor list \<times> reflow_builder) option" where
  "reflow_text al i old stored e x as b =
     (if x \<ge> e then Some (True, as, b)
      else
        let c = source_cell old stored x; ucolor = source_color old stored x; link = source_link old stored x in
        if cell_text c = CELL_WIDE_CONT then
          reflow_text al i old stored e (x + 1) (reflow_map as i x b (line_size (tail_row b))) b
        else
          let wide = con_cp_width (cell_text c) = 2;
              consumed = (if wide \<and> x + 1 < stored \<and> cell_text (cells old ! (x + 1)) = CELL_WIDE_CONT then 2 else 1);
              cs = min (if wide then 2 else 1) (width b)
          in do {
            (ok1, b1) \<leftarrow> (if line_size (tail_row b) + cs > width b then wrap_row al b c ucolor else Some (True, b));
            (if \<not> ok1 then Some (False, as, b1)
             else
               let start = line_size (tail_row b1); as1 = reflow_map as i x b1 start in do {
               (ok2, b2) \<leftarrow> reflow_cell al b1 c ucolor link;
               (if \<not> ok2 then Some (False, as1, b2)
                else do {
                  (ok3, b3) \<leftarrow> (if cs = 2 then reflow_cell al b2 (c\<lparr>cell_text := CELL_WIDE_CONT\<rparr>) ucolor link else Some (True, b2));
                  (if \<not> ok3 then Some (False, as1, b3)
                   else reflow_text al i old stored e (x + consumed)
                     (if consumed = 2 then reflow_map as1 i (x + 1) b3 (start + cs - 1) else as1) b3)
                })
             })
          })"
  by pat_completeness auto
termination by (relation "measure (\<lambda>(al, i, old, stored, e, x, as, b). e - x)") auto

declare reflow_text.simps [simp del]

text \<open>The loop that fills the tail row up to the width: each cell takes one of the \<open>n\<close> places left.\<close>

fun fill_tail :: "(nat \<Rightarrow> bool) \<Rightarrow> nat \<Rightarrow> reflow_builder \<Rightarrow> cell \<Rightarrow> codepoint \<Rightarrow> (bool \<times> reflow_builder) option" where
  "fill_tail al 0 b c ucolor = Some (True, b)"
| "fill_tail al (Suc n) b c ucolor = do {
     (ok, b1) \<leftarrow> reflow_cell al b c ucolor None;
     (if \<not> ok then Some (False, b1) else fill_tail al n b1 c ucolor)
   }"

definition reflow_line :: "(nat \<Rightarrow> bool) \<Rightarrow> nat \<Rightarrow> charmap_line \<Rightarrow> bool \<Rightarrow> charmap_anchor list \<Rightarrow> reflow_builder
    \<Rightarrow> (bool \<times> charmap_anchor list \<times> reflow_builder) option" where
  "reflow_line al i old contd as b =
     (let stored = line_end old;
          trimmed = (if wrapColumns old = 0 then trim_end old stored stored else stored);
          default_tail = (trimmed < stored \<and> wrapColumns old = 0);
          (ok0, b0) = (if contd then (True, b) else reflow_row al b False);
          e = (if wrapColumns old = 0 then extended_end as i trimmed else trimmed)
      in
      if \<not> ok0 then Some (False, as, b0)
      else do {
        (ok1, as1, b1) \<leftarrow> reflow_text al i old stored e 0 as b0;
        (if \<not> ok1 then Some (False, as1, b1)
         else
           let as2 = map (\<lambda>a. if anchor_line a = Some i \<and> newLine a = None
                 then a\<lparr>newLine := Some (length (rows b1) - 1), newColumn := line_size (tail_row b1),
                        newRow := length (rows b1) - 1\<rparr> else a) as1 in
           if \<not> default_tail then Some (True, as2, b1)
           else do {
             (ok2, b2) \<leftarrow> fill_tail al (width b1 - line_size (tail_row b1)) b1
               ((source_cell old stored (stored - 1))\<lparr>cell_text := 0x20\<rparr>) (source_color old stored (stored - 1));
             Some (ok2, as2, b2)
           })
      })"

fun reflow_lines :: "(nat \<Rightarrow> bool) \<Rightarrow> nat \<Rightarrow> charmap_line list \<Rightarrow> bool \<Rightarrow> charmap_anchor list \<Rightarrow> reflow_builder
    \<Rightarrow> (bool \<times> charmap_anchor list \<times> reflow_builder) option" where
  "reflow_lines al i [] contd as b = Some (True, as, b)"
| "reflow_lines al i (old # olds) contd as b =
     (if \<not> readable old then None
      else do {
        (ok, as1, b1) \<leftarrow> reflow_line al i old contd as b;
        (if \<not> ok then Some (False, as1, b1)
         else reflow_lines al (i + 1) olds (wrapColumns old \<noteq> 0 \<and> olds \<noteq> []) as1 b1)
      })"

text \<open>
  The result: whether it succeeded, the new chain, the caller's anchors and the hyperlink pool. The
  code leaves the anchors alone on failure and disposes of what it built.
\<close>

definition charmap_reflow :: "con_link_pool \<Rightarrow> (nat \<Rightarrow> bool) \<Rightarrow> charmap_line list \<Rightarrow> nat \<Rightarrow> charmap_anchor list
    \<Rightarrow> (charmap_line list option \<times> charmap_anchor list \<times> con_link_pool) option" where
  "charmap_reflow p al olds w anchors =
     (if w = 0 \<or> w > 0x7fffffff div 4 \<or> length anchors > CHARMAP_REFLOW_ANCHORS then Some (None, anchors, p)
      else do {
        (ok, as, b) \<leftarrow> reflow_lines al 0 olds False (map (\<lambda>a. a\<lparr>newLine := None\<rparr>) anchors)
          \<lparr>width = w, rows = [], pool = p, calls = 0\<rparr>;
        (if ok \<and> list_all (\<lambda>a. anchor_line a = None \<or> newLine a \<noteq> None) as then Some (Some (rows b), as, pool b)
         else do { p' \<leftarrow> charmap_dispose_lines (pool b) (rows b); Some (None, anchors, p') })
      })"


section \<open>Rows under construction\<close>

text \<open>
  A row of the builder is well formed, not wider than the width, and either has no arrays yet or
  room for the whole width.
\<close>

definition row_fits :: "nat \<Rightarrow> charmap_line \<Rightarrow> bool" where
  "row_fits w l \<longleftrightarrow> line_ok l \<and> line_size l \<le> w \<and> (capacity l = 0 \<or> w \<le> capacity l) \<and> capacity l \<le> ulong_max div sizeof_uquad"

text \<open>\<open>R\<close> are the references held elsewhere, those of the old chain among them.\<close>

definition builder_ok :: "addr multiset \<Rightarrow> reflow_builder \<Rightarrow> bool" where
  "builder_ok R b \<longleftrightarrow> 0 < width b \<and> width b \<le> 0x7fffffff div 4 \<and> list_all (row_fits (width b)) (rows b) \<and>
     owned (pool b) (rows_owners (rows b) + R)"

definition building :: "addr multiset \<Rightarrow> reflow_builder \<Rightarrow> bool" where
  "building R b \<longleftrightarrow> builder_ok R b \<and> rows b \<noteq> [] \<and> wrapColumns (tail_row b) = 0 \<and> wrapPadding (tail_row b) = 0"

lemma set_tail_simps [simp]:
  "width (set_tail l b) = width b" "pool (set_tail l b) = pool b" "calls (set_tail l b) = calls b"
  "tail_row (set_tail l b) = l" "rows (set_tail l b) = butlast (rows b) @ [l]"
  "butlast (rows (set_tail l b)) = butlast (rows b)" "tail_row (b\<lparr>pool := p\<rparr>) = tail_row b" "tail_row (b\<lparr>calls := n\<rparr>) = tail_row b"
  by (simp_all add: set_tail_def tail_row_def)

lemma rows_tail: "rows b \<noteq> [] \<Longrightarrow> rows b = butlast (rows b) @ [tail_row b]"
  by (simp add: tail_row_def)

lemma builder_tail:
  assumes "rows b \<noteq> []"
  shows "builder_ok R b \<longleftrightarrow> 0 < width b \<and> width b \<le> 0x7fffffff div 4 \<and> list_all (row_fits (width b)) (butlast (rows b)) \<and>
    row_fits (width b) (tail_row b) \<and> owned (pool b) (line_owners (tail_row b) + (rows_owners (butlast (rows b)) + R))"
proof -
  have "rows_owners (rows b) = line_owners (tail_row b) + rows_owners (butlast (rows b))"
    by (subst rows_tail [OF assms]) simp
  moreover have "list_all (row_fits (width b)) (rows b) \<longleftrightarrow>
      list_all (row_fits (width b)) (butlast (rows b)) \<and> row_fits (width b) (tail_row b)"
    by (subst rows_tail [OF assms]) simp
  ultimately show ?thesis by (simp add: builder_ok_def ac_simps)
qed

lemma line_ok_arrays:
  assumes "line_ok l"
  shows "length u = capacity l \<Longrightarrow> line_ok (l\<lparr>underlineColors := Some u\<rparr>)"
    and "length cs = capacity l \<Longrightarrow> list_all (\<lambda>c. c = None) (drop (line_size l) cs) \<Longrightarrow> line_ok (l\<lparr>links := Some cs\<rparr>)"
    and "l\<lparr>underlineColors := underlineColors l\<rparr> = l" and "l\<lparr>links := links l\<rparr> = l"
  using assms by (auto simp: line_ok_def split: option.splits)

lemma underline_one:
  assumes "line_ok l" and "x < line_size l"
  shows "\<exists>done u. charmap_underline_colors ok l x 1 c = (done, l\<lparr>underlineColors := u\<rparr>) \<and> line_ok (l\<lparr>underlineColors := u\<rparr>) \<and>
    (ok \<and> capacity l \<le> ulong_max div 4 \<longrightarrow> done)"
proof -
  have keep: "\<exists>done u. (d, l) = (done, l\<lparr>underlineColors := u\<rparr>) \<and> line_ok (l\<lparr>underlineColors := u\<rparr>) \<and> (d \<longrightarrow> done)" for d
    using assms(1) by (intro exI [of _ d] exI [of _ "underlineColors l"]) simp
  show ?thesis
  proof (cases "underlineColors l")
    case None
    have "line_ok (l\<lparr>underlineColors := Some (set_range c x (x + 1) (replicate (capacity l) 0))\<rparr>)"
      using line_ok_arrays(1) [OF assms(1)] by simp
    moreover have "capacity l \<noteq> 0" using assms by (simp add: line_ok_def)
    ultimately show ?thesis using None assms(2) keep [of True] keep [of False] by (auto simp: charmap_underline_colors_def)
  next
    case (Some u)
    have "line_ok (l\<lparr>underlineColors := Some (set_range c x (x + 1) u)\<rparr>)"
      using line_ok_arrays(1) [OF assms(1)] assms(1) Some by (simp add: line_ok_def)
    then show ?thesis using Some assms(2) by (auto simp: charmap_underline_colors_def)
  qed
qed

lemma links_one:
  assumes ok: "line_ok l" and x: "x < line_size l" and own: "owned p (line_owners l + R)" and lk: "own link \<subseteq># line_owners l + R"
  shows "\<exists>done ls p'. charmap_links p a l x 1 link = Some (done, l\<lparr>links := ls\<rparr>, p') \<and> line_ok (l\<lparr>links := ls\<rparr>) \<and>
    owned p' (line_owners (l\<lparr>links := ls\<rparr>) + R) \<and> (link = None \<longrightarrow> done)"
proof -
  have sz: "x < capacity l" using ok x by (simp add: line_ok_def)
  have keep: "l\<lparr>links := links l\<rparr> = l" by simp
  have fill: "(con_link_fill p (Some (drop x cs)) 1 link = Some (False, Some (drop x cs), p) \<and> link \<noteq> None) \<or>
      (\<exists>p'. con_link_fill p (Some (drop x cs)) 1 link = Some (True, Some (link # drop (Suc x) cs), p') \<and>
        owned p' (owners (take x cs @ link # drop (Suc x) cs) + R))"
    if "owned p (owners cs + R)" "length cs = capacity l" "own link \<subseteq># owners cs + R" for cs
  proof -
    have o: "owners (drop x cs) + (owners (take x cs) + R) = owners cs + R"
      using owners_take_drop [of cs x] by (simp add: ac_simps)
    show ?thesis
      using fill_owned [of p "drop x cs" "owners (take x cs) + R" link 1] that sz
      unfolding o by (simp add: ac_simps)
  qed
  have keepI: ?thesis if "charmap_links p a l x 1 link = Some (d, l, p)" "link = None \<longrightarrow> d" for d
    using that ok own keep by (intro exI [of _ d] exI [of _ "links l"] exI [of _ p]) simp
  have newI: ?thesis if "charmap_links p a l x 1 link = Some (d, l\<lparr>links := Some cs\<rparr>, p')"
      "length cs = capacity l" "list_all (\<lambda>c. c = None) (drop (line_size l) cs)" "owned p' (owners cs + R)" "link = None \<longrightarrow> d" for d cs p'
    using that line_ok_arrays(2) [OF ok, of cs]
    by (intro exI [of _ d] exI [of _ "Some cs"] exI [of _ p']) simp
  have tail: "drop (line_size l) (take x cs @ link # drop (Suc x) cs) = drop (line_size l) cs" if "length cs = capacity l" for cs
    using that x sz by (simp add: drop_Cons')
  show ?thesis
  proof (cases "links l")
    case (Some cs)
    have len: "length cs = capacity l" and none: "list_all (\<lambda>c. c = None) (drop (line_size l) cs)"
      using ok Some by (simp_all add: line_ok_def)
    have own': "owned p (owners cs + R)" "own link \<subseteq># owners cs + R" using own lk Some by (simp_all add: line_owners_def)
    have same: "l\<lparr>links := Some cs\<rparr> = l" using Some keep by simp
    from fill [OF own'(1) len own'(2)] show ?thesis
    proof (elim disjE exE conjE)
      assume "con_link_fill p (Some (drop x cs)) 1 link = Some (False, Some (drop x cs), p)" "link \<noteq> None"
      then show ?thesis using Some x same by (intro keepI [of False]) (simp_all add: charmap_links_def)
    next
      fix p' assume f: "con_link_fill p (Some (drop x cs)) 1 link = Some (True, Some (link # drop (Suc x) cs), p')"
        and o: "owned p' (owners (take x cs @ link # drop (Suc x) cs) + R)"
      from f have "charmap_links p a l x 1 link = Some (True, l\<lparr>links := Some (take x cs @ link # drop (Suc x) cs)\<rparr>, p')"
        using Some x by (simp add: charmap_links_def)
      then show ?thesis by (rule newI) (use o len none x sz tail [OF len] in simp_all)
    qed
  next
    case None
    show ?thesis
    proof (cases "link = None \<or> capacity l = 0 \<or> capacity l > ulong_max div sizeof_pointer \<or> \<not> a")
      case True
      then show ?thesis
        using None x keepI [of "link = None"] by (auto simp: charmap_links_def)
    next
      case False
      define cs where "cs = replicate (capacity l) (None :: addr option)"
      have own': "owned p (owners cs + R)" "own link \<subseteq># owners cs + R" "length cs = capacity l"
        using own lk None by (simp_all add: line_owners_def cs_def)
      have none: "list_all (\<lambda>c. c = None) (drop (line_size l) cs)" by (simp add: cs_def list_all_iff)
      from fill [OF own'(1) own'(3) own'(2)] show ?thesis
      proof (elim disjE exE conjE)
        assume "con_link_fill p (Some (drop x cs)) 1 link = Some (False, Some (drop x cs), p)" "link \<noteq> None"
        then show ?thesis using None x False by (intro keepI [of False]) (simp_all add: charmap_links_def cs_def)
      next
        fix p' assume f: "con_link_fill p (Some (drop x cs)) 1 link = Some (True, Some (link # drop (Suc x) cs), p')"
          and o: "owned p' (owners (take x cs @ link # drop (Suc x) cs) + R)"
        from f have "charmap_links p a l x 1 link = Some (True, l\<lparr>links := Some (take x cs @ link # drop (Suc x) cs)\<rparr>, p')"
          using None x False by (auto simp: charmap_links_def simp flip: cs_def)
        then show ?thesis by (rule newI) (use o own'(3) none x sz tail [OF own'(3)] in simp_all)
      qed
    qed
  qed
qed


definition shown_cells :: "charmap_line \<Rightarrow> cell list" where
  "shown_cells l = take (line_size l) (cells l)"

text \<open>The row a cell is written to has its arrays.\<close>

lemma room_for_cell:
  assumes l: "row_fits w l" and w: "0 < w" "w \<le> 0x7fffffff div 4" and own: "owned p (line_owners l + R)"
    and wrap: "wrapColumns l = 0" "wrapPadding l = 0"
  shows "\<exists>room l1 p1. (if capacity l = 0 then do {
             (l, p) \<leftarrow> charmap_resize p a l w;
             Some (if line_size l \<noteq> w then (False, l, p) else (True, l\<lparr>line_size := 0\<rparr>, p))
           } else Some (True, l, p)) = Some (room, l1, p1) \<and> row_fits w l1 \<and> owned p1 (line_owners l1 + R) \<and>
     (a \<longrightarrow> room) \<and>
     (room \<longrightarrow> w \<le> capacity l1 \<and> line_size l1 = line_size l \<and> shown_cells l1 = shown_cells l \<and>
       wrapColumns l1 = 0 \<and> wrapPadding l1 = 0)"
proof (cases "capacity l = 0")
  case True
  have lok: "line_ok l" using l by (simp add: row_fits_def)
  have sz: "line_size l = 0" using lok True by (simp add: line_ok_def)
  have wmax: "w \<le> ulong_max" using w by (simp add: ulong_max_def)
  define nc where "nc = new_capacity 0 w"
  have nc: "w \<le> nc" "nc \<le> ulong_max" using new_capacity_bounds [OF wmax, of 0] by (simp_all add: nc_def)
  have ncm: "nc \<le> ulong_max div sizeof_uquad"
    using w by (simp add: nc_def new_capacity_def add32_def Let_def ulong_max_def sizeof_uquad_def)
  have lk: "links l = None \<or> links l = Some []" and ul: "underlineColors l = None \<or> underlineColors l = Some []"
    and cs: "cells l = []"
    using lok True by (auto simp: line_ok_def split: option.splits)
  define l1 where "l1 = l\<lparr>cells := replicate nc zero_cell, links := map_option (\<lambda>_. replicate nc None) (links l),
     underlineColors := map_option (\<lambda>_. replicate nc 0) (underlineColors l), line_size := 0, capacity := nc\<rparr>"
  have fits: "row_fits w l1" "line_owners l1 = {#}" "line_owners l = {#}"
    using nc ncm lk ul by (auto simp: row_fits_def line_ok_def l1_def line_owners_def list_all_iff)
  show ?thesis
  proof (cases "nc > ulong_max div sizeof_uquad \<or> \<not> a")
    case full: True
    then have "charmap_resize p a l w = Some (l, p)"
      using True sz w by (simp add: charmap_resize_def Let_def nc_def)
    moreover have "\<not> a" using full ncm by simp
    ultimately show ?thesis using True l own sz w by auto
  next
    case False
    have "charmap_resize p a l w = Some (l1\<lparr>line_size := w\<rparr>, p)"
      using False True sz w lk ul cs
      by (auto simp: charmap_resize_def Let_def l1_def simp flip: nc_def)
        (auto simp: release_links_def con_link_fill_def set_range_def)
    moreover have "l1\<lparr>line_size := 0\<rparr> = l1"
      by (rule charmap_line.equality) (simp_all add: l1_def)
    then have "row_fits w (l1\<lparr>line_size := 0\<rparr>)" using fits(1) by (simp only:)
    moreover have "line_size l1 = 0" "capacity l1 = nc" "wrapColumns l1 = 0" "wrapPadding l1 = 0"
      using wrap by (simp_all add: l1_def)
    ultimately show ?thesis using True own sz fits nc(1) by (simp add: shown_cells_def) blast
  qed
next
  case False
  then show ?thesis using assms by (auto simp: row_fits_def)
qed

lemma shown_snoc:
  assumes "length (cells l) = capacity l" "line_size l < capacity l"
  shows "shown_cells (l\<lparr>cells := (cells l)[line_size l := c], line_size := line_size l + 1\<rparr>) = shown_cells l @ [c]"
  using assms by (simp add: shown_cells_def take_Suc_conv_app_nth)

lemma reflow_cell_ok:
  assumes b: "building R b" and x: "line_size (tail_row b) < width b" and lk: "own link \<subseteq># R"
  shows "\<exists>ok b'. reflow_cell al b c uc link = Some (ok, b') \<and> builder_ok R b' \<and> width b' = width b \<and>
    ((\<forall>k. al k) \<and> link = None \<longrightarrow> ok) \<and>
    (ok \<longrightarrow> building R b' \<and> butlast (rows b') = butlast (rows b) \<and>
      line_size (tail_row b') = line_size (tail_row b) + 1 \<and> shown_cells (tail_row b') = shown_cells (tail_row b) @ [c])"
proof -
  have ne: "rows b \<noteq> []" using b by (simp add: building_def)
  define l where "l = tail_row b"
  define F where "F = rows_owners (butlast (rows b)) + R"
  have w: "0 < width b" "width b \<le> 0x7fffffff div 4" and rest: "list_all (row_fits (width b)) (butlast (rows b))"
    and fit: "row_fits (width b) l" and own: "owned (pool b) (line_owners l + F)"
    and wrap: "wrapColumns l = 0" "wrapPadding l = 0"
    using b builder_tail [OF ne, of R] by (auto simp: building_def l_def F_def)
  have tail: "builder_ok R ((set_tail l' b)\<lparr>pool := p', calls := k\<rparr>) \<longleftrightarrow>
      row_fits (width b) l' \<and> owned p' (line_owners l' + F)" for l' p' k
    using w rest by (subst builder_tail) (auto simp: F_def)
  from room_for_cell [OF fit w own wrap, of "al (calls b)"] obtain room l1 p1 where
    room: "(if capacity l = 0 then do {
             (l, p) \<leftarrow> charmap_resize (pool b) (al (calls b)) l (width b);
             Some (if line_size l \<noteq> width b then (False, l, p) else (True, l\<lparr>line_size := 0\<rparr>, p))
           } else Some (True, l, pool b)) = Some (room, l1, p1)"
    and fit1: "row_fits (width b) l1" and own1: "owned p1 (line_owners l1 + F)"
    and ra: "al (calls b) \<longrightarrow> room" and r: "room \<longrightarrow> width b \<le> capacity l1 \<and> line_size l1 = line_size l \<and> shown_cells l1 = shown_cells l \<and>
       wrapColumns l1 = 0 \<and> wrapPadding l1 = 0" by blast
  show ?thesis
  proof (cases room)
    case False
    then have "reflow_cell al b c uc link = Some (False, (set_tail l1 b)\<lparr>pool := p1, calls := calls b + 3\<rparr>)"
      using room by (simp add: reflow_cell_def Let_def flip: l_def)
    then show ?thesis using fit1 own1 tail ra False by auto
  next
    case True
    with r have r: "width b \<le> capacity l1" "line_size l1 = line_size l" "shown_cells l1 = shown_cells l"
       "wrapColumns l1 = 0" "wrapPadding l1 = 0" by simp_all
    define l2 where "l2 = l1\<lparr>cells := (cells l1)[line_size l := c], line_size := line_size l1 + 1\<rparr>"
    have len: "length (cells l1) = capacity l1" using fit1 by (simp add: row_fits_def line_ok_def)
    have xl: "line_size l < length (cells l1)" using x r len by (simp add: l_def)
    have ok2: "line_ok l2" using fit1 x r xl drop_nones [of "line_size l1" _ "line_size l1 + 1"]
      by (auto simp: row_fits_def line_ok_def l2_def split: option.splits)
    have x2: "line_size l < line_size l2" by (simp add: l2_def r)
    have own2: "owned p1 (line_owners l2 + F)" using own1 by (simp add: l2_def)
    obtain colored u where u: "charmap_underline_colors (al (calls b + 1)) l2 (line_size l) 1 uc = (colored, l2\<lparr>underlineColors := u\<rparr>)"
      and ok3: "line_ok (l2\<lparr>underlineColors := u\<rparr>)" and ua: "al (calls b + 1) \<and> capacity l2 \<le> ulong_max div 4 \<longrightarrow> colored"
      using underline_one [OF ok2 x2] by blast
    have "capacity l2 \<le> ulong_max div sizeof_uquad" using fit1 by (simp add: row_fits_def l2_def)
    with ua have ua: "al (calls b + 1) \<longrightarrow> colored" by (simp add: ulong_max_def sizeof_uquad_def)
    define l3 where "l3 = l2\<lparr>underlineColors := u\<rparr>"
    have own3: "owned p1 (line_owners l3 + F)" "own link \<subseteq># line_owners l3 + F"
      using own2 lk by (auto simp: l3_def F_def intro: subset_mset.order_trans)
    have fit3: "row_fits (width b) l3" using ok3 x r fit1 by (auto simp: row_fits_def l3_def l2_def l_def)
    have step: "reflow_cell al b c uc link =
        (if \<not> colored then Some (False, (set_tail l3 b)\<lparr>pool := p1, calls := calls b + 3\<rparr>)
           else do {
             (linked, line4, p2) \<leftarrow> charmap_links p1 (al (calls b + 2)) l3 (line_size l) 1 link;
             Some (linked, (set_tail line4 b)\<lparr>pool := p2, calls := calls b + 3\<rparr>)
           })"
    proof -
      have "(line_size l \<ge> length (cells l1)) = False" using xl by simp
      then show ?thesis
        by (simp only: reflow_cell_def Let_def l_def [symmetric] room True Option.bind.bind_lunit prod.case
          not_True_eq_False if_False l2_def [symmetric] u l3_def)
    qed
    show ?thesis
    proof (cases colored)
      case False
      then show ?thesis using step fit3 own3(1) tail ua by auto
    next
      case True
      have x3: "line_size l < line_size l3" using x2 by (simp add: l3_def)
      obtain linked ls p2 where lk4: "charmap_links p1 (al (calls b + 2)) l3 (line_size l) 1 link = Some (linked, l3\<lparr>links := ls\<rparr>, p2)"
        and ok4: "line_ok (l3\<lparr>links := ls\<rparr>)" and own4: "owned p2 (line_owners (l3\<lparr>links := ls\<rparr>) + F)" and la: "link = None \<longrightarrow> linked"
        using links_one [OF ok3 [folded l3_def] x3 own3, of "al (calls b + 2)"] by blast
      define b' where "b' = (set_tail (l3\<lparr>links := ls\<rparr>) b)\<lparr>pool := p2, calls := calls b + 3\<rparr>"
      have "builder_ok R b'" using tail ok4 own4 fit3 by (simp add: b'_def row_fits_def)
      moreover have "shown_cells (l3\<lparr>links := ls\<rparr>) = shown_cells l2" by (simp add: shown_cells_def l3_def)
      moreover have "shown_cells l2 = shown_cells l @ [c]"
        using shown_snoc [of l1 c] len xl r by (simp add: l2_def)
      ultimately show ?thesis
        using step True lk4 la r by (auto simp: b'_def building_def l3_def l2_def l_def)
    qed
  qed
qed


section \<open>The text of a chain\<close>

text \<open>
  What a chain says: its code points in order, without the continuation cells of wide characters and
  the synthetic spacer before one, and \<open>None\<close> at the end of each paragraph.
\<close>

definition is_char :: "codepoint \<Rightarrow> bool" where
  "is_char cp \<longleftrightarrow> cp \<noteq> CELL_WIDE_CONT"

definition row_text :: "charmap_line \<Rightarrow> codepoint list" where
  "row_text l = filter is_char (map cell_text (take (line_end l) (cells l)))"

definition row_flow :: "charmap_line \<Rightarrow> codepoint option list" where
  "row_flow l = map Some (row_text l) @ (if wrapColumns l = 0 then [None] else [])"

definition chain_flow :: "charmap_line list \<Rightarrow> codepoint option list" where
  "chain_flow ls = (if ls = [] then [] else concat (map row_flow (butlast ls)) @ map Some (row_text (last ls)) @ [None])"

definition open_flow :: "reflow_builder \<Rightarrow> codepoint option list" where
  "open_flow b = concat (map row_flow (butlast (rows b))) @ map Some (filter is_char (map cell_text (shown_cells (tail_row b))))"

lemma hard_end [simp]: "wrapColumns l = 0 \<Longrightarrow> line_end l = line_size l"
  by (simp add: line_end_def)

lemma hard_text: "wrapColumns l = 0 \<Longrightarrow> row_text l = filter is_char (map cell_text (shown_cells l))"
  by (simp add: row_text_def shown_cells_def)

lemma building_flow: "building R b \<Longrightarrow> chain_flow (rows b) = open_flow b @ [None]"
  by (simp add: building_def chain_flow_def open_flow_def hard_text tail_row_def)

text \<open>Rows are only added, and cells only at the end of a row.\<close>

definition grows :: "reflow_builder \<Rightarrow> reflow_builder \<Rightarrow> bool" where
  "grows b b' \<longleftrightarrow> width b' = width b \<and> length (rows b) \<le> length (rows b') \<and>
     (\<forall>r < length (rows b). prefix (shown_cells (rows b ! r)) (shown_cells (rows b' ! r)))"

lemma grows_refl [simp]: "grows b b"
  by (simp add: grows_def)

lemma grows_trans [trans]:
  assumes "grows a b" and "grows b c"
  shows "grows a c"
  unfolding grows_def
proof (intro conjI allI impI)
  fix r assume "r < length (rows a)"
  with assms have "prefix (shown_cells (rows a ! r)) (shown_cells (rows b ! r))"
    "prefix (shown_cells (rows b ! r)) (shown_cells (rows c ! r))" by (simp_all add: grows_def)
  then show "prefix (shown_cells (rows a ! r)) (shown_cells (rows c ! r))" by (rule prefix_order.trans)
qed (use assms in \<open>simp_all add: grows_def\<close>)

lemma grows_tail:
  assumes "rows b \<noteq> []" "rows b' = butlast (rows b) @ l # xs" "width b' = width b" "prefix (shown_cells (tail_row b)) (shown_cells l)"
  shows "grows b b'"
proof -
  obtain front where b: "rows b = front @ [tail_row b]" and front: "butlast (rows b) = front"
    using rows_tail [OF assms(1)] by blast
  have b': "rows b' = front @ l # xs" using assms(2) front by simp
  have "prefix (shown_cells (rows b ! r)) (shown_cells (rows b' ! r))" if "r < length (rows b)" for r
    using that assms(4) unfolding b' by (subst b) (simp add: nth_append nth_Cons', simp add: b)
  moreover have "length (rows b) \<le> length (rows b')" unfolding b' by (subst b) simp
  ultimately show ?thesis using assms(3) by (simp add: grows_def)
qed

lemma cell_step:
  assumes b: "building R b" and x: "line_size (tail_row b) < width b" and lk: "own link \<subseteq># R"
  obtains ok b' where "reflow_cell al b c uc link = Some (ok, b')" and "builder_ok R b'" and "(\<forall>k. al k) \<Longrightarrow> link = None \<Longrightarrow> ok"
    and "ok \<Longrightarrow> building R b'" "ok \<Longrightarrow> grows b b'" "ok \<Longrightarrow> butlast (rows b') = butlast (rows b)"
      "ok \<Longrightarrow> line_size (tail_row b') = line_size (tail_row b) + 1"
      "ok \<Longrightarrow> shown_cells (tail_row b') = shown_cells (tail_row b) @ [c]"
      "ok \<Longrightarrow> open_flow b' = open_flow b @ map Some (filter is_char [cell_text c])"
proof -
  from reflow_cell_ok [OF b x lk, of al c uc] obtain ok b' where
    r: "reflow_cell al b c uc link = Some (ok, b')" "builder_ok R b'" "width b' = width b"
      and e: "(\<forall>k. al k) \<Longrightarrow> link = None \<Longrightarrow> ok" and k: "ok \<Longrightarrow> building R b' \<and> butlast (rows b') = butlast (rows b) \<and>
      line_size (tail_row b') = line_size (tail_row b) + 1 \<and> shown_cells (tail_row b') = shown_cells (tail_row b) @ [c]"
    by blast
  have "grows b b'" if ok
  proof (rule grows_tail [where l = "tail_row b'" and xs = "[]"])
    show "rows b \<noteq> []" using b by (simp add: building_def)
    show "rows b' = butlast (rows b) @ [tail_row b']"
      using k [OF that] rows_tail [of b'] by (simp add: building_def)
  qed (use k [OF that] r in simp_all)
  moreover have "open_flow b' = open_flow b @ map Some (filter is_char [cell_text c])" if ok
    using k [OF that] by (simp add: open_flow_def)
  ultimately show thesis using that [OF r(1,2) e] k by blast
qed

lemma newline_row_fits [simp]: "row_fits w charmap_newline"
  by (simp add: row_fits_def)

lemma newline_shown [simp]: "shown_cells charmap_newline = []"
  by (simp add: shown_cells_def)

lemma newline_wrap [simp]: "wrapColumns charmap_newline = 0" "wrapPadding charmap_newline = 0"
  by (simp_all add: charmap_newline_def)

lemma row_fits_wrap [simp]:
  "row_fits w (l\<lparr>wrapColumns := n\<rparr>) = row_fits w l" "row_fits w (l\<lparr>wrapPadding := m\<rparr>) = row_fits w l"
  by (simp_all add: row_fits_def line_ok_def cong: option.case_cong)

lemma shown_wrap [simp]:
  "shown_cells (l\<lparr>wrapColumns := n\<rparr>) = shown_cells l" "shown_cells (l\<lparr>wrapPadding := m\<rparr>) = shown_cells l"
  by (simp_all add: shown_cells_def)

lemma hard_row_step:
  assumes "builder_ok R b" and "rows b = [] \<or> building R b"
  obtains ok b' where "reflow_row al b False = (ok, b')" and "builder_ok R b'" and "(\<forall>k. al k) \<Longrightarrow> ok"
    and "ok \<Longrightarrow> building R b'" "ok \<Longrightarrow> grows b b'"
      "ok \<Longrightarrow> open_flow b' = (if rows b = [] then [] else open_flow b @ [None])"
proof -
  let ?b = "b\<lparr>rows := rows b @ [charmap_newline], calls := calls b + 1\<rparr>"
  have new: "building R ?b" "builder_ok R (b\<lparr>calls := calls b + 1\<rparr>)" "grows b ?b"
    using assms(1) by (auto simp: building_def builder_ok_def tail_row_def grows_def nth_append)
  have "open_flow ?b = (if rows b = [] then [] else open_flow b @ [None])"
  proof (cases "rows b = []")
    case False
    then have "building R b" using assms(2) by simp
    then have "row_flow (tail_row b) = map Some (filter is_char (map cell_text (shown_cells (tail_row b)))) @ [None]"
      by (simp add: building_def row_flow_def hard_text)
    moreover have "concat (map row_flow (rows b)) = concat (map row_flow (butlast (rows b))) @ row_flow (tail_row b)"
      by (subst rows_tail [OF False]) simp
    ultimately show ?thesis using False by (simp add: open_flow_def tail_row_def)
  qed (simp add: open_flow_def tail_row_def)
  with new show thesis
    by (cases "al (calls b)") (auto intro!: that simp: reflow_row_def building_def)
qed


text \<open>A row that has no room left is closed as a soft-wrapped one; the next begins empty.\<close>

lemma soft_row_step:
  assumes b: "builder_ok R b" "rows b \<noteq> []" and full: "line_size (tail_row b) = width b" and wrap: "wrapColumns (tail_row b) = 0"
  obtains ok b' where "reflow_row al b True = (ok, b')" and "builder_ok R b'" and "(\<forall>k. al k) \<Longrightarrow> ok"
    and "ok \<Longrightarrow> building R b'" "ok \<Longrightarrow> grows b b'" "ok \<Longrightarrow> line_size (tail_row b') = 0"
      "ok \<Longrightarrow> open_flow b' = concat (map row_flow (butlast (rows b))) @ map Some (row_text ((tail_row b)\<lparr>wrapColumns := width b\<rparr>))"
proof -
  define l where "l = (tail_row b)\<lparr>wrapColumns := width b\<rparr>"
  let ?b = "(set_tail l b)\<lparr>rows := butlast (rows b) @ [l, charmap_newline], calls := calls b + 1\<rparr>"
  have w: "0 < width b" using b by (simp add: builder_ok_def)
  have "list_all (row_fits (width b)) (butlast (rows b))" "row_fits (width b) l" "line_owners l = line_owners (tail_row b)"
    "owned (pool b) (line_owners (tail_row b) + (rows_owners (butlast (rows b)) + R))" "width b \<le> 0x7fffffff div 4"
    using b builder_tail [OF b(2), of R] by (simp_all add: l_def)
  then have new: "building R ?b" "builder_ok R (b\<lparr>calls := calls b + 1\<rparr>)"
    using b(1) w by (auto simp: building_def builder_ok_def tail_row_def ac_simps)
  have row: "reflow_row al b True = (if al (calls b) then (True, ?b) else (False, b\<lparr>calls := calls b + 1\<rparr>))"
    using b(2) by (simp add: reflow_row_def Let_def l_def set_tail_def)
  have g: "grows b ?b"
    by (rule grows_tail [OF b(2), of _ l "[charmap_newline]"]) (simp_all add: l_def)
  have "wrapColumns l \<noteq> 0" using w by (simp add: l_def)
  then have f: "open_flow ?b = concat (map row_flow (butlast (rows b))) @ map Some (row_text l)"
    by (simp add: open_flow_def row_flow_def butlast_append tail_row_def)
  show thesis
  proof (cases "al (calls b)")
    case True
    then show thesis using new g f by (intro that [of True ?b]) (simp_all add: row building_def tail_row_def l_def)
  next
    case False
    then show thesis using new False by (intro that [of False "b\<lparr>calls := calls b + 1\<rparr>"]) (auto simp: row)
  qed
qed

lemma wrap_step:
  assumes b: "building R b" and x: "line_size (tail_row b) \<le> width b" "width b \<le> line_size (tail_row b) + 1"
  obtains ok b' where "wrap_row al b c uc = Some (ok, b')" and "builder_ok R b'" and "(\<forall>k. al k) \<Longrightarrow> ok"
    and "ok \<Longrightarrow> building R b'" "ok \<Longrightarrow> grows b b'" "ok \<Longrightarrow> line_size (tail_row b') = 0" "ok \<Longrightarrow> open_flow b' = open_flow b"
proof (cases "line_size (tail_row b) < width b")
  case False
  then have full: "line_size (tail_row b) = width b" using x by simp
  have bo: "builder_ok R b" "rows b \<noteq> []" "wrapColumns (tail_row b) = 0" "wrapPadding (tail_row b) = 0"
    using b by (simp_all add: building_def)
  have "row_text ((tail_row b)\<lparr>wrapColumns := width b\<rparr>) = filter is_char (map cell_text (shown_cells (tail_row b)))"
    using full bo(4) by (simp add: row_text_def line_end_def shown_cells_def)
  then have f: "concat (map row_flow (butlast (rows b))) @ map Some (row_text ((tail_row b)\<lparr>wrapColumns := width b\<rparr>)) = open_flow b"
    by (simp add: open_flow_def)
  have eq: "wrap_row al b c uc = Some (reflow_row al b True)" using False by (simp add: wrap_row_def)
  from soft_row_step [OF bo(1,2) full bo(3), of al] obtain ok b' where r: "reflow_row al b True = (ok, b')" "builder_ok R b'" "(\<forall>k. al k) \<Longrightarrow> ok"
    "ok \<Longrightarrow> building R b'" "ok \<Longrightarrow> grows b b'" "ok \<Longrightarrow> line_size (tail_row b') = 0" "ok \<Longrightarrow> open_flow b' = open_flow b"
    unfolding f by blast
  show thesis by (rule that [of ok b']) (simp_all add: eq r)
next
  case True
  have lk: "own None \<subseteq># R" by simp
  from cell_step [OF b True lk, of al "c\<lparr>cell_text := 0x20\<rparr>" uc] obtain ok b1 where
    c: "reflow_cell al b (c\<lparr>cell_text := 0x20\<rparr>) uc None = Some (ok, b1)" and ok1: "builder_ok R b1" and e: "(\<forall>k. al k) \<Longrightarrow> ok"
    and k: "ok \<Longrightarrow> building R b1" "ok \<Longrightarrow> grows b b1" "ok \<Longrightarrow> butlast (rows b1) = butlast (rows b)"
      "ok \<Longrightarrow> line_size (tail_row b1) = line_size (tail_row b) + 1"
      "ok \<Longrightarrow> shown_cells (tail_row b1) = shown_cells (tail_row b) @ [c\<lparr>cell_text := 0x20\<rparr>]" by metis
  show thesis
  proof (cases ok)
    case False
    then show thesis using c ok1 True e by (intro that [of False b1]) (simp_all add: wrap_row_def)
  next
    case ok: True
    define t where "t = (tail_row b1)\<lparr>wrapPadding := 1\<rparr>"
    define b2 where "b2 = set_tail t b1"
    have b1: "rows b1 \<noteq> []" "wrapColumns (tail_row b1) = 0" using k(1) [OF ok] by (simp_all add: building_def)
    have w: "width b1 = width b" using k(2) [OF ok] by (simp add: grows_def)
    have t: "line_size t = width b" "wrapColumns t = 0" "shown_cells t = shown_cells (tail_row b) @ [c\<lparr>cell_text := 0x20\<rparr>]"
      "length (cells t) = capacity t" "line_size t \<le> capacity t"
      using k(4,5) [OF ok] True x b1 ok1 builder_tail [OF b1(1), of R] by (simp_all add: t_def row_fits_def line_ok_def)
    have "line_owners t = line_owners (tail_row b1)" by (simp add: t_def)
    then have bo: "builder_ok R b2" "rows b2 \<noteq> []"
      using ok1 b1(1) by (simp_all add: builder_tail b2_def) (simp add: t_def)
    have g: "grows b b2"
      using grows_tail [OF b1(1), of b2 t "[]"] k(2) [OF ok] by (auto simp: b2_def t_def intro: grows_trans)
    have "take (width b) (cells t) = shown_cells (tail_row b) @ [c\<lparr>cell_text := 0x20\<rparr>]"
      using t(1,3) by (simp add: shown_cells_def)
    moreover have wl: "width b = Suc (length (shown_cells (tail_row b)))"
      using arg_cong [OF t(3), of length] t by (simp add: shown_cells_def)
    ultimately have "cells t ! (width b - 1) = c\<lparr>cell_text := 0x20\<rparr>" "take (width b - 1) (cells t) = shown_cells (tail_row b)"
      by (metis diff_Suc_1 lessI nth_append_length nth_take, metis (no_types) diff_Suc_1 append_eq_append_conv
          butlast_snoc butlast_take length_take min.absorb2 t(1,4,5))
    moreover have "cells t \<noteq> []" using wl t(1,4,5) by auto
    ultimately have "row_text (t\<lparr>wrapColumns := width b\<rparr>) = filter is_char (map cell_text (shown_cells (tail_row b)))"
      using t(1) wl by (simp add: row_text_def line_end_def t_def)
    then have f: "concat (map row_flow (butlast (rows b2))) @ map Some (row_text ((tail_row b2)\<lparr>wrapColumns := width b2\<rparr>)) = open_flow b"
      using k(3) [OF ok] w by (simp add: open_flow_def b2_def)
    have full: "line_size (tail_row b2) = width b2" "wrapColumns (tail_row b2) = 0" using t w by (simp_all add: b2_def)
    have eq: "wrap_row al b c uc = Some (reflow_row al b2 True)"
      using True c ok by (simp add: wrap_row_def b2_def t_def)
    from soft_row_step [OF bo full, of al] obtain ok' b' where r: "reflow_row al b2 True = (ok', b')" "builder_ok R b'" "(\<forall>k. al k) \<Longrightarrow> ok'"
      "ok' \<Longrightarrow> building R b'" "ok' \<Longrightarrow> grows b2 b'" "ok' \<Longrightarrow> line_size (tail_row b') = 0" "ok' \<Longrightarrow> open_flow b' = open_flow b"
      unfolding f by blast
    show thesis by (rule that [of ok' b']) (simp_all add: eq r grows_trans [OF g])
  qed
qed


section \<open>Anchors\<close>

definition place :: "nat \<Rightarrow> nat \<Rightarrow> nat \<Rightarrow> nat \<Rightarrow> charmap_anchor \<Rightarrow> charmap_anchor" where
  "place i x r c a = (if anchor_line a = Some i \<and> anchor_column a = x then a\<lparr>newLine := Some r, newColumn := c, newRow := r\<rparr> else a)"

lemma reflow_map_place: "reflow_map as i x b c = map (place i x (length (rows b) - 1) c) as"
  by (simp add: reflow_map_def place_def)

text \<open>An anchor whose column holds a character points to the same character afterwards.\<close>

definition placed :: "charmap_line \<Rightarrow> nat \<Rightarrow> reflow_builder \<Rightarrow> charmap_anchor \<Rightarrow> bool" where
  "placed old stored b a \<longleftrightarrow>
     (\<exists>r. newLine a = Some r \<and> newRow a = r \<and> r < length (rows b) \<and> newColumn a \<le> width b \<and>
        (is_char (cell_text (source_cell old stored (anchor_column a))) \<longrightarrow>
           newColumn a < length (shown_cells (rows b ! r)) \<and>
           cell_text (shown_cells (rows b ! r) ! newColumn a) = cell_text (source_cell old stored (anchor_column a))))"

lemma placed_grows: "placed old stored b a \<Longrightarrow> grows b b' \<Longrightarrow> placed old stored b' a"
  by (fastforce simp: placed_def grows_def prefix_def nth_append)

definition moved :: "nat \<Rightarrow> nat \<Rightarrow> nat \<Rightarrow> charmap_line \<Rightarrow> nat \<Rightarrow> reflow_builder \<Rightarrow> (charmap_anchor \<Rightarrow> charmap_anchor) \<Rightarrow> bool" where
  "moved i x y old stored b g \<longleftrightarrow>
     (\<forall>a. anchor_line (g a) = anchor_line a \<and> anchor_column (g a) = anchor_column a \<and> anchor_extend (g a) = anchor_extend a \<and>
        (if anchor_line a = Some i \<and> x \<le> anchor_column a \<and> anchor_column a < y then placed old stored b (g a) else g a = a))"

lemma moved_none: "y \<le> x \<Longrightarrow> moved i x y old stored b id"
  by (auto simp: moved_def)

lemma moved_append:
  assumes "moved i x y old stored b f" and "moved i y z old stored b' g" and "grows b b'" and "x \<le> y" "y \<le> z"
  shows "moved i x z old stored b' (g \<circ> f)"
  unfolding moved_def
proof (intro allI)
  fix a
  have f: "anchor_line (f a) = anchor_line a" "anchor_column (f a) = anchor_column a" "anchor_extend (f a) = anchor_extend a"
    "if anchor_line a = Some i \<and> x \<le> anchor_column a \<and> anchor_column a < y then placed old stored b (f a) else f a = a"
    using assms(1) by (simp_all add: moved_def)
  have g: "anchor_line (g (f a)) = anchor_line (f a)" "anchor_column (g (f a)) = anchor_column (f a)" "anchor_extend (g (f a)) = anchor_extend (f a)"
    "if anchor_line (f a) = Some i \<and> y \<le> anchor_column (f a) \<and> anchor_column (f a) < z then placed old stored b' (g (f a)) else g (f a) = f a"
    using assms(2) by (simp_all add: moved_def)
  show "anchor_line ((g \<circ> f) a) = anchor_line a \<and> anchor_column ((g \<circ> f) a) = anchor_column a \<and> anchor_extend ((g \<circ> f) a) = anchor_extend a \<and>
        (if anchor_line a = Some i \<and> x \<le> anchor_column a \<and> anchor_column a < z then placed old stored b' ((g \<circ> f) a) else (g \<circ> f) a = a)"
    using f g placed_grows [of old stored b "f a" b'] assms(3-5) by (auto split: if_splits)
qed

lemma moved_grows: "moved i x y old stored b g \<Longrightarrow> grows b b' \<Longrightarrow> moved i x y old stored b' g"
  unfolding moved_def by (metis placed_grows)

lemma moved_place:
  assumes "rows b \<noteq> []" and "c \<le> width b"
    and "is_char (cell_text (source_cell old stored x)) \<Longrightarrow> c < length (shown_cells (tail_row b)) \<and>
      cell_text (shown_cells (tail_row b) ! c) = cell_text (source_cell old stored x)"
  shows "moved i x (x + 1) old stored b (place i x (length (rows b) - 1) c)"
proof -
  have t: "rows b ! (length (rows b) - Suc 0) = tail_row b" using assms(1) by (simp add: tail_row_def last_conv_nth)
  have l: "length (rows b) - Suc 0 < length (rows b)" using assms(1) by simp
  show ?thesis using assms l by (auto simp: moved_def place_def placed_def t)
qed

section \<open>The inner loop\<close>

lemma upt_split: "x < e \<Longrightarrow> [x..<e] = x # [x + 1..<e]"
  by (simp add: upt_conv_Cons)

lemma butlast_length: "butlast xs = butlast ys \<Longrightarrow> xs \<noteq> [] \<Longrightarrow> ys \<noteq> [] \<Longrightarrow> length xs = length ys"
  by (metis length_append_singleton append_butlast_last_id)

lemma shown_length: "builder_ok R b \<Longrightarrow> rows b \<noteq> [] \<Longrightarrow> length (shown_cells (tail_row b)) = line_size (tail_row b)"
  by (simp add: builder_tail row_fits_def line_ok_def shown_cells_def)

text \<open>One character: a new row if it does not fit, its cell, and the continuation of a wide one.\<close>

lemma put_char:
  assumes b: "building R b" and cs: "cs = 1 \<or> cs = 2" "cs \<le> width b" and lk: "own link \<subseteq># R" and c: "is_char (cell_text c)"
  obtains ok1 b1 ok2 b2 ok3 b3
  where "(if line_size (tail_row b) + cs > width b then wrap_row al b c uc else Some (True, b)) = Some (ok1, b1)"
    and "ok1 \<Longrightarrow> reflow_cell al b1 c uc link = Some (ok2, b2)"
    and "ok1 \<Longrightarrow> ok2 \<Longrightarrow> (if cs = 2 then reflow_cell al b2 (c\<lparr>cell_text := CELL_WIDE_CONT\<rparr>) uc link else Some (True, b2)) = Some (ok3, b3)"
    and "builder_ok R b1" "ok1 \<Longrightarrow> builder_ok R b2" "ok1 \<Longrightarrow> ok2 \<Longrightarrow> builder_ok R b3"
    and "(\<forall>k. al k) \<Longrightarrow> link = None \<Longrightarrow> ok1 \<and> ok2 \<and> ok3"
    and "ok1 \<Longrightarrow> ok2 \<Longrightarrow> ok3 \<Longrightarrow> building R b3 \<and> grows b b3 \<and> length (rows b1) = length (rows b3) \<and>
      line_size (tail_row b1) + cs \<le> width b3 \<and> line_size (tail_row b1) < length (shown_cells (tail_row b3)) \<and>
      shown_cells (tail_row b3) ! line_size (tail_row b1) = c \<and> open_flow b3 = open_flow b @ [Some (cell_text c)]"
proof -
  have bo: "builder_ok R b" "rows b \<noteq> []" using b by (simp_all add: building_def)
  have size: "line_size (tail_row b) \<le> width b" using bo by (simp add: builder_tail row_fits_def)
  obtain ok1 b1 where s1: "(if line_size (tail_row b) + cs > width b then wrap_row al b c uc else Some (True, b)) = Some (ok1, b1)"
    and bo1: "builder_ok R b1" and e1: "(\<forall>k. al k) \<Longrightarrow> ok1" and k1: "ok1 \<Longrightarrow> building R b1" "ok1 \<Longrightarrow> grows b b1" "ok1 \<Longrightarrow> open_flow b1 = open_flow b"
      "ok1 \<Longrightarrow> line_size (tail_row b1) + cs \<le> width b"
  proof (cases "line_size (tail_row b) + cs > width b")
    case True
    then have "width b \<le> line_size (tail_row b) + 1" using cs by auto
    from wrap_step [OF b size this, of al c uc] obtain ok b' where "wrap_row al b c uc = Some (ok, b')" "builder_ok R b'" "(\<forall>k. al k) \<Longrightarrow> ok"
      "ok \<Longrightarrow> building R b'" "ok \<Longrightarrow> grows b b'" "ok \<Longrightarrow> line_size (tail_row b') = 0" "ok \<Longrightarrow> open_flow b' = open_flow b" by blast
    then show thesis using True cs by (intro that [of ok b']) simp_all
  next
    case False
    then show thesis using b bo by (intro that [of True b]) simp_all
  qed
  show thesis
  proof (cases ok1)
    case False
    then show thesis using s1 bo1 e1 by (intro that [of ok1 b1]) simp_all
  next
    case ok1: True
    have w1: "width b1 = width b" using k1(2) [OF ok1] by (simp add: grows_def)
    have lt1: "line_size (tail_row b1) < width b1" using k1(4) [OF ok1] cs w1 by auto
    from cell_step [OF k1(1) [OF ok1] lt1 lk, of al c uc] obtain ok2 b2 where s2: "reflow_cell al b1 c uc link = Some (ok2, b2)"
      and bo2: "builder_ok R b2" and e2: "(\<forall>k. al k) \<Longrightarrow> link = None \<Longrightarrow> ok2" and k2: "ok2 \<Longrightarrow> building R b2" "ok2 \<Longrightarrow> grows b1 b2" "ok2 \<Longrightarrow> butlast (rows b2) = butlast (rows b1)"
      "ok2 \<Longrightarrow> line_size (tail_row b2) = line_size (tail_row b1) + 1"
      "ok2 \<Longrightarrow> shown_cells (tail_row b2) = shown_cells (tail_row b1) @ [c]"
      "ok2 \<Longrightarrow> open_flow b2 = open_flow b1 @ map Some (filter is_char [cell_text c])" by metis
    show thesis
    proof (cases ok2)
      case False
      then show thesis using s1 bo1 s2 bo2 e2 by (intro that [of ok1 b1 ok2 b2]) simp_all
    next
      case ok2: True
      have w2: "width b2 = width b" using k2(2) [OF ok2] w1 by (simp add: grows_def)
      have ne: "rows b1 \<noteq> []" "rows b2 \<noteq> []" using k1(1) [OF ok1] k2(1) [OF ok2] by (simp_all add: building_def)
      obtain ok3 b3 where s3: "(if cs = 2 then reflow_cell al b2 (c\<lparr>cell_text := CELL_WIDE_CONT\<rparr>) uc link else Some (True, b2)) = Some (ok3, b3)"
        and bo3: "builder_ok R b3" and e3: "(\<forall>k. al k) \<Longrightarrow> link = None \<Longrightarrow> ok3" and k3: "ok3 \<Longrightarrow> building R b3 \<and> grows b2 b3 \<and> butlast (rows b3) = butlast (rows b2) \<and>
          prefix (shown_cells (tail_row b2)) (shown_cells (tail_row b3)) \<and> open_flow b3 = open_flow b2"
      proof (cases "cs = 2")
        case True
        have lt2: "line_size (tail_row b2) < width b2" using k2(4) [OF ok2] k1(4) [OF ok1] True w2 by simp
        from cell_step [OF k2(1) [OF ok2] lt2 lk, of al "c\<lparr>cell_text := CELL_WIDE_CONT\<rparr>" uc] obtain ok b' where
          r: "reflow_cell al b2 (c\<lparr>cell_text := CELL_WIDE_CONT\<rparr>) uc link = Some (ok, b')" "builder_ok R b'"
          "(\<forall>k. al k) \<Longrightarrow> link = None \<Longrightarrow> ok"
          "ok \<Longrightarrow> building R b'" "ok \<Longrightarrow> grows b2 b'" "ok \<Longrightarrow> butlast (rows b') = butlast (rows b2)"
          "ok \<Longrightarrow> shown_cells (tail_row b') = shown_cells (tail_row b2) @ [c\<lparr>cell_text := CELL_WIDE_CONT\<rparr>]"
          "ok \<Longrightarrow> open_flow b' = open_flow b2 @ map Some (filter is_char [cell_text (c\<lparr>cell_text := CELL_WIDE_CONT\<rparr>)])"
          by metis
        show thesis by (rule that [of ok b']) (use r True in \<open>simp_all add: is_char_def\<close>)
      next
        case False
        then show thesis using that [of True b2] k2(1) [OF ok2] bo2 by simp
      qed
      have len: "length (shown_cells (tail_row b1)) = line_size (tail_row b1)" using shown_length [OF bo1 ne(1)] .
      have "building R b3 \<and> grows b b3 \<and> length (rows b1) = length (rows b3) \<and>
        line_size (tail_row b1) + cs \<le> width b3 \<and> line_size (tail_row b1) < length (shown_cells (tail_row b3)) \<and>
        shown_cells (tail_row b3) ! line_size (tail_row b1) = c \<and> open_flow b3 = open_flow b @ [Some (cell_text c)]" if ok3
      proof -
        have b3: "building R b3" "grows b2 b3" "butlast (rows b3) = butlast (rows b2)"
          "prefix (shown_cells (tail_row b2)) (shown_cells (tail_row b3))" "open_flow b3 = open_flow b2"
          using k3 [OF that] by simp_all
        have "length (rows b1) = length (rows b3)"
          using butlast_length [of "rows b3" "rows b1"] b3(1,3) k2(3) [OF ok2] ne by (simp add: building_def)
        moreover obtain ys where "shown_cells (tail_row b3) = shown_cells (tail_row b1) @ c # ys"
          using b3(4) k2(5) [OF ok2] by (auto simp: prefix_def)
        moreover have "width b3 = width b" using b3(2) w2 by (simp add: grows_def)
        moreover have "grows b b3" using k1(2) [OF ok1] k2(2) [OF ok2] b3(2) by (blast intro: grows_trans)
        ultimately show ?thesis
          using b3(1,5) k2(6) [OF ok2] k1(3,4) [OF ok1] c len by (simp add: nth_append)
      qed
      then show thesis using s1 bo1 s2 bo2 s3 bo3 ok1 ok2 e3 by (intro that [of ok1 b1 ok2 b2 ok3 b3]) simp_all
    qed
  qed
qed

lemma reflow_text_ok:
  assumes "building R b" and st: "stored \<le> length (cells old)" and lk: "\<And>k. own (source_link old stored k) \<subseteq># R"
    and cut: "\<forall>k. e \<le> k \<longrightarrow> k < stored \<longrightarrow> is_char (cell_text (source_cell old stored k))"
  shows "\<exists>ok as' b'. reflow_text al i old stored e x as b = Some (ok, as', b') \<and> builder_ok R b' \<and>
    ((\<forall>k. al k) \<and> (\<forall>k. source_link old stored k = None) \<longrightarrow> ok) \<and>
    (ok \<longrightarrow> building R b' \<and> grows b b' \<and> (\<exists>g. as' = map g as \<and> moved i x (max x e) old stored b' g) \<and>
      open_flow b' = open_flow b @ map Some (filter is_char (map (\<lambda>k. cell_text (source_cell old stored k)) [x..<e])))"
  using assms(1)
proof (induction "e - x" arbitrary: x as b rule: less_induct)
  case less
  let ?t = "\<lambda>k. cell_text (source_cell old stored k)"
  let ?flow = "\<lambda>x. map Some (filter is_char (map ?t [x..<e]))"
  have bo: "builder_ok R b" "rows b \<noteq> []" using less.prems by (simp_all add: building_def)
  have size: "line_size (tail_row b) \<le> width b" using bo by (simp add: builder_tail row_fits_def)
  show ?case
  proof (cases "x < e")
    case False
    then have "reflow_text al i old stored e x as b = Some (True, as, b)" by (subst reflow_text.simps) simp
    moreover have "\<exists>g. as = map g as \<and> moved i x (max x e) old stored b g"
      using False moved_none [of "max x e" x] by (intro exI [of _ id]) simp
    moreover have "open_flow b = open_flow b @ ?flow x" using False by simp
    ultimately show ?thesis using less.prems bo(1) grows_refl by blast
  next
    case True
    define c where "c = source_cell old stored x"
    define uc where "uc = source_color old stored x"
    define link where "link = source_link old stored x"
    have split: "?flow x = map Some (filter is_char [cell_text c]) @ ?flow (x + 1)"
      using True by (simp add: upt_conv_Cons c_def del: upt_Suc)
    show ?thesis
    proof (cases "cell_text c = CELL_WIDE_CONT")
      case cont: True
      let ?f = "place i x (length (rows b) - 1) (line_size (tail_row b))"
      have f: "moved i x (x + 1) old stored b ?f"
        by (rule moved_place [OF bo(2) size]) (use cont in \<open>simp add: is_char_def c_def\<close>)
      have eq: "reflow_text al i old stored e x as b = reflow_text al i old stored e (x + 1) (map ?f as) b"
        using True cont by (subst reflow_text.simps) (simp add: reflow_map_place flip: c_def)
      have dec: "e - (x + 1) < e - x" using True by simp
      from less.hyps [OF dec less.prems, of "map ?f as"] obtain ok as' b' where
        r: "reflow_text al i old stored e (x + 1) (map ?f as) b = Some (ok, as', b')" "builder_ok R b'"
          "(\<forall>k. al k) \<and> (\<forall>k. source_link old stored k = None) \<longrightarrow> ok"
        and k: "ok \<longrightarrow> building R b' \<and> grows b b' \<and> (\<exists>g. as' = map g (map ?f as) \<and> moved i (x + 1) (max (x + 1) e) old stored b' g) \<and>
          open_flow b' = open_flow b @ ?flow (x + 1)"
        by blast
      have "ok \<longrightarrow> building R b' \<and> grows b b' \<and> (\<exists>g. as' = map g as \<and> moved i x (max x e) old stored b' g) \<and>
          open_flow b' = open_flow b @ ?flow x"
      proof
        assume ok
        with k obtain g where g: "as' = map g (map ?f as)" "moved i (x + 1) (max (x + 1) e) old stored b' g" "grows b b'" by blast
        have "moved i x (max (x + 1) e) old stored b' (g \<circ> ?f)"
          by (rule moved_append [OF f g(2,3)]) simp_all
        then have "\<exists>g. as' = map g as \<and> moved i x (max x e) old stored b' g"
          using g(1) True by (intro exI [of _ "g \<circ> ?f"]) (simp add: max_def)
        moreover have "?flow x = ?flow (x + 1)" using split cont by (simp add: is_char_def)
        ultimately show "building R b' \<and> grows b b' \<and> (\<exists>g. as' = map g as \<and> moved i x (max x e) old stored b' g) \<and>
          open_flow b' = open_flow b @ ?flow x" using k \<open>ok\<close> g(3) by simp
      qed
      with r show ?thesis unfolding eq by blast
    next
      case False
      then have ch: "is_char (cell_text c)" by (simp add: is_char_def)
      define wide where "wide = (con_cp_width (cell_text c) = 2)"
      define consumed where "consumed = (if wide \<and> x + 1 < stored \<and> cell_text (cells old ! (x + 1)) = CELL_WIDE_CONT then 2 else (1 :: nat))"
      define cs where "cs = min (if wide then 2 else 1) (width b)"
      have w: "0 < width b" using bo by (simp add: builder_ok_def)
      have cs: "cs = 1 \<or> cs = 2" "cs \<le> width b" using w by (auto simp: cs_def)
      have lk': "own link \<subseteq># R" using lk by (simp add: link_def)
      from put_char [OF less.prems cs lk' ch, of al uc] obtain ok1 b1 ok2 b2 ok3 b3 where
        s1: "(if line_size (tail_row b) + cs > width b then wrap_row al b c uc else Some (True, b)) = Some (ok1, b1)"
        and s2: "ok1 \<Longrightarrow> reflow_cell al b1 c uc link = Some (ok2, b2)"
        and s3: "ok1 \<Longrightarrow> ok2 \<Longrightarrow> (if cs = 2 then reflow_cell al b2 (c\<lparr>cell_text := CELL_WIDE_CONT\<rparr>) uc link else Some (True, b2)) = Some (ok3, b3)"
        and bo': "builder_ok R b1" "ok1 \<Longrightarrow> builder_ok R b2" "ok1 \<Longrightarrow> ok2 \<Longrightarrow> builder_ok R b3"
        and e': "(\<forall>k. al k) \<Longrightarrow> link = None \<Longrightarrow> ok1 \<and> ok2 \<and> ok3"
        and k: "ok1 \<Longrightarrow> ok2 \<Longrightarrow> ok3 \<Longrightarrow> building R b3 \<and> grows b b3 \<and> length (rows b1) = length (rows b3) \<and>
          line_size (tail_row b1) + cs \<le> width b3 \<and> line_size (tail_row b1) < length (shown_cells (tail_row b3)) \<and>
          shown_cells (tail_row b3) ! line_size (tail_row b1) = c \<and> open_flow b3 = open_flow b @ [Some (cell_text c)]"
        by blast
      define start where "start = line_size (tail_row b1)"
      define f1 where "f1 = place i x (length (rows b1) - 1) start"
      define f2 where "f2 = (if consumed = 2 then place i (x + 1) (length (rows b3) - 1) (start + cs - 1) else id)"
      have eq: "reflow_text al i old stored e x as b =
          (if \<not> ok1 then Some (False, as, b1) else if \<not> ok2 then Some (False, map f1 as, b2)
           else if \<not> ok3 then Some (False, map f1 as, b3)
           else reflow_text al i old stored e (x + consumed) (map (f2 \<circ> f1) as) b3)"
      proof -
        have "(x \<ge> e) = False" "(cell_text c = CELL_WIDE_CONT) = False" using True False by simp_all
        then have "reflow_text al i old stored e x as b =
          do {
            (ok1, b1) \<leftarrow> (if line_size (tail_row b) + cs > width b then wrap_row al b c uc else Some (True, b));
            (if \<not> ok1 then Some (False, as, b1)
             else
               let start = line_size (tail_row b1); as1 = reflow_map as i x b1 start in do {
               (ok2, b2) \<leftarrow> reflow_cell al b1 c uc link;
               (if \<not> ok2 then Some (False, as1, b2)
                else do {
                  (ok3, b3) \<leftarrow> (if cs = 2 then reflow_cell al b2 (c\<lparr>cell_text := CELL_WIDE_CONT\<rparr>) uc link else Some (True, b2));
                  (if \<not> ok3 then Some (False, as1, b3)
                   else reflow_text al i old stored e (x + consumed)
                     (if consumed = 2 then reflow_map as1 i (x + 1) b3 (start + cs - 1) else as1) b3)
                })
             })
          }"
          by (subst reflow_text.simps) (simp only: Let_def if_False c_def [symmetric] uc_def [symmetric]
            link_def [symmetric] wide_def [symmetric] consumed_def [symmetric] cs_def [symmetric])
        then show ?thesis
          using s2 s3 unfolding s1 by (simp add: Let_def reflow_map_place f1_def f2_def start_def)
      qed
      show ?thesis
      proof (cases "ok1 \<and> ok2 \<and> ok3")
        case no: False
        then have "\<exists>as' b'. reflow_text al i old stored e x as b = Some (False, as', b') \<and> builder_ok R b'"
          unfolding eq using bo' by auto
        moreover have "\<not> ((\<forall>k. al k) \<and> (\<forall>k. source_link old stored k = None))"
          using no e' by (auto simp: link_def)
        ultimately show ?thesis by blast
      next
        case ok: True
        have b3: "building R b3" "grows b b3" "length (rows b1) = length (rows b3)" "start + cs \<le> width b3"
          "start < length (shown_cells (tail_row b3))" "shown_cells (tail_row b3) ! start = c" "open_flow b3 = open_flow b @ [Some (cell_text c)]"
          using k ok by (simp_all add: start_def)
        have ne3: "rows b3 \<noteq> []" using b3(1) by (simp add: building_def)
        have m1: "moved i x (x + 1) old stored b3 f1"
          unfolding f1_def b3(3) by (rule moved_place [OF ne3]) (use b3 in \<open>simp_all add: c_def\<close>)
        have two: "\<not> is_char (?t (x + 1))" "x + 1 < e" if "consumed = 2"
        proof -
          from that have "x + 1 < stored" "cell_text (cells old ! (x + 1)) = CELL_WIDE_CONT" by (auto simp: consumed_def split: if_splits)
          with st show "\<not> is_char (?t (x + 1))" by (auto simp: source_cell_def is_char_def)
          then show "x + 1 < e" using spec [OF cut, of "x + 1"] \<open>x + 1 < stored\<close> by force
        qed
        have m: "moved i x (x + consumed) old stored b3 (f2 \<circ> f1)"
        proof (cases "consumed = 2")
          case c2: True
          have "start + cs - 1 \<le> width b3" using b3(4) by simp
          from moved_place [OF ne3 this, of old stored "x + 1" i] two(1) [OF c2]
          have "moved i (x + 1) (x + 2) old stored b3 f2" using c2 by (simp add: f2_def)
          then show ?thesis using moved_append [OF m1, of "x + 2" b3 f2] c2 by simp
        next
          case c1: False
          then have "consumed = 1" by (auto simp: consumed_def)
          then show ?thesis using m1 by (simp add: f2_def)
        qed
        have flow: "?flow x = [Some (cell_text c)] @ ?flow (x + consumed)"
        proof (cases "consumed = 2")
          case c2: True
          have "?flow (x + 1) = ?flow (x + 2)" using two [OF c2] by (simp add: upt_conv_Cons)
          then show ?thesis using split ch c2 by simp
        next
          case c1: False
          then have "consumed = 1" by (auto simp: consumed_def)
          then show ?thesis using split ch by simp
        qed
        have le: "x + consumed \<le> e" using two(2) True by (cases "consumed = 2") (auto simp: consumed_def)
        have dec: "e - (x + consumed) < e - x" using True by (auto simp: consumed_def)
        from less.hyps [OF dec b3(1), of "map (f2 \<circ> f1) as"] obtain okr as' b' where
          r: "reflow_text al i old stored e (x + consumed) (map (f2 \<circ> f1) as) b3 = Some (okr, as', b')" "builder_ok R b'"
            "(\<forall>k. al k) \<and> (\<forall>k. source_link old stored k = None) \<longrightarrow> okr"
          and kr: "okr \<longrightarrow> building R b' \<and> grows b3 b' \<and> (\<exists>g. as' = map g (map (f2 \<circ> f1) as) \<and> moved i (x + consumed) (max (x + consumed) e) old stored b' g) \<and>
            open_flow b' = open_flow b3 @ ?flow (x + consumed)"
          by blast
        have "okr \<longrightarrow> building R b' \<and> grows b b' \<and> (\<exists>g. as' = map g as \<and> moved i x (max x e) old stored b' g) \<and>
            open_flow b' = open_flow b @ ?flow x"
        proof
          assume okr
          with kr obtain g where g: "as' = map g (map (f2 \<circ> f1) as)" "moved i (x + consumed) e old stored b' g" "grows b3 b'"
            and fin: "building R b'" "open_flow b' = open_flow b3 @ ?flow (x + consumed)" using le by (auto simp: max_absorb2)
          have "moved i x e old stored b' (g \<circ> (f2 \<circ> f1))"
            by (rule moved_append [OF m g(2,3)]) (use le in simp_all)
          then have "\<exists>g. as' = map g as \<and> moved i x (max x e) old stored b' g"
            using g(1) True by (intro exI [of _ "g \<circ> (f2 \<circ> f1)"]) (simp add: max_def)
          then show "building R b' \<and> grows b b' \<and> (\<exists>g. as' = map g as \<and> moved i x (max x e) old stored b' g) \<and>
            open_flow b' = open_flow b @ ?flow x"
            using fin b3(7) flow grows_trans [OF b3(2) g(3)] by simp
        qed
        with r ok show ?thesis unfolding eq by auto
      qed
    qed
  qed
qed


section \<open>One retained row\<close>

lemma fill_tail_ok:
  assumes "building R b" and "line_size (tail_row b) + n \<le> width b" and "is_char (cell_text c)"
  shows "\<exists>ok b'. fill_tail al n b c uc = Some (ok, b') \<and> builder_ok R b' \<and> ((\<forall>k. al k) \<longrightarrow> ok) \<and>
    (ok \<longrightarrow> building R b' \<and> grows b b' \<and> open_flow b' = open_flow b @ map Some (replicate n (cell_text c)))"
  using assms(1,2)
proof (induction n arbitrary: b)
  case 0
  then show ?case by (auto simp: building_def)
next
  case (Suc n)
  have lt: "line_size (tail_row b) < width b" and lk: "own None \<subseteq># R" using Suc.prems by simp_all
  from cell_step [OF Suc.prems(1) lt lk, of al c uc] obtain ok b1 where r: "reflow_cell al b c uc None = Some (ok, b1)" "builder_ok R b1"
    and e: "(\<forall>k. al k) \<Longrightarrow> ok" and k: "ok \<Longrightarrow> building R b1" "ok \<Longrightarrow> grows b b1" "ok \<Longrightarrow> line_size (tail_row b1) = line_size (tail_row b) + 1"
      "ok \<Longrightarrow> open_flow b1 = open_flow b @ map Some (filter is_char [cell_text c])" by metis
  show ?case
  proof (cases ok)
    case True
    have "line_size (tail_row b1) + n \<le> width b1" using Suc.prems k(2,3) True by (simp add: grows_def)
    from Suc.IH [OF k(1) [OF True] this] obtain ok' b' where "fill_tail al n b1 c uc = Some (ok', b')" "builder_ok R b'"
      "(\<forall>k. al k) \<longrightarrow> ok'"
      "ok' \<longrightarrow> building R b' \<and> grows b1 b' \<and> open_flow b' = open_flow b1 @ map Some (replicate n (cell_text c))" by blast
    then show ?thesis
      using r True grows_trans [OF k(2) [OF True]] k(4) [OF True] assms(3) by simp
  qed (use r e in fastforce)
qed

lemma trim_end_le: "trim_end old stored e \<le> e"
  by (induction e) auto

lemma trim_end_blank: "trim_end old stored e \<le> k \<Longrightarrow> k < e \<Longrightarrow> cell_text (cells old ! k) = 0x20"
proof (induction e)
  case (Suc e)
  then show ?case by (cases "k = e") (auto simp: trailing_blank_def Let_def split: if_splits)
qed simp

lemma line_end_le: "line_end old \<le> line_size old"
  by (auto simp: line_end_def Let_def)

definition kept_end :: "charmap_line \<Rightarrow> nat" where
  "kept_end old = (if wrapColumns old = 0 then trim_end old (line_end old) (line_end old) else line_end old)"

lemma kept_end_le: "kept_end old \<le> line_end old"
  by (simp add: kept_end_def trim_end_le)

lemma extended_end_ge: "e \<le> extended_end as i e"
proof -
  have "e \<le> foldl (\<lambda>e a. if anchor_line a = Some i \<and> anchor_extend a \<and> anchor_column a > e then anchor_column a else e) e as"
  proof (induction as arbitrary: e)
    case (Cons a as)
    have "e \<le> (if anchor_line a = Some i \<and> anchor_extend a \<and> anchor_column a > e then anchor_column a else e)" by simp
    also note Cons.IH
    finally show ?case by simp
  qed simp
  then show ?thesis by (simp add: extended_end_def)
qed

text \<open>The code points read from a row, out to any column, are its text and then blanks.\<close>

lemma source_texts:
  assumes "stored \<le> length (cells old)" and "m \<le> stored" and "m \<le> e"
    and blank: "\<And>k. m \<le> k \<Longrightarrow> k < stored \<Longrightarrow> cell_text (cells old ! k) = 0x20"
  shows "map (\<lambda>k. cell_text (source_cell old stored k)) [0..<e] = map cell_text (take m (cells old)) @ replicate (e - m) 0x20"
    and "map cell_text (take stored (cells old)) = map cell_text (take m (cells old)) @ replicate (stored - m) 0x20"
proof -
  show "map (\<lambda>k. cell_text (source_cell old stored k)) [0..<e] = map cell_text (take m (cells old)) @ replicate (e - m) 0x20"
    using assms by (intro nth_equalityI) (auto simp: source_cell_def nth_append)
  show "map cell_text (take stored (cells old)) = map cell_text (take m (cells old)) @ replicate (stored - m) 0x20"
    using assms by (intro nth_equalityI) (auto simp: nth_append)
qed

lemma blank_is_char [simp]: "is_char 0x20"
  by (simp add: is_char_def CELL_WIDE_CONT_def)

definition arrived :: "charmap_line \<Rightarrow> reflow_builder \<Rightarrow> charmap_anchor \<Rightarrow> bool" where
  "arrived old b a \<longleftrightarrow>
     (\<exists>r. newLine a = Some r \<and> newRow a = r \<and> r < length (rows b) \<and> newColumn a \<le> width b \<and>
        (anchor_column a < kept_end old \<and> is_char (cell_text (cells old ! anchor_column a)) \<longrightarrow>
           newColumn a < length (shown_cells (rows b ! r)) \<and>
           cell_text (shown_cells (rows b ! r) ! newColumn a) = cell_text (cells old ! anchor_column a)))"

lemma arrived_grows: "arrived old b a \<Longrightarrow> grows b b' \<Longrightarrow> arrived old b' a"
  by (fastforce simp: arrived_def grows_def prefix_def nth_append)

lemma placed_arrived:
  assumes "placed old stored b a" and "kept_end old \<le> stored" and "stored \<le> length (cells old)"
  shows "arrived old b a"
proof -
  have "source_cell old stored (anchor_column a) = cells old ! anchor_column a" if "anchor_column a < kept_end old"
    using that assms(2,3) by (auto simp: source_cell_def)
  then show ?thesis using assms(1) by (auto simp: placed_def arrived_def)
qed

definition settles :: "nat \<Rightarrow> charmap_line \<Rightarrow> reflow_builder \<Rightarrow> (charmap_anchor \<Rightarrow> charmap_anchor) \<Rightarrow> bool" where
  "settles i old b g \<longleftrightarrow>
     (\<forall>a. anchor_line (g a) = anchor_line a \<and> anchor_column (g a) = anchor_column a \<and> anchor_extend (g a) = anchor_extend a \<and>
        (anchor_line a = Some i \<longrightarrow> newLine a = None \<longrightarrow> arrived old b (g a)) \<and> (anchor_line a \<noteq> Some i \<longrightarrow> g a = a))"

definition clamp :: "nat \<Rightarrow> nat \<Rightarrow> nat \<Rightarrow> charmap_anchor \<Rightarrow> charmap_anchor" where
  "clamp i r c a = (if anchor_line a = Some i \<and> newLine a = None then a\<lparr>newLine := Some r, newColumn := c, newRow := r\<rparr> else a)"

lemma settles_clamp:
  assumes m: "moved i 0 e old stored b g" and e: "kept_end old \<le> e" "kept_end old \<le> stored" "stored \<le> length (cells old)"
    and b: "rows b \<noteq> []" "c \<le> width b"
  shows "settles i old b (clamp i (length (rows b) - 1) c \<circ> g)"
  unfolding settles_def
proof (intro allI conjI impI)
  fix a
  have g: "anchor_line (g a) = anchor_line a" "anchor_column (g a) = anchor_column a" "anchor_extend (g a) = anchor_extend a"
    "if anchor_line a = Some i \<and> anchor_column a < e then placed old stored b (g a) else g a = a"
    using m by (simp_all add: moved_def)
  then show "anchor_line ((clamp i (length (rows b) - 1) c \<circ> g) a) = anchor_line a"
    "anchor_column ((clamp i (length (rows b) - 1) c \<circ> g) a) = anchor_column a"
    "anchor_extend ((clamp i (length (rows b) - 1) c \<circ> g) a) = anchor_extend a" by (simp_all add: clamp_def)
  have l: "length (rows b) - Suc 0 < length (rows b)" using b by simp
  {
    assume a: "anchor_line a = Some i" "newLine a = None"
    show "arrived old b ((clamp i (length (rows b) - 1) c \<circ> g) a)"
    proof (cases "anchor_column a < e")
      case True
      then have p: "placed old stored b (g a)" using g(4) a by simp
      then have "newLine (g a) \<noteq> None" by (auto simp: placed_def)
      then show ?thesis using placed_arrived [OF p e(2,3)] by (auto simp: clamp_def)
    next
      case False
      then have "g a = a" using g(4) by simp
      then show ?thesis using a b l False e(1) by (simp add: clamp_def arrived_def)
    qed
  }
  assume "anchor_line a \<noteq> Some i"
  then show "(clamp i (length (rows b) - 1) c \<circ> g) a = a" using g by (simp add: clamp_def)
qed

lemma own_in_owners: "x \<in> set ls \<Longrightarrow> own x \<subseteq># owners ls"
proof (induction ls)
  case (Cons a ls)
  then show ?case by (auto intro: subset_mset.add_increasing)
qed simp

lemma own_none: "own x \<subseteq># {#} \<Longrightarrow> x = None"
  by (cases x) simp_all

lemma own_link_subset:
  assumes "line_ok old" and "line_owners old \<subseteq># R"
  shows "own (source_link old (line_end old) k) \<subseteq># R"
proof (cases "k < line_end old \<and> links old \<noteq> None")
  case True
  then obtain ls where ls: "links old = Some ls" by blast
  then have "k < length ls" using True assms(1) line_end_le [of old] by (simp add: line_ok_def)
  then have "ls ! k \<in> set ls" by simp
  then have "own (ls ! k) \<subseteq># owners ls" by (rule own_in_owners)
  with assms(2) ls True show ?thesis by (auto simp: source_link_def line_owners_def intro: subset_mset.order_trans)
qed (auto simp: source_link_def split: option.splits)


lemma source_link_none: "source_link old 0 k = None"
  by (simp add: source_link_def)

text \<open>What stands before the row \<open>old\<close> in the flow: nothing, an open paragraph or a closed one.\<close>

definition flow_before :: "bool \<Rightarrow> reflow_builder \<Rightarrow> codepoint option list" where
  "flow_before contd b = (if contd then open_flow b else if rows b = [] then [] else open_flow b @ [None])"

lemma start_row:
  assumes "builder_ok R b" and "rows b = [] \<and> \<not> contd \<or> building R b"
  obtains ok b' where "(if contd then (True, b) else reflow_row al b False) = (ok, b')" and "builder_ok R b'" and "(\<forall>k. al k) \<Longrightarrow> ok"
    and "ok \<Longrightarrow> building R b'" "ok \<Longrightarrow> grows b b'" "ok \<Longrightarrow> open_flow b' = flow_before contd b"
proof (cases contd)
  case True
  then show thesis using assms by (intro that [of True b]) (simp_all add: flow_before_def)
next
  case False
  then have "rows b = [] \<or> building R b" using assms(2) by blast
  from hard_row_step [OF assms(1) this, of al] obtain ok b' where "reflow_row al b False = (ok, b')" "builder_ok R b'" "(\<forall>k. al k) \<Longrightarrow> ok"
    "ok \<Longrightarrow> building R b'" "ok \<Longrightarrow> grows b b'" "ok \<Longrightarrow> open_flow b' = (if rows b = [] then [] else open_flow b @ [None])" by metis
  then show thesis using False by (intro that [of ok b']) (simp_all add: flow_before_def)
qed

lemma reflow_line_ok:
  assumes ok: "line_ok old" and b: "builder_ok R b" "rows b = [] \<and> \<not> contd \<or> building R b" and own: "line_owners old \<subseteq># R"
  shows "\<exists>ok as' b'. reflow_line al i old contd as b = Some (ok, as', b') \<and> builder_ok R b' \<and>
    ((\<forall>k. al k) \<and> line_owners old = {#} \<longrightarrow> ok) \<and>
    (ok \<longrightarrow> building R b' \<and> grows b b' \<and> (\<exists>g. as' = map g as \<and> settles i old b' g) \<and>
      (\<exists>t m n. row_text old = t @ replicate m 0x20 \<and> (wrapColumns old \<noteq> 0 \<longrightarrow> m = 0 \<and> n = 0) \<and>
        open_flow b' = flow_before contd b @ map Some (t @ replicate n 0x20)))"
proof -
  define stored where "stored = line_end old"
  define m where "m = kept_end old"
  define e where "e = (if wrapColumns old = 0 then extended_end as i m else m)"
  have m: "m \<le> stored" "m \<le> e" by (simp_all add: m_def stored_def kept_end_le e_def extended_end_ge)
  have st: "stored \<le> length (cells old)" using ok line_end_le [of old] by (simp add: line_ok_def stored_def)
  have blank: "cell_text (cells old ! k) = 0x20" if "m \<le> k" "k < stored" for k
    using that trim_end_blank by (auto simp: m_def kept_end_def stored_def split: if_splits)
  define texts where "texts = map cell_text (take m (cells old))"
  have src: "map (\<lambda>k. cell_text (source_cell old stored k)) [0..<e] = texts @ replicate (e - m) 0x20"
    and whole: "map cell_text (take stored (cells old)) = texts @ replicate (stored - m) 0x20"
    using source_texts [OF st m blank] by (simp_all add: texts_def)
  from start_row [OF b, of al] obtain ok0 b0 where s0: "(if contd then (True, b) else reflow_row al b False) = (ok0, b0)" "builder_ok R b0" and e0: "(\<forall>k. al k) \<Longrightarrow> ok0"
    and k0: "ok0 \<Longrightarrow> building R b0" "ok0 \<Longrightarrow> grows b b0" "ok0 \<Longrightarrow> open_flow b0 = flow_before contd b" by blast
  have trim: "(if wrapColumns old = 0 then trim_end old stored stored else stored) = m"
    by (simp add: m_def kept_end_def stored_def)
  define rest where "rest b1 as1 = (let as2 = map (clamp i (length (rows b1) - 1) (line_size (tail_row b1))) as1 in
           if \<not> (m < stored \<and> wrapColumns old = 0) then Some (True, as2, b1)
           else do {
             (ok2, b2) \<leftarrow> fill_tail al (width b1 - line_size (tail_row b1)) b1
               ((source_cell old stored (stored - 1))\<lparr>cell_text := 0x20\<rparr>) (source_color old stored (stored - 1));
             Some (ok2, as2, b2)
           })" for b1 as1
  have eq: "reflow_line al i old contd as b = (if \<not> ok0 then Some (False, as, b0)
      else do {
        (ok1, as1, b1) \<leftarrow> reflow_text al i old stored e 0 as b0;
        (if \<not> ok1 then Some (False, as1, b1) else rest b1 as1)
      })"
    unfolding reflow_line_def Let_def stored_def [symmetric] trim s0(1) prod.case e_def [symmetric] rest_def clamp_def ..
  show ?thesis
  proof (cases ok0)
    case False
    then show ?thesis unfolding eq using s0(2) e0 by auto
  next
    case ok0: True
    have lk: "own (source_link old stored k) \<subseteq># R" for k
      using own_link_subset [OF ok own] by (simp add: stored_def)
    have cut: "\<forall>k. e \<le> k \<longrightarrow> k < stored \<longrightarrow> is_char (cell_text (source_cell old stored k))"
      using blank m st by (auto simp: source_cell_def)
    from reflow_text_ok [where al = al and i = i and x = 0 and as = as, OF k0(1) [OF ok0] st lk cut] obtain ok1 as1 b1 where
      s1: "reflow_text al i old stored e 0 as b0 = Some (ok1, as1, b1)" "builder_ok R b1"
      and e1: "(\<forall>k. al k) \<and> (\<forall>k. source_link old stored k = None) \<longrightarrow> ok1"
      and k1: "ok1 \<longrightarrow> building R b1 \<and> grows b0 b1 \<and> (\<exists>g. as1 = map g as \<and> moved i 0 (max 0 e) old stored b1 g) \<and>
        open_flow b1 = open_flow b0 @ map Some (filter is_char (map (\<lambda>k. cell_text (source_cell old stored k)) [0..<e]))"
      by (elim exE conjE) (rule that)
    have e1: "(\<forall>k. al k) \<and> line_owners old = {#} \<longrightarrow> ok1"
    proof (intro impI, elim conjE)
      assume a: "\<forall>k. al k" "line_owners old = {#}"
      have "source_link old stored k = None" for k
      proof (rule own_none)
        have "line_owners old \<subseteq># {#}" using a(2) by simp
        from own_link_subset [OF ok this] show "own (source_link old stored k) \<subseteq># {#}" unfolding stored_def .
      qed
      then show ok1 using a(1) e1 by simp
    qed
    show ?thesis
    proof (cases ok1)
      case False
      then show ?thesis unfolding eq using s1 ok0 e1 by auto
    next
      case ok1: True
      with k1 obtain g where b1: "building R b1" "grows b0 b1" and g: "as1 = map g as" "moved i 0 e old stored b1 g"
        and f1: "open_flow b1 = open_flow b0 @ map Some (filter is_char (texts @ replicate (e - m) 0x20))"
        unfolding src by auto
      define n where "n = (if m < stored \<and> wrapColumns old = 0 then width b1 - line_size (tail_row b1) else 0)"
      define c where "c = (source_cell old stored (stored - 1))\<lparr>cell_text := 0x20\<rparr>"
      have ne: "rows b1 \<noteq> []" using b1(1) by (simp add: building_def)
      have size: "line_size (tail_row b1) \<le> width b1" using s1(2) ne by (simp add: builder_tail row_fits_def)
      define h where "h = clamp i (length (rows b1) - 1) (line_size (tail_row b1)) \<circ> g"
      have set1: "settles i old b1 h"
        unfolding h_def using settles_clamp [OF g(2) _ _ st ne size] m by (simp add: m_def)
      have n: "line_size (tail_row b1) + n \<le> width b1" "is_char (cell_text c)" using size by (simp_all add: n_def c_def)
      from fill_tail_ok [OF b1(1) n, of al "source_color old stored (stored - 1)"] obtain ok2 b2 where
        s2: "fill_tail al n b1 c (source_color old stored (stored - 1)) = Some (ok2, b2)" "builder_ok R b2"
        and e2: "(\<forall>k. al k) \<longrightarrow> ok2" and k2: "ok2 \<longrightarrow> building R b2 \<and> grows b1 b2 \<and> open_flow b2 = open_flow b1 @ map Some (replicate n (cell_text c))" by (elim exE conjE) (rule that)
      have "rest b1 as1 = Some (ok2, map h as, b2)"
      proof (cases "m < stored \<and> wrapColumns old = 0")
        case True
        then show ?thesis using s2(1) by (simp add: rest_def n_def g(1) h_def c_def)
      next
        case False
        then have "n = 0" by (auto simp: n_def)
        with s2(1) False show ?thesis by (auto simp: rest_def g(1) h_def)
      qed
      then have res: "reflow_line al i old contd as b = Some (ok2, map h as, b2)" unfolding eq using s1 ok0 ok1 by simp
      moreover have "building R b2 \<and> grows b b2 \<and> settles i old b2 h \<and>
          row_text old = filter is_char texts @ replicate (stored - m) 0x20 \<and>
          open_flow b2 = flow_before contd b @ map Some (filter is_char texts @ replicate (e - m + n) 0x20)" if ok2
      proof -
        have b2: "building R b2" "grows b1 b2" "open_flow b2 = open_flow b1 @ map Some (replicate n 0x20)"
          using k2 that by (simp_all add: c_def)
        have "settles i old b2 h" using set1 arrived_grows [OF _ b2(2)] by (simp add: settles_def)
        moreover have "grows b b2" using grows_trans [OF grows_trans [OF k0(2) [OF ok0] b1(2)] b2(2)] .
        moreover have "filter is_char (replicate j 0x20) = replicate j 0x20" for j by (induction j) simp_all
        ultimately show ?thesis
          using b2(1,3) f1 k0(3) [OF ok0] by (simp add: row_text_def whole replicate_add flip: stored_def)
      qed
      moreover have "wrapColumns old \<noteq> 0 \<longrightarrow> stored - m = 0 \<and> e - m + n = 0"
        by (simp add: e_def n_def m_def kept_end_def stored_def)
      ultimately show ?thesis using s2(2) e2 by blast
    qed
  qed
qed


section \<open>Trailing blanks of paragraphs\<close>

fun squeeze :: "codepoint option list \<Rightarrow> codepoint option list" where
  "squeeze [] = []"
| "squeeze (c # cs) = (let r = squeeze cs in if c = Some 0x20 \<and> (r = [] \<or> hd r = None) then r else c # r)"

lemma squeeze_cong: "squeeze Y = squeeze Z \<Longrightarrow> squeeze (X @ Y) = squeeze (X @ Z)"
  by (induction X) (simp_all add: Let_def)

lemma squeeze_blanks: "squeeze (replicate n (Some 0x20) @ None # Z) = squeeze (None # Z)"
  by (induction n) (simp_all add: Let_def)

text \<open>Flows that no continuation can tell apart.\<close>

definition same_flow :: "codepoint option list \<Rightarrow> codepoint option list \<Rightarrow> bool" where
  "same_flow X Y \<longleftrightarrow> (\<forall>Z. squeeze (X @ Z) = squeeze (Y @ Z))"

lemma same_flow_refl [simp]: "same_flow X X"
  by (simp add: same_flow_def)

lemma same_flow_trans [trans]: "same_flow X Y \<Longrightarrow> same_flow Y Z \<Longrightarrow> same_flow X Z"
  by (simp add: same_flow_def)

lemma same_flow_append: "same_flow X Y \<Longrightarrow> same_flow (X @ Z) (Y @ Z)"
  by (simp add: same_flow_def)

lemma same_flow_blanks:
  "same_flow (X @ map Some (t @ replicate m 0x20) @ [None]) (X @ map Some (t @ replicate n 0x20) @ [None])"
proof -
  have "squeeze (X @ map Some t @ replicate k (Some 0x20) @ None # Z) = squeeze (X @ map Some t @ None # Z)" for k Z
    by (intro squeeze_cong squeeze_blanks)
  then show ?thesis by (simp add: same_flow_def)
qed

section \<open>The whole chain\<close>

lemma chain_flow_Cons:
  "chain_flow (l # ls) = (if ls = [] then map Some (row_text l) @ [None] else row_flow l @ chain_flow ls)"
  by (simp add: chain_flow_def)

lemma line_ok_readable: "line_ok l \<Longrightarrow> readable l"
  by (auto simp: line_ok_def readable_def split: option.splits)

definition untouched :: "nat \<Rightarrow> charmap_anchor list \<Rightarrow> bool" where
  "untouched i as \<longleftrightarrow> (\<forall>a \<in> set as. \<forall>j \<ge> i. anchor_line a = Some j \<longrightarrow> newLine a = None)"

definition followed :: "nat \<Rightarrow> charmap_line list \<Rightarrow> reflow_builder \<Rightarrow> charmap_anchor list \<Rightarrow> charmap_anchor list \<Rightarrow> bool" where
  "followed i olds b as as' \<longleftrightarrow>
     (\<exists>g. as' = map g as \<and> (\<forall>a \<in> set as. anchor_line (g a) = anchor_line a \<and> anchor_column (g a) = anchor_column a \<and>
        anchor_extend (g a) = anchor_extend a \<and>
        (\<forall>j < length olds. anchor_line a = Some (i + j) \<longrightarrow> arrived (olds ! j) b (g a)) \<and>
        ((\<forall>j < length olds. anchor_line a \<noteq> Some (i + j)) \<longrightarrow> g a = a)))"

lemma followed_nil: "followed i [] b as as"
  unfolding followed_def by (rule exI [of _ id]) simp

lemma followed_step:
  assumes f: "settles i old b f" and un: "untouched i as" and g: "followed (i + 1) olds b' (map f as) as'" and grow: "grows b b'"
  shows "followed i (old # olds) b' as as'"
proof -
  from g obtain g where as': "as' = map g (map f as)"
    and g: "\<And>a. a \<in> set as \<Longrightarrow> anchor_line (g (f a)) = anchor_line (f a) \<and> anchor_column (g (f a)) = anchor_column (f a) \<and>
        anchor_extend (g (f a)) = anchor_extend (f a) \<and>
        (\<forall>j < length olds. anchor_line (f a) = Some (i + 1 + j) \<longrightarrow> arrived (olds ! j) b' (g (f a))) \<and>
        ((\<forall>j < length olds. anchor_line (f a) \<noteq> Some (i + 1 + j)) \<longrightarrow> g (f a) = f a)"
    unfolding followed_def by auto
  have "anchor_line (g (f a)) = anchor_line a \<and> anchor_column (g (f a)) = anchor_column a \<and> anchor_extend (g (f a)) = anchor_extend a \<and>
        (\<forall>j < length (old # olds). anchor_line a = Some (i + j) \<longrightarrow> arrived ((old # olds) ! j) b' (g (f a))) \<and>
        ((\<forall>j < length (old # olds). anchor_line a \<noteq> Some (i + j)) \<longrightarrow> g (f a) = a)" if a: "a \<in> set as" for a
  proof -
    have fa: "anchor_line (f a) = anchor_line a" "anchor_column (f a) = anchor_column a" "anchor_extend (f a) = anchor_extend a"
      "anchor_line a = Some i \<Longrightarrow> newLine a = None \<Longrightarrow> arrived old b (f a)" "anchor_line a \<noteq> Some i \<Longrightarrow> f a = a"
      using f by (auto simp: settles_def)
    have first: "arrived old b' (g (f a))" if "anchor_line a = Some i"
    proof -
      have "newLine a = None" using un a that by (auto simp: untouched_def)
      then have "arrived old b' (f a)" using fa(4) that arrived_grows [OF _ grow] by blast
      moreover have "g (f a) = f a" using g [OF a] fa(1) that by simp
      ultimately show ?thesis by simp
    qed
    have later: "arrived ((old # olds) ! j) b' (g (f a))" if "j < length (old # olds)" "anchor_line a = Some (i + j)" for j
      using that first g [OF a] fa(1) by (cases j) auto
    have other: "g (f a) = a" if "\<forall>j < length (old # olds). anchor_line a \<noteq> Some (i + j)"
    proof -
      from that have "anchor_line a \<noteq> Some i" by (metis add.right_neutral length_greater_0_conv list.distinct(1))
      moreover have "anchor_line a \<noteq> Some (i + 1 + j)" if "j < length olds" for j
        using that \<open>\<forall>j < length (old # olds). anchor_line a \<noteq> Some (i + j)\<close> by (metis Suc_less_eq add.assoc length_Cons plus_1_eq_Suc)
      ultimately show ?thesis using g [OF a] fa(1,5) by simp
    qed
    show ?thesis using g [OF a] fa(1-3) later other by simp
  qed
  then show ?thesis unfolding followed_def as' by (intro exI [of _ "g \<circ> f"]) simp
qed

lemma reflow_lines_ok:
  assumes "list_all line_ok olds" and "builder_ok R b" and "rows b = [] \<and> \<not> contd \<or> building R b"
    and "rows_owners olds \<subseteq># R" and "untouched i as" and "contd \<longrightarrow> olds \<noteq> []"
  shows "\<exists>ok as' b'. reflow_lines al i olds contd as b = Some (ok, as', b') \<and> builder_ok R b' \<and>
    ((\<forall>k. al k) \<and> rows_owners olds = {#} \<longrightarrow> ok) \<and>
    (ok \<longrightarrow> (olds = [] \<longrightarrow> b' = b) \<and> (olds \<noteq> [] \<longrightarrow> building R b' \<and> same_flow (flow_before contd b @ chain_flow olds) (open_flow b' @ [None])) \<and>
      grows b b' \<and> followed i olds b' as as')"
  using assms
proof (induction olds arbitrary: i contd as b)
  case Nil
  then have "reflow_lines al i [] contd as b = Some (True, as, b)" "followed i [] b as as" by (simp_all add: followed_nil)
  then show ?case using Nil.prems by fastforce
next
  case (Cons old olds)
  have ok: "line_ok old" and own: "line_owners old \<subseteq># R" "rows_owners olds \<subseteq># R"
    using Cons.prems(1,4) by (auto dest: subset_mset.order_trans [OF mset_subset_eq_add_left] subset_mset.order_trans [OF mset_subset_eq_add_right])
  from reflow_line_ok [OF ok Cons.prems(2,3) own(1), of al i as] obtain ok1 as1 b1 where
    s1: "reflow_line al i old contd as b = Some (ok1, as1, b1)" "builder_ok R b1"
      "(\<forall>k. al k) \<and> line_owners old = {#} \<longrightarrow> ok1"
    and k1: "ok1 \<longrightarrow> building R b1 \<and> grows b b1 \<and> (\<exists>g. as1 = map g as \<and> settles i old b1 g) \<and>
      (\<exists>t m n. row_text old = t @ replicate m 0x20 \<and> (wrapColumns old \<noteq> 0 \<longrightarrow> m = 0 \<and> n = 0) \<and>
        open_flow b1 = flow_before contd b @ map Some (t @ replicate n 0x20))" by blast
  define c1 where "c1 = (wrapColumns old \<noteq> 0 \<and> olds \<noteq> [])"
  have eq: "reflow_lines al i (old # olds) contd as b =
      (if \<not> ok1 then Some (False, as1, b1) else reflow_lines al (i + 1) olds c1 as1 b1)"
    using s1 line_ok_readable [OF ok] by (simp add: c1_def)
  show ?case
  proof (cases ok1)
    case False
    then show ?thesis unfolding eq using s1(2,3) by auto
  next
    case True
    with k1 obtain g t m n where b1: "building R b1" "grows b b1" and g: "as1 = map g as" "settles i old b1 g"
      and t: "row_text old = t @ replicate m 0x20" "wrapColumns old \<noteq> 0 \<longrightarrow> m = 0 \<and> n = 0"
        "open_flow b1 = flow_before contd b @ map Some (t @ replicate n 0x20)" by blast
    have un: "untouched (i + 1) as1"
      using Cons.prems(5) g(2) unfolding untouched_def g(1) settles_def by (auto simp: Suc_le_eq)
    have olds: "list_all line_ok olds" "rows b1 = [] \<and> \<not> c1 \<or> building R b1" "c1 \<longrightarrow> olds \<noteq> []"
      using Cons.prems(1) b1(1) by (simp_all add: c1_def)
    from Cons.IH [OF olds(1) s1(2) olds(2) own(2) un olds(3)] obtain ok2 as2 b2 where
      s2: "reflow_lines al (i + 1) olds c1 as1 b1 = Some (ok2, as2, b2)" "builder_ok R b2"
        "(\<forall>k. al k) \<and> rows_owners olds = {#} \<longrightarrow> ok2"
      and k2: "ok2 \<longrightarrow> (olds = [] \<longrightarrow> b2 = b1) \<and> (olds \<noteq> [] \<longrightarrow> building R b2 \<and> same_flow (flow_before c1 b1 @ chain_flow olds) (open_flow b2 @ [None])) \<and>
        grows b1 b2 \<and> followed (i + 1) olds b2 as1 as2" by blast
    have "building R b2 \<and> same_flow (flow_before contd b @ chain_flow (old # olds)) (open_flow b2 @ [None]) \<and>
        grows b b2 \<and> followed i (old # olds) b2 as as2" if ok2
    proof -
      have step: "same_flow (flow_before contd b @ map Some (row_text old) @ [None]) (open_flow b1 @ [None])"
        using same_flow_blanks [of "flow_before contd b" t m n] by (simp add: t(1,3))
      have "building R b2 \<and> same_flow (flow_before contd b @ chain_flow (old # olds)) (open_flow b2 @ [None])"
      proof (cases "olds = []")
        case True
        then show ?thesis using k2 that b1(1) step by (simp add: chain_flow_Cons)
      next
        case more: False
        have k: "building R b2" "same_flow (flow_before c1 b1 @ chain_flow olds) (open_flow b2 @ [None])"
          using k2 that more by simp_all
        have ne: "rows b1 \<noteq> []" using b1(1) by (simp add: building_def)
        have "same_flow (flow_before contd b @ row_flow old @ chain_flow olds) (flow_before c1 b1 @ chain_flow olds)"
        proof (cases "wrapColumns old = 0")
          case True
          then have "flow_before c1 b1 = open_flow b1 @ [None]" using ne by (simp add: flow_before_def c1_def)
          then show ?thesis using same_flow_append [OF step, of "chain_flow olds"] True by (simp add: row_flow_def)
        next
          case False
          then have "flow_before c1 b1 = open_flow b1" using more by (simp add: flow_before_def c1_def)
          then show ?thesis using t False by (simp add: row_flow_def)
        qed
        then show ?thesis using k more by (auto simp: chain_flow_Cons intro: same_flow_trans)
      qed
      moreover have "followed i (old # olds) b2 as as2"
        by (rule followed_step [OF g(2) Cons.prems(5)]) (use k2 that g(1) in simp_all)
      moreover have "grows b b2" using grows_trans [OF b1(2)] k2 that by blast
      ultimately show ?thesis by blast
    qed
    then show ?thesis unfolding eq using s2 True by auto
  qed
qed




end
