(* ===== verification/Search_Stream.thy ===== *)
theory Search_Stream
  imports Charmap_Rows Utf8 "HOL-Library.Sublist"
begin

text \<open>
  The token stream over retained rows (\<open>devs/consoleng/search.c\<close>): one cell or one row transition
  for each call, forwards or backwards. The chain of rows is a list and a row pointer a position in
  it, at or past its end for NULL. \<open>None\<close> is a read outside the arrays of a row.
\<close>

section \<open>The stream\<close>

definition SEARCH_WIDE_CONT :: codepoint where "SEARCH_WIDE_CONT = 0xFFFFFFFE"

record search_position =
  pos_line :: nat
  pos_column :: nat

record search_token =
  tok_cp :: codepoint
  tok_first :: search_position
  tok_end :: search_position

record search_stream =
  cursor :: search_position
  limit :: nat
  limit_ready :: bool
  trimming :: bool
  head_line :: nat
  reverse :: bool
  seeking :: bool
  separator :: bool

datatype stream_result = Stream_done | Stream_more | Stream_token search_token

definition at :: "nat \<Rightarrow> nat \<Rightarrow> search_position" where
  "at i c = \<lparr>pos_line = i, pos_column = c\<rparr>"

definition con_search_stream_begin :: "nat \<Rightarrow> nat \<Rightarrow> search_stream" where
  "con_search_stream_begin first col =
     \<lparr>cursor = at first col, limit = 0, limit_ready = False, trimming = False, head_line = 0,
      reverse = False, seeking = False, separator = False\<rparr>"

definition con_search_stream_reverse_begin :: "nat \<Rightarrow> search_stream" where
  "con_search_stream_reverse_begin first =
     (con_search_stream_begin first 0)\<lparr>head_line := first, reverse := True, seeking := True\<rparr>"

definition cell_at :: "charmap_line \<Rightarrow> nat \<Rightarrow> cell option" where
  "cell_at l i = (if i < length (cells l) then Some (cells l ! i) else None)"

definition link_at :: "charmap_line \<Rightarrow> nat \<Rightarrow> addr option option" where
  "link_at l i = (case links l of None \<Rightarrow> Some None | Some ls \<Rightarrow> if i < length ls then Some (ls ! i) else None)"

definition row_limit :: "charmap_line \<Rightarrow> nat" where
  "row_limit line =
     (if wrapColumns line = 0 then line_size line
      else
        let padding = unat (wrapPadding line);
            boundary = (if padding < wrapColumns line then wrapColumns line - padding else 0)
        in min boundary (line_size line))"

text \<open>One unit of trimming: whether the last cell below the limit is erased padding.\<close>

definition erased_blank :: "charmap_line \<Rightarrow> nat \<Rightarrow> bool option" where
  "erased_blank line n =
     (if n = 0 then Some False
      else do {
        c \<leftarrow> cell_at line (n - 1);
        (if cell_text c = 0x20 \<and> cell_flags c = CHARMAP_ERASED then do {
           l \<leftarrow> link_at line (n - 1);
           Some (l = None)
         } else Some False)
      })"

definition cell_token :: "charmap_line \<Rightarrow> nat \<Rightarrow> nat \<Rightarrow> nat \<Rightarrow> codepoint \<Rightarrow> search_token option" where
  "cell_token line i lim col cp = do {
     wide \<leftarrow> (if col + 1 < lim then map_option (\<lambda>c. cell_text c = SEARCH_WIDE_CONT) (cell_at line (col + 1)) else Some False);
     Some \<lparr>tok_cp = (if cp \<noteq> 0 then cp else 0x20), tok_first = at i col,
           tok_end = at i (if wide then col + 2 else col + 1)\<rparr>
   }"

definition search_reverse_step :: "charmap_line list \<Rightarrow> search_stream \<Rightarrow> (stream_result \<times> search_stream) option" where
  "search_reverse_step rows s =
     (let i = pos_line (cursor s); line = rows ! i in
      if i \<ge> length rows then Some (Stream_done, s)
      else if seeking s then
        Some (Stream_more, if i + 1 < length rows then s\<lparr>cursor := at (i + 1) (pos_column (cursor s))\<rparr> else s\<lparr>seeking := False\<rparr>)
      else
        let s1 = (if limit_ready s then s
                  else s\<lparr>limit := row_limit line, limit_ready := True, trimming := (wrapColumns line = 0 \<and> cells line \<noteq> []),
                         cursor := at i (row_limit line)\<rparr>) in do {
        blank \<leftarrow> (if trimming s1 then erased_blank line (limit s1) else Some False);
        (if blank then Some (Stream_more, s1\<lparr>limit := limit s1 - 1, cursor := at i (limit s1 - 1)\<rparr>)
         else
           let s2 = s1\<lparr>trimming := False\<rparr> in
           if separator s2 \<and> wrapColumns line = 0 then
             Some (Stream_token \<lparr>tok_cp = 0x0A, tok_first = at i (limit s2), tok_end = at (i + 1) 0\<rparr>, s2\<lparr>separator := False\<rparr>)
           else
             let s3 = s2\<lparr>separator := False\<rparr>; col = pos_column (cursor s3) in
             if col = 0 then
               (if i = head_line s3 then Some (Stream_done, s3\<lparr>cursor := at (length rows) 0, limit_ready := False, separator := True\<rparr>)
                else if i = 0 then None
                else Some (Stream_more, s3\<lparr>cursor := at (i - 1) 0, limit_ready := False, separator := True\<rparr>))
             else do {
               c \<leftarrow> cell_at line (col - 1);
               let s4 = s3\<lparr>cursor := at i (col - 1)\<rparr>;
               (if cell_text c = SEARCH_WIDE_CONT then Some (Stream_more, s4)
                else do {
                  t \<leftarrow> cell_token line i (limit s4) (col - 1) (cell_text c);
                  Some (Stream_token t, s4)
                })
             })
      })"

definition con_search_stream_step :: "charmap_line list \<Rightarrow> search_stream \<Rightarrow> (stream_result \<times> search_stream) option" where
  "con_search_stream_step rows s =
     (if reverse s then search_reverse_step rows s
      else
        let i = pos_line (cursor s); col = pos_column (cursor s); line = rows ! i in
        if i \<ge> length rows then Some (Stream_done, s)
        else
          let s1 = (if limit_ready s then s
                    else s\<lparr>limit := row_limit line, limit_ready := True, trimming := (wrapColumns line = 0 \<and> cells line \<noteq> [])\<rparr>) in do {
          blank \<leftarrow> (if trimming s1 then erased_blank line (limit s1) else Some False);
          (if blank then Some (Stream_more, s1\<lparr>limit := limit s1 - 1\<rparr>)
           else
             let s2 = s1\<lparr>trimming := False\<rparr> in
             if col \<ge> limit s2 then
               let s3 = s2\<lparr>cursor := at (i + 1) 0, limit_ready := False\<rparr> in
               Some (if i + 1 \<ge> length rows then Stream_done
                     else if wrapColumns line \<noteq> 0 then Stream_more
                     else Stream_token \<lparr>tok_cp = 0x0A, tok_first = at i (limit s2), tok_end = at (i + 1) 0\<rparr>, s3)
             else do {
               c \<leftarrow> cell_at line col;
               let s3 = s2\<lparr>cursor := at i (col + 1)\<rparr>;
               (if cell_text c = SEARCH_WIDE_CONT then Some (Stream_more, s3)
                else do {
                  t \<leftarrow> cell_token line i (limit s2) col (cell_text c);
                  Some (Stream_token t, s3)
                })
             })
        })"

section \<open>What a stream promises\<close>

text \<open>
  A stream that is asked again and again answers the tokens it still holds, in order, with a bounded
  number of empty answers in between.
\<close>

fun stream_run :: "('s \<Rightarrow> (stream_result \<times> 's) option) \<Rightarrow> nat \<Rightarrow> 's \<Rightarrow> (search_token list \<times> bool) option" where
  "stream_run next_step 0 s = Some ([], False)"
| "stream_run next_step (Suc n) s =
     (case next_step s of
        None \<Rightarrow> None
      | Some (Stream_done, s') \<Rightarrow> Some ([], True)
      | Some (Stream_more, s') \<Rightarrow> stream_run next_step n s'
      | Some (Stream_token t, s') \<Rightarrow> map_option (\<lambda>(ts, d). (t # ts, d)) (stream_run next_step n s'))"

locale token_stream =
  fixes next_step :: "'s \<Rightarrow> (stream_result \<times> 's) option"
    and ok :: "'s \<Rightarrow> bool" and pending :: "'s \<Rightarrow> search_token list" and cost :: "'s \<Rightarrow> nat"
  assumes next_law: "ok s \<Longrightarrow> \<exists>r s'. next_step s = Some (r, s') \<and> ok s' \<and>
    (case r of
       Stream_done \<Rightarrow> pending s = [] \<and> pending s' = []
     | Stream_more \<Rightarrow> pending s' = pending s \<and> cost s' < cost s
     | Stream_token t \<Rightarrow> pending s = t # pending s' \<and> cost s' < cost s)"
begin

lemma next_cases [consumes 1, case_names over skip token]:
  assumes "ok s"
  obtains s' where "next_step s = Some (Stream_done, s')" "ok s'" "pending s = []" "pending s' = []"
  | s' where "next_step s = Some (Stream_more, s')" "ok s'" "pending s' = pending s" "cost s' < cost s"
  | t s' where "next_step s = Some (Stream_token t, s')" "ok s'" "pending s = t # pending s'" "cost s' < cost s"
proof -
  from next_law [OF assms] obtain r s' where "next_step s = Some (r, s')" "ok s'"
    "case r of
       Stream_done \<Rightarrow> pending s = [] \<and> pending s' = []
     | Stream_more \<Rightarrow> pending s' = pending s \<and> cost s' < cost s
     | Stream_token t \<Rightarrow> pending s = t # pending s' \<and> cost s' < cost s" by blast
  then show thesis using that by (cases r) auto
qed

lemma run_all: "ok s \<Longrightarrow> cost s < n \<Longrightarrow> stream_run next_step n s = Some (pending s, True)"
proof (induction n arbitrary: s)
  case (Suc n)
  from Suc.prems(1) show ?case
  proof (cases rule: next_cases)
    case over
    then show ?thesis by simp
  next
    case (skip s')
    then show ?thesis using Suc.IH [of s'] Suc.prems(2) by simp
  next
    case (token t s')
    then show ?thesis using Suc.IH [of s'] Suc.prems(2) by simp
  qed
qed simp

lemma run_prefix: "ok s \<Longrightarrow> \<exists>ts d. stream_run next_step n s = Some (ts, d) \<and> prefix ts (pending s) \<and> (d \<longrightarrow> ts = pending s)"
proof (induction n arbitrary: s)
  case (Suc n)
  from Suc.prems show ?case
  proof (cases rule: next_cases)
    case over
    then show ?thesis by auto
  next
    case (skip s')
    then show ?thesis using Suc.IH [of s'] by simp
  next
    case (token t s')
    then show ?thesis using Suc.IH [of s'] by fastforce
  qed
qed auto

end

section \<open>The tokens of a chain\<close>

definition searchable :: "charmap_line \<Rightarrow> bool" where
  "searchable l \<longleftrightarrow> line_size l \<le> length (cells l) \<and> (case links l of None \<Rightarrow> True | Some ls \<Rightarrow> line_size l \<le> length ls)"

lemma line_ok_searchable: "line_ok l \<Longrightarrow> searchable l"
  by (auto simp: line_ok_def searchable_def split: option.splits)

fun trim_blank :: "charmap_line \<Rightarrow> nat \<Rightarrow> nat" where
  "trim_blank l 0 = 0"
| "trim_blank l (Suc n) = (if erased_blank l (Suc n) = Some True then trim_blank l n else Suc n)"

definition row_end :: "charmap_line \<Rightarrow> nat" where
  "row_end l = (if wrapColumns l = 0 \<and> cells l \<noteq> [] then trim_blank l (row_limit l) else row_limit l)"

definition cell_tokens :: "charmap_line \<Rightarrow> nat \<Rightarrow> nat \<Rightarrow> nat \<Rightarrow> search_token list" where
  "cell_tokens l i lim c =
     (let cp = cell_text (cells l ! c) in
      if cp = SEARCH_WIDE_CONT then []
      else [\<lparr>tok_cp = (if cp \<noteq> 0 then cp else 0x20), tok_first = at i c,
             tok_end = at i (if c + 1 < lim \<and> cell_text (cells l ! (c + 1)) = SEARCH_WIDE_CONT then c + 2 else c + 1)\<rparr>])"

definition row_tokens :: "charmap_line \<Rightarrow> nat \<Rightarrow> nat \<Rightarrow> nat \<Rightarrow> nat \<Rightarrow> search_token list" where
  "row_tokens l i lim a b = concat (map (cell_tokens l i lim) [a..<b])"

definition break_tokens :: "charmap_line list \<Rightarrow> nat \<Rightarrow> nat \<Rightarrow> search_token list" where
  "break_tokens rows i lim =
     (if i + 1 < length rows \<and> wrapColumns (rows ! i) = 0
      then [\<lparr>tok_cp = 0x0A, tok_first = at i lim, tok_end = at (i + 1) 0\<rparr>] else [])"

definition whole_row :: "charmap_line list \<Rightarrow> nat \<Rightarrow> search_token list" where
  "whole_row rows i = row_tokens (rows ! i) i (row_end (rows ! i)) 0 (row_end (rows ! i)) @ break_tokens rows i (row_end (rows ! i))"

definition chain_tokens :: "charmap_line list \<Rightarrow> nat \<Rightarrow> nat \<Rightarrow> search_token list" where
  "chain_tokens rows a b = concat (map (whole_row rows) [a..<b])"

lemma row_tokens_first: "a < b \<Longrightarrow> row_tokens l i lim a b = cell_tokens l i lim a @ row_tokens l i lim (a + 1) b"
  by (simp add: row_tokens_def upt_conv_Cons)

lemma row_tokens_last: "a < b \<Longrightarrow> row_tokens l i lim a b = row_tokens l i lim a (b - 1) @ cell_tokens l i lim (b - 1)"
  by (cases b) (simp_all add: row_tokens_def)

lemma row_tokens_none [simp]: "b \<le> a \<Longrightarrow> row_tokens l i lim a b = []"
  by (simp add: row_tokens_def)

lemma chain_tokens_first: "a < b \<Longrightarrow> chain_tokens rows a b = whole_row rows a @ chain_tokens rows (a + 1) b"
  by (simp add: chain_tokens_def upt_conv_Cons)

lemma chain_tokens_last: "a < b \<Longrightarrow> chain_tokens rows a b = chain_tokens rows a (b - 1) @ whole_row rows (b - 1)"
  by (cases b) (simp_all add: chain_tokens_def)

lemma chain_tokens_none [simp]: "b \<le> a \<Longrightarrow> chain_tokens rows a b = []"
  by (simp add: chain_tokens_def)

lemma row_limit_le: "row_limit l \<le> line_size l"
  by (simp add: row_limit_def Let_def)

lemma trim_blank_le: "trim_blank l n \<le> n"
  by (induction n) auto

lemma erased_blank_total:
  assumes "searchable l" and "n \<le> line_size l"
  shows "erased_blank l n \<noteq> None"
  using assms by (auto simp: erased_blank_def searchable_def cell_at_def link_at_def split: option.splits)

lemma trim_blank_step:
  "trim_blank l n = (if erased_blank l n = Some True then trim_blank l (n - 1) else n)"
  by (cases n) (simp_all add: erased_blank_def)

lemma cell_token_eq:
  assumes "searchable l" and "lim \<le> line_size l" and "col < lim"
  shows "cell_at l col = Some (cells l ! col)"
    and "cell_text (cells l ! col) \<noteq> SEARCH_WIDE_CONT \<Longrightarrow>
      \<exists>t. cell_token l i lim col (cell_text (cells l ! col)) = Some t \<and> cell_tokens l i lim col = [t]"
    and "cell_text (cells l ! col) = SEARCH_WIDE_CONT \<Longrightarrow> cell_tokens l i lim col = []"
proof -
  have len: "lim \<le> length (cells l)" using assms by (simp add: searchable_def)
  then show "cell_at l col = Some (cells l ! col)" using assms by (simp add: cell_at_def)
  show "\<exists>t. cell_token l i lim col (cell_text (cells l ! col)) = Some t \<and> cell_tokens l i lim col = [t]"
    if "cell_text (cells l ! col) \<noteq> SEARCH_WIDE_CONT"
    using that len by (auto simp: cell_token_def cell_tokens_def Let_def cell_at_def)
qed (simp add: cell_tokens_def)


section \<open>Forwards\<close>

definition stream_limit :: "charmap_line list \<Rightarrow> search_stream \<Rightarrow> nat" where
  "stream_limit rows s =
     (let l = rows ! pos_line (cursor s)
      in if \<not> limit_ready s then row_end l else if trimming s then trim_blank l (limit s) else limit s)"

definition stream_ok :: "charmap_line list \<Rightarrow> search_stream \<Rightarrow> bool" where
  "stream_ok rows s \<longleftrightarrow> list_all searchable rows \<and>
     (pos_line (cursor s) < length rows \<longrightarrow> limit_ready s \<longrightarrow> limit s \<le> line_size (rows ! pos_line (cursor s)))"

definition forward_ok :: "charmap_line list \<Rightarrow> search_stream \<Rightarrow> bool" where
  "forward_ok rows s \<longleftrightarrow> stream_ok rows s \<and> \<not> reverse s"

definition forward_pending :: "charmap_line list \<Rightarrow> search_stream \<Rightarrow> search_token list" where
  "forward_pending rows s =
     (let i = pos_line (cursor s); lim = stream_limit rows s
      in if i \<ge> length rows then []
         else row_tokens (rows ! i) i lim (pos_column (cursor s)) lim @ break_tokens rows i lim @ chain_tokens rows (i + 1) (length rows))"

definition row_cost :: "charmap_line \<Rightarrow> nat" where
  "row_cost l = 2 * line_size l + 3"

definition stream_cost :: "charmap_line list \<Rightarrow> search_stream \<Rightarrow> nat" where
  "stream_cost rows s =
     (let i = pos_line (cursor s)
      in if i \<ge> length rows then 0
         else (if limit_ready s then (if trimming s then limit s else 0) + (limit s - pos_column (cursor s)) + 1 else row_cost (rows ! i)) +
           sum_list (map row_cost (drop (i + 1) rows)))"

lemma at_fields [simp]: "pos_line (at i c) = i" "pos_column (at i c) = c"
  by (simp_all add: at_def)

lemma cost_drop: "i < length rows \<Longrightarrow> sum_list (map row_cost (drop i rows)) = row_cost (rows ! i) + sum_list (map row_cost (drop (i + 1) rows))"
  by (simp flip: Cons_nth_drop_Suc)

text \<open>The first look at a row computes its limit; the state is then as if it had been known.\<close>

definition ready_forward :: "charmap_line list \<Rightarrow> search_stream \<Rightarrow> search_stream" where
  "ready_forward rows s =
     (let l = rows ! pos_line (cursor s) in
      if limit_ready s then s
      else s\<lparr>limit := row_limit l, limit_ready := True, trimming := (wrapColumns l = 0 \<and> cells l \<noteq> [])\<rparr>)"

lemma ready_forward_simps [simp]:
  "cursor (ready_forward rows s) = cursor s" "limit_ready (ready_forward rows s)" "reverse (ready_forward rows s) = reverse s"
  "stream_limit rows (ready_forward rows s) = stream_limit rows s"
  by (simp_all add: ready_forward_def Let_def stream_limit_def row_end_def)

lemma ready_forward_limit:
  assumes "stream_ok rows s" and "pos_line (cursor s) < length rows"
  shows "limit (ready_forward rows s) \<le> line_size (rows ! pos_line (cursor s))"
    and "(if trimming (ready_forward rows s) then limit (ready_forward rows s) else 0) +
      (limit (ready_forward rows s) - pos_column (cursor s)) + 1 + sum_list (map row_cost (drop (pos_line (cursor s) + 1) rows)) \<le> stream_cost rows s"
  using assms row_limit_le [of "rows ! pos_line (cursor s)"]
  by (auto simp: stream_ok_def ready_forward_def Let_def stream_cost_def row_cost_def)

lemma stream_cost_ready:
  "limit_ready s \<Longrightarrow> pos_line (cursor s) < length rows \<Longrightarrow> stream_cost rows s =
    (if trimming s then limit s else 0) + (limit s - pos_column (cursor s)) + 1 + sum_list (map row_cost (drop (pos_line (cursor s) + 1) rows))"
  by (simp add: stream_cost_def Let_def)

lemma forward_step_eq:
  assumes "\<not> reverse s" and "pos_line (cursor s) < length rows"
  shows "con_search_stream_step rows s =
    (let i = pos_line (cursor s); col = pos_column (cursor s); line = rows ! i; s1 = ready_forward rows s in do {
          blank \<leftarrow> (if trimming s1 then erased_blank line (limit s1) else Some False);
          (if blank then Some (Stream_more, s1\<lparr>limit := limit s1 - 1\<rparr>)
           else
             let s2 = s1\<lparr>trimming := False\<rparr> in
             if col \<ge> limit s2 then
               let s3 = s2\<lparr>cursor := at (i + 1) 0, limit_ready := False\<rparr> in
               Some (if i + 1 \<ge> length rows then Stream_done
                     else if wrapColumns line \<noteq> 0 then Stream_more
                     else Stream_token \<lparr>tok_cp = 0x0A, tok_first = at i (limit s2), tok_end = at (i + 1) 0\<rparr>, s3)
             else do {
               c \<leftarrow> cell_at line col;
               let s3 = s2\<lparr>cursor := at i (col + 1)\<rparr>;
               (if cell_text c = SEARCH_WIDE_CONT then Some (Stream_more, s3)
                else do {
                  t \<leftarrow> cell_token line i (limit s2) col (cell_text c);
                  Some (Stream_token t, s3)
                })
             })
        })"
  using assms by (simp add: con_search_stream_step_def ready_forward_def Let_def)

lemma forward_law:
  assumes "forward_ok rows s"
  shows "\<exists>r s'. con_search_stream_step rows s = Some (r, s') \<and> forward_ok rows s' \<and>
    (case r of
       Stream_done \<Rightarrow> forward_pending rows s = [] \<and> forward_pending rows s' = []
     | Stream_more \<Rightarrow> forward_pending rows s' = forward_pending rows s \<and> stream_cost rows s' < stream_cost rows s
     | Stream_token t \<Rightarrow> forward_pending rows s = t # forward_pending rows s' \<and> stream_cost rows s' < stream_cost rows s)"
proof (cases "pos_line (cursor s) < length rows")
  case False
  then have "con_search_stream_step rows s = Some (Stream_done, s)" "forward_pending rows s = []"
    using assms by (simp_all add: con_search_stream_step_def forward_ok_def forward_pending_def Let_def)
  then show ?thesis using assms by auto
next
  case True
  define i where "i = pos_line (cursor s)"
  define col where "col = pos_column (cursor s)"
  define line where "line = rows ! i"
  define s1 where "s1 = ready_forward rows s"
  define s2 where "s2 = s1\<lparr>trimming := False\<rparr>"
  define after where "after = sum_list (map row_cost (drop (i + 1) rows))"
  have ok: "stream_ok rows s" "\<not> reverse s" "searchable line" "i < length rows" "list_all searchable rows"
    using assms True by (auto simp: forward_ok_def stream_ok_def list_all_length line_def i_def)
  have s1: "cursor s1 = cursor s" "limit_ready s1" "\<not> reverse s1" "stream_limit rows s1 = stream_limit rows s"
    using ok(2) by (simp_all add: s1_def)
  have lim: "limit s1 \<le> line_size line"
    unfolding s1_def line_def i_def by (rule ready_forward_limit(1) [OF ok(1) True])
  have cost: "(if trimming s1 then limit s1 else 0) + (limit s1 - col) + 1 + after \<le> stream_cost rows s"
    unfolding s1_def i_def col_def after_def by (rule ready_forward_limit(2) [OF ok(1) True])
  have pend: "forward_pending rows s = row_tokens line i (stream_limit rows s) col (stream_limit rows s) @
      break_tokens rows i (stream_limit rows s) @ chain_tokens rows (i + 1) (length rows)"
    using ok(4) by (simp add: forward_pending_def Let_def i_def line_def col_def)
  have "(if trimming s1 then erased_blank line (limit s1) else Some False) \<noteq> None"
    using erased_blank_total [OF ok(3) lim] by (simp del: not_None_eq)
  then obtain blank where blank: "(if trimming s1 then erased_blank line (limit s1) else Some False) = Some blank"
    unfolding not_None_eq by (elim exE)
  have step: "con_search_stream_step rows s =
      (if blank then Some (Stream_more, s1\<lparr>limit := limit s1 - 1\<rparr>)
           else
             if col \<ge> limit s2 then
               let s3 = s2\<lparr>cursor := at (i + 1) 0, limit_ready := False\<rparr> in
               Some (if i + 1 \<ge> length rows then Stream_done
                     else if wrapColumns line \<noteq> 0 then Stream_more
                     else Stream_token \<lparr>tok_cp = 0x0A, tok_first = at i (limit s2), tok_end = at (i + 1) 0\<rparr>, s3)
             else do {
               c \<leftarrow> cell_at line col;
               let s3 = s2\<lparr>cursor := at i (col + 1)\<rparr>;
               (if cell_text c = SEARCH_WIDE_CONT then Some (Stream_more, s3)
                else do {
                  t \<leftarrow> cell_token line i (limit s2) col (cell_text c);
                  Some (Stream_token t, s3)
                })
             })"
    unfolding forward_step_eq [OF ok(2) True] Let_def
    unfolding i_def [symmetric] col_def [symmetric] s1_def [symmetric] line_def [symmetric] blank s2_def [symmetric]
    by simp
  show ?thesis
  proof (cases blank)
    case True
    then have t: "trimming s1" "erased_blank line (limit s1) = Some True" "limit s1 \<noteq> 0"
      using blank by (auto simp: erased_blank_def split: if_splits)
    define s' where "s' = s1\<lparr>limit := limit s1 - 1\<rparr>"
    have f: "cursor s' = cursor s" "limit_ready s'" "\<not> reverse s'" "trimming s'" "limit s' = limit s1 - 1"
      using s1 t by (simp_all add: s'_def)
    have "stream_limit rows s' = stream_limit rows s1"
      using t s1 f trim_blank_step [of line "limit s1"] by (simp add: stream_limit_def Let_def line_def i_def)
    then have "forward_pending rows s' = forward_pending rows s"
      using s1 f by (simp add: forward_pending_def Let_def)
    moreover have "stream_cost rows s' = limit s' + (limit s' - col) + 1 + after"
      using stream_cost_ready [of s' rows] f ok(4) by (simp add: i_def col_def after_def)
    then have "stream_cost rows s' < stream_cost rows s" using cost t f by simp
    moreover have "forward_ok rows s'"
      using ok f lim by (simp add: forward_ok_def stream_ok_def flip: i_def line_def)
    moreover have "con_search_stream_step rows s = Some (Stream_more, s')" using step True by (simp add: s'_def)
    ultimately show ?thesis by auto
  next
    case False
    have lim2: "stream_limit rows s = limit s2"
      using s1 blank False trim_blank_step [of line "limit s1"]
      by (auto simp: stream_limit_def Let_def s2_def line_def i_def split: if_splits)
    have s2: "cursor s2 = cursor s" "limit_ready s2" "\<not> reverse s2" "\<not> trimming s2" "limit s2 = limit s1"
      using s1 by (simp_all add: s2_def)
    show ?thesis
    proof (cases "col \<ge> limit s2")
      case past: True
      define s3 where "s3 = s2\<lparr>cursor := at (i + 1) 0, limit_ready := False\<rparr>"
      have ok3: "forward_ok rows s3" using ok s2 by (simp add: forward_ok_def stream_ok_def s3_def)
      have p3: "forward_pending rows s3 = chain_tokens rows (i + 1) (length rows)"
        by (simp add: forward_pending_def Let_def s3_def stream_limit_def chain_tokens_first whole_row_def)
      have c3: "stream_cost rows s3 < stream_cost rows s"
      proof (cases "i + 1 < length rows")
        case True
        then have "stream_cost rows s3 = after" using cost_drop [OF True] by (simp add: stream_cost_def Let_def s3_def after_def)
        then show ?thesis using cost by simp
      next
        case False
        then have "stream_cost rows s3 = 0" by (simp add: stream_cost_def Let_def s3_def)
        then show ?thesis using cost by simp
      qed
      have "con_search_stream_step rows s =
          Some (if i + 1 \<ge> length rows then Stream_done else if wrapColumns line \<noteq> 0 then Stream_more
                else Stream_token \<lparr>tok_cp = 0x0A, tok_first = at i (limit s2), tok_end = at (i + 1) 0\<rparr>, s3)"
        using step False past by (simp add: Let_def s3_def)
      then show ?thesis using past ok3 p3 c3 pend lim2 by (auto simp: break_tokens_def line_def)
    next
      case cell: False
      define s3 where "s3 = s2\<lparr>cursor := at i (col + 1)\<rparr>"
      have lim3: "limit s2 \<le> line_size line" "col < limit s2" using lim s2 cell by simp_all
      have ok3: "forward_ok rows s3" using ok s2 lim3 by (simp add: forward_ok_def stream_ok_def s3_def line_def)
      have "forward_pending rows s3 = row_tokens line i (limit s2) (col + 1) (limit s2) @ break_tokens rows i (limit s2) @
          chain_tokens rows (i + 1) (length rows)"
        using s2 ok(4) by (simp add: forward_pending_def Let_def s3_def stream_limit_def line_def)
      then have p3: "forward_pending rows s = cell_tokens line i (limit s2) col @ forward_pending rows s3"
        using pend lim2 row_tokens_first [OF lim3(2)] by simp
      have "stream_cost rows s3 = (limit s2 - (col + 1)) + 1 + after"
        using stream_cost_ready [of s3 rows] s2 ok(4) by (simp add: s3_def after_def)
      then have c3: "stream_cost rows s3 < stream_cost rows s" using cost s2 lim3 by (simp split: if_splits)
      have step3: "con_search_stream_step rows s =
          (if cell_text (cells line ! col) = SEARCH_WIDE_CONT then Some (Stream_more, s3)
           else do { t \<leftarrow> cell_token line i (limit s2) col (cell_text (cells line ! col)); Some (Stream_token t, s3) })"
        using step False cell cell_token_eq(1) [OF ok(3) lim3] by (simp add: s3_def)
      show ?thesis
      proof (cases "cell_text (cells line ! col) = SEARCH_WIDE_CONT")
        case True
        then show ?thesis using step3 ok3 p3 c3 cell_token_eq(3) [OF ok(3) lim3] by simp
      next
        case False
        from cell_token_eq(2) [OF ok(3) lim3 this] obtain t where
          "cell_token line i (limit s2) col (cell_text (cells line ! col)) = Some t" "cell_tokens line i (limit s2) col = [t]" by blast
        then show ?thesis using step3 ok3 p3 c3 False by simp
      qed
    qed
  qed
qed

interpretation forward: token_stream "con_search_stream_step rows" "forward_ok rows" "forward_pending rows" "stream_cost rows" for rows
  by unfold_locales (rule forward_law)


section \<open>Backwards\<close>

definition reverse_ok :: "charmap_line list \<Rightarrow> search_stream \<Rightarrow> bool" where
  "reverse_ok rows s \<longleftrightarrow> stream_ok rows s \<and> reverse s \<and> head_line s = 0 \<and>
     (seeking s \<longrightarrow> \<not> limit_ready s \<and> \<not> separator s) \<and>
     (pos_line (cursor s) < length rows \<longrightarrow> separator s \<longrightarrow> pos_line (cursor s) + 1 < length rows) \<and>
     (pos_line (cursor s) < length rows \<longrightarrow> limit_ready s \<longrightarrow> pos_column (cursor s) \<le> limit s \<and> (trimming s \<longrightarrow> pos_column (cursor s) = limit s))"

definition reverse_pending :: "charmap_line list \<Rightarrow> search_stream \<Rightarrow> search_token list" where
  "reverse_pending rows s =
     (let i = pos_line (cursor s); lim = stream_limit rows s;
          col = (if limit_ready s \<and> \<not> trimming s then pos_column (cursor s) else lim)
      in if i \<ge> length rows then []
         else if seeking s then rev (chain_tokens rows 0 (length rows))
         else (if separator s then rev (break_tokens rows i lim) else []) @ rev (row_tokens (rows ! i) i lim 0 col) @ rev (chain_tokens rows 0 i))"

definition reverse_cost :: "charmap_line list \<Rightarrow> search_stream \<Rightarrow> nat" where
  "reverse_cost rows s =
     (let i = pos_line (cursor s)
      in if i \<ge> length rows then 0
         else if seeking s then length rows - i + sum_list (map row_cost rows)
         else (if limit_ready s then (if trimming s then limit s else 0) + pos_column (cursor s) + 1 + of_bool (separator s) else row_cost (rows ! i)) +
           sum_list (map row_cost (take i rows)))"

definition ready_reverse :: "charmap_line list \<Rightarrow> search_stream \<Rightarrow> search_stream" where
  "ready_reverse rows s =
     (let i = pos_line (cursor s); l = rows ! i in
      if limit_ready s then s
      else s\<lparr>limit := row_limit l, limit_ready := True, trimming := (wrapColumns l = 0 \<and> cells l \<noteq> []), cursor := at i (row_limit l)\<rparr>)"

lemma ready_reverse_simps [simp]:
  "pos_line (cursor (ready_reverse rows s)) = pos_line (cursor s)" "limit_ready (ready_reverse rows s)"
  "reverse (ready_reverse rows s) = reverse s" "head_line (ready_reverse rows s) = head_line s"
  "seeking (ready_reverse rows s) = seeking s" "separator (ready_reverse rows s) = separator s"
  "stream_limit rows (ready_reverse rows s) = stream_limit rows s"
  by (simp_all add: ready_reverse_def Let_def stream_limit_def row_end_def)

lemma cost_take: "i < length rows \<Longrightarrow> sum_list (map row_cost (take (Suc i) rows)) = sum_list (map row_cost (take i rows)) + row_cost (rows ! i)"
  by (simp add: take_Suc_conv_app_nth)

lemma ready_reverse_limit:
  assumes "reverse_ok rows s" and "pos_line (cursor s) < length rows" and "\<not> seeking s"
  shows "limit (ready_reverse rows s) \<le> line_size (rows ! pos_line (cursor s))"
    and "pos_column (cursor (ready_reverse rows s)) \<le> limit (ready_reverse rows s)"
    and "trimming (ready_reverse rows s) \<Longrightarrow> pos_column (cursor (ready_reverse rows s)) = limit (ready_reverse rows s)"
    and "(if limit_ready s \<and> \<not> trimming s then pos_column (cursor s) else stream_limit rows s) =
      (if trimming (ready_reverse rows s) then stream_limit rows s else pos_column (cursor (ready_reverse rows s)))"
    and "(if trimming (ready_reverse rows s) then limit (ready_reverse rows s) else 0) +
      pos_column (cursor (ready_reverse rows s)) + 1 + of_bool (separator s) + sum_list (map row_cost (take (pos_line (cursor s)) rows)) \<le> reverse_cost rows s"
  using assms row_limit_le [of "rows ! pos_line (cursor s)"]
  by (auto simp: reverse_ok_def stream_ok_def ready_reverse_def Let_def reverse_cost_def row_cost_def stream_limit_def row_end_def)

lemma reverse_law:
  assumes "reverse_ok rows s"
  shows "\<exists>r s'. con_search_stream_step rows s = Some (r, s') \<and> reverse_ok rows s' \<and>
    (case r of
       Stream_done \<Rightarrow> reverse_pending rows s = [] \<and> reverse_pending rows s' = []
     | Stream_more \<Rightarrow> reverse_pending rows s' = reverse_pending rows s \<and> reverse_cost rows s' < reverse_cost rows s
     | Stream_token t \<Rightarrow> reverse_pending rows s = t # reverse_pending rows s' \<and> reverse_cost rows s' < reverse_cost rows s)"
proof -
  define i where "i = pos_line (cursor s)"
  have rev: "con_search_stream_step rows s = search_reverse_step rows s"
    using assms by (simp add: con_search_stream_step_def reverse_ok_def)
  consider "i \<ge> length rows" | "i < length rows" "seeking s" | "i < length rows" "\<not> seeking s" by linarith
  then show ?thesis
  proof cases
    case 1
    then have "search_reverse_step rows s = Some (Stream_done, s)" "reverse_pending rows s = []"
      by (simp_all add: search_reverse_step_def reverse_pending_def Let_def i_def)
    then show ?thesis using assms rev by auto
  next
    case 2
    define s' where "s' = (if i + 1 < length rows then s\<lparr>cursor := at (i + 1) (pos_column (cursor s))\<rparr> else s\<lparr>seeking := False\<rparr>)"
    have "search_reverse_step rows s = Some (Stream_more, s')"
      using 2 by (simp add: search_reverse_step_def Let_def s'_def i_def)
    moreover have "reverse_ok rows s'" using assms 2 by (auto simp: reverse_ok_def stream_ok_def s'_def i_def)
    moreover have "reverse_pending rows s' = reverse_pending rows s"
    proof (cases "i + 1 < length rows")
      case True
      then show ?thesis using 2 by (simp add: reverse_pending_def Let_def s'_def i_def)
    next
      case False
      then have "i = length rows - 1" using 2 by simp
      then have "chain_tokens rows 0 (length rows) = chain_tokens rows 0 i @ row_tokens (rows ! i) i (row_end (rows ! i)) 0 (row_end (rows ! i))"
        using 2 by (subst chain_tokens_last) (auto simp: whole_row_def break_tokens_def)
      then show ?thesis
        using False 2 assms by (simp add: reverse_pending_def Let_def s'_def reverse_ok_def stream_limit_def flip: i_def)
    qed
    moreover have "reverse_cost rows s' < reverse_cost rows s"
    proof (cases "i + 1 < length rows")
      case True
      then show ?thesis using 2 by (simp add: reverse_cost_def Let_def s'_def i_def)
    next
      case False
      then have "take (Suc i) rows = rows" using 2 by simp
      then show ?thesis
        using cost_take [OF 2(1)] False 2 assms by (simp add: reverse_cost_def Let_def s'_def reverse_ok_def flip: i_def)
    qed
    ultimately show ?thesis unfolding rev by auto
  next
    case 3
    define line where "line = rows ! i"
    define s1 where "s1 = ready_reverse rows s"
    define s2 where "s2 = s1\<lparr>trimming := False\<rparr>"
    define col where "col = pos_column (cursor s1)"
    define before where "before = sum_list (map row_cost (take i rows))"
    define lim where "lim = stream_limit rows s"
    have ok: "stream_ok rows s" "reverse s" "head_line s = 0" "searchable line" "list_all searchable rows"
      "separator s \<longrightarrow> i + 1 < length rows"
      using assms 3 by (auto simp: reverse_ok_def stream_ok_def list_all_length line_def i_def)
    have s1: "pos_line (cursor s1) = i" "limit_ready s1" "reverse s1" "head_line s1 = 0" "\<not> seeking s1" "separator s1 = separator s"
      "stream_limit rows s1 = lim"
      using ok 3 by (simp_all add: s1_def i_def lim_def)
    note il = 3(1) [unfolded i_def]
    have lim1: "limit s1 \<le> line_size line" "col \<le> limit s1" "trimming s1 \<Longrightarrow> col = limit s1"
      using ready_reverse_limit(1-3) [OF assms il 3(2)] by (simp_all add: s1_def line_def i_def col_def)
    have cost: "(if trimming s1 then limit s1 else 0) + col + 1 + of_bool (separator s) + before \<le> reverse_cost rows s"
      unfolding s1_def col_def before_def i_def by (rule ready_reverse_limit(5) [OF assms il 3(2)])
    have pend: "reverse_pending rows s = (if separator s then rev (break_tokens rows i lim) else []) @
        rev (row_tokens line i lim 0 (if trimming s1 then lim else col)) @ rev (chain_tokens rows 0 i)"
      using 3 ready_reverse_limit(4) [OF assms il 3(2)]
      unfolding reverse_pending_def Let_def i_def [symmetric] lim_def [symmetric] line_def [symmetric] s1_def [symmetric] col_def [symmetric]
      by simp
    have "(if trimming s1 then erased_blank line (limit s1) else Some False) \<noteq> None"
      using erased_blank_total [OF ok(4) lim1(1)] by (simp del: not_None_eq)
    then obtain blank where blank: "(if trimming s1 then erased_blank line (limit s1) else Some False) = Some blank"
      unfolding not_None_eq by (elim exE)
    have step: "search_reverse_step rows s =
        (if blank then Some (Stream_more, s1\<lparr>limit := limit s1 - 1, cursor := at i (limit s1 - 1)\<rparr>)
         else
           if separator s2 \<and> wrapColumns line = 0 then
             Some (Stream_token \<lparr>tok_cp = 0x0A, tok_first = at i (limit s2), tok_end = at (i + 1) 0\<rparr>, s2\<lparr>separator := False\<rparr>)
           else
             let s3 = s2\<lparr>separator := False\<rparr> in
             if col = 0 then
               (if i = head_line s3 then Some (Stream_done, s3\<lparr>cursor := at (length rows) 0, limit_ready := False, separator := True\<rparr>)
                else if i = 0 then None
                else Some (Stream_more, s3\<lparr>cursor := at (i - 1) 0, limit_ready := False, separator := True\<rparr>))
             else do {
               c \<leftarrow> cell_at line (col - 1);
               let s4 = s3\<lparr>cursor := at i (col - 1)\<rparr>;
               (if cell_text c = SEARCH_WIDE_CONT then Some (Stream_more, s4)
                else do {
                  t \<leftarrow> cell_token line i (limit s4) (col - 1) (cell_text c);
                  Some (Stream_token t, s4)
                })
             })"
    proof -
      have "(if limit_ready s then s
                  else s\<lparr>limit := row_limit line, limit_ready := True, trimming := (wrapColumns line = 0 \<and> cells line \<noteq> []),
                         cursor := at i (row_limit line)\<rparr>) = s1"
        by (simp add: s1_def ready_reverse_def Let_def i_def line_def)
      moreover have "(i \<ge> length rows) = False" "seeking s = False" using 3 by simp_all
      moreover have "pos_column (cursor (s2\<lparr>separator := False\<rparr>)) = col" by (simp add: s2_def col_def)
      ultimately show ?thesis
        unfolding search_reverse_step_def Let_def i_def [symmetric] line_def [symmetric]
        by (simp only: if_False blank Option.bind.bind_lunit s2_def [symmetric])
    qed
    show ?thesis
    proof (cases blank)
      case True
      then have t: "trimming s1" "erased_blank line (limit s1) = Some True" "limit s1 \<noteq> 0"
        using blank by (auto simp: erased_blank_def split: if_splits)
      define s' where "s' = s1\<lparr>limit := limit s1 - 1, cursor := at i (limit s1 - 1)\<rparr>"
      have f: "cursor s' = at i (limit s1 - 1)" "limit_ready s'" "reverse s'" "trimming s'" "limit s' = limit s1 - 1"
        "\<not> seeking s'" "separator s' = separator s" "head_line s' = 0"
        using s1 t by (simp_all add: s'_def)
      have l': "stream_limit rows s' = lim"
        using t s1 f trim_blank_step [of line "limit s1"] by (simp add: stream_limit_def Let_def line_def)
      have "reverse_pending rows s' = reverse_pending rows s"
        using pend t f 3(1) by (simp add: reverse_pending_def Let_def l' line_def)
      moreover have "reverse_cost rows s' < reverse_cost rows s"
      proof -
        have "reverse_cost rows s' = limit s' + (limit s1 - 1) + 1 + of_bool (separator s) + before"
          using f 3(1) by (simp add: reverse_cost_def Let_def before_def)
        then show ?thesis using cost t f lim1(3) by simp
      qed
      moreover have "reverse_ok rows s'"
        using ok f lim1 3(1) by (auto simp: reverse_ok_def stream_ok_def line_def)
      moreover have "search_reverse_step rows s = Some (Stream_more, s')" using step True by (simp add: s'_def)
      ultimately show ?thesis unfolding rev by auto
    next
      case nb: False
      have lim2: "lim = limit s2" "trimming s1 \<Longrightarrow> lim = col"
        using s1 blank nb trim_blank_step [of line "limit s1"] lim1(3)
        by (auto simp: stream_limit_def Let_def s2_def line_def split: if_splits)
      have s2: "cursor s2 = at i col" "limit_ready s2" "reverse s2" "\<not> trimming s2" "limit s2 = limit s1"
        "\<not> seeking s2" "separator s2 = separator s" "head_line s2 = 0"
        using s1 by (simp_all add: s2_def col_def at_def)
      have pend2: "reverse_pending rows s = (if separator s then rev (break_tokens rows i lim) else []) @
          rev (row_tokens line i lim 0 col) @ rev (chain_tokens rows 0 i)"
        using pend lim2(2) by simp
      have cost2: "col + 1 + of_bool (separator s) + before \<le> reverse_cost rows s" using cost by (simp split: if_splits)
      define s3 where "s3 = s2\<lparr>separator := False\<rparr>"
      have s3: "cursor s3 = at i col" "limit_ready s3" "reverse s3" "\<not> trimming s3" "limit s3 = lim"
        "\<not> seeking s3" "\<not> separator s3" "head_line s3 = 0" "stream_limit rows s3 = lim"
        using s2 lim2 by (simp_all add: s3_def stream_limit_def)
      have ok3: "reverse_ok rows s3" using ok s3 lim1 lim2 s2(5) 3(1) by (simp add: reverse_ok_def stream_ok_def line_def)
      have p3: "reverse_pending rows s3 = rev (row_tokens line i lim 0 col) @ rev (chain_tokens rows 0 i)"
        using s3 3(1) by (simp add: reverse_pending_def Let_def line_def)
      have c3: "reverse_cost rows s3 = col + 1 + before" using s3 3(1) by (simp add: reverse_cost_def Let_def before_def)
      show ?thesis
      proof (cases "separator s \<and> wrapColumns line = 0")
        case True
        then have "search_reverse_step rows s =
            Some (Stream_token \<lparr>tok_cp = 0x0A, tok_first = at i lim, tok_end = at (i + 1) 0\<rparr>, s3)"
          using step nb s2 lim2 by (simp add: s3_def)
        moreover have "reverse_pending rows s = \<lparr>tok_cp = 0x0A, tok_first = at i lim, tok_end = at (i + 1) 0\<rparr> # reverse_pending rows s3"
          using pend2 p3 True ok(6) by (simp add: break_tokens_def line_def)
        moreover have "reverse_cost rows s3 < reverse_cost rows s" using c3 cost2 True by simp
        ultimately show ?thesis unfolding rev using ok3 by auto
      next
        case nosep: False
        then have p: "reverse_pending rows s = reverse_pending rows s3"
          using pend2 p3 by (auto simp: break_tokens_def line_def)
        have cost3: "col + 1 + before \<le> reverse_cost rows s" using cost2 by simp
        show ?thesis
        proof (cases "col = 0")
          case True
          then have rest: "reverse_pending rows s = rev (chain_tokens rows 0 i)" using p p3 by simp
          show ?thesis
          proof (cases "i = 0")
            case i0: True
            let ?s = "s3\<lparr>cursor := at (length rows) 0, limit_ready := False, separator := True\<rparr>"
            have "search_reverse_step rows s = Some (Stream_done, ?s)"
              using step nb nosep True i0 s2 s3 by (simp add: Let_def flip: s3_def)
            moreover have "reverse_ok rows ?s" using ok s3 by (simp add: reverse_ok_def stream_ok_def)
            moreover have "reverse_pending rows ?s = []" by (simp add: reverse_pending_def Let_def)
            ultimately show ?thesis unfolding rev using rest i0 by auto
          next
            case i1: False
            let ?s = "s3\<lparr>cursor := at (i - 1) 0, limit_ready := False, separator := True\<rparr>"
            have st: "search_reverse_step rows s = Some (Stream_more, ?s)"
              using step nb nosep True i1 s2 s3 by (simp add: Let_def flip: s3_def)
            moreover have "reverse_ok rows ?s" using ok s3 i1 3(1) by (simp add: reverse_ok_def stream_ok_def)
            moreover have "reverse_pending rows ?s = rev (chain_tokens rows 0 i)"
              using s3 i1 3(1) chain_tokens_last [of 0 i rows]
              by (simp add: reverse_pending_def Let_def stream_limit_def whole_row_def)
            moreover have "reverse_cost rows ?s < reverse_cost rows s"
            proof -
              have "i - 1 < length rows" "Suc (i - 1) = i" using i1 3(1) by simp_all
              then have "reverse_cost rows ?s = before"
                using cost_take [of "i - 1" rows] s3 by (simp add: reverse_cost_def Let_def before_def)
              then show ?thesis using cost3 by simp
            qed
            ultimately show ?thesis unfolding rev using rest by auto
          qed
        next
          case cell: False
          define s4 where "s4 = s3\<lparr>cursor := at i (col - 1)\<rparr>"
          have lt: "lim \<le> line_size line" "col - 1 < lim" using lim1 lim2 s2(5) cell by simp_all
          have s4: "cursor s4 = at i (col - 1)" "limit_ready s4" "reverse s4" "\<not> trimming s4" "limit s4 = lim"
            "\<not> seeking s4" "\<not> separator s4" "head_line s4 = 0" "stream_limit rows s4 = lim"
            using s3 by (simp_all add: s4_def stream_limit_def Let_def)
          have ok4: "reverse_ok rows s4" using ok s4 lt 3(1) by (simp add: reverse_ok_def stream_ok_def line_def)
          have "reverse_pending rows s4 = rev (row_tokens line i lim 0 (col - 1)) @ rev (chain_tokens rows 0 i)"
            using s4 3(1) by (simp add: reverse_pending_def Let_def line_def)
          then have p4: "reverse_pending rows s = rev (cell_tokens line i lim (col - 1)) @ reverse_pending rows s4"
            using p p3 row_tokens_last [of 0 col line i lim] cell by simp
          have "reverse_cost rows s4 = col + before" using s4 3(1) cell by (simp add: reverse_cost_def Let_def before_def)
          then have c4: "reverse_cost rows s4 < reverse_cost rows s" using cost3 by simp
          have step4: "search_reverse_step rows s =
              (if cell_text (cells line ! (col - 1)) = SEARCH_WIDE_CONT then Some (Stream_more, s4)
               else do { t \<leftarrow> cell_token line i lim (col - 1) (cell_text (cells line ! (col - 1))); Some (Stream_token t, s4) })"
            using step nb nosep cell s2 cell_token_eq(1) [OF ok(4) lt] s4(5) by (simp add: Let_def s4_def flip: s3_def)
          show ?thesis
          proof (cases "cell_text (cells line ! (col - 1)) = SEARCH_WIDE_CONT")
            case True
            then show ?thesis unfolding rev using step4 ok4 p4 c4 cell_token_eq(3) [OF ok(4) lt] by simp
          next
            case False
            from cell_token_eq(2) [OF ok(4) lt this] obtain t where
              "cell_token line i lim (col - 1) (cell_text (cells line ! (col - 1))) = Some t" "cell_tokens line i lim (col - 1) = [t]" by blast
            then show ?thesis unfolding rev using step4 ok4 p4 c4 False by simp
          qed
        qed
      qed
    qed
  qed
qed


interpretation backward: token_stream "con_search_stream_step rows" "reverse_ok rows" "reverse_pending rows" "reverse_cost rows" for rows
  by unfold_locales (rule reverse_law)

lemma begin_forward:
  assumes "list_all searchable rows"
  shows "forward_ok rows (con_search_stream_begin 0 0)"
    and "forward_pending rows (con_search_stream_begin 0 0) = chain_tokens rows 0 (length rows)"
  using assms by (auto simp: forward_ok_def stream_ok_def con_search_stream_begin_def forward_pending_def Let_def
    stream_limit_def chain_tokens_first whole_row_def)

lemma begin_reverse:
  assumes "list_all searchable rows"
  shows "reverse_ok rows (con_search_stream_reverse_begin 0)"
    and "reverse_pending rows (con_search_stream_reverse_begin 0) = rev (chain_tokens rows 0 (length rows))"
  using assms by (auto simp: reverse_ok_def stream_ok_def con_search_stream_begin_def con_search_stream_reverse_begin_def
    reverse_pending_def Let_def)

text \<open>
  C14. Over any chain of readable rows the reverse stream answers exactly the tokens of the forward
  stream in the opposite order, with the same code points and positions, and each ends after a number
  of calls that is bounded by the size of the rows. Neither reads outside a row.
\<close>

theorem stream_reverse_mirrors:
  assumes "list_all searchable rows" and "n > length rows + sum_list (map row_cost rows)"
  shows "\<exists>ts. stream_run (con_search_stream_step rows) n (con_search_stream_begin 0 0) = Some (ts, True) \<and>
    stream_run (con_search_stream_step rows) n (con_search_stream_reverse_begin 0) = Some (rev ts, True)"
proof -
  have "stream_cost rows (con_search_stream_begin 0 0) \<le> sum_list (map row_cost rows)"
    by (cases rows) (simp_all add: stream_cost_def con_search_stream_begin_def)
  moreover have "reverse_cost rows (con_search_stream_reverse_begin 0) \<le> length rows + sum_list (map row_cost rows)"
    by (simp add: reverse_cost_def con_search_stream_reverse_begin_def con_search_stream_begin_def)
  ultimately show ?thesis
    using forward.run_all [OF begin_forward(1) [OF assms(1)], of n] backward.run_all [OF begin_reverse(1) [OF assms(1)], of n]
      begin_forward(2) [OF assms(1)] begin_reverse(2) [OF assms(1)] assms(2) by simp
qed


theorem stream_reverse_mirrors_witness:
  "\<exists>ts. stream_run (con_search_stream_step [letter_row 65, letter_row 66]) 20 (con_search_stream_begin 0 0) = Some (ts, True) \<and>
    stream_run (con_search_stream_step [letter_row 65, letter_row 66]) 20 (con_search_stream_reverse_begin 0) = Some (rev ts, True)"
proof -
  have "list_all searchable [letter_row 65, letter_row 66]" by (simp add: line_ok_searchable)
  then show ?thesis
    by (rule stream_reverse_mirrors) (simp add: row_cost_def letter_row_def blank_row_def)
qed

end
