(* ===== verification/Search.thy ===== *)
theory Search
  imports Search_Stream
begin

text \<open>
  Literal search over retained rows (\<open>devs/consoleng/search.c\<close>): the automaton of Knuth, Morris and
  Pratt over the token stream. \<open>None\<close> is a memory fault or a loop that does not end.
\<close>

section \<open>The longest number with a property\<close>

fun longest :: "(nat \<Rightarrow> bool) \<Rightarrow> nat \<Rightarrow> nat" where
  "longest Q 0 = 0"
| "longest Q (Suc n) = (if Q (Suc n) then Suc n else longest Q n)"

lemma longest_le: "longest Q n \<le> n"
  by (induction n) auto

lemma longest_holds: "longest Q n = 0 \<or> Q (longest Q n)"
  by (induction n) auto

lemma longest_max: "Q k \<Longrightarrow> k \<le> n \<Longrightarrow> k \<le> longest Q n"
  by (induction n) (auto simp: le_Suc_eq)

lemma longest_eqI:
  assumes "k \<le> n" and "k = 0 \<or> Q k" and "\<And>j. Q j \<Longrightarrow> j \<le> n \<Longrightarrow> j \<le> k"
  shows "longest Q n = k"
proof (rule antisym)
  show "longest Q n \<le> k"
    using longest_holds [of Q n] longest_le [of Q n] assms(3) by (metis zero_le)
  show "k \<le> longest Q n" using assms(1,2) longest_max [of Q k n] by auto
qed

lemma longest_cong: "(\<And>k. 0 < k \<Longrightarrow> k \<le> n \<Longrightarrow> Q k = S k) \<Longrightarrow> longest Q n = longest S n"
  by (induction n) auto

section \<open>The automaton\<close>

definition search_fold :: "bool \<Rightarrow> codepoint \<Rightarrow> codepoint" where
  "search_fold folded cp = (if folded \<and> 0x41 \<le> cp \<and> cp \<le> 0x5A then cp + 0x20 else cp)"

definition CON_SEARCH_MAX :: nat where "CON_SEARCH_MAX = 256"

text \<open>The inner loop of both phases: fall back along the failure table until the code point fits.\<close>

partial_function (option) kmp_fall :: "codepoint list \<Rightarrow> nat list \<Rightarrow> codepoint \<Rightarrow> nat \<Rightarrow> nat option" where
  "kmp_fall q table cp m =
     (if m \<ge> length q \<or> m > length table then None
      else if m \<noteq> 0 \<and> cp \<noteq> q ! m then kmp_fall q table cp (table ! (m - 1))
      else Some m)"

definition kmp_advance :: "codepoint list \<Rightarrow> nat list \<Rightarrow> codepoint \<Rightarrow> nat \<Rightarrow> nat option" where
  "kmp_advance q table cp m = do {
     k \<leftarrow> kmp_fall q table cp m;
     Some (if cp = q ! k then k + 1 else k)
   }"

function prefix_loop :: "codepoint list \<Rightarrow> nat list \<Rightarrow> nat \<Rightarrow> nat \<Rightarrow> nat list option" where
  "prefix_loop q table i pfx =
     (if i \<ge> length q then Some table
      else do {
        pfx' \<leftarrow> kmp_advance q table (q ! i) pfx;
        prefix_loop q (table[i := pfx']) (i + 1) pfx'
      })"
  by pat_completeness auto
termination by (relation "measure (\<lambda>(q, _, i, _). length q - i)") auto

declare prefix_loop.simps [simp del]

record con_search =
  query :: "codepoint list"
  prefix_table :: "nat list"
  recent :: "search_position list"
  stream :: search_stream
  matched :: nat
  next_slot :: nat
  ascii_fold :: bool

definition con_search_cancel :: con_search where
  "con_search_cancel =
     \<lparr>query = [], prefix_table = [], recent = [], stream = (con_search_stream_begin 0 0),
      matched = 0, next_slot = 0, ascii_fold = False\<rparr>"

definition query_char :: "codepoint \<Rightarrow> bool" where
  "query_char cp \<longleftrightarrow> cp \<noteq> 0 \<and> cp \<le> 0x10FFFF \<and> \<not> (0xD800 \<le> cp \<and> cp \<le> 0xDFFF)"

definition con_search_begin :: "nat \<Rightarrow> nat \<Rightarrow> codepoint list \<Rightarrow> bool \<Rightarrow> (bool \<times> con_search) option" where
  "con_search_begin first col text folded =
     (if text = [] \<or> length text > CON_SEARCH_MAX \<or> \<not> list_all query_char text then Some (False, con_search_cancel)
      else
        let q = map (search_fold folded) text; n = length q in do {
        table \<leftarrow> prefix_loop q (replicate n 0) 1 0;
        Some (True, \<lparr>query = q, prefix_table = table, recent = replicate n (at 0 0),
          stream = con_search_stream_begin first col, matched = 0, next_slot = 0, ascii_fold = folded\<rparr>)
      })"

datatype search_result = Search_done | Search_more | Search_found search_position search_position

text \<open>One token: remember where it starts, run the automaton, and say whether a match ends here.\<close>

definition search_token_step :: "search_token \<Rightarrow> con_search \<Rightarrow> (search_result option \<times> con_search) option" where
  "search_token_step t s =
     (let n = length (query s); cp = search_fold (ascii_fold s) (tok_cp t) in
      if next_slot s \<ge> length (recent s) then None
      else
        let recent' = (recent s)[next_slot s := tok_first t]; slot = (next_slot s + 1) mod n in do {
        m \<leftarrow> kmp_advance (query s) (prefix_table s) cp (matched s);
        let s' = s\<lparr>recent := recent', next_slot := slot, matched := m\<rparr>;
        Some (if m = n then (Some (Search_found (recent' ! slot) (tok_end t)), s'\<lparr>matched := prefix_table s ! (m - 1)\<rparr>)
              else (None, s'))
      })"

fun search_loop :: "charmap_line list \<Rightarrow> nat \<Rightarrow> con_search \<Rightarrow> (search_result \<times> con_search) option" where
  "search_loop rows 0 s = Some (if pos_line (cursor (stream s)) < length rows then Search_more else Search_done, s)"
| "search_loop rows (Suc budget) s =
     (if pos_line (cursor (stream s)) \<ge> length rows then Some (Search_done, s)
      else do {
        (r, st) \<leftarrow> con_search_stream_step rows (stream s);
        let s1 = s\<lparr>stream := st\<rparr>;
        (case r of
           Stream_done \<Rightarrow> Some (Search_done, s1)
         | Stream_more \<Rightarrow> search_loop rows budget s1
         | Stream_token t \<Rightarrow> do {
             (found, s2) \<leftarrow> search_token_step t s1;
             (case found of Some m \<Rightarrow> Some (m, s2) | None \<Rightarrow> search_loop rows budget s2)
           })
      })"

definition con_search_step :: "charmap_line list \<Rightarrow> nat \<Rightarrow> con_search \<Rightarrow> (search_result \<times> con_search) option" where
  "con_search_step rows budget s =
     (if query s = [] \<or> pos_line (cursor (stream s)) \<ge> length rows then Some (Search_done, s)
      else search_loop rows budget s)"

section \<open>Failure table\<close>

text \<open>The longest proper border of the first \<open>m\<close> code points of the query.\<close>

definition border :: "codepoint list \<Rightarrow> nat \<Rightarrow> nat" where
  "border q m = longest (\<lambda>j. suffix (take j q) (take m q)) (m - 1)"

definition table_ok :: "codepoint list \<Rightarrow> nat list \<Rightarrow> nat \<Rightarrow> bool" where
  "table_ok q table n \<longleftrightarrow> n \<le> length table \<and> (\<forall>k < n. table ! k = border q (k + 1))"

lemma border_less: "0 < m \<Longrightarrow> border q m < m"
  using longest_le [of "\<lambda>j. suffix (take j q) (take m q)" "m - 1"] by (simp add: border_def)

lemma border_suffix: "suffix (take (border q m) q) (take m q)"
  using longest_holds [of "\<lambda>j. suffix (take j q) (take m q)" "m - 1"] by (auto simp: border_def)

lemma suffix_take_le:
  assumes "suffix (take j q) t" and "suffix (take m q) t" and "j \<le> m" and "m \<le> length q"
  shows "suffix (take j q) (take m q)"
  using suffix_length_suffix [OF assms(1,2)] assms(3,4) by simp

lemma kmp_fall_longest:
  assumes "table_ok q table m" and "m < length q"
  shows "kmp_fall q table cp m = Some (longest (\<lambda>k. suffix (take k q) (take m q) \<and> q ! k = cp) m)"
  using assms
proof (induction m rule: less_induct)
  case (less m)
  let ?Q = "\<lambda>m k. suffix (take k q) (take m q) \<and> q ! k = cp"
  have len: "m \<le> length table" using less.prems by (simp add: table_ok_def)
  show ?case
  proof (cases "m \<noteq> 0 \<and> cp \<noteq> q ! m")
    case False
    then have "longest (?Q m) m = m"
      by (intro longest_eqI) auto
    with False len less.prems show ?thesis by (subst kmp_fall.simps) auto
  next
    case True
    define b where "b = border q m"
    have b: "b < m" "suffix (take b q) (take m q)" using border_less border_suffix True by (simp_all add: b_def)
    have t: "table ! (m - 1) = b" using less.prems True by (simp add: table_ok_def b_def)
    have "table_ok q table b" "b < length q" using less.prems b by (simp_all add: table_ok_def)
    then have IH: "kmp_fall q table cp b = Some (longest (?Q b) b)" using less.IH b by simp
    have "longest (?Q m) m = longest (?Q b) b"
    proof (rule longest_eqI)
      show "longest (?Q b) b \<le> m" using longest_le [of "?Q b" b] b(1) by simp
      show "longest (?Q b) b = 0 \<or> ?Q m (longest (?Q b) b)"
        using longest_holds [of "?Q b" b] b(2) suffix_order.trans by blast
      fix j assume j: "?Q m j" "j \<le> m"
      then have "j \<noteq> m" using True by auto
      then have "j \<le> m - 1" using j by simp
      then have jb: "j \<le> b" using j(1) longest_max [of "\<lambda>j. suffix (take j q) (take m q)" j "m - 1"] by (simp add: b_def border_def)
      have "suffix (take j q) (take b q)"
        by (rule suffix_take_le [OF _ b(2) jb]) (use j(1) b(1) less.prems in simp_all)
      then show "j \<le> longest (?Q b) b" using j(1) jb by (intro longest_max) simp_all
    qed
    with IH t True len less.prems show ?thesis by (subst kmp_fall.simps) simp
  qed
qed

text \<open>One more code point: the longest suffix of the extended text that begins the query.\<close>

lemma kmp_advance_longest:
  assumes "table_ok q table m" and "m = longest (\<lambda>j. suffix (take j q) t) b" and "b < length q"
  shows "kmp_advance q table cp m = Some (longest (\<lambda>j. suffix (take j q) (t @ [cp])) (b + 1))"
proof -
  let ?S = "\<lambda>j. suffix (take j q) t" and ?S' = "\<lambda>j. suffix (take j q) (t @ [cp])"
  let ?Q = "\<lambda>k. suffix (take k q) (take m q) \<and> q ! k = cp"
  have m: "m \<le> b" "m < length q" "suffix (take m q) t"
    using longest_le [of ?S b] longest_holds [of ?S b] assms(2,3) by auto
  define k where "k = longest ?Q m"
  have k: "k \<le> m" "k = 0 \<or> ?Q k" using longest_le [of ?Q m] longest_holds [of ?Q m] by (simp_all add: k_def)
  have ext: "?S' (Suc j) \<longleftrightarrow> ?S j \<and> q ! j = cp" if "j < length q" for j
    using that by (auto simp: take_Suc_conv_app_nth)
  have QS: "?Q j \<longleftrightarrow> ?S j \<and> q ! j = cp" if "j \<le> m" for j
    using that m suffix_take_le [of j q t m] suffix_order.trans [of "take j q" "take m q" t] by auto
  have "longest ?S' (b + 1) = (if cp = q ! k then k + 1 else k)"
  proof (rule longest_eqI)
    show "(if cp = q ! k then k + 1 else k) \<le> b + 1" using k(1) m(1) by simp
    show "(if cp = q ! k then k + 1 else k) = 0 \<or> ?S' (if cp = q ! k then k + 1 else k)"
      using k QS [of k] ext [of k] m(2) by auto
    fix j assume j: "?S' j" "j \<le> b + 1"
    show "j \<le> (if cp = q ! k then k + 1 else k)"
    proof (cases j)
      case (Suc i)
      then have "i < length q" "i \<le> b" using j(2) assms(3) by simp_all
      then have i: "?S i" "q ! i = cp" using ext [of i] j(1) Suc by simp_all
      then have "i \<le> m" using longest_max [of ?S i b] assms(2) \<open>i \<le> b\<close> by simp
      then have "?Q i" using QS [OF \<open>i \<le> m\<close>] i by blast
      then have "i \<le> k" using longest_max [of ?Q i m] \<open>i \<le> m\<close> by (simp add: k_def)
      moreover have "cp = q ! k"
      proof (cases "k = 0")
        case True
        then show ?thesis using i(2) \<open>i \<le> k\<close> by simp
      next
        case False
        then show ?thesis using k(2) by simp
      qed
      ultimately show ?thesis using Suc by simp
    qed simp
  qed
  then show ?thesis
    using kmp_fall_longest [OF assms(1) m(2), of cp] by (simp add: kmp_advance_def k_def)
qed

lemma prefix_loop_ok:
  assumes "1 \<le> i" and "i \<le> length q" and "length table = length q" and "table_ok q table i" and "pfx = border q i"
  shows "\<exists>table'. prefix_loop q table i pfx = Some table' \<and> length table' = length q \<and> table_ok q table' (length q)"
  using assms
proof (induction "length q - i" arbitrary: i table pfx rule: less_induct)
  case less
  show ?case
  proof (cases "i = length q")
    case True
    then show ?thesis using less.prems by (subst prefix_loop.simps) simp
  next
    case False
    then have i: "i < length q" using less.prems by simp
    have "pfx < i" using border_less [of i q] less.prems by simp
    then have tp: "table_ok q table pfx" using less.prems(4) by (simp add: table_ok_def)
    have eq: "pfx = longest (\<lambda>j. suffix (take j q) (take i q)) (i - 1)" using less.prems(5) by (simp add: border_def)
    have "take i q @ [q ! i] = take (i + 1) q" using i by (simp add: take_Suc_conv_app_nth)
    then have adv: "kmp_advance q table (q ! i) pfx = Some (border q (i + 1))"
      using kmp_advance_longest [OF tp eq, of "q ! i"] i less.prems(1) by (simp add: border_def)
    have "table_ok q (table[i := border q (i + 1)]) (i + 1)"
      using less.prems(3,4) i by (auto simp: table_ok_def nth_list_update less_Suc_eq)
    then have "\<exists>table'. prefix_loop q (table[i := border q (i + 1)]) (i + 1) (border q (i + 1)) = Some table' \<and>
        length table' = length q \<and> table_ok q table' (length q)"
      using i less.prems(3) by (intro less.hyps) simp_all
    then obtain table' where "prefix_loop q (table[i := border q (i + 1)]) (i + 1) (border q (i + 1)) = Some table'"
        "length table' = length q" "table_ok q table' (length q)" by blast
    then show ?thesis using adv i by (subst prefix_loop.simps) simp
  qed
qed


section \<open>Occurrences\<close>

definition token_text :: "bool \<Rightarrow> search_token list \<Rightarrow> codepoint list" where
  "token_text folded ts = map (search_fold folded \<circ> tok_cp) ts"

text \<open>Where the query occurs in the text of the tokens: the start of its first and the end of its last token.\<close>

definition occurrences :: "bool \<Rightarrow> codepoint list \<Rightarrow> search_token list \<Rightarrow> search_result list" where
  "occurrences folded q ts =
     (let n = length q in
      map (\<lambda>i. Search_found (tok_first (ts ! i)) (tok_end (ts ! (i + n - 1))))
        (filter (\<lambda>i. take n (drop i (token_text folded ts)) = q) [0..<length ts + 1 - n]))"

text \<open>The same, by the token an occurrence ends at.\<close>

definition hit_at :: "bool \<Rightarrow> codepoint list \<Rightarrow> search_token list \<Rightarrow> search_result list" where
  "hit_at folded q ts =
     (if suffix q (token_text folded ts)
      then [Search_found (tok_first (ts ! (length ts - length q))) (tok_end (last ts))] else [])"

fun hits :: "bool \<Rightarrow> codepoint list \<Rightarrow> search_token list \<Rightarrow> search_token list \<Rightarrow> search_result list" where
  "hits folded q h [] = []"
| "hits folded q h (t # ts) = hit_at folded q (h @ [t]) @ hits folded q (h @ [t]) ts"

lemma hits_append: "hits folded q h (xs @ ys) = hits folded q h xs @ hits folded q (h @ xs) ys"
  by (induction xs arbitrary: h) simp_all

lemma length_token_text [simp]: "length (token_text folded ts) = length ts"
  by (simp add: token_text_def)

lemma token_text_append [simp]: "token_text folded (xs @ ys) = token_text folded xs @ token_text folded ys"
  by (simp add: token_text_def)

lemma suffix_drop_iff: "suffix q t \<longleftrightarrow> length q \<le> length t \<and> drop (length t - length q) t = q"
proof
  assume "length q \<le> length t \<and> drop (length t - length q) t = q"
  then show "suffix q t" by (metis suffix_drop)
qed (auto simp: suffix_def)

lemma occurrences_snoc:
  assumes "q \<noteq> []"
  shows "occurrences folded q (ts @ [t]) = occurrences folded q ts @ hit_at folded q (ts @ [t])"
proof (cases "length q \<le> length ts + 1")
  case False
  then show ?thesis by (auto simp: occurrences_def hit_at_def Let_def suffix_drop_iff)
next
  case True
  define n where "n = length q"
  define m where "m = length ts + 1 - n"
  have n: "0 < n" "m + n = length ts + 1" using assms True by (simp_all add: n_def m_def)
  have "length (ts @ [t]) + 1 - n = Suc m" using n by simp
  then have upt: "[0..<length (ts @ [t]) + 1 - n] = [0..<m] @ [m]" by (simp only: upt_Suc) simp
  have old: "take n (drop i (token_text folded (ts @ [t]))) = take n (drop i (token_text folded ts))" if "i < m" for i
    using that n by simp
  have nth: "(ts @ [t]) ! i = ts ! i" "(ts @ [t]) ! (i + n - 1) = ts ! (i + n - 1)" if "i < m" for i
    using that n by (simp_all add: nth_append)
  have "filter (\<lambda>i. take n (drop i (token_text folded (ts @ [t]))) = q) [0..<m] =
      filter (\<lambda>i. take n (drop i (token_text folded ts)) = q) [0..<m]"
    by (intro filter_cong) (simp_all add: old del: token_text_append)
  moreover have "map (\<lambda>i. Search_found (tok_first ((ts @ [t]) ! i)) (tok_end ((ts @ [t]) ! (i + n - 1)))) (filter Q [0..<m]) =
      map (\<lambda>i. Search_found (tok_first (ts ! i)) (tok_end (ts ! (i + n - 1)))) (filter Q [0..<m])" for Q
    by (intro map_cong refl) (simp only: set_filter set_upt mem_Collect_eq atLeastLessThan_iff nth)
  moreover have "take n (drop m (token_text folded (ts @ [t]))) = q \<longleftrightarrow> suffix q (token_text folded (ts @ [t]))"
  proof -
    have "length (token_text folded (ts @ [t])) - length q = m" using n by (simp add: n_def m_def)
    moreover have "length (drop m (token_text folded (ts @ [t]))) = n" using n by simp
    ultimately show ?thesis using True by (simp add: suffix_drop_iff)
  qed
  moreover have "length (ts @ [t]) - n = m" "(ts @ [t]) ! (m + n - 1) = t" using n by simp_all
  ultimately show ?thesis
    unfolding occurrences_def hit_at_def Let_def n_def [symmetric] upt by (simp add: m_def del: token_text_append upt_Suc)
qed

lemma occurrences_hits:
  assumes "q \<noteq> []"
  shows "occurrences folded q (h @ ts) = occurrences folded q h @ hits folded q h ts"
proof (induction ts arbitrary: h)
  case (Cons t ts)
  show ?case using Cons.IH [of "h @ [t]"] occurrences_snoc [OF assms, of folded h t] by simp
qed simp

section \<open>One token\<close>

text \<open>
  After the tokens \<open>h\<close> the automaton holds the longest proper beginning of the query that the text
  ends with, and the ring the starts of the last tokens.
\<close>

definition search_inv :: "codepoint list \<Rightarrow> bool \<Rightarrow> search_token list \<Rightarrow> con_search \<Rightarrow> bool" where
  "search_inv q folded h s \<longleftrightarrow> q \<noteq> [] \<and> query s = q \<and> ascii_fold s = folded \<and> table_ok q (prefix_table s) (length q) \<and>
     length (recent s) = length q \<and> next_slot s = length h mod length q \<and>
     matched s = longest (\<lambda>j. suffix (take j q) (token_text folded h)) (length q - 1) \<and>
     (\<forall>p < length h. length h \<le> p + length q \<longrightarrow> recent s ! (p mod length q) = tok_first (h ! p))"

lemma ring_distinct:
  fixes p l n :: nat
  assumes "p < l" and "l < p + n"
  shows "p mod n \<noteq> l mod n"
proof
  assume "p mod n = l mod n"
  then have "n dvd l - p" using assms(1) by (metis mod_eq_dvd_iff_nat less_imp_le)
  then show False using nat_dvd_not_less [of "l - p" n] assms by simp
qed

lemma token_step_ok:
  assumes inv: "search_inv q folded h s"
  shows "\<exists>found s'. search_token_step t s = Some (found, s') \<and> search_inv q folded (h @ [t]) s' \<and> stream s' = stream s \<and>
    hit_at folded q (h @ [t]) = (case found of None \<Rightarrow> [] | Some m \<Rightarrow> [m]) \<and>
    (\<forall>m. found = Some m \<longrightarrow> (\<exists>a b. m = Search_found a b))"
proof -
  define n where "n = length q"
  define cp where "cp = search_fold folded (tok_cp t)"
  define tx where "tx = token_text folded h"
  have s: "query s = q" "ascii_fold s = folded" "length (recent s) = n" "next_slot s = length h mod n" "0 < n"
    "table_ok q (prefix_table s) n" "matched s = longest (\<lambda>j. suffix (take j q) tx) (n - 1)"
    "\<And>p. p < length h \<Longrightarrow> length h \<le> p + n \<Longrightarrow> recent s ! (p mod n) = tok_first (h ! p)"
    using inv by (auto simp: search_inv_def n_def tx_def)
  have tx': "token_text folded (h @ [t]) = tx @ [cp]" by (simp add: tx_def cp_def token_text_def)
  have "matched s \<le> n - 1" using longest_le s(7) by simp
  then have tm: "table_ok q (prefix_table s) (matched s)" using s(6) by (auto simp: table_ok_def)
  define m where "m = longest (\<lambda>j. suffix (take j q) (tx @ [cp])) n"
  have adv: "kmp_advance q (prefix_table s) cp (matched s) = Some m"
  proof -
    have bn: "n - 1 < length q" "n - 1 + 1 = n" using s(5) by (simp_all add: n_def)
    show ?thesis using kmp_advance_longest [OF tm s(7) bn(1), of cp] unfolding bn(2) m_def .
  qed
  define recent' where "recent' = (recent s)[next_slot s := tok_first t]"
  define slot where "slot = (next_slot s + 1) mod n"
  have slot: "next_slot s < n" "slot = length (h @ [t]) mod n" using s(4,5) by (simp_all add: slot_def mod_Suc_eq)
  have ring: "recent' ! (p mod n) = tok_first ((h @ [t]) ! p)" if "p < length (h @ [t])" "length (h @ [t]) \<le> p + n" for p
  proof (cases "p = length h")
    case True
    then show ?thesis using s(3) slot(1) s(4) by (simp add: recent'_def)
  next
    case False
    then have p: "p < length h" "length h < p + n" using that by simp_all
    then have "p mod n \<noteq> next_slot s" using ring_distinct s(4) by simp
    then show ?thesis using s(8) [of p] p by (simp add: recent'_def nth_append)
  qed
  have found: "m = n \<longleftrightarrow> suffix q (tx @ [cp])"
  proof
    assume "m = n"
    then show "suffix q (tx @ [cp])"
      using longest_holds [of "\<lambda>j. suffix (take j q) (tx @ [cp])" n] s(5) by (auto simp: m_def n_def)
  next
    assume "suffix q (tx @ [cp])"
    then show "m = n" unfolding m_def by (intro longest_eqI) (simp_all add: n_def)
  qed
  define base where "base = s\<lparr>recent := recent', next_slot := slot\<rparr>"
  have inv': "search_inv q folded (h @ [t]) (base\<lparr>matched := k\<rparr>)"
    if "k = longest (\<lambda>j. suffix (take j q) (tx @ [cp])) (n - 1)" for k
    using that s slot(2) ring inv unfolding search_inv_def tx'
    by (simp add: base_def recent'_def n_def)
  show ?thesis
  proof (cases "m = n")
    case True
    have b: "prefix_table s ! (m - 1) = border q n" using s(5,6) True by (simp add: table_ok_def)
    have sq: "suffix q (tx @ [cp])" using found True by simp
    have "border q n = longest (\<lambda>j. suffix (take j q) (tx @ [cp])) (n - 1)"
      unfolding border_def
    proof (rule longest_cong)
      fix k assume "0 < k" "k \<le> n - 1"
      then have "k \<le> length q" by (simp add: n_def)
      then show "suffix (take k q) (take n q) = suffix (take k q) (tx @ [cp])"
        using suffix_take_le [of k q "tx @ [cp]" n] sq suffix_order.trans [of "take k q" q "tx @ [cp]"] by (auto simp: n_def)
    qed
    then have "search_inv q folded (h @ [t]) (base\<lparr>matched := border q n\<rparr>)" by (rule inv')
    moreover have "search_token_step t s = Some (Some (Search_found (recent' ! slot) (tok_end t)), base\<lparr>matched := border q n\<rparr>)"
      using s slot(1) adv True b unfolding search_token_step_def Let_def n_def [symmetric]
      by (simp add: base_def recent'_def slot_def flip: cp_def n_def)
    moreover have "hit_at folded q (h @ [t]) = [Search_found (recent' ! slot) (tok_end t)]"
    proof -
      have le: "n \<le> length (h @ [t])" using suffix_length_le [OF sq] by (simp add: n_def tx_def)
      have "recent' ! ((length (h @ [t]) - n) mod n) = tok_first ((h @ [t]) ! (length (h @ [t]) - n))"
        by (rule ring) (use le s(5) in auto)
      moreover have "(length (h @ [t]) - n) mod n = slot" using le_mod_geq [OF le] slot(2) by (simp only:)
      ultimately show ?thesis using sq unfolding hit_at_def tx' n_def [symmetric] by simp
    qed
    ultimately show ?thesis by (auto simp: base_def)
  next
    case False
    have "m = longest (\<lambda>j. suffix (take j q) (tx @ [cp])) (n - 1)"
      using False s(5) by (cases n) (auto simp: m_def split: if_splits)
    then have "search_inv q folded (h @ [t]) (base\<lparr>matched := m\<rparr>)" by (rule inv')
    moreover have "search_token_step t s = Some (None, base\<lparr>matched := m\<rparr>)"
      using s slot(1) adv False unfolding search_token_step_def Let_def
      by (simp add: base_def recent'_def slot_def flip: cp_def n_def)
    moreover have "hit_at folded q (h @ [t]) = []" using found False unfolding hit_at_def tx' by simp
    ultimately show ?thesis by (auto simp: base_def)
  qed
qed


section \<open>Whole searches\<close>

text \<open>What a call has done: tokens taken from those pending, and whether a match ended in them.\<close>

definition outcome :: "codepoint list \<Rightarrow> bool \<Rightarrow> charmap_line list \<Rightarrow> search_token list \<Rightarrow> search_token list \<Rightarrow> search_result \<Rightarrow> con_search \<Rightarrow> bool" where
  "outcome q folded rows h todo r s' \<longleftrightarrow> forward_ok rows (stream s') \<and>
     (if r = Search_done then hits folded q h todo = []
      else \<exists>xs. todo = xs @ forward_pending rows (stream s') \<and> search_inv q folded (h @ xs) s' \<and>
        hits folded q h xs = (if r = Search_more then [] else [r]))"

lemma outcome_token:
  assumes "outcome q folded rows (h @ [t]) todo r s'" and "hit_at folded q (h @ [t]) = []"
  shows "outcome q folded rows h (t # todo) r s'"
proof (cases "r = Search_done")
  case True
  then show ?thesis using assms by (simp add: outcome_def)
next
  case False
  with assms(1) obtain xs where "todo = xs @ forward_pending rows (stream s')" "search_inv q folded (h @ t # xs) s'"
    "hits folded q (h @ [t]) xs = (if r = Search_more then [] else [r])" "forward_ok rows (stream s')"
    by (auto simp: outcome_def)
  then have "t # todo = (t # xs) @ forward_pending rows (stream s')" "search_inv q folded (h @ (t # xs)) s'"
    "hits folded q h (t # xs) = (if r = Search_more then [] else [r])"
    using assms(2) by simp_all
  then show ?thesis unfolding outcome_def using False \<open>forward_ok rows (stream s')\<close> by metis
qed

lemma search_loop_ok:
  assumes "search_inv q folded h s" and "forward_ok rows (stream s)"
  shows "\<exists>r s'. search_loop rows budget s = Some (r, s') \<and> outcome q folded rows h (forward_pending rows (stream s)) r s' \<and>
    stream_cost rows (stream s') \<le> stream_cost rows (stream s) + of_bool (r = Search_done) * stream_cost rows (stream s') \<and>
    (0 < budget \<longrightarrow> r \<noteq> Search_done \<longrightarrow> stream_cost rows (stream s') < stream_cost rows (stream s))"
  using assms
proof (induction budget arbitrary: h s)
  case 0
  show ?case
  proof (cases "pos_line (cursor (stream s)) < length rows")
    case True
    then show ?thesis using 0 by (auto simp: outcome_def)
  next
    case False
    then show ?thesis using 0 by (simp add: forward_pending_def Let_def outcome_def)
  qed
next
  case (Suc budget)
  show ?case
  proof (cases "pos_line (cursor (stream s)) < length rows")
    case False
    then show ?thesis using Suc.prems by (simp add: forward_pending_def Let_def outcome_def)
  next
    case True
    from Suc.prems(2) show ?thesis
    proof (cases rule: forward.next_cases)
      case (over st)
      then show ?thesis using True by (simp add: outcome_def)
    next
      case (skip st)
      have inv: "search_inv q folded h (s\<lparr>stream := st\<rparr>)" "forward_ok rows (stream (s\<lparr>stream := st\<rparr>))"
        using Suc.prems(1) skip by (simp_all add: search_inv_def)
      have eq: "search_loop rows (Suc budget) s = search_loop rows budget (s\<lparr>stream := st\<rparr>)" using True skip by simp
      from Suc.IH [OF inv] skip(3,4) show ?thesis unfolding eq by force
    next
      case (token t st)
      have inv: "search_inv q folded h (s\<lparr>stream := st\<rparr>)" using Suc.prems(1) by (simp add: search_inv_def)
      from token_step_ok [OF inv, of t] obtain found s2 where
        s2: "search_token_step t (s\<lparr>stream := st\<rparr>) = Some (found, s2)" "search_inv q folded (h @ [t]) s2" "stream s2 = st"
        and hit: "hit_at folded q (h @ [t]) = (case found of None \<Rightarrow> [] | Some m \<Rightarrow> [m])"
        and fm: "\<forall>m. found = Some m \<longrightarrow> (\<exists>a b. m = Search_found a b)" by auto
      show ?thesis
      proof (cases found)
        case (Some m)
        then obtain a b where m: "m = Search_found a b" using fm by blast
        have "search_loop rows (Suc budget) s = Some (m, s2)" using True token s2 Some by simp
        moreover have "forward_pending rows (stream s) = [t] @ forward_pending rows (stream s2)" "hits folded q h [t] = [m]"
          using token s2 hit Some by simp_all
        then have "outcome q folded rows h (forward_pending rows (stream s)) m s2"
          unfolding outcome_def using m s2 token by auto
        ultimately show ?thesis using s2(3) token(4) by auto
      next
        case None
        have eq: "search_loop rows (Suc budget) s = search_loop rows budget s2" using True token s2 None by simp
        have ok2: "forward_ok rows (stream s2)" using s2 token by simp
        from Suc.IH [OF s2(2) ok2] obtain r s' where r: "search_loop rows budget s2 = Some (r, s')"
          "outcome q folded rows (h @ [t]) (forward_pending rows (stream s2)) r s'"
          "stream_cost rows (stream s') \<le> stream_cost rows (stream s2) + of_bool (r = Search_done) * stream_cost rows (stream s')" by blast
        have "outcome q folded rows h (forward_pending rows (stream s)) r s'"
          using outcome_token [OF r(2)] hit None token(3) s2(3) by simp
        then show ?thesis unfolding eq using r(1,3) token(4) s2(3) by auto
      qed
    qed
  qed
qed

text \<open>A search that is called until it is done, \<open>n\<close> times at most, with the matches it reported.\<close>

fun search_all :: "charmap_line list \<Rightarrow> nat \<Rightarrow> nat \<Rightarrow> con_search \<Rightarrow> search_result list option" where
  "search_all rows budget 0 s = None"
| "search_all rows budget (Suc n) s = do {
     (r, s') \<leftarrow> con_search_step rows budget s;
     (case r of
        Search_done \<Rightarrow> Some []
      | Search_more \<Rightarrow> search_all rows budget n s'
      | Search_found a b \<Rightarrow> map_option (\<lambda>ms. r # ms) (search_all rows budget n s'))
   }"

lemma search_step_ok:
  assumes "search_inv q folded h s" and "forward_ok rows (stream s)" and "0 < budget"
  shows "\<exists>r s'. con_search_step rows budget s = Some (r, s') \<and> outcome q folded rows h (forward_pending rows (stream s)) r s' \<and>
    (r \<noteq> Search_done \<longrightarrow> stream_cost rows (stream s') < stream_cost rows (stream s))"
proof (cases "pos_line (cursor (stream s)) < length rows")
  case True
  have "query s \<noteq> []" using assms(1) by (simp add: search_inv_def)
  then have "con_search_step rows budget s = search_loop rows budget s" using True by (simp add: con_search_step_def)
  then show ?thesis using search_loop_ok [OF assms(1,2), of budget] assms(3) by auto
next
  case False
  then show ?thesis using assms(2) by (simp add: con_search_step_def outcome_def forward_pending_def Let_def)
qed

lemma search_all_ok:
  assumes "0 < budget"
  shows "search_inv q folded h s \<Longrightarrow> forward_ok rows (stream s) \<Longrightarrow> stream_cost rows (stream s) < n \<Longrightarrow>
    search_all rows budget n s = Some (hits folded q h (forward_pending rows (stream s)))"
proof (induction n arbitrary: h s)
  case (Suc n)
  from search_step_ok [OF Suc.prems(1,2) assms] obtain r s' where
    r: "con_search_step rows budget s = Some (r, s')" "outcome q folded rows h (forward_pending rows (stream s)) r s'"
      "r \<noteq> Search_done \<longrightarrow> stream_cost rows (stream s') < stream_cost rows (stream s)" by blast
  show ?case
  proof (cases "r = Search_done")
    case True
    then show ?thesis using r by (simp add: outcome_def)
  next
    case False
    with r(2) obtain xs where xs: "forward_pending rows (stream s) = xs @ forward_pending rows (stream s')"
      "search_inv q folded (h @ xs) s'" "hits folded q h xs = (if r = Search_more then [] else [r])" "forward_ok rows (stream s')"
      by (auto simp: outcome_def)
    have "search_all rows budget n s' = Some (hits folded q (h @ xs) (forward_pending rows (stream s')))"
      using Suc.IH [OF xs(2,4)] r(3) False Suc.prems(3) by simp
    then show ?thesis using r(1) False xs(1,3) by (cases r) (simp_all add: hits_append)
  qed
qed simp

lemma search_begin_ok:
  assumes "text \<noteq> []" and "length text \<le> CON_SEARCH_MAX" and "list_all query_char text"
  shows "\<exists>s. con_search_begin i c text folded = Some (True, s) \<and> stream s = con_search_stream_begin i c \<and>
    search_inv (map (search_fold folded) text) folded [] s"
proof -
  define q where "q = map (search_fold folded) text"
  have len: "length q = length text" "1 \<le> length q" and "q \<noteq> []" using assms(1) by (simp_all add: q_def Suc_le_eq)
  have "border q 1 = 0" using border_less [of 1 q] by simp
  then have t1: "table_ok q (replicate (length q) 0) 1" "border q 1 = 0" using len by (simp_all add: table_ok_def Suc_le_eq)
  obtain table where t: "prefix_loop q (replicate (length q) 0) 1 0 = Some table" "table_ok q table (length q)"
    using prefix_loop_ok [of 1 q "replicate (length q) 0" 0] t1 len by auto
  have z: "longest (\<lambda>j. suffix (take j q) []) n = 0" if "n < length q" for n
    using that by (intro longest_eqI) auto
  show ?thesis
    using assms t len z [of "length q - 1"] \<open>q \<noteq> []\<close> unfolding con_search_begin_def Let_def q_def [symmetric]
    by (simp add: search_inv_def token_text_def flip: q_def)
qed

text \<open>
  C9. Searching from the top of any chain of readable rows, with any budget for a call, never faults,
  ends after boundedly many calls, and reports exactly the places where the query occurs in the text of
  the rows, overlapping ones included, each with the position of its first cell and the position
  behind its last, in order; with case folding both sides are folded.
\<close>

theorem search_finds_occurrences:
  assumes "list_all searchable rows" and "text \<noteq> []" and "length text \<le> CON_SEARCH_MAX" and "list_all query_char text"
    and "0 < budget" and "sum_list (map row_cost rows) < n"
  shows "\<exists>s. con_search_begin 0 0 text folded = Some (True, s) \<and>
    search_all rows budget n s = Some (occurrences folded (map (search_fold folded) text) (chain_tokens rows 0 (length rows)))"
proof -
  from search_begin_ok [OF assms(2-4)] obtain s where s: "con_search_begin 0 0 text folded = Some (True, s)"
    "stream s = con_search_stream_begin 0 0" "search_inv (map (search_fold folded) text) folded [] s" by blast
  have "stream_cost rows (con_search_stream_begin 0 0) \<le> sum_list (map row_cost rows)"
    by (cases rows) (simp_all add: stream_cost_def con_search_stream_begin_def)
  then have c: "stream_cost rows (stream s) < n" using assms(6) s(2) by simp
  have f: "forward_ok rows (stream s)" "forward_pending rows (stream s) = chain_tokens rows 0 (length rows)"
    using begin_forward [OF assms(1)] s(2) by simp_all
  have "map (search_fold folded) text \<noteq> []" using assms(2) by simp
  from occurrences_hits [OF this, of folded "[]" "chain_tokens rows 0 (length rows)"]
  have "hits folded (map (search_fold folded) text) [] (chain_tokens rows 0 (length rows)) =
      occurrences folded (map (search_fold folded) text) (chain_tokens rows 0 (length rows))"
    using \<open>map (search_fold folded) text \<noteq> []\<close> by (simp add: occurrences_def Let_def)
  then show ?thesis using s(1) search_all_ok [OF assms(5) s(3) f(1) c] f(2) by auto
qed

theorem search_finds_occurrences_witness:
  "\<exists>s. con_search_begin 0 0 [65] False = Some (True, s) \<and>
    search_all [letter_row 65, letter_row 65] 1 20 s =
      Some (occurrences False [65] (chain_tokens [letter_row 65, letter_row 65] 0 2))"
proof -
  define rows where "rows = [letter_row 65, letter_row 65]"
  have "list_all searchable rows" by (simp add: rows_def line_ok_searchable)
  moreover have "length [65 :: codepoint] \<le> CON_SEARCH_MAX" "map (search_fold False) [65] = [65]"
    by (simp_all add: CON_SEARCH_MAX_def search_fold_def)
  moreover have "list_all query_char [65]" by (simp add: query_char_def del: One_nat_def)
  moreover have "sum_list (map row_cost rows) < 20" "length rows = 2" 
    by (simp_all add: rows_def row_cost_def letter_row_def blank_row_def)
  ultimately show ?thesis
    using search_finds_occurrences [of rows "[65]" 1 20 False] unfolding rows_def by (simp add: numeral_2_eq_2)
qed

end
