(* ===== verification/Search_Select.thy ===== *)
theory Search_Select
  imports Search
begin

text \<open>
  Choosing the next or the previous match (\<open>devs/consoleng/search.c\<close>): one scan of the rows, spread
  over many calls, that wraps around at either end. A match is the pair of its first position and the
  position behind its last.
\<close>

section \<open>The selection\<close>

type_synonym search_match = "search_position \<times> search_position"

record search_selection =
  scan :: con_search
  anchor :: search_match
  first_match :: search_match
  last_match :: search_match
  backwards :: bool
  anchored :: bool
  seen_anchor :: bool
  have_match :: bool
  finished :: bool

definition con_search_select_cancel :: search_selection where
  "con_search_select_cancel =
     \<lparr>scan = con_search_cancel, anchor = (at 0 0, at 0 0), first_match = (at 0 0, at 0 0), last_match = (at 0 0, at 0 0),
      backwards = False, anchored = False, seen_anchor = False, have_match = False, finished = False\<rparr>"

definition con_search_select_begin ::
  "nat \<Rightarrow> codepoint list \<Rightarrow> bool \<Rightarrow> bool \<Rightarrow> search_match option \<Rightarrow> (bool \<times> search_selection) option" where
  "con_search_select_begin first text folded back anch = do {
     (ok, s) \<leftarrow> con_search_begin first 0 text folded;
     let sel = con_search_select_cancel\<lparr>scan := s\<rparr>;
     Some (if \<not> ok then (False, sel)
           else (True, (case anch of
                          None \<Rightarrow> sel\<lparr>backwards := back, anchored := False\<rparr>
                        | Some m \<Rightarrow> sel\<lparr>backwards := back, anchored := True, anchor := m\<rparr>)))
   }"

definition search_same_match :: "search_match \<Rightarrow> search_match \<Rightarrow> bool" where
  "search_same_match a b \<longleftrightarrow>
     pos_line (fst a) = pos_line (fst b) \<and> pos_column (fst a) = pos_column (fst b) \<and>
     pos_line (snd a) = pos_line (snd b) \<and> pos_column (snd a) = pos_column (snd b)"

definition found :: "search_match \<Rightarrow> search_result" where
  "found m = Search_found (fst m) (snd m)"

text \<open>What a match does to the selection, and the answer when it decides it.\<close>

definition note_match :: "search_match \<Rightarrow> search_selection \<Rightarrow> search_selection" where
  "note_match m sel =
     (let sel' = (if \<not> have_match sel then sel\<lparr>first_match := m\<rparr> else sel)
      in sel'\<lparr>last_match := m, have_match := True\<rparr>)"

definition select_match :: "search_match \<Rightarrow> search_selection \<Rightarrow> search_match option \<times> search_selection" where
  "select_match m sel =
     (if anchored sel \<and> search_same_match (anchor sel) m then
        let sel1 = sel\<lparr>seen_anchor := True\<rparr> in
        if backwards sel \<and> have_match sel then (Some (last_match sel), sel1\<lparr>finished := True\<rparr>)
        else (None, note_match m sel1)
      else if \<not> backwards sel \<and> (\<not> anchored sel \<or> seen_anchor sel) then (Some m, sel\<lparr>finished := True\<rparr>)
      else (None, note_match m sel))"

fun select_loop :: "charmap_line list \<Rightarrow> nat \<Rightarrow> search_selection \<Rightarrow> (search_result \<times> search_selection) option" where
  "select_loop rows 0 sel = Some (Search_more, sel)"
| "select_loop rows (Suc budget) sel = do {
     (r, s) \<leftarrow> con_search_step rows 1 (scan sel);
     let sel1 = sel\<lparr>scan := s\<rparr>;
     (case r of
        Search_done \<Rightarrow>
          let sel2 = sel1\<lparr>finished := True\<rparr> in
          Some (if \<not> have_match sel2 then Search_done
                else found (if backwards sel2 then last_match sel2 else first_match sel2), sel2)
      | Search_more \<Rightarrow> select_loop rows budget sel1
      | Search_found a b \<Rightarrow>
          (case select_match (a, b) sel1 of
             (Some m, sel2) \<Rightarrow> Some (found m, sel2)
           | (None, sel2) \<Rightarrow> select_loop rows budget sel2))
   }"

definition con_search_select_step ::
  "charmap_line list \<Rightarrow> nat \<Rightarrow> search_selection \<Rightarrow> (search_result \<times> search_selection) option" where
  "con_search_select_step rows budget sel =
     (if finished sel \<or> query (scan sel) = [] then Some (Search_done, sel) else select_loop rows budget sel)"

section \<open>Matches are distinct\<close>

lemma row_token_firsts:
  "distinct (map tok_first (row_tokens l i lim 0 b)) \<and> tok_first ` set (row_tokens l i lim 0 b) \<subseteq> at i ` {..<b}"
proof (induction b)
  case (Suc b)
  have "row_tokens l i lim 0 (Suc b) = row_tokens l i lim 0 b @ cell_tokens l i lim b"
    by (simp add: row_tokens_def)
  moreover have c: "tok_first ` set (cell_tokens l i lim b) \<subseteq> {at i b}" "distinct (map tok_first (cell_tokens l i lim b))"
    by (auto simp: cell_tokens_def Let_def)
  moreover have "at i ` {..<b} \<inter> {at i b} = {}" by (auto simp: at_def)
  then have "set (map tok_first (row_tokens l i lim 0 b)) \<inter> set (map tok_first (cell_tokens l i lim b)) = {}"
    using Int_mono [OF Suc [THEN conjunct2] c(1)] by (simp only: set_map subset_empty)
  moreover have "at i ` {..<Suc b} = at i ` {..<b} \<union> {at i b}" by (auto simp: lessThan_Suc)
  then have "tok_first ` set (row_tokens l i lim 0 b @ cell_tokens l i lim b) \<subseteq> at i ` {..<Suc b}"
    using Un_mono [OF Suc [THEN conjunct2] c(1)] by (simp only: set_append image_Un)
  ultimately show ?case using Suc by (simp only: map_append distinct_append) 
qed simp

lemma whole_row_firsts:
  "distinct (map tok_first (whole_row rows i)) \<and> pos_line ` tok_first ` set (whole_row rows i) \<subseteq> {i}"
proof -
  define e where "e = row_end (rows ! i)"
  have r: "distinct (map tok_first (row_tokens (rows ! i) i e 0 e))"
    "tok_first ` set (row_tokens (rows ! i) i e 0 e) \<subseteq> at i ` {..<e}" using row_token_firsts by auto
  have "at i e \<notin> at i ` {..<e}" "pos_line (at i c) = i" for c by (auto simp: at_def)
  with r show ?thesis by (auto simp: whole_row_def break_tokens_def e_def [symmetric])
qed

lemma chain_token_firsts:
  "distinct (map tok_first (chain_tokens rows 0 b)) \<and> pos_line ` tok_first ` set (chain_tokens rows 0 b) \<subseteq> {..<b}"
proof (induction b)
  case (Suc b)
  have "chain_tokens rows 0 (Suc b) = chain_tokens rows 0 b @ whole_row rows b" by (simp add: chain_tokens_def)
  then show ?case using Suc whole_row_firsts [of rows b] by auto fastforce+
qed simp

lemma occurrences_distinct:
  assumes "distinct (map tok_first ts)" and "q \<noteq> []"
  shows "distinct (occurrences folded q ts)"
proof -
  let ?at = "\<lambda>i. Search_found (tok_first (ts ! i)) (tok_end (ts ! (i + length q - 1)))"
  have "inj_on ?at {..<length ts}" using assms(1) by (auto simp: inj_on_def distinct_conv_nth)
  moreover have "set (filter P [0..<length ts + 1 - length q]) \<subseteq> {..<length ts}" for P
    using assms(2) by (cases q) auto
  ultimately have "inj_on ?at (set (filter P [0..<length ts + 1 - length q]))" for P by (rule inj_on_subset)
  then show ?thesis unfolding occurrences_def Let_def by (simp only: distinct_map distinct_filter distinct_upt)
qed

section \<open>The scan\<close>

text \<open>A search with the matches \<open>ms\<close> still to report.\<close>

definition searching :: "charmap_line list \<Rightarrow> search_result list \<Rightarrow> con_search \<Rightarrow> bool" where
  "searching rows ms s \<longleftrightarrow> (\<exists>q folded h. search_inv q folded h s \<and> forward_ok rows (stream s) \<and>
     hits folded q h (forward_pending rows (stream s)) = ms)"

lemma searching_step:
  assumes "searching rows ms s"
  obtains (over) s' where "con_search_step rows 1 s = Some (Search_done, s')" "ms = []"
  | (more) s' where "con_search_step rows 1 s = Some (Search_more, s')" "searching rows ms s'"
      "stream_cost rows (stream s') < stream_cost rows (stream s)"
  | (hit) a b s' ms' where "con_search_step rows 1 s = Some (Search_found a b, s')" "ms = Search_found a b # ms'"
      "searching rows ms' s'" "stream_cost rows (stream s') < stream_cost rows (stream s)"
proof -
  from assms obtain q folded h where inv: "search_inv q folded h s" "forward_ok rows (stream s)"
    and ms: "hits folded q h (forward_pending rows (stream s)) = ms" by (auto simp: searching_def)
  from search_step_ok [OF inv, of 1] obtain r s' where
    r: "con_search_step rows 1 s = Some (r, s')" "outcome q folded rows h (forward_pending rows (stream s)) r s'"
      "r \<noteq> Search_done \<longrightarrow> stream_cost rows (stream s') < stream_cost rows (stream s)" by auto
  show thesis
  proof (cases "r = Search_done")
    case True
    then show ?thesis using r ms over by (simp add: outcome_def)
  next
    case False
    with r(2) obtain xs where xs: "forward_pending rows (stream s) = xs @ forward_pending rows (stream s')"
      "search_inv q folded (h @ xs) s'" "hits folded q h xs = (if r = Search_more then [] else [r])" "forward_ok rows (stream s')"
      by (auto simp: outcome_def)
    have rest: "searching rows (hits folded q (h @ xs) (forward_pending rows (stream s'))) s'"
      using xs by (auto simp: searching_def)
    have "ms = (if r = Search_more then [] else [r]) @ hits folded q (h @ xs) (forward_pending rows (stream s'))"
      using ms xs(1,3) by (simp add: hits_append)
    then show ?thesis using r(1,3) False rest more hit by (cases r) auto
  qed
qed

lemma searching_query: "searching rows ms s \<Longrightarrow> query s \<noteq> []"
  by (auto simp: searching_def search_inv_def)

lemma searching_begin:
  assumes "list_all searchable rows" and "text \<noteq> []" and "length text \<le> CON_SEARCH_MAX" and "list_all query_char text"
  obtains s where "con_search_begin 0 0 text folded = Some (True, s)"
    "searching rows (occurrences folded (map (search_fold folded) text) (chain_tokens rows 0 (length rows))) s"
    "stream_cost rows (stream s) \<le> sum_list (map row_cost rows)"
proof -
  let ?q = "map (search_fold folded) text"
  from search_begin_ok [OF assms(2-4)] obtain s where s: "con_search_begin 0 0 text folded = Some (True, s)"
    "stream s = con_search_stream_begin 0 0" "search_inv ?q folded [] s" by blast
  have c: "stream_cost rows (con_search_stream_begin 0 0) \<le> sum_list (map row_cost rows)"
    by (cases rows) (simp_all add: stream_cost_def con_search_stream_begin_def)
  have q: "?q \<noteq> []" using assms(2) by simp
  then have "hits folded ?q [] (chain_tokens rows 0 (length rows)) = occurrences folded ?q (chain_tokens rows 0 (length rows))"
    using occurrences_hits [OF q, of folded "[]" "chain_tokens rows 0 (length rows)"] by (simp add: occurrences_def Let_def)
  then have "searching rows (occurrences folded ?q (chain_tokens rows 0 (length rows))) s"
    unfolding searching_def using s(2,3) begin_forward [OF assms(1)] by metis
  then show thesis using that s(1,2) c by simp
qed

section \<open>The choice\<close>

definition selected :: "bool \<Rightarrow> search_match option \<Rightarrow> search_match list \<Rightarrow> search_match" where
  "selected back anch ms =
     (case anch of
        Some m \<Rightarrow>
          if m \<in> set ms then
            let i = length (takeWhile (\<lambda>x. x \<noteq> m) ms); n = length ms
            in ms ! ((if back then i + n - 1 else i + 1) mod n)
          else if back then last ms else hd ms
      | None \<Rightarrow> if back then last ms else hd ms)"

text \<open>What the selection knows after the matches \<open>past\<close>, as long as it has not decided.\<close>

definition select_inv :: "bool \<Rightarrow> search_match option \<Rightarrow> search_match list \<Rightarrow> search_selection \<Rightarrow> bool" where
  "select_inv back anch past sel \<longleftrightarrow>
     \<not> finished sel \<and> backwards sel = back \<and> anchored sel = (anch \<noteq> None) \<and> (\<forall>m. anch = Some m \<longrightarrow> anchor sel = m) \<and>
     have_match sel = (past \<noteq> []) \<and> (past \<noteq> [] \<longrightarrow> first_match sel = hd past \<and> last_match sel = last past) \<and>
     (seen_anchor sel \<longleftrightarrow> (\<exists>m \<in> set past. anch = Some m)) \<and>
     (\<forall>m \<in> set past. anch = Some m \<longrightarrow> (if back then hd past = m else last past = m)) \<and>
     (\<not> back \<longrightarrow> anch = None \<longrightarrow> past = [])"

lemma same_match_iff: "search_same_match a b \<longleftrightarrow> a = b"
proof
  assume "search_same_match a b"
  then show "a = b" unfolding search_same_match_def prod_eq_iff by (simp add: search_position.equality)
qed (simp add: search_same_match_def)

lemma takeWhile_at: "m \<notin> set xs \<Longrightarrow> takeWhile (\<lambda>x. x \<noteq> m) (xs @ m # ys) = xs"
  by (induction xs) auto

lemma select_over:
  assumes "select_inv back anch past sel" and "distinct past" and "past \<noteq> []"
  shows "(if back then last_match sel else first_match sel) = selected back anch past"
proof (cases "\<exists>m \<in> set past. anch = Some m")
  case False
  then show ?thesis using assms by (auto simp: select_inv_def selected_def Let_def split: option.splits)
next
  case True
  then obtain m where m: "m \<in> set past" "anch = Some m" by blast
  then have e: "if back then hd past = m else last past = m" using assms(1) by (auto simp: select_inv_def)
  show ?thesis
  proof (cases "back")
    case True
    with e have "takeWhile (\<lambda>x. x \<noteq> m) past = []" by (cases past) auto
    then show ?thesis using True m assms(1,3) by (auto simp: select_inv_def selected_def Let_def last_conv_nth)
  next
    case False
    with e assms(3) have p: "past = butlast past @ [m]" using append_butlast_last_id [of past] by simp
    have "distinct (butlast past @ [m])" using assms(2) p by simp
    then have "m \<notin> set (butlast past)" by simp
    then have "takeWhile (\<lambda>x. x \<noteq> m) past = butlast past" using takeWhile_at [of m "butlast past" "[]"] p by simp
    then show ?thesis using False m assms(1,3) by (auto simp: select_inv_def selected_def Let_def hd_conv_nth)
  qed
qed

lemma select_hit:
  assumes inv: "select_inv back anch past sel" and dist: "distinct (past @ m # ms)"
  shows "case select_match m sel of
      (Some x, sel') \<Rightarrow> x = selected back anch (past @ m # ms) \<and> finished sel' \<and> scan sel' = scan sel
    | (None, sel') \<Rightarrow> select_inv back anch (past @ [m]) sel' \<and> scan sel' = scan sel"
proof (cases "anch = Some m")
  case True
  have nm: "takeWhile (\<lambda>x. x \<noteq> m) (past @ m # ms) = past" using dist by (intro takeWhile_at) simp
  show ?thesis
  proof (cases "back \<and> past \<noteq> []")
    case b: True
    then have "(length past + length (past @ m # ms) - 1) mod length (past @ m # ms) = length past - 1"
      using mod_add_self2 [of "length past - 1" "length (past @ m # ms)"] by (cases past) simp_all
    then have "selected back anch (past @ m # ms) = last past" using b True nm
      by (simp add: selected_def Let_def last_conv_nth nth_append)
    then show ?thesis using b True inv by (simp add: select_match_def same_match_iff select_inv_def)
  next
    case False
    then show ?thesis using True inv dist
      by (auto simp: select_match_def same_match_iff select_inv_def note_match_def Let_def)
  qed
next
  case False
  then have ns: "\<not> (anchored sel \<and> search_same_match (anchor sel) m)" using inv by (auto simp: select_inv_def same_match_iff)
  show ?thesis
  proof (cases "\<not> back \<and> (anch = None \<or> (\<exists>a \<in> set past. anch = Some a))")
    case True
    have "selected back anch (past @ m # ms) = m"
    proof (cases anch)
      case None
      then show ?thesis using True inv by (simp add: select_inv_def selected_def)
    next
      case (Some a)
      then have a: "a \<in> set past" "last past = a" using True inv by (auto simp: select_inv_def)
      then have p: "past = butlast past @ [a]" using append_butlast_last_id [of past] by (cases "past = []") simp_all
      have "distinct (butlast past @ [a])" using dist p by simp
      then have "a \<notin> set (butlast past)" by simp
      then have "takeWhile (\<lambda>x. x \<noteq> a) (butlast past @ a # (m # ms)) = butlast past" by (rule takeWhile_at)
      moreover have "past @ m # ms = butlast past @ a # (m # ms)" using arg_cong [OF p, of "\<lambda>x. x @ m # ms"] by simp
      ultimately have "length (takeWhile (\<lambda>x. x \<noteq> a) (past @ m # ms)) + 1 = length past"
        using a(1) by (cases past) simp_all
      then have "selected back anch (past @ m # ms) = (past @ m # ms) ! (length past mod length (past @ m # ms))"
        unfolding selected_def Let_def using Some a(1) True by simp
      then show ?thesis by (simp add: nth_append)
    qed
    then show ?thesis using ns True inv unfolding select_match_def by (auto simp: select_inv_def)
  next
    case nt: False
    then show ?thesis using ns inv dist False unfolding select_match_def
      by (auto simp: select_inv_def note_match_def Let_def)
  qed
qed

section \<open>Whole selections\<close>

text \<open>An answer for the matches \<open>ms\<close>, after which the selection is over.\<close>

definition answered :: "bool \<Rightarrow> search_match option \<Rightarrow> search_match list \<Rightarrow> search_result \<Rightarrow> search_selection \<Rightarrow> bool" where
  "answered back anch ms r sel \<longleftrightarrow> finished sel \<and>
     r = (if ms = [] then Search_done else found (selected back anch ms))"

definition select_cost :: "charmap_line list \<Rightarrow> search_selection \<Rightarrow> nat" where
  "select_cost rows sel = stream_cost rows (stream (scan sel))"

definition selecting :: "charmap_line list \<Rightarrow> bool \<Rightarrow> search_match option \<Rightarrow> search_match list \<Rightarrow> search_selection \<Rightarrow> bool" where
  "selecting rows back anch all sel \<longleftrightarrow>
     (\<exists>past ms. all = past @ ms \<and> searching rows (map found ms) (scan sel) \<and> select_inv back anch past sel)"

definition select_law ::
  "charmap_line list \<Rightarrow> bool \<Rightarrow> search_match option \<Rightarrow> search_match list \<Rightarrow> nat \<Rightarrow> search_result \<Rightarrow> search_selection \<Rightarrow> bool" where
  "select_law rows back anch all c r sel \<longleftrightarrow>
     (if r = Search_more then selecting rows back anch all sel \<and> select_cost rows sel < c else answered back anch all r sel)"

lemma select_loop_ok:
  assumes "selecting rows back anch all sel" and "distinct all"
  shows "\<exists>r sel'. select_loop rows budget sel = Some (r, sel') \<and>
    select_law rows back anch all (select_cost rows sel + of_bool (budget = 0)) r sel'"
  using assms(1)
proof (induction budget arbitrary: sel)
  case 0
  then show ?case by (simp add: select_law_def)
next
  case (Suc budget)
  then obtain past ms where all: "all = past @ ms" and s: "searching rows (map found ms) (scan sel)"
    and inv: "select_inv back anch past sel" by (auto simp: selecting_def)
  have inv1: "select_inv back anch past (sel\<lparr>scan := s'\<rparr>)" for s' using inv by (simp add: select_inv_def)
  have IH: ?case if "select_loop rows (Suc budget) sel = select_loop rows budget sel1" "selecting rows back anch all sel1"
    "select_cost rows sel1 < select_cost rows sel" for sel1
  proof -
    from Suc.IH [OF that(2)] obtain r sel' where "select_loop rows budget sel1 = Some (r, sel')"
      "select_law rows back anch all (select_cost rows sel1 + of_bool (budget = 0)) r sel'" by blast
    moreover have "select_cost rows sel1 + of_bool (budget = 0) \<le> select_cost rows sel" using that(3) by simp
    ultimately show ?thesis using that(1) by (auto simp: select_law_def split: if_splits)
  qed
  from s show ?case
  proof (cases rule: searching_step)
    case (over s')
    define r where "r = (if \<not> have_match sel then Search_done else found (if backwards sel then last_match sel else first_match sel))"
    have "answered back anch all r (sel\<lparr>scan := s', finished := True\<rparr>)"
      using select_over [OF inv] over(2) all assms(2) inv by (auto simp: answered_def select_inv_def r_def)
    moreover have "r \<noteq> Search_more" by (simp add: found_def r_def)
    ultimately have "select_law rows back anch all (select_cost rows sel + of_bool (Suc budget = 0)) r (sel\<lparr>scan := s', finished := True\<rparr>)"
      by (simp add: select_law_def)
    moreover have "select_loop rows (Suc budget) sel = Some (r, sel\<lparr>scan := s', finished := True\<rparr>)"
      using over(1) by (simp add: Let_def r_def)
    ultimately show ?thesis by blast
  next
    case (more s')
    then have "selecting rows back anch all (sel\<lparr>scan := s'\<rparr>)" using all inv1 by (auto simp: selecting_def)
    then show ?thesis using more by (intro IH [of "sel\<lparr>scan := s'\<rparr>"]) (simp_all add: select_cost_def)
  next
    case (hit a b s' ms')
    then obtain m ms1 where ms: "ms = m # ms1" "found m = Search_found a b" "map found ms1 = ms'" by auto
    then have m: "m = (a, b)" by (cases m) (simp add: found_def)
    have dist: "distinct (past @ m # ms1)" using assms(2) all ms by simp
    obtain x sel2 where sm: "select_match m (sel\<lparr>scan := s'\<rparr>) = (x, sel2)" by fastforce
    note h = select_hit [OF inv1 [of s'] dist, unfolded sm]
    show ?thesis
    proof (cases x)
      case None
      then have "select_inv back anch (past @ [m]) sel2" "scan sel2 = s'" using h by simp_all
      then have "selecting rows back anch all sel2" using hit(3) ms all unfolding selecting_def
        by (intro exI [of _ "past @ [m]"] exI [of _ ms1]) simp
      then show ?thesis using hit None sm m \<open>scan sel2 = s'\<close> by (intro IH [of sel2]) (simp_all add: select_cost_def)
    next
      case (Some y)
      then have "answered back anch all (found y) sel2" using h all ms by (auto simp: answered_def)
      then have "select_law rows back anch all c (found y) sel2" for c by (simp add: select_law_def found_def)
      moreover have "select_loop rows (Suc budget) sel = Some (found y, sel2)" using hit Some sm m by simp
      ultimately show ?thesis by blast
    qed
  qed
qed

lemma select_step_ok:
  assumes "selecting rows back anch all sel" and "distinct all" and "0 < budget"
  shows "\<exists>r sel'. con_search_select_step rows budget sel = Some (r, sel') \<and>
    select_law rows back anch all (select_cost rows sel) r sel'"
proof -
  have "\<not> finished sel" "query (scan sel) \<noteq> []"
    using assms(1) searching_query by (auto simp: selecting_def select_inv_def)
  then have "con_search_select_step rows budget sel = select_loop rows budget sel" by (simp add: con_search_select_step_def)
  then show ?thesis using select_loop_ok [OF assms(1,2), of budget] assms(3) by simp
qed

text \<open>A selection that is called until it answers, \<open>n\<close> times at most.\<close>

fun select_run :: "charmap_line list \<Rightarrow> nat \<Rightarrow> nat \<Rightarrow> search_selection \<Rightarrow> (search_result \<times> search_selection) option" where
  "select_run rows budget 0 sel = None"
| "select_run rows budget (Suc n) sel = do {
     (r, sel') \<leftarrow> con_search_select_step rows budget sel;
     (if r = Search_more then select_run rows budget n sel' else Some (r, sel'))
   }"

lemma select_run_ok:
  assumes "distinct all" and "0 < budget"
  shows "selecting rows back anch all sel \<Longrightarrow> select_cost rows sel < n \<Longrightarrow>
    \<exists>r sel'. select_run rows budget n sel = Some (r, sel') \<and> answered back anch all r sel'"
proof (induction n arbitrary: sel)
  case (Suc n)
  from select_step_ok [OF Suc.prems(1) assms] obtain r sel' where
    r: "con_search_select_step rows budget sel = Some (r, sel')"
      "select_law rows back anch all (select_cost rows sel) r sel'" by blast
  show ?case
  proof (cases "r = Search_more")
    case True
    then show ?thesis using r Suc.IH [of sel'] Suc.prems(2) by (simp add: select_law_def)
  next
    case False
    then show ?thesis using r by (simp add: select_law_def)
  qed
qed simp

definition matches :: "bool \<Rightarrow> codepoint list \<Rightarrow> charmap_line list \<Rightarrow> search_match list" where
  "matches folded text rows =
     map (\<lambda>r. case r of Search_found a b \<Rightarrow> (a, b) | _ \<Rightarrow> (at 0 0, at 0 0))
       (occurrences folded (map (search_fold folded) text) (chain_tokens rows 0 (length rows)))"

lemma found_matches:
  "map found (matches folded text rows) = occurrences folded (map (search_fold folded) text) (chain_tokens rows 0 (length rows))"
  by (auto simp: matches_def occurrences_def Let_def found_def)

text \<open>
  C15. Choosing the next or the previous match of a query over any chain of readable rows never faults
  and answers after boundedly many calls with any positive budget: no match at all exactly when the
  query does not occur; otherwise the match after (before) the anchor in the order of the text, around
  the end (the beginning) when the anchor is the last (the first), and the first (the last) match
  without an anchor or when the anchor no longer matches. Every later call answers that it is done.
\<close>

theorem select_wraps_around:
  assumes "list_all searchable rows" and "text \<noteq> []" and "length text \<le> CON_SEARCH_MAX" and "list_all query_char text"
    and "0 < budget" and "sum_list (map row_cost rows) < n"
  shows "\<exists>sel sel'. con_search_select_begin 0 text folded back anch = Some (True, sel) \<and>
    select_run rows budget n sel =
      Some (if matches folded text rows = [] then Search_done else found (selected back anch (matches folded text rows)), sel') \<and>
    con_search_select_step rows budget sel' = Some (Search_done, sel')"
proof -
  from searching_begin [OF assms(1-4), of folded] obtain s where s: "con_search_begin 0 0 text folded = Some (True, s)"
    "searching rows (map found (matches folded text rows)) s" "stream_cost rows (stream s) \<le> sum_list (map row_cost rows)"
    unfolding found_matches by blast
  define sel where "sel = (let sel = con_search_select_cancel\<lparr>scan := s\<rparr> in
    case anch of None \<Rightarrow> sel\<lparr>backwards := back, anchored := False\<rparr>
               | Some m \<Rightarrow> sel\<lparr>backwards := back, anchored := True, anchor := m\<rparr>)"
  have b: "con_search_select_begin 0 text folded back anch = Some (True, sel)"
    using s(1) by (simp add: con_search_select_begin_def sel_def Let_def)
  have sc: "scan sel = s" by (simp add: sel_def Let_def split: option.splits)
  have "select_inv back anch [] sel" by (simp add: sel_def Let_def select_inv_def con_search_select_cancel_def split: option.splits)
  then have ok: "selecting rows back anch (matches folded text rows) sel" using s(2) sc by (auto simp: selecting_def)
  have "distinct (map found (matches folded text rows))"
    unfolding found_matches using chain_token_firsts assms(2) by (intro occurrences_distinct) simp_all
  then have dist: "distinct (matches folded text rows)" by (simp add: distinct_map)
  have "select_cost rows sel < n" using s(3) sc assms(6) by (simp add: select_cost_def)
  from select_run_ok [OF dist assms(5) ok this] obtain r sel' where
    "select_run rows budget n sel = Some (r, sel')" "answered back anch (matches folded text rows) r sel'" by blast
  then show ?thesis using b by (auto simp: answered_def con_search_select_step_def)
qed

theorem select_wraps_around_witness:
  "\<exists>sel sel'. con_search_select_begin 0 [65] False True None = Some (True, sel) \<and>
    select_run [letter_row 65, letter_row 65] 1 20 sel =
      Some (if matches False [65] [letter_row 65, letter_row 65] = [] then Search_done
            else found (selected True None (matches False [65] [letter_row 65, letter_row 65])), sel') \<and>
    con_search_select_step [letter_row 65, letter_row 65] 1 sel' = Some (Search_done, sel')"
proof -
  define rows where "rows = [letter_row 65, letter_row 65]"
  have "list_all searchable rows" by (simp add: rows_def line_ok_searchable)
  moreover have "length [65 :: codepoint] \<le> CON_SEARCH_MAX" by (simp add: CON_SEARCH_MAX_def)
  moreover have "list_all query_char [65]" by (simp add: query_char_def del: One_nat_def)
  moreover have "sum_list (map row_cost rows) < 20" by (simp add: rows_def row_cost_def letter_row_def blank_row_def)
  ultimately show ?thesis
    using select_wraps_around [of rows "[65]" 1 20 False True None] unfolding rows_def by simp
qed

end
