(* ===== verification/Search_Paste.thy ===== *)
theory Search_Paste
  imports Search Clipboard
begin

text \<open>
  Pasting into a query (\<open>con_search_append\<close> of \<open>devs/consoleng/search.c\<close>): decoding, the line breaks
  and control characters, and the bound on the query. The query is the list of its code points, and a
  result of false leaves it as it was.
\<close>

section \<open>The operation\<close>

definition CON_SEARCH_PASTE_BYTES :: nat where "CON_SEARCH_PASTE_BYTES = 4 * CON_SEARCH_MAX"

definition paste_lead :: "byte \<Rightarrow> (nat \<times> codepoint \<times> codepoint) option" where
  "paste_lead b =
     (if b \<ge> 0xC2 \<and> b \<le> 0xDF then Some (1, 0x80, ucast b AND 0x1F)
      else if b \<ge> 0xE0 \<and> b \<le> 0xEF then Some (2, 0x800, ucast b AND 0x0F)
      else if b \<ge> 0xF0 \<and> b \<le> 0xF4 then Some (3, 0x10000, ucast b AND 7)
      else None)"

text \<open>The code point that begins with the byte \<open>b\<close>, and the rest; \<open>None\<close> for the return of false.\<close>

definition paste_char :: "bool \<Rightarrow> byte \<Rightarrow> byte list \<Rightarrow> (codepoint \<times> byte list) option" where
  "paste_char utf8 b s =
     (if utf8 \<and> b \<ge> 0x80 then
        (case paste_lead b of
           None \<Rightarrow> None
         | Some (extra, least, cp) \<Rightarrow>
             if extra > length s then None
             else
               (case continuation extra s cp of
                  None \<Rightarrow> None
                | Some (cp', s') \<Rightarrow>
                    if cp' < least \<or> cp' > 0x10FFFF \<or> (cp' \<ge> 0xD800 \<and> cp' \<le> 0xDFFF) then None else Some (cp', s')))
      else Some (ucast b, s))"

lemma paste_char_length: "paste_char utf8 b s = Some (cp, s') \<Longrightarrow> length s' \<le> length s"
  by (auto simp: paste_char_def dest: continuation_length split: if_splits option.splits prod.splits)

function paste_loop :: "bool \<Rightarrow> nat \<Rightarrow> codepoint list \<Rightarrow> bool \<Rightarrow> byte list \<Rightarrow> codepoint list option" where
  "paste_loop utf8 room added previous_cr [] = Some added"
| "paste_loop utf8 room added previous_cr (b # s) =
     (case paste_char utf8 b s of
        None \<Rightarrow> None
      | Some (cp, s') \<Rightarrow>
          let skip_lf = (previous_cr \<and> cp = 0x0A); cr = (cp = 0x0D) in
          if skip_lf then paste_loop utf8 room added cr s'
          else
            let cp1 = (if cp = 0x0D then 0x0A else cp); cp2 = (if cp1 = 0x09 then 0x20 else cp1) in
            if (cp2 < 32 \<and> cp2 \<noteq> 0x0A) \<or> (cp2 \<ge> 127 \<and> cp2 \<le> 159) then paste_loop utf8 room added cr s'
            else if length added \<ge> room then None
            else paste_loop utf8 room (added @ [cp2]) cr s')"
  by pat_completeness auto
termination by (relation "measure (\<lambda>(_, _, _, _, s). length s)") (auto dest: paste_char_length)

definition con_search_append :: "codepoint list \<Rightarrow> byte list \<Rightarrow> bool \<Rightarrow> bool \<times> codepoint list" where
  "con_search_append pattern bytes utf8 =
     (if length pattern > CON_SEARCH_MAX \<or> length bytes > CON_SEARCH_PASTE_BYTES then (False, pattern)
      else
        (case paste_loop utf8 (CON_SEARCH_MAX - length pattern) [] False bytes of
           None \<Rightarrow> (False, pattern)
         | Some added \<Rightarrow> (True, pattern @ added)))"

section \<open>What is appended\<close>

text \<open>A carriage return before a line feed is dropped, any other is a line feed.\<close>

fun line_feeds :: "codepoint list \<Rightarrow> codepoint list" where
  "line_feeds [] = []"
| "line_feeds (c # cs) =
     (if c = 0x0D \<and> cs \<noteq> [] \<and> hd cs = 0x0A then line_feeds cs
      else (if c = 0x0D then 0x0A else c) # line_feeds cs)"

definition control :: "codepoint \<Rightarrow> bool" where
  "control c \<longleftrightarrow> (c < 32 \<and> c \<noteq> 0x0A) \<or> (127 \<le> c \<and> c \<le> 159)"

definition pasted :: "codepoint list \<Rightarrow> codepoint list" where
  "pasted cps = filter (\<lambda>c. \<not> control c) (map (\<lambda>c. if c = 0x09 then 0x20 else c) (line_feeds cps))"

definition spells :: "bool \<Rightarrow> byte list \<Rightarrow> codepoint list \<Rightarrow> bool" where
  "spells utf8 bytes cps \<longleftrightarrow>
     (if utf8 then list_all scalar cps \<and> bytes = concat (map con_utf8_encode cps) else cps = map ucast bytes)"

section \<open>Decoding\<close>

lemma paste_lead_iff:
  "paste_lead b = Some (n, least, cp) \<longleftrightarrow> clip_lead b = Some (n, cp) \<and>
     least = (if n = 1 then 0x80 else if n = 2 then 0x800 else 0x10000)"
  by (auto simp: paste_lead_def clip_lead_def)

lemma spells_Nil: "spells utf8 bytes [] \<longleftrightarrow> bytes = []"
  by (simp add: spells_def)

lemma spells_Nil2: "spells utf8 [] cps \<longleftrightarrow> cps = []"
proof (cases cps)
  case (Cons c cs)
  have "con_utf8_encode c \<noteq> []" by (simp add: con_utf8_encode_def)
  then show ?thesis using Cons by (auto simp: spells_def)
qed (simp add: spells_def)

lemma two_byte_least:
  assumes "canonical b t cp" and "length t = 1"
  shows "\<not> cp < 0x80"
  using assms by (auto simp: canonical_def malformed_scalar_def split: option.splits)

lemma encode_ascii: "b < 0x80 \<Longrightarrow> con_utf8_encode (ucast b) = [b]"
  using canonical_encode [OF canonical_ascii byte_scalar] by simp

lemma paste_sequence:
  assumes "\<not> b < 0x80"
  shows "paste_char True b s = Some (cp, s') \<longleftrightarrow> (\<exists>t. s = t @ s' \<and> scalar cp \<and> canonical b t cp)"
proof
  assume "paste_char True b s = Some (cp, s')"
  then obtain n least lead where l: "paste_lead b = Some (n, least, lead)" and c: "continuation n s lead = Some (cp, s')"
    and ok: "\<not> cp < least" "\<not> cp > 0x10FFFF" "\<not> (cp \<ge> 0xD800 \<and> cp \<le> 0xDFFF)"
    using assms by (auto simp: paste_char_def split: option.splits prod.splits if_splits)
  have cl: "clip_lead b = Some (n, lead)" and bad: "\<not> clip_bad n cp" using l ok by (auto simp: paste_lead_iff clip_bad_def)
  from clip_sequence_sound [OF cl c bad] show "\<exists>t. s = t @ s' \<and> scalar cp \<and> canonical b t cp" by blast
next
  assume "\<exists>t. s = t @ s' \<and> scalar cp \<and> canonical b t cp"
  then obtain t where t: "s = t @ s'" "scalar cp" "canonical b t cp" by blast
  then have ne: "t \<noteq> []" using assms canonical_single by auto
  from clip_sequence_complete [OF t(2,3) ne, of s'] obtain lead where
    l: "clip_lead b = Some (length t, lead)" "continuation (length t) s lead = Some (cp, s')" "\<not> clip_bad (length t) cp"
    using t(1) by auto
  define least :: codepoint where "least = (if length t = 1 then 0x80 else if length t = 2 then 0x800 else 0x10000)"
  have pl: "paste_lead b = Some (length t, least, lead)" using l(1) by (simp add: paste_lead_iff least_def)
  have "length t \<le> 3" using l(1) by (auto simp: clip_lead_def split: if_splits)
  moreover have "length t \<noteq> 0" using ne by simp
  ultimately have "length t = 1 \<or> length t = 2 \<or> length t = 3" by linarith
  then have "\<not> (cp < least \<or> cp > 0x10FFFF \<or> (cp \<ge> 0xD800 \<and> cp \<le> 0xDFFF))"
    using l(3) two_byte_least [OF t(3)] by (auto simp: clip_bad_def least_def)
  moreover have "length t \<le> length s" using t(1) by simp
  ultimately show "paste_char True b s = Some (cp, s')" using assms l(2) pl by (auto simp: paste_char_def not_less)
qed

lemma paste_char_iff:
  "paste_char utf8 b s = Some (cp, s') \<longleftrightarrow> (\<exists>t. b # s = t @ s' \<and> spells utf8 t [cp] \<and> t \<noteq> [])"
proof (cases utf8)
  case False
  then show ?thesis by (auto simp: paste_char_def spells_def Cons_eq_append_conv)
next
  case True
  have enc: "scalar cp \<and> con_utf8_encode cp = b # t \<longleftrightarrow> scalar cp \<and> canonical b t cp" for t
    using encode_canonical [of cp b t] canonical_encode [of b t cp] by blast
  have "(\<exists>t. b # s = t @ s' \<and> spells utf8 t [cp] \<and> t \<noteq> []) \<longleftrightarrow> (\<exists>t. s = t @ s' \<and> scalar cp \<and> con_utf8_encode cp = b # t)"
    using True by (auto simp: spells_def Cons_eq_append_conv)
  also have "\<dots> \<longleftrightarrow> (\<exists>t. s = t @ s' \<and> scalar cp \<and> canonical b t cp)"
    by (simp only: enc)
  also have "\<dots> \<longleftrightarrow> paste_char utf8 b s = Some (cp, s')"
  proof (cases "b < 0x80")
    case b: True
    have "canonical b t cp \<longleftrightarrow> t = [] \<and> cp = ucast b" for t
    proof
      assume c: "canonical b t cp"
      with b have "t = []" by (auto simp: canonical_def lead_byte_def)
      with c show "t = [] \<and> cp = ucast b" using canonical_single by blast
    qed (simp add: canonical_ascii [OF b])
    then have "(\<exists>t. s = t @ s' \<and> scalar cp \<and> canonical b t cp) \<longleftrightarrow> s = s' \<and> cp = ucast b"
      using byte_scalar [of b] by auto
    moreover have "paste_char utf8 b s = Some (cp, s') \<longleftrightarrow> s = s' \<and> cp = ucast b"
      using b by (auto simp: paste_char_def)
    ultimately show ?thesis by (simp only:)
  next
    case False
    then show ?thesis using paste_sequence [OF False] True by simp
  qed
  finally show ?thesis by simp
qed

lemma spells_Cons: "t \<noteq> [] \<Longrightarrow> spells utf8 t [cp] \<Longrightarrow> spells utf8 s' cps \<Longrightarrow> spells utf8 (t @ s') (cp # cps)"
  by (auto simp: spells_def)

lemma spells_uncons: "spells utf8 bytes (cp # cps) \<Longrightarrow> \<exists>t s'. bytes = t @ s' \<and> spells utf8 t [cp] \<and> t \<noteq> [] \<and> spells utf8 s' cps"
proof -
  assume a: "spells utf8 bytes (cp # cps)"
  show ?thesis
  proof (cases utf8)
    case True
    have "con_utf8_encode cp \<noteq> []" by (simp add: con_utf8_encode_def)
    then show ?thesis using a True by (auto simp: spells_def intro!: exI [of _ "con_utf8_encode cp"])
  next
    case False
    with a obtain b s where "bytes = [b] @ s" "cp = ucast b" "cps = map ucast s" by (auto simp: spells_def Cons_eq_map_conv)
    then show ?thesis using False by (intro exI [of _ "[b]"] exI [of _ s]) (simp add: spells_def)
  qed
qed

section \<open>The loop\<close>

definition after_cr :: "bool \<Rightarrow> codepoint list \<Rightarrow> codepoint list" where
  "after_cr cr cps = (if cr \<and> cps \<noteq> [] \<and> hd cps = 0x0A then line_feeds (tl cps) else line_feeds cps)"

lemma line_feeds_cr: "line_feeds (0x0D # cs) = 0x0A # after_cr True cs"
  by (cases cs) (simp_all add: after_cr_def)

definition cleaned :: "codepoint list \<Rightarrow> codepoint list" where
  "cleaned cps = filter (\<lambda>c. \<not> control c) (map (\<lambda>c. if c = 0x09 then 0x20 else c) cps)"

lemma cleaned_simps [simp]:
  "cleaned [] = []"
  "cleaned (c # cs) = (if control (if c = 0x09 then 0x20 else c) then cleaned cs else (if c = 0x09 then 0x20 else c) # cleaned cs)"
  by (simp_all add: cleaned_def)

lemma after_cr_Cons:
  "after_cr cr (c # cs) =
     (if cr \<and> c = 0x0A then after_cr False cs
      else (if c = 0x0D then 0x0A else c) # after_cr (c = 0x0D) cs)"
  by (cases "c = 0x0D") (simp_all add: after_cr_def line_feeds_cr del: line_feeds.simps, simp_all add: after_cr_def)

lemma paste_loop_Cons:
  assumes "paste_char utf8 b s = Some (cp, s')"
  shows "paste_loop utf8 room added cr (b # s) =
     (if cr \<and> cp = 0x0A then paste_loop utf8 room added False s'
      else
        let c = (if cp = 0x0D then 0x0A else cp); d = (if c = 0x09 then 0x20 else c) in
        if control d then paste_loop utf8 room added (cp = 0x0D) s'
        else if length added \<ge> room then None
        else paste_loop utf8 room (added @ [d]) (cp = 0x0D) s')"
  using assms by (auto simp: Let_def control_def not_less)

lemma paste_loop_sound:
  assumes "paste_loop utf8 room added cr bytes = Some out" and "length added \<le> room"
  shows "\<exists>cps. spells utf8 bytes cps \<and> out = added @ cleaned (after_cr cr cps) \<and> length out \<le> room"
  using assms
proof (induction "length bytes" arbitrary: bytes added cr rule: less_induct)
  case less
  show ?case
  proof (cases bytes)
    case Nil
    then show ?thesis using less.prems by (auto simp: spells_Nil2 after_cr_def)
  next
    case (Cons b s)
    obtain cp s' where c: "paste_char utf8 b s = Some (cp, s')" using less.prems(1) Cons by (auto split: option.splits)
    have len: "length s' < length bytes" using paste_char_length [OF c] Cons by simp
    from c obtain t where t: "bytes = t @ s'" "spells utf8 t [cp]" "t \<noteq> []" using Cons by (auto simp: paste_char_iff)
    have IH: "\<exists>cps. spells utf8 bytes (cp # cps) \<and> out = added' @ cleaned (after_cr cr' cps) \<and> length out \<le> room"
      if "paste_loop utf8 room added' cr' s' = Some out" "length added' \<le> room" for added' cr'
      using less.hyps [OF len that] spells_Cons [OF t(3,2)] t(1) by blast
    note eq = less.prems(1) [unfolded Cons paste_loop_Cons [OF c] Let_def]
    define d where "d = (if (if cp = 0x0D then 0x0A else cp) = 0x09 then 0x20 else (if cp = 0x0D then 0x0A else cp))"
    consider (lf) "cr \<and> cp = 0x0A" | (ctl) "\<not> (cr \<and> cp = 0x0A)" "control d"
      | (put) "\<not> (cr \<and> cp = 0x0A)" "\<not> control d" by blast
    then show ?thesis
    proof cases
      case lf
      then show ?thesis using eq IH [of added False] less.prems(2) by (auto simp: after_cr_Cons)
    next
      case ctl
      then have "paste_loop utf8 room added (cp = 0x0D) s' = Some out" using eq unfolding d_def [symmetric] by (auto split: if_splits)
      from IH [OF this less.prems(2)] obtain cps where "spells utf8 bytes (cp # cps)"
        "out = added @ cleaned (after_cr (cp = 0x0D) cps)" "length out \<le> room" by blast
      then show ?thesis using ctl by (intro exI [of _ "cp # cps"]) (simp add: after_cr_Cons d_def [symmetric])
    next
      case put
      then have "paste_loop utf8 room (added @ [d]) (cp = 0x0D) s' = Some out" "length (added @ [d]) \<le> room"
        using eq unfolding d_def [symmetric] by (auto split: if_splits)
      from IH [OF this] obtain cps where "spells utf8 bytes (cp # cps)"
        "out = (added @ [d]) @ cleaned (after_cr (cp = 0x0D) cps)" "length out \<le> room" by blast
      then show ?thesis using put by (intro exI [of _ "cp # cps"]) (simp add: after_cr_Cons d_def [symmetric])
    qed
  qed
qed

lemma paste_loop_complete:
  assumes "spells utf8 bytes cps" and "length added + length (cleaned (after_cr cr cps)) \<le> room"
  shows "paste_loop utf8 room added cr bytes = Some (added @ cleaned (after_cr cr cps))"
  using assms
proof (induction cps arbitrary: bytes added cr)
  case Nil
  then show ?case by (simp add: spells_Nil after_cr_def)
next
  case (Cons cp cps)
  from spells_uncons [OF Cons.prems(1)] obtain t s' where t: "bytes = t @ s'" "spells utf8 t [cp]" "t \<noteq> []" "spells utf8 s' cps"
    by blast
  then obtain b s where b: "bytes = b # s" by (cases t) auto
  have c: "paste_char utf8 b s = Some (cp, s')" unfolding paste_char_iff using t b by metis
  define d where "d = (if (if cp = 0x0D then 0x0A else cp) = 0x09 then 0x20 else (if cp = 0x0D then 0x0A else cp))"
  have eq: "paste_loop utf8 room added cr bytes =
     (if cr \<and> cp = 0x0A then paste_loop utf8 room added False s'
      else if control d then paste_loop utf8 room added (cp = 0x0D) s'
      else if length added \<ge> room then None
      else paste_loop utf8 room (added @ [d]) (cp = 0x0D) s')"
    unfolding b paste_loop_Cons [OF c] Let_def d_def ..
  note IH = Cons.IH [OF t(4)]
  show ?case
  proof (cases "cr \<and> cp = 0x0A")
    case True
    then show ?thesis using eq IH [of added False] Cons.prems(2) by (simp add: after_cr_Cons)
  next
    case False
    have a: "cleaned (after_cr cr (cp # cps)) = (if control d then [] else [d]) @ cleaned (after_cr (cp = 0x0D) cps)"
      using False by (auto simp: after_cr_Cons d_def)
    then show ?thesis using eq IH [of added "cp = 0x0D"] IH [of "added @ [d]" "cp = 0x0D"] Cons.prems(2) False
      by (cases "control d") auto
  qed
qed

lemma pasted_cleaned: "pasted cps = cleaned (after_cr False cps)"
  by (simp add: pasted_def cleaned_def after_cr_def)

lemma spells_scalar: "spells utf8 bytes cps \<Longrightarrow> list_all scalar cps"
  by (auto simp: spells_def list_all_iff byte_scalar split: if_splits)

lemma line_feeds_set: "set (line_feeds cps) \<subseteq> insert 0x0A (set cps)"
  by (induction cps) auto

lemma pasted_query: "list_all scalar cps \<Longrightarrow> list_all query_char (pasted cps)"
proof -
  assume sc: "list_all scalar cps"
  have "query_char c" if "c \<in> set (pasted cps)" for c
  proof -
    from that obtain e where e: "e \<in> set (line_feeds cps)" "c = (if e = 0x09 then 0x20 else e)" "\<not> control c"
      by (auto simp: pasted_def)
    have "scalar e" using e(1) line_feeds_set [of cps] sc by (auto simp: list_all_iff scalar_small)
    then have "scalar c" using e(2) by (simp add: scalar_small)
    moreover have "c \<noteq> 0" using e(3) by (auto simp: control_def)
    ultimately show ?thesis by (auto simp: query_char_def scalar_def)
  qed
  then show ?thesis by (simp add: list_all_iff)
qed

text \<open>
  C26. Pasting succeeds exactly when the bytes are well formed (canonical UTF-8 of Unicode scalars, or
  any bytes as Latin-1), no more than 1024, and what remains of them fits a query of 256: then exactly
  their text is appended, line breaks as line feeds, tabs as spaces, other control characters left out.
  Otherwise the query is unchanged. A query that a search accepts stays one it accepts.
\<close>

theorem paste_exact:
  assumes "con_search_append pattern bytes utf8 = (ok, pattern')"
  shows "(if ok then \<exists>cps. spells utf8 bytes cps \<and> pattern' = pattern @ pasted cps else pattern' = pattern) \<and>
    (ok \<longleftrightarrow> length bytes \<le> CON_SEARCH_PASTE_BYTES \<and> length pattern \<le> CON_SEARCH_MAX \<and>
       (\<exists>cps. spells utf8 bytes cps \<and> length pattern + length (pasted cps) \<le> CON_SEARCH_MAX)) \<and>
    (list_all query_char pattern \<longrightarrow> list_all query_char pattern')"
proof (cases "length pattern > CON_SEARCH_MAX \<or> length bytes > CON_SEARCH_PASTE_BYTES")
  case True
  then show ?thesis using assms by (auto simp: con_search_append_def)
next
  case False
  show ?thesis
  proof (cases "paste_loop utf8 (CON_SEARCH_MAX - length pattern) [] False bytes")
    case None
    then have "\<not> (\<exists>cps. spells utf8 bytes cps \<and> length pattern + length (pasted cps) \<le> CON_SEARCH_MAX)"
      using paste_loop_complete [of utf8 bytes _ "[]" False "CON_SEARCH_MAX - length pattern"] False
      by (auto simp: pasted_cleaned le_diff_conv2 add.commute)
    then show ?thesis using None False assms by (auto simp: con_search_append_def)
  next
    case (Some added)
    from paste_loop_sound [OF Some] obtain cps where cps: "spells utf8 bytes cps" "added = pasted cps"
      "length added \<le> CON_SEARCH_MAX - length pattern" by (auto simp: pasted_cleaned)
    have "ok" "pattern' = pattern @ added" using Some False assms by (auto simp: con_search_append_def)
    moreover have "list_all query_char added" using cps spells_scalar pasted_query by blast
    moreover have "length pattern + length (pasted cps) \<le> CON_SEARCH_MAX" using cps(2,3) False by force
    ultimately show ?thesis using cps(1,2) False by auto
  qed
qed

theorem paste_exact_witness:
  "con_search_append [0x41] [0xC3, 0xA9, 0x0D, 0x0A, 0x09] True = (True, [0x41, 0xE9, 0x0A, 0x20]) \<and>
   list_all query_char [0x41, 0xE9, 0x0A, 0x20]"
proof -
  have e: "con_search_append [0x41] [0xC3, 0xA9, 0x0D, 0x0A, 0x09] True = (True, [0x41, 0xE9, 0x0A, 0x20])"
    by code_simp
  have "list_all query_char [0x41]" by code_simp
  with paste_exact [OF e] e show ?thesis by blast
qed

end
