(* ===== verification/Mouse.thy ===== *)
theory Mouse
  imports Keyboard Bytes
begin

text \<open>
  Mouse reports: the encoder of \<open>mouse_report.c\<close> and the handler \<open>report_mouse_event\<close> of
  \<open>consoletask.c\<close>. The raw event arrives with its class and code taken apart; qualifiers, window and
  geometry are records. \<open>None\<close> is a write outside a buffer.
\<close>

section \<open>The encoder\<close>

text \<open>The digits, least significant first, in the array of ten.\<close>

function mouse_digits :: "byte list \<Rightarrow> nat \<Rightarrow> byte list option" where
  "mouse_digits digits val =
     (if length digits \<ge> 10 then None
      else
        let digits' = digits @ [of_nat (48 + val mod 10)]; val' = val div 10 in
        if val' = 0 then Some digits' else mouse_digits digits' val')"
  by pat_completeness auto
termination by (relation "measure (\<lambda>(digits, val). 10 - length digits)") auto

declare mouse_digits.simps [simp del]

definition mouse_decimal :: "nat \<Rightarrow> byte list option" where
  "mouse_decimal val = map_option rev (mouse_digits [] val)"

definition mouse_coordinate :: "bool \<Rightarrow> nat \<Rightarrow> byte list" where
  "mouse_coordinate utf8 coordinate =
     (let val = 33 + coordinate in
      if utf8 \<and> val \<ge> 128 then [of_nat (0xC0 OR drop_bit 6 val), of_nat (0x80 OR (val AND 63))] else [of_nat val])"

text \<open>The bytes of the report, empty for a return of zero. \<open>out\<close> is false for a null pointer.\<close>

definition con_mouse_encode :: "bool \<Rightarrow> bool \<Rightarrow> nat \<Rightarrow> bool \<Rightarrow> int \<Rightarrow> int \<Rightarrow> bool \<Rightarrow> nat \<Rightarrow> byte list option" where
  "con_mouse_encode sgr utf8 button release x y out capacity =
     (if x < 0 \<or> y < 0 \<or> x > 0x7FFFFFFE \<or> y > 0x7FFFFFFE \<or> button > 127 then Some []
      else do {
        report \<leftarrow>
          (if sgr then do {
             b \<leftarrow> mouse_decimal button;
             cx \<leftarrow> mouse_decimal (nat x + 1);
             cy \<leftarrow> mouse_decimal (nat y + 1);
             Some ([27, 0x5B, 0x3C] @ b @ [0x3B] @ cx @ [0x3B] @ cy @ [if release then 0x6D else 0x4D])
           }
           else
             let lim = (if utf8 then 2015 else 223) in
             if x \<ge> lim \<or> y \<ge> lim then Some []
             else Some ([27, 0x5B, 0x4D, of_nat (32 + (if release then (button AND 28) OR 3 else button))] @
                        mouse_coordinate utf8 (nat x) @ mouse_coordinate utf8 (nat y)));
        if length report > 40 then None
        else if \<not> out \<or> length report > capacity then Some []
        else Some report
      })"

section \<open>How an application reads a report\<close>

definition read_number :: "byte list \<Rightarrow> nat \<times> byte list" where
  "read_number s = (foldl (\<lambda>n d. n * 10 + (unat d - 48)) 0 (takeWhile digit s), dropWhile digit s)"

definition read_coordinate :: "bool \<Rightarrow> byte list \<Rightarrow> (int \<times> byte list) option" where
  "read_coordinate utf8 s =
     (case s of
        [] \<Rightarrow> None
      | b # r \<Rightarrow>
          if utf8 \<and> b \<ge> 128 then
            (case r of [] \<Rightarrow> None | c # r' \<Rightarrow> Some (int (unat b mod 32) * 64 + int (unat c mod 64) - 33, r'))
          else Some (int (unat b) - 33, r))"

text \<open>Code, release and position; in the older formats a release is the button code 3.\<close>

definition read_report :: "bool \<Rightarrow> byte list \<Rightarrow> (nat \<times> bool \<times> int \<times> int) option" where
  "read_report utf8 s =
     (if take 3 s = [27, 0x5B, 0x3C] then
        (case read_number (drop 3 s) of (b, r) \<Rightarrow>
         case read_number (tl r) of (x, r') \<Rightarrow>
         case read_number (tl r') of (y, r'') \<Rightarrow>
           if r'' = [0x6D] then Some (b, True, int x - 1, int y - 1)
           else if r'' = [0x4D] then Some (b, False, int x - 1, int y - 1)
           else None)
      else if take 3 s = [27, 0x5B, 0x4D] \<and> length s > 3 then
        (case read_coordinate utf8 (drop 4 s) of
           None \<Rightarrow> None
         | Some (x, r) \<Rightarrow>
             (case read_coordinate utf8 r of
                Some (y, []) \<Rightarrow> Some (unat (s ! 3) - 32, False, x, y)
              | _ \<Rightarrow> None))
      else None)"

section \<open>Round trip\<close>

lemma mouse_digits_eq:
  "mouse_digits digits v =
     (if length digits + length (decimal_reverse v) \<le> 10 then Some (digits @ decimal_reverse v) else None)"
proof (induction digits v rule: mouse_digits.induct)
  case (1 digits v)
  have pos: "1 \<le> length (decimal_reverse w)" for w by (subst decimal_reverse.simps) simp
  show ?case
  proof (cases "v div 10 = 0")
    case True
    then show ?thesis by (subst mouse_digits.simps, subst (1 2) decimal_reverse.simps) (simp add: Let_def)
  next
    case False
    then show ?thesis using 1 pos [of "v div 10"]
      by (subst mouse_digits.simps, subst (1 2) decimal_reverse.simps) (simp add: Let_def)
  qed
qed

lemma mouse_decimal_eq: "v < 10 ^ 10 \<Longrightarrow> mouse_decimal v = Some (con_keyboard_decimal v)"
  using decimal_reverse_length [of v 9] by (simp add: mouse_decimal_def mouse_digits_eq con_keyboard_decimal_def)

lemma decimal_value: "foldl (\<lambda>n d. n * 10 + (unat d - 48)) 0 (con_keyboard_decimal v) = v"
proof (induction v rule: less_induct)
  case (less v)
  have u: "unat (of_nat (48 + v mod 10) :: byte) - 48 = v mod 10" using digit_word(2) [of "v mod 10"] by simp
  show ?case
  proof (cases "v div 10 = 0")
    case True
    then show ?thesis using u by (subst decimal_unfold) simp
  next
    case False
    then have "foldl (\<lambda>n d. n * 10 + (unat d - 48)) 0 (con_keyboard_decimal (v div 10)) = v div 10"
      using less by simp
    then show ?thesis using False u by (subst decimal_unfold) simp
  qed
qed

lemma read_decimal:
  assumes "s = c # r" and "\<not> digit c"
  shows "read_number (con_keyboard_decimal v @ s) = (v, s)"
proof -
  have d: "\<forall>b \<in> set (con_keyboard_decimal v). digit b" using decimal_digits by auto
  then have "takeWhile digit (con_keyboard_decimal v @ s) = con_keyboard_decimal v"
    "dropWhile digit (con_keyboard_decimal v @ s) = s"
    using assms by (simp_all add: takeWhile_append2 dropWhile_append2)
  then show ?thesis by (simp add: read_number_def decimal_value)
qed

lemma read_mouse_coordinate:
  assumes "x < (if utf8 then 2015 else 223)"
  shows "read_coordinate utf8 (mouse_coordinate utf8 x @ r) = Some (int x, r)"
proof -
  have u: "unat (of_nat v :: byte) = v" if "v < 256" for v
    using that by (simp only: unat_of_nat) simp
  have w: "of_nat v \<ge> (128 :: byte) \<longleftrightarrow> v \<ge> 128" if "v < 256" for v
    using u [OF that] by (simp add: word_le_nat_alt)
  define v where "v = 33 + x"
  show ?thesis
  proof (cases "utf8 \<and> v \<ge> 128")
    case True
    then have "v < 2048" using assms by (simp add: v_def)
    then have q: "v div 64 < 32" "2 \<le> v div 64" using True div_le_mono [of 128 v 64] by simp_all
    have "(0xC0 :: nat) OR drop_bit 6 v = 192 + v div 64" "(0x80 :: nat) OR (v AND 63) = 128 + v mod 64"
      using q(1) by (simp_all add: word_arith drop_bit_eq_div)
    then have m: "mouse_coordinate utf8 x = [of_nat (192 + v div 64), of_nat (128 + v mod 64)]"
      using True by (simp only: mouse_coordinate_def Let_def v_def [symmetric]) simp
    obtain a c where ac: "a = 192 + v div 64" "c = 128 + v mod 64" by blast
    have "v mod 64 < 64" by simp
    then have lt: "a < 256" "c < 256" "128 \<le> a" using q ac by linarith+
    have "a mod 32 = v div 64" "c mod 64 = v mod 64"
      using q(1) mod_add_left_eq [of 192 32 "v div 64"] mod_add_left_eq [of 128 64 "v mod 64"] unfolding ac by simp_all
    moreover have "v div 64 * 64 + v mod 64 = 33 + x" unfolding v_def by (rule div_mult_mod_eq)
    then have "int (v div 64) * 64 + int (v mod 64) - 33 = int x" by linarith
    ultimately show ?thesis using True u [OF lt(1)] u [OF lt(2)] w [OF lt(1)] lt(3)
      unfolding m ac [symmetric] read_coordinate_def by simp
  next
    case False
    then have v: "v < 256" "\<not> (utf8 \<and> of_nat v \<ge> (128 :: byte))" using assms w [of v] by (auto simp: v_def split: if_splits)
    have m: "mouse_coordinate utf8 x = [of_nat v]"
      using False unfolding mouse_coordinate_def Let_def v_def [symmetric] by simp
    have "int v - 33 = int x" by (simp add: v_def)
    then show ?thesis using v u [OF v(1)] unfolding m read_coordinate_def by auto
  qed
qed

text \<open>What a report says of an event.\<close>

definition reported :: "bool \<Rightarrow> nat \<Rightarrow> bool \<Rightarrow> nat \<times> bool" where
  "reported sgr button release =
     (if sgr then (button, release) else (if release then (button AND 28) OR 3 else button, False))"

definition report_size :: "bool \<Rightarrow> bool \<Rightarrow> nat \<Rightarrow> int \<Rightarrow> int \<Rightarrow> nat" where
  "report_size sgr utf8 button x y =
     (if sgr then length (con_keyboard_decimal button) + length (con_keyboard_decimal (nat x + 1)) +
          length (con_keyboard_decimal (nat y + 1)) + 6
      else 4 + length (mouse_coordinate utf8 (nat x)) + length (mouse_coordinate utf8 (nat y)))"

definition position_ok :: "bool \<Rightarrow> bool \<Rightarrow> int \<Rightarrow> bool" where
  "position_ok sgr utf8 v \<longleftrightarrow> 0 \<le> v \<and> (if sgr then v \<le> 0x7FFFFFFE else v < (if utf8 then 2015 else 223))"

lemma legacy_button: "((b :: nat) AND 28) OR 3 \<le> 31"
proof -
  have "int ((b AND 28) OR 3) = (int b AND 28) OR 3" by (simp add: of_nat_or_eq of_nat_and_eq)
  moreover have "int b AND 28 < 2 ^ 5" using AND_upper2 [of 28 "int b"] by simp
  then have "(int b AND 28) OR 3 < 2 ^ 5" by (intro OR_upper) simp_all
  ultimately show ?thesis by simp
qed

lemma mouse_coordinate_length: "length (mouse_coordinate utf8 x) \<le> 2"
  by (simp add: mouse_coordinate_def Let_def)

lemma digit_separators: "\<not> digit 0x3B" "\<not> digit 0x6D" "\<not> digit 0x4D"
  by (simp_all add: digit_def)

lemma read_sgr:
  assumes "c = (if release then 0x6D else 0x4D)"
  shows "read_report utf8 ([27, 0x5B, 0x3C] @ con_keyboard_decimal b @ [0x3B] @ con_keyboard_decimal x @ [0x3B] @ con_keyboard_decimal y @ [c]) =
    Some (b, release, int x - 1, int y - 1)"
proof -
  have c: "\<not> digit c" using assms digit_separators by simp
  have "read_number (con_keyboard_decimal y @ [c]) = (y, [c])" using c by (intro read_decimal) simp_all
  moreover have "read_number (con_keyboard_decimal x @ 0x3B # r) = (x, 0x3B # r)" for r
    by (intro read_decimal [of _ "0x3B"]) (simp_all add: digit_separators)
  moreover have "read_number (con_keyboard_decimal b @ 0x3B # r) = (b, 0x3B # r)" for r
    by (intro read_decimal [of _ "0x3B"]) (simp_all add: digit_separators)
  ultimately show ?thesis using assms by (simp add: read_report_def)
qed

lemma read_legacy:
  assumes "x < (if utf8 then 2015 else 223)" and "y < (if utf8 then 2015 else 223)" and "b \<le> 127"
  shows "read_report utf8 ([27, 0x5B, 0x4D, of_nat (32 + b)] @ mouse_coordinate utf8 x @ mouse_coordinate utf8 y) =
    Some (b, False, int x, int y)"
proof -
  have "unat (of_nat (32 + b) :: byte) = 32 + b" using assms(3) by (simp only: unat_of_nat) simp
  then show ?thesis
    using read_mouse_coordinate [OF assms(1)] read_mouse_coordinate [OF assms(2), of "[]"]
    by (simp add: read_report_def del: of_nat_add)
qed

lemma mouse_encode_spec:
  "\<exists>report. con_mouse_encode sgr utf8 button release x y out capacity = Some report \<and>
     (if position_ok sgr utf8 x \<and> position_ok sgr utf8 y \<and> button \<le> 127 \<and> out \<and> report_size sgr utf8 button x y \<le> capacity
      then length report = report_size sgr utf8 button x y \<and> length report \<le> 40 \<and>
        read_report utf8 report = Some (fst (reported sgr button release), snd (reported sgr button release), x, y)
      else report = [])"
proof (cases "x < 0 \<or> y < 0 \<or> x > 0x7FFFFFFE \<or> y > 0x7FFFFFFE \<or> button > 127")
  case True
  then show ?thesis by (auto simp: con_mouse_encode_def position_ok_def)
next
  case False
  then have v: "0 \<le> x" "0 \<le> y" "x \<le> 0x7FFFFFFE" "y \<le> 0x7FFFFFFE" "button \<le> 127" by auto
  show ?thesis
  proof (cases sgr)
    case True
    have d: "mouse_decimal button = Some (con_keyboard_decimal button)"
      "mouse_decimal (nat x + 1) = Some (con_keyboard_decimal (nat x + 1))"
      "mouse_decimal (nat y + 1) = Some (con_keyboard_decimal (nat y + 1))"
      using v by (intro mouse_decimal_eq; simp)+
    have len: "length (con_keyboard_decimal button) \<le> 3" "length (con_keyboard_decimal (nat x + 1)) \<le> 10"
      "length (con_keyboard_decimal (nat y + 1)) \<le> 10"
      using decimal_length [of button 2] decimal_length [of "nat x + 1" 9] decimal_length [of "nat y + 1" 9] v by simp_all
    have "read_report utf8 ([27, 0x5B, 0x3C] @ con_keyboard_decimal button @ [0x3B] @ con_keyboard_decimal (nat x + 1) @ [0x3B] @
        con_keyboard_decimal (nat y + 1) @ [if release then 0x6D else 0x4D]) = Some (button, release, x, y)"
      using read_sgr [OF refl, of utf8 button "nat x + 1" "nat y + 1" release] v by simp
    then show ?thesis using False True d len v
      by (auto simp: con_mouse_encode_def position_ok_def report_size_def reported_def)
  next
    case nosgr: False
    define b where "b = (if release then (button AND 28) OR 3 else button)"
    define lim :: int where "lim = (if utf8 then 2015 else 223)"
    have b: "b \<le> 127" using v(5) legacy_button [of button] by (simp add: b_def)
    have size: "length (mouse_coordinate utf8 (nat x)) \<le> 2" "length (mouse_coordinate utf8 (nat y)) \<le> 2"
      by (rule mouse_coordinate_length)+
    show ?thesis
    proof (cases "x \<ge> lim \<or> y \<ge> lim")
      case True
      then show ?thesis using False nosgr by (auto simp: con_mouse_encode_def position_ok_def lim_def)
    next
      case inside: False
      then have "nat x < (if utf8 then 2015 else 223)" "nat y < (if utf8 then 2015 else 223)" using v by (auto simp: lim_def split: if_splits)
      from read_legacy [OF this b] have rd: "read_report utf8 ([27, 0x5B, 0x4D, of_nat (32 + b)] @
          mouse_coordinate utf8 (nat x) @ mouse_coordinate utf8 (nat y)) = Some (b, False, x, y)" using v by simp
      define report :: "byte list" where
        "report = [27, 0x5B, 0x4D, of_nat (32 + b)] @ mouse_coordinate utf8 (nat x) @ mouse_coordinate utf8 (nat y)"
      have "length report = report_size sgr utf8 button x y" "length report \<le> 40"
        using size nosgr by (simp_all add: report_def report_size_def)
      moreover have "con_mouse_encode sgr utf8 button release x y out capacity =
          (if length report > 40 then None else if \<not> out \<or> length report > capacity then Some [] else Some report)"
        using False nosgr inside unfolding con_mouse_encode_def Let_def report_def b_def lim_def by simp
      moreover have "position_ok sgr utf8 x" "position_ok sgr utf8 y" using v nosgr inside by (simp_all add: position_ok_def lim_def)
      moreover have "reported sgr button release = (b, False)" using nosgr by (simp add: reported_def b_def)
      ultimately show ?thesis using rd [folded report_def] v by auto
    qed
  qed
qed


section \<open>The handler\<close>

text \<open>
  The class and code of a raw event: a button with its release bit, any other code of the mouse class,
  a movement, a wheel key with its distance from \<open>RAWKEY_NM_WHEEL_UP\<close>, or another class. The unit holds
  what the handler uses of \<open>intConUnit\<close>; its buffer is the list of its stored bytes.
\<close>

datatype mouse_button = Left_button | Middle_button | Right_button

datatype mouse_event =
    Button mouse_button bool
  | Other_button bool
  | Motion
  | Wheel nat
  | Other_class

record mouse_qualifier = qualifier +
  q_leftbutton :: bool
  q_midbutton :: bool
  q_rbutton :: bool

record mouse_unit =
  mouseMode :: nat
  mouseSGR :: bool
  mouseUTF8 :: bool
  mouseReportedButtons :: byte
  mouseLastValid :: bool
  mouseLastX :: int
  mouseLastY :: int
  mu_obscured :: bool
  mu_inputBuf :: "byte list"

record con_window =
  w_rmbtrap :: bool
  w_menu :: bool
  w_gimmezerozero :: bool
  w_borderLeft :: int
  w_borderTop :: int

record con_geometry =
  cu_XROrigin :: int
  cu_YROrigin :: int
  cu_XRSize :: int
  cu_YRSize :: int
  cu_XMax :: int
  cu_YMax :: int

definition CON_INPUTBUF_SIZE :: nat where "CON_INPUTBUF_SIZE = 512"

fun button_bit :: "mouse_button \<Rightarrow> byte" where
  "button_bit Left_button = 1"
| "button_bit Middle_button = 2"
| "button_bit Right_button = 4"

fun button_number :: "mouse_button \<Rightarrow> nat" where
  "button_number Left_button = 0"
| "button_number Middle_button = 1"
| "button_number Right_button = 2"

definition capture_bit :: "mouse_event \<Rightarrow> byte" where
  "capture_bit ev = (case ev of Button b up \<Rightarrow> button_bit b | _ \<Rightarrow> 0)"

definition event_release :: "mouse_event \<Rightarrow> bool" where
  "event_release ev = (case ev of Button b up \<Rightarrow> up | Other_button up \<Rightarrow> up | _ \<Rightarrow> False)"

definition event_captured :: "'a mouse_unit_scheme \<Rightarrow> mouse_event \<Rightarrow> bool" where
  "event_captured u ev \<longleftrightarrow> event_release ev \<and> mouseReportedButtons u AND capture_bit ev \<noteq> 0"

text \<open>The cell of a pointer position, or \<open>None\<close> when the position is not the application's.\<close>

definition mouse_cell :: "bool \<Rightarrow> con_window \<Rightarrow> con_geometry \<Rightarrow> int \<Rightarrow> int \<Rightarrow> (int \<times> int) option" where
  "mouse_cell captured w g px0 py0 =
     (let px = px0 - (if w_gimmezerozero w then w_borderLeft w else 0) - cu_XROrigin g;
          py = py0 - (if w_gimmezerozero w then w_borderTop w else 0) - cu_YROrigin g in
      if cu_XRSize g \<le> 0 \<or> cu_YRSize g \<le> 0 \<or> cu_XMax g < 0 \<or> cu_YMax g < 0 then None
      else if \<not> captured \<and> (px < 0 \<or> py < 0) then None
      else
        let x = (if px < 0 then 0 else px div cu_XRSize g); y = (if py < 0 then 0 else py div cu_YRSize g) in
        if x > cu_XMax g \<or> y > cu_YMax g then
          if \<not> captured then None else Some (min x (cu_XMax g), min y (cu_YMax g))
        else Some (x, y))"

text \<open>The button code before the modifiers: \<open>Inl\<close> for an early return with its value.\<close>

definition mouse_button_code :: "'a mouse_unit_scheme \<Rightarrow> mouse_event \<Rightarrow> mouse_qualifier \<Rightarrow> int \<Rightarrow> int \<Rightarrow> bool + nat" where
  "mouse_button_code u ev q x y =
     (case ev of
        Wheel n \<Rightarrow> Inr (64 + n)
      | Motion \<Rightarrow>
          let button = (if q_leftbutton q then 0 else if q_midbutton q then 1 else if q_rbutton q then 2 else 3) in
          if mouseMode u = 1000 \<or> (mouseMode u = 1002 \<and> button = 3) then Inl True
          else if mouseLastValid u \<and> x = mouseLastX u \<and> y = mouseLastY u then Inl True
          else Inr (button + 32)
      | Button b up \<Rightarrow> Inr (button_number b)
      | _ \<Rightarrow> Inl False)"

definition mouse_modifiers :: "mouse_qualifier \<Rightarrow> nat \<Rightarrow> nat" where
  "mouse_modifiers q button =
     (let b = (if q_lalt q \<or> q_ralt q then button OR 8 else button) in if q_control q then b OR 16 else b)"

text \<open>Whether the event was consumed, and the unit.\<close>

definition report_mouse_event ::
  "'a mouse_unit_scheme \<Rightarrow> con_window option \<Rightarrow> con_geometry \<Rightarrow> mouse_event \<Rightarrow> mouse_qualifier \<Rightarrow> int \<Rightarrow> int \<Rightarrow> (bool \<times> 'a mouse_unit_scheme) option" where
  "report_mouse_event u window g ev q px py =
     (let bit = capture_bit ev; release = event_release ev; captured = event_captured u ev;
          u1 = (if release then u\<lparr>mouseReportedButtons := mouseReportedButtons u AND NOT bit\<rparr> else u) in
      case window of
        None \<Rightarrow> Some (False, u1)
      | Some w \<Rightarrow>
          if \<not> captured \<and> \<not> w_rmbtrap w \<and> w_menu w \<and> (bit = 4 \<or> (ev = Motion \<and> q_rbutton q)) then Some (False, u1)
          else if mouseMode u = 0 \<or> mu_obscured u \<or> q_lshift q \<or> q_rshift q \<or> ev = Other_class then Some (False, u1)
          else
            (case mouse_cell captured w g px py of
               None \<Rightarrow> Some (False, u1)
             | Some (x, y) \<Rightarrow>
                 (case mouse_button_code u1 ev q x y of
                    Inl r \<Rightarrow> Some (r, u1)
                  | Inr button \<Rightarrow> do {
                      report \<leftarrow> con_mouse_encode (mouseSGR u) (mouseUTF8 u) (mouse_modifiers q button) release x y True 40;
                      Some (True,
                        if report \<noteq> [] \<and> length report \<le> CON_INPUTBUF_SIZE - length (mu_inputBuf u)
                        then u1\<lparr>mu_inputBuf := mu_inputBuf u @ report,
                                mouseReportedButtons := (if \<not> release then mouseReportedButtons u1 OR bit else mouseReportedButtons u1),
                                mouseLastValid := True, mouseLastX := x, mouseLastY := y\<rparr>
                        else u1)
                    })))"

section \<open>What the handler reports\<close>

definition grid_ok :: "con_geometry \<Rightarrow> bool" where
  "grid_ok g \<longleftrightarrow> 0 < cu_XRSize g \<and> 0 < cu_YRSize g \<and> 0 \<le> cu_XMax g \<and> 0 \<le> cu_YMax g"

lemma mouse_cell_bounds:
  assumes "mouse_cell captured w g px py = Some (x, y)"
  shows "0 \<le> x \<and> x \<le> cu_XMax g \<and> 0 \<le> y \<and> y \<le> cu_YMax g"
  using assms by (auto simp: mouse_cell_def Let_def pos_imp_zdiv_nonneg_iff split: if_splits)

lemma mouse_cell_captured: "grid_ok g \<Longrightarrow> \<exists>x y. mouse_cell True w g px py = Some (x, y)"
  by (auto simp: mouse_cell_def Let_def grid_ok_def)

lemma nat_or_upper: "(a :: nat) < 2 ^ n \<Longrightarrow> b < 2 ^ n \<Longrightarrow> a OR b < 2 ^ n"
proof -
  assume "a < 2 ^ n" "b < 2 ^ n"
  then have "int a OR int b < 2 ^ n" by (intro OR_upper) simp_all
  then have "int (a OR b) < 2 ^ n" by (simp add: of_nat_or_eq)
  then show ?thesis by simp
qed

lemma mouse_modifiers_small: "b < 128 \<Longrightarrow> mouse_modifiers q b < 128"
  using nat_or_upper [of b 7 8] nat_or_upper [of b 7 16] nat_or_upper [of "b OR 8" 7 16]
  by (auto simp: mouse_modifiers_def Let_def)

lemma mouse_button_code_small:
  "mouse_button_code u ev q x y = Inr b \<Longrightarrow> (\<And>n. ev = Wheel n \<Longrightarrow> n \<le> 3) \<Longrightarrow> b < 128"
  by (auto simp: mouse_button_code_def Let_def split: mouse_event.splits if_splits) (rename_tac m r, case_tac m; simp)

text \<open>The bytes a call appends, and when a call cannot but report.\<close>

definition owes_release :: "'a mouse_unit_scheme \<Rightarrow> con_window option \<Rightarrow> con_geometry \<Rightarrow> mouse_event \<Rightarrow> mouse_qualifier \<Rightarrow> bool" where
  "owes_release u window g ev q \<longleftrightarrow>
     event_captured u ev \<and> window \<noteq> None \<and> mouseMode u \<noteq> 0 \<and> \<not> mu_obscured u \<and> \<not> q_lshift q \<and> \<not> q_rshift q \<and>
     grid_ok g \<and> mouseSGR u \<and> length (mu_inputBuf u) + 40 \<le> CON_INPUTBUF_SIZE"

definition event_ok :: "'a mouse_unit_scheme \<Rightarrow> con_geometry \<Rightarrow> mouse_event \<Rightarrow> bool" where
  "event_ok u g ev \<longleftrightarrow> length (mu_inputBuf u) \<le> CON_INPUTBUF_SIZE \<and> cu_XMax g \<le> 32767 \<and> cu_YMax g \<le> 32767 \<and>
     (\<forall>n. ev = Wheel n \<longrightarrow> n \<le> 3)"

lemma sgr_report_nonempty:
  assumes "0 \<le> x" and "x \<le> 32767" and "0 \<le> y" and "y \<le> 32767" and "b < 128"
  shows "con_mouse_encode True utf8 b release x y True 40 \<noteq> Some []"
proof -
  have "length (con_keyboard_decimal b) \<le> 3" "length (con_keyboard_decimal (nat x + 1)) \<le> 5"
    "length (con_keyboard_decimal (nat y + 1)) \<le> 5"
    using decimal_length_le(2) [of b] decimal_length_le(3) [of "nat x + 1"] decimal_length_le(3) [of "nat y + 1"] assms by simp_all
  then have "report_size True utf8 b x y \<le> 40" by (simp add: report_size_def)
  moreover have "0 < report_size True utf8 b x y" by (simp add: report_size_def)
  ultimately show ?thesis
    using mouse_encode_spec [of True utf8 b release x y True 40] assms
    by (auto simp: position_ok_def)
qed

lemma mouse_event_spec:
  assumes "event_ok u g ev"
  shows "\<exists>handled u' out. report_mouse_event u window g ev q px py = Some (handled, u') \<and>
    mu_inputBuf u' = mu_inputBuf u @ out \<and> length (mu_inputBuf u') \<le> CON_INPUTBUF_SIZE \<and>
    (out \<noteq> [] \<longrightarrow> handled \<and> (\<exists>code x y. read_report (mouseUTF8 u) out = Some (code, mouseSGR u \<and> event_release ev, x, y) \<and>
       0 \<le> x \<and> x \<le> cu_XMax g \<and> 0 \<le> y \<and> y \<le> cu_YMax g)) \<and>
    (owes_release u window g ev q \<longrightarrow> out \<noteq> []) \<and>
    mouseReportedButtons u' =
      (if event_release ev then mouseReportedButtons u AND NOT (capture_bit ev)
       else if out \<noteq> [] then mouseReportedButtons u OR capture_bit ev else mouseReportedButtons u) \<and>
    mouse_unit.more u' = mouse_unit.more u"
proof -
  define u1 where "u1 = (if event_release ev then u\<lparr>mouseReportedButtons := mouseReportedButtons u AND NOT (capture_bit ev)\<rparr> else u)"
  have u1: "mu_inputBuf u1 = mu_inputBuf u" "mouseReportedButtons u1 =
      (if event_release ev then mouseReportedButtons u AND NOT (capture_bit ev) else mouseReportedButtons u)"
      "mouse_unit.more u1 = mouse_unit.more u"
    by (simp_all add: u1_def)
  have quiet: ?thesis if "report_mouse_event u window g ev q px py = Some (r, u1)" "\<not> owes_release u window g ev q" for r
    using that u1 assms by (intro exI [of _ r] exI [of _ u1] exI [of _ "[]"]) (simp add: event_ok_def)
  note def = report_mouse_event_def [of u _ g ev q px py, unfolded Let_def, folded u1_def]
  show ?thesis
  proof (cases window)
    case None
    then show ?thesis by (intro quiet [of False]) (simp_all add: def owes_release_def)
  next
    case (Some w)
    show ?thesis
    proof (cases "(\<not> event_captured u ev \<and> \<not> w_rmbtrap w \<and> w_menu w \<and> (capture_bit ev = 4 \<or> (ev = Motion \<and> q_rbutton q))) \<or>
        mouseMode u = 0 \<or> mu_obscured u \<or> q_lshift q \<or> q_rshift q \<or> ev = Other_class")
      case True
      then show ?thesis using Some
        by (intro quiet [of False]) (auto simp: def owes_release_def event_captured_def event_release_def)
    next
      case early: False
      show ?thesis
      proof (cases "mouse_cell (event_captured u ev) w g px py")
        case None
        then show ?thesis using early Some mouse_cell_captured [of g w px py]
          by (intro quiet [of False]) (auto simp: def owes_release_def)
      next
        case cell: (Some xy)
        then obtain x y where xy: "mouse_cell (event_captured u ev) w g px py = Some (x, y)" by (cases xy) simp
        note bounds = mouse_cell_bounds [OF xy]
        show ?thesis
        proof (cases "mouse_button_code u1 ev q x y")
          case (Inl r)
          have "\<not> owes_release u window g ev q" using Inl
            by (auto simp: owes_release_def event_captured_def event_release_def capture_bit_def mouse_button_code_def
              split: mouse_event.splits)
          then show ?thesis using early Some xy Inl by (intro quiet [of r]) (auto simp: def)
        next
          case (Inr b)
          define c where "c = mouse_modifiers q b"
          have c: "c < 128" using mouse_button_code_small [OF Inr] assms mouse_modifiers_small by (auto simp: c_def event_ok_def)
          note enc = mouse_encode_spec [of "mouseSGR u" "mouseUTF8 u" c "event_release ev" x y True 40]
          then obtain report where rep: "con_mouse_encode (mouseSGR u) (mouseUTF8 u) c (event_release ev) x y True 40 = Some report"
            by auto
          define fits where "fits \<longleftrightarrow> report \<noteq> [] \<and> length report \<le> CON_INPUTBUF_SIZE - length (mu_inputBuf u)"
          define u2 where "u2 = (if fits then u1\<lparr>mu_inputBuf := mu_inputBuf u @ report,
              mouseReportedButtons := (if \<not> event_release ev then mouseReportedButtons u1 OR capture_bit ev else mouseReportedButtons u1),
              mouseLastValid := True, mouseLastX := x, mouseLastY := y\<rparr> else u1)"
          have res: "report_mouse_event u window g ev q px py = Some (True, u2)"
            using early Some xy Inr rep unfolding def u2_def fits_def c_def by simp
          have dec: "report \<noteq> [] \<Longrightarrow> read_report (mouseUTF8 u) report =
              Some (fst (reported (mouseSGR u) c (event_release ev)), mouseSGR u \<and> event_release ev, x, y) \<and> length report \<le> 40"
            using enc rep by (auto simp: reported_def split: if_splits)
          have owes: "owes_release u window g ev q \<Longrightarrow> fits"
          proof -
            assume o: "owes_release u window g ev q"
            then have "report \<noteq> []" using sgr_report_nonempty [of x y c "mouseUTF8 u" "event_release ev"] bounds assms c rep
              by (auto simp: owes_release_def event_ok_def)
            then show fits using dec o by (auto simp: fits_def owes_release_def)
          qed
          show ?thesis
            using res dec owes bounds u1 assms
            by (intro exI [of _ True] exI [of _ u2] exI [of _ "if fits then report else []"])
              (auto simp: u2_def fits_def event_ok_def)
        qed
      qed
    qed
  qed
qed



end
