(* ===== verification/Input_Queue.thy ===== *)
theory Input_Queue
  imports Mouse Utf8
begin

text \<open>
  The input side of the console task (\<open>consoletask.c\<close>): the bytes a key becomes, the input buffer of a
  unit, queued pastes and injections, pending read requests and their replies. A unit is the mouse
  part of \<open>intConUnit\<close>, which holds the input buffer, with its paste queue; units and requests are
  identified by numbers. \<open>None\<close> is a write outside a buffer, a broken list walk or an endless loop.
\<close>

section \<open>The bytes of a key\<close>

definition con_application_cursor :: "byte list \<Rightarrow> bool \<Rightarrow> byte list" where
  "con_application_cursor bytes application =
     (if \<not> application then bytes
      else
        let pos = (if length bytes = 2 \<and> bytes ! 0 = 0x9B then Some 1
                   else if length bytes = 3 \<and> bytes ! 0 = 0x1B \<and> bytes ! 1 = 0x5B then Some 2 else None) in
        case pos of
          None \<Rightarrow> bytes
        | Some i \<Rightarrow>
            if bytes ! i \<notin> set [0x41, 0x42, 0x43, 0x44, 0x48, 0x46] then bytes
            else [0x1B, 0x4F, bytes ! i])"

text \<open>The tens and base digit (zero for none) and the final byte of a navigation key.\<close>

fun navigation_key :: "rawkey \<Rightarrow> (byte \<times> byte \<times> byte) option" where
  "navigation_key RK_UP = Some (0, 0x31, 0x41)"
| "navigation_key RK_DOWN = Some (0, 0x31, 0x42)"
| "navigation_key RK_RIGHT = Some (0, 0x31, 0x43)"
| "navigation_key RK_LEFT = Some (0, 0x31, 0x44)"
| "navigation_key RK_HOME = Some (0, 0x31, 0x48)"
| "navigation_key RK_END = Some (0, 0x31, 0x46)"
| "navigation_key RK_INSERT = Some (0, 0x32, 0x7E)"
| "navigation_key RK_DELETE = Some (0, 0x33, 0x7E)"
| "navigation_key RK_PAGEUP = Some (0, 0x35, 0x7E)"
| "navigation_key RK_PAGEDOWN = Some (0, 0x36, 0x7E)"
| "navigation_key (RK_F n) =
     (if n = 1 then Some (0, 0x31, 0x50) else if n = 2 then Some (0, 0x31, 0x51)
      else if n = 3 then Some (0, 0x31, 0x52) else if n = 4 then Some (0, 0x31, 0x53)
      else if n = 5 then Some (0x31, 0x35, 0x7E) else if n = 6 then Some (0x31, 0x37, 0x7E)
      else if n = 7 then Some (0x31, 0x38, 0x7E) else if n = 8 then Some (0x31, 0x39, 0x7E)
      else if n = 9 then Some (0x32, 0x30, 0x7E) else if n = 10 then Some (0x32, 0x31, 0x7E)
      else if n = 11 then Some (0x32, 0x33, 0x7E) else if n = 12 then Some (0x32, 0x34, 0x7E) else None)"
| "navigation_key _ = None"

text \<open>\<open>None\<close> is a negative length, as \<open>RawKeyConvert\<close> may answer it.\<close>

definition con_modified_navigation :: "byte list option \<Rightarrow> input_event \<Rightarrow> bool \<Rightarrow> byte list option" where
  "con_modified_navigation bytes ev utf8 =
     (let q = ie_qual ev in
      if \<not> utf8 \<or> \<not> ie_rawkey_class ev \<or> ie_up ev \<or> q_lcommand q \<or> q_rcommand q then bytes
      else
        let modifier = 1 + (if q_lshift q \<or> q_rshift q then 1 else 0) + (if q_lalt q \<or> q_ralt q then 2 else 0) +
              (if q_control q then 4 else 0) :: byte in
        if modifier = 1 then bytes
        else
          (case navigation_key (ie_key ev) of
             None \<Rightarrow> bytes
           | Some (tens, base, final) \<Rightarrow>
               Some ([0x1B, 0x5B] @ (if tens \<noteq> 0 then [tens] else []) @ [base, 0x3B, 0x30 + modifier, final])))"

definition KEYINPUT_BUFSIZE :: nat where "KEYINPUT_BUFSIZE = 80 * 4 + 32"

definition expand_byte :: "byte \<Rightarrow> byte list" where
  "expand_byte b = (if b = 0x9B then [0x1B, 0x5B] else con_utf8_encode (ucast b))"

text \<open>What a key contributes: the keymap (\<open>RawKeyConvert\<close>, a parameter), then the rewriting steps.\<close>

definition key_bytes :: "keymap \<Rightarrow> kb_unit \<Rightarrow> bool \<Rightarrow> bool \<Rightarrow> bool \<Rightarrow> input_event \<Rightarrow> byte list option" where
  "key_bytes convert kb utf8 application closing ev =
     (let b0 = (if closing then Some [28] else convert ev 80);
          b1 = con_modified_navigation b0 ev utf8;
          b2 = map_option (\<lambda>b. con_application_cursor b application) b1;
          b3 = (case con_keyboard_event convert kb ev of None \<Rightarrow> b2 | Some b \<Rightarrow> Some b) in
      case b3 of
        None \<Rightarrow> Some []
      | Some b \<Rightarrow>
          if b \<noteq> [] \<and> utf8 then
            let expanded = concat (map expand_byte b) in
            if length expanded > KEYINPUT_BUFSIZE * 2 + 1 then None
            else Some (take (min (length expanded) KEYINPUT_BUFSIZE) expanded)
          else if length b > KEYINPUT_BUFSIZE + 1 then None
          else Some b)"

section \<open>Units, requests and replies\<close>

record paste_node =
  pn_buffer :: "byte list"
  pn_allocation :: nat

record input_unit = mouse_unit +
  iu_bracketed :: bool
  pasteData :: "paste_node list"
  pasteBufferPos :: nat

record read_request =
  rq_id :: nat
  rq_unit :: nat
  rq_length :: nat

record input_base =
  in_units :: "nat \<Rightarrow> input_unit"
  readRequests :: "read_request list"
  replies :: "(read_request \<times> byte list) list"

definition set_unit :: "nat \<Rightarrow> input_unit \<Rightarrow> input_base \<Rightarrow> input_base" where
  "set_unit u v b = b\<lparr>in_units := (in_units b)(u := v)\<rparr>"

text \<open>Copying to the end of the input buffer.\<close>

definition store_input :: "nat \<Rightarrow> byte list \<Rightarrow> input_base \<Rightarrow> input_base option" where
  "store_input u bytes b =
     (let v = in_units b u in
      if length (mu_inputBuf v) + length bytes > CON_INPUTBUF_SIZE then None
      else Some (set_unit u (v\<lparr>mu_inputBuf := mu_inputBuf v @ bytes\<rparr>) b))"

section \<open>Queued data\<close>

definition framed :: "bool \<Rightarrow> byte list \<Rightarrow> byte list" where
  "framed bracketed data =
     (if bracketed
      then [0x1B, 0x5B, 0x32, 0x30, 0x30, 0x7E] @ filter (\<lambda>c. c \<noteq> 27 \<and> c \<noteq> 3) data @ [0x1B, 0x5B, 0x32, 0x30, 0x31, 0x7E]
      else data)"

text \<open>\<open>None\<close> for a null pointer; \<open>alloc\<close> says whether both allocations succeed.\<close>

definition con_queue_data :: "nat \<Rightarrow> byte list option \<Rightarrow> bool \<Rightarrow> bool \<Rightarrow> input_base \<Rightarrow> input_base option" where
  "con_queue_data u data clipboard alloc b =
     (case data of
        None \<Rightarrow> Some b
      | Some bytes \<Rightarrow>
          let v = in_units b u; bracketed = (clipboard \<and> iu_bracketed v); extra = (if bracketed then 12 else 0) in
          if (bytes \<noteq> [] \<or> bracketed) \<and> length bytes \<le> 0x7FFFFFFF - extra \<and> alloc then
            let capacity = length bytes + extra; buffer = framed bracketed bytes in
            if length buffer > capacity then None
            else Some (set_unit u (v\<lparr>pasteData := pasteData v @ [\<lparr>pn_buffer = buffer, pn_allocation = capacity\<rparr>]\<rparr>) b)
          else Some b)"

definition con_inject :: "nat \<Rightarrow> byte list option \<Rightarrow> bool \<Rightarrow> input_base \<Rightarrow> input_base option" where
  "con_inject u data alloc b = con_queue_data u data False alloc b"

definition con_inject_paste :: "nat \<Rightarrow> byte list option \<Rightarrow> bool \<Rightarrow> input_base \<Rightarrow> input_base option" where
  "con_inject_paste u data alloc b = con_queue_data u data True alloc b"

section \<open>Answering readers\<close>

definition answer_read_request :: "read_request \<Rightarrow> input_base \<Rightarrow> input_base" where
  "answer_read_request req b =
     (let v = in_units b (rq_unit req); stored = mu_inputBuf v; actual = min (length stored) (rq_length req);
          rest = (if length stored > rq_length req then drop actual stored else []) in
      (set_unit (rq_unit req) (v\<lparr>mu_inputBuf := rest\<rparr>) b)\<lparr>replies := replies b @ [(req, take actual stored)]\<rparr>)"

text \<open>The walk over the requests: those that stay, and the base.\<close>

fun answer_loop :: "nat option \<Rightarrow> read_request list \<Rightarrow> input_base \<Rightarrow> read_request list \<times> input_base" where
  "answer_loop unit [] b = ([], b)"
| "answer_loop unit (req # reqs) b =
     (if unit = Some (rq_unit req) \<and> mu_inputBuf (in_units b (rq_unit req)) \<noteq> []
      then answer_loop unit reqs (answer_read_request req b)
      else case answer_loop unit reqs b of (kept, b') \<Rightarrow> (req # kept, b'))"

definition answer_requests :: "nat option \<Rightarrow> input_base \<Rightarrow> input_base" where
  "answer_requests unit b = (case answer_loop unit (readRequests b) b of (kept, b') \<Rightarrow> b'\<lparr>readRequests := kept\<rparr>)"

definition paste_data :: "nat \<Rightarrow> input_base \<Rightarrow> (nat \<times> input_base) option" where
  "paste_data u b =
     (let v = in_units b u in
      case pasteData v of
        [] \<Rightarrow> Some (0, b)
      | pd # pds \<Rightarrow>
          let len = length (pn_buffer pd); pos = pasteBufferPos v in
          if pos > len \<or> length (mu_inputBuf v) > CON_INPUTBUF_SIZE then None
          else
            let tocopy = min (len - pos) (CON_INPUTBUF_SIZE - length (mu_inputBuf v)) in do {
              b1 \<leftarrow> store_input u (take tocopy (drop pos (pn_buffer pd))) b;
              let v1 = in_units b1 u;
              let v2 = (if pos + tocopy \<ge> len then v1\<lparr>pasteData := pds, pasteBufferPos := 0\<rparr>
                    else v1\<lparr>pasteBufferPos := pos + tocopy\<rparr>);
              Some (tocopy, answer_requests (Some u) (set_unit u v2 b1))
            })"

text \<open>
  One pass over the pending requests, which stops at the first that got data. A request that is
  answered while the walk goes on would break the walk.
\<close>

fun paste_scan :: "read_request list \<Rightarrow> input_base \<Rightarrow> (bool \<times> input_base) option" where
  "paste_scan [] b = Some (False, b)"
| "paste_scan (req # reqs) b = do {
     (n, b') \<leftarrow> paste_data (rq_unit req) b;
     (if n \<noteq> 0 then Some (True, answer_requests None b')
      else if readRequests b' \<noteq> readRequests b then None
      else paste_scan reqs b')
   }"

partial_function (option) wake_loop :: "input_base \<Rightarrow> input_base option" where
  "wake_loop b = do {
     (active, b') \<leftarrow> paste_scan (readRequests b) b;
     (if active then wake_loop b' else Some b')
   }"

definition read_command :: "read_request \<Rightarrow> input_base \<Rightarrow> input_base option" where
  "read_command req b = do {
     (n, b') \<leftarrow> paste_data (rq_unit req) b;
     Some (if mu_inputBuf (in_units b' (rq_unit req)) \<noteq> [] then answer_read_request req b'
           else b'\<lparr>readRequests := readRequests b' @ [req]\<rparr>)
   }"

section \<open>Events\<close>

text \<open>A report that is stored whole or not at all.\<close>

definition store_report :: "nat \<Rightarrow> byte list \<Rightarrow> input_base \<Rightarrow> input_base option" where
  "store_report u report b =
     (if length report \<le> CON_INPUTBUF_SIZE - length (mu_inputBuf (in_units b u))
      then map_option (answer_requests (Some u)) (store_input u report b) else Some b)"

text \<open>A raw event: \<open>fmt\<close> is \<open>RawDoFmt\<close> on the eight fields; a full buffer of 128 means no terminator fitted.\<close>

definition report_raw_event :: "(int list \<Rightarrow> byte list) \<Rightarrow> bool \<Rightarrow> bool \<Rightarrow> nat \<Rightarrow> int list \<Rightarrow> input_base \<Rightarrow> (bool \<times> input_base) option" where
  "report_raw_event fmt enabled motion u event b =
     (if \<not> enabled then Some (False, b)
      else if motion then Some (True, b)
      else if length (fmt event) \<ge> 128 then Some (True, b)
      else map_option (\<lambda>b'. (True, b')) (store_report u (fmt event) b))"

definition report_focus_event :: "bool \<Rightarrow> bool \<Rightarrow> nat \<Rightarrow> input_base \<Rightarrow> input_base option" where
  "report_focus_event enabled active u b =
     (if \<not> enabled then Some b else store_report u [27, 0x5B, if active then 0x49 else 0x4F] b)"

text \<open>The wheel as cursor keys, \<open>n\<close> the distance from \<open>RAWKEY_NM_WHEEL_UP\<close>.\<close>

definition wheel_key :: "nat \<Rightarrow> byte" where
  "wheel_key n = [0x41, 0x42, 0x44, 0x43] ! n"

definition report_alternate_scroll :: "bool \<Rightarrow> nat \<Rightarrow> nat \<Rightarrow> nat \<Rightarrow> input_base \<Rightarrow> (bool \<times> input_base) option" where
  "report_alternate_scroll enabled wheelLines n u b =
     (if \<not> enabled then Some (False, b)
      else
        let stored = length (mu_inputBuf (in_units b u));
            available = (if stored \<le> CON_INPUTBUF_SIZE then (CON_INPUTBUF_SIZE - stored) div 3 else 0);
            cnt = min wheelLines available in
        if cnt = 0 then Some (True, b)
        else map_option (\<lambda>b'. (True, answer_requests (Some u) b'))
               (store_input u (concat (replicate cnt [27, 0x4F, wheel_key n])) b))"

text \<open>The mouse handler of theory Mouse works on the unit; a report is followed by the answers.\<close>

definition mouse_input ::
  "con_window option \<Rightarrow> con_geometry \<Rightarrow> mouse_event \<Rightarrow> mouse_qualifier \<Rightarrow> int \<Rightarrow> int \<Rightarrow> nat \<Rightarrow> input_base \<Rightarrow> (bool \<times> input_base) option" where
  "mouse_input window g ev q px py u b = do {
     (handled, v) \<leftarrow> report_mouse_event (in_units b u) window g ev q px py;
     let b' = set_unit u v b;
     Some (handled, if mu_inputBuf v = mu_inputBuf (in_units b u) then b' else answer_requests (Some u) b')
   }"

text \<open>Typed bytes: as many as fit.\<close>

definition key_input :: "byte list \<Rightarrow> nat \<Rightarrow> input_base \<Rightarrow> input_base option" where
  "key_input bytes u b =
     (if bytes = [] then Some b
      else
        let tocopy = min (length bytes) (CON_INPUTBUF_SIZE - length (mu_inputBuf (in_units b u))) in
        map_option (answer_requests (Some u)) (store_input u (take tocopy bytes) b))"

section \<open>One task step\<close>

datatype input_op =
    Op_read read_request
  | Op_queue nat "byte list option" bool bool
  | Op_wake
  | Op_raw nat bool bool "int list"
  | Op_focus nat bool bool
  | Op_wheel nat bool nat nat
  | Op_mouse nat "con_window option" con_geometry mouse_event mouse_qualifier int int
  | Op_key nat kb_unit bool bool bool input_event

fun input_step :: "(int list \<Rightarrow> byte list) \<Rightarrow> keymap \<Rightarrow> input_op \<Rightarrow> input_base \<Rightarrow> input_base option" where
  "input_step fmt convert (Op_read req) b = read_command req b"
| "input_step fmt convert (Op_queue u data clipboard alloc) b = con_queue_data u data clipboard alloc b"
| "input_step fmt convert Op_wake b = wake_loop b"
| "input_step fmt convert (Op_raw u enabled motion event) b = map_option snd (report_raw_event fmt enabled motion u event b)"
| "input_step fmt convert (Op_focus u enabled active) b = report_focus_event enabled active u b"
| "input_step fmt convert (Op_wheel u enabled wheelLines n) b = map_option snd (report_alternate_scroll enabled wheelLines n u b)"
| "input_step fmt convert (Op_mouse u window g ev q px py) b = map_option snd (mouse_input window g ev q px py u b)"
| "input_step fmt convert (Op_key u kb utf8 application closing ev) b = do {
     bytes \<leftarrow> key_bytes convert kb utf8 application closing ev;
     key_input bytes u b
   }"

fun input_run :: "(int list \<Rightarrow> byte list) \<Rightarrow> keymap \<Rightarrow> input_op list \<Rightarrow> input_base \<Rightarrow> input_base option" where
  "input_run fmt convert [] b = Some b"
| "input_run fmt convert (op # ops) b = do { b' \<leftarrow> input_step fmt convert op b; input_run fmt convert ops b' }"

section \<open>Streams\<close>

text \<open>
  All the bytes a unit has taken in: those its readers got, in order, and those still stored. The
  pastes that are still to come are another stream; requests keep the order of their arrival.
\<close>

definition accepted :: "input_base \<Rightarrow> nat \<Rightarrow> byte list" where
  "accepted b u = concat (map snd (filter (\<lambda>r. rq_unit (fst r) = u) (replies b))) @ mu_inputBuf (in_units b u)"

definition unit_pastes :: "input_unit \<Rightarrow> byte list" where
  "unit_pastes v = drop (pasteBufferPos v) (concat (map pn_buffer (pasteData v)))"

definition to_paste :: "input_base \<Rightarrow> nat \<Rightarrow> byte list" where
  "to_paste b u = unit_pastes (in_units b u)"

definition unit_reads :: "nat \<Rightarrow> read_request list \<Rightarrow> read_request list" where
  "unit_reads u rs = filter (\<lambda>r. rq_unit r = u) rs"

definition arrivals :: "input_base \<Rightarrow> nat \<Rightarrow> read_request list" where
  "arrivals b u = unit_reads u (map fst (replies b) @ readRequests b)"

definition unit_ok :: "input_unit \<Rightarrow> bool" where
  "unit_ok v \<longleftrightarrow> length (mu_inputBuf v) \<le> CON_INPUTBUF_SIZE \<and>
     list_all (\<lambda>p. pn_buffer p \<noteq> [] \<and> length (pn_buffer p) \<le> pn_allocation p) (pasteData v) \<and>
     (case pasteData v of [] \<Rightarrow> pasteBufferPos v = 0 | p # ps \<Rightarrow> pasteBufferPos v < length (pn_buffer p))"

text \<open>No reader of a unit waits while the unit has bytes; \<open>x\<close> may exempt one unit.\<close>

definition base_ok :: "nat option \<Rightarrow> input_base \<Rightarrow> bool" where
  "base_ok x b \<longleftrightarrow> (\<forall>u. unit_ok (in_units b u)) \<and>
     (\<forall>r \<in> set (readRequests b). Some (rq_unit r) \<noteq> x \<longrightarrow> mu_inputBuf (in_units b (rq_unit r)) = []) \<and>
     (\<forall>(r, bytes) \<in> set (replies b). length bytes \<le> rq_length r)"

definition same_streams :: "input_base \<Rightarrow> input_base \<Rightarrow> bool" where
  "same_streams b b' \<longleftrightarrow> (\<forall>u. accepted b' u = accepted b u \<and> to_paste b' u = to_paste b u \<and> arrivals b' u = arrivals b u)"

lemma same_streams_trans: "same_streams a b \<Longrightarrow> same_streams b c \<Longrightarrow> same_streams a c"
  by (simp add: same_streams_def)

lemma set_unit_simps [simp]:
  "in_units (set_unit u v b) = (in_units b)(u := v)" "readRequests (set_unit u v b) = readRequests b"
  "replies (set_unit u v b) = replies b"
  by (simp_all add: set_unit_def)

lemma unit_reads_simps [simp]:
  "unit_reads u [] = []" "unit_reads u (r # rs) = (if rq_unit r = u then r # unit_reads u rs else unit_reads u rs)"
  "unit_reads u (rs @ ss) = unit_reads u rs @ unit_reads u ss"
  by (simp_all add: unit_reads_def)

section \<open>Answers keep the streams\<close>

lemma unit_ok_input [simp]:
  "unit_ok v \<Longrightarrow> length x \<le> CON_INPUTBUF_SIZE \<Longrightarrow> unit_ok (v\<lparr>mu_inputBuf := x\<rparr>)"
  by (simp add: unit_ok_def cong: list.case_cong)

lemma unit_pastes_input [simp]: "unit_pastes (v\<lparr>mu_inputBuf := x\<rparr>) = unit_pastes v"
  by (simp add: unit_pastes_def)

lemma unit_ok_length: "unit_ok v \<Longrightarrow> length (mu_inputBuf v) \<le> CON_INPUTBUF_SIZE"
  by (simp add: unit_ok_def)

definition replies_ok :: "input_base \<Rightarrow> bool" where
  "replies_ok b \<longleftrightarrow> (\<forall>(r, bytes) \<in> set (replies b). length bytes \<le> rq_length r)"

text \<open>What a walk leaves alone.\<close>

definition answer_frame :: "nat \<Rightarrow> input_base \<Rightarrow> input_base \<Rightarrow> bool" where
  "answer_frame u b b' \<longleftrightarrow> (\<forall>w. accepted b' w = accepted b w) \<and> (\<forall>w. to_paste b' w = to_paste b w) \<and>
     readRequests b' = readRequests b \<and> (\<forall>w. w \<noteq> u \<longrightarrow> in_units b' w = in_units b w) \<and>
     pasteData (in_units b' u) = pasteData (in_units b u) \<and>
     ((\<forall>w. unit_ok (in_units b w)) \<longrightarrow> (\<forall>w. unit_ok (in_units b' w))) \<and> (replies_ok b \<longrightarrow> replies_ok b') \<and>
     (\<forall>w. w \<noteq> u \<longrightarrow> unit_reads w (map fst (replies b')) = unit_reads w (map fst (replies b)))"

lemma answer_one:
  "answer_frame (rq_unit req) b (answer_read_request req b)"
  "map fst (replies (answer_read_request req b)) = map fst (replies b) @ [req]"
proof -
  have "unit_ok v \<Longrightarrow> unit_ok (v\<lparr>mu_inputBuf := drop n (mu_inputBuf v)\<rparr>)" for v n
    using unit_ok_length [of v] by (intro unit_ok_input) simp_all
  then show "answer_frame (rq_unit req) b (answer_read_request req b)"
    unfolding answer_frame_def answer_read_request_def Let_def
    by (auto simp: accepted_def to_paste_def replies_ok_def min_def)
qed (simp add: answer_read_request_def Let_def)

lemma answer_frame_trans: "answer_frame u a b \<Longrightarrow> answer_frame u b c \<Longrightarrow> answer_frame u a c"
  by (simp add: answer_frame_def)

lemma answer_frame_refl: "answer_frame u b b"
  by (simp add: answer_frame_def)

lemma answer_loop_none: "answer_loop None reqs b = (reqs, b)"
  by (induction reqs) auto

lemma answer_loop_idle: "mu_inputBuf (in_units b u) = [] \<Longrightarrow> answer_loop (Some u) reqs b = (reqs, b)"
  by (induction reqs) auto

lemma answer_loop_absent: "unit_reads u reqs = [] \<Longrightarrow> answer_loop (Some u) reqs b = (reqs, b)"
  by (induction reqs) (auto split: if_splits)

text \<open>Either the buffer is used up or no reader of the unit is left.\<close>

lemma answer_loop_ok:
  assumes "answer_loop (Some u) reqs b = (kept, b')"
  shows "answer_frame u b b' \<and> set kept \<subseteq> set reqs \<and> length kept \<le> length reqs \<and>
    (\<forall>w. w \<noteq> u \<longrightarrow> unit_reads w kept = unit_reads w reqs) \<and>
    unit_reads u (map fst (replies b') @ kept) = unit_reads u (map fst (replies b) @ reqs) \<and>
    (mu_inputBuf (in_units b' u) = [] \<or> unit_reads u kept = [])"
  using assms
proof (induction reqs arbitrary: b kept b')
  case (Cons req reqs)
  show ?case
  proof (cases "rq_unit req = u \<and> mu_inputBuf (in_units b u) \<noteq> []")
    case True
    then have "answer_loop (Some u) reqs (answer_read_request req b) = (kept, b')" using Cons.prems by simp
    from Cons.IH [OF this] answer_one [of req b] True show ?thesis by (auto intro: answer_frame_trans)
  next
    case False
    then obtain kept' where k: "answer_loop (Some u) reqs b = (kept', b')" "kept = req # kept'"
      using Cons.prems by (cases "answer_loop (Some u) reqs b") (auto split: if_splits)
    have idle: "rq_unit req = u \<Longrightarrow> kept' = reqs \<and> b' = b"
      using False k(1) answer_loop_idle [of b u reqs] by auto
    show ?thesis
    proof (cases "rq_unit req = u")
      case True
      then show ?thesis using idle k(2) False by (simp add: answer_frame_refl)
    next
      case other: False
      then show ?thesis using Cons.IH [OF k(1)] k(2) by auto
    qed
  qed
qed (simp add: answer_frame_refl)

lemma answer_loop_shorter:
  assumes "answer_loop (Some u) reqs b = (kept, b')" and "mu_inputBuf (in_units b u) \<noteq> []" and "unit_reads u reqs \<noteq> []"
  shows "length kept < length reqs"
  using assms
proof (induction reqs arbitrary: kept b')
  case (Cons req reqs)
  show ?case
  proof (cases "rq_unit req = u")
    case True
    then have "answer_loop (Some u) reqs (answer_read_request req b) = (kept, b')" using Cons.prems by simp
    then have "length kept \<le> length reqs" using answer_loop_ok by blast
    then show ?thesis by simp
  next
    case False
    then show ?thesis using Cons by (auto split: prod.splits)
  qed
qed simp

lemma answer_requests_ok:
  assumes ok: "base_ok (Some u) b"
  shows "base_ok None (answer_requests (Some u) b) \<and> same_streams b (answer_requests (Some u) b) \<and>
    pasteData (in_units (answer_requests (Some u) b) u) = pasteData (in_units b u) \<and>
    (\<forall>w. w \<noteq> u \<longrightarrow> in_units (answer_requests (Some u) b) w = in_units b w) \<and>
    set (readRequests (answer_requests (Some u) b)) \<subseteq> set (readRequests b) \<and>
    (unit_reads u (readRequests b) = [] \<longrightarrow> readRequests (answer_requests (Some u) b) = readRequests b) \<and>
    (mu_inputBuf (in_units b u) \<noteq> [] \<longrightarrow> unit_reads u (readRequests b) \<noteq> [] \<longrightarrow>
      length (readRequests (answer_requests (Some u) b)) < length (readRequests b))"
proof -
  obtain kept b' where k: "answer_loop (Some u) (readRequests b) b = (kept, b')" by fastforce
  then have a: "answer_requests (Some u) b = b'\<lparr>readRequests := kept\<rparr>" by (simp add: answer_requests_def)
  note l = answer_loop_ok [OF k]
  then have f: "answer_frame u b b'" by blast
  have empty: "mu_inputBuf (in_units b' (rq_unit r)) = []" if "r \<in> set kept" for r
  proof (cases "rq_unit r = u")
    case True
    then have "unit_reads u kept \<noteq> []" using that by (auto simp: unit_reads_def filter_empty_conv)
    then show ?thesis using l True by blast
  next
    case False
    then show ?thesis using l that ok f by (auto simp: base_ok_def answer_frame_def)
  qed
  have "base_ok None (b'\<lparr>readRequests := kept\<rparr>)"
    using ok f empty by (auto simp: base_ok_def answer_frame_def replies_ok_def)
  moreover have "same_streams b (b'\<lparr>readRequests := kept\<rparr>)"
    unfolding same_streams_def arrivals_def
  proof (intro allI conjI)
    fix w
    show "accepted (b'\<lparr>readRequests := kept\<rparr>) w = accepted b w" "to_paste (b'\<lparr>readRequests := kept\<rparr>) w = to_paste b w"
      using f by (simp_all add: answer_frame_def accepted_def to_paste_def)
    show "unit_reads w (map fst (replies (b'\<lparr>readRequests := kept\<rparr>)) @ readRequests (b'\<lparr>readRequests := kept\<rparr>)) =
        unit_reads w (map fst (replies b) @ readRequests b)"
      using l f by (cases "w = u") (simp_all add: answer_frame_def)
  qed
  moreover have "unit_reads u (readRequests b) = [] \<longrightarrow> kept = readRequests b"
    using k answer_loop_absent [of u "readRequests b" b] by auto
  ultimately show ?thesis unfolding a using l f answer_loop_shorter [OF k] by (auto simp: answer_frame_def)
qed

section \<open>Bytes taken in\<close>

definition feeds :: "nat \<Rightarrow> byte list \<Rightarrow> input_base \<Rightarrow> input_base \<Rightarrow> bool" where
  "feeds u x b b' \<longleftrightarrow> (\<forall>w. accepted b' w = accepted b w @ (if w = u then x else []) \<and> to_paste b' w = to_paste b w \<and>
     arrivals b' w = arrivals b w)"

text \<open>Pastes that move from the queue into the input.\<close>

definition pulls :: "input_base \<Rightarrow> input_base \<Rightarrow> bool" where
  "pulls b b' \<longleftrightarrow> (\<forall>w. (\<exists>x. accepted b' w = accepted b w @ x \<and> to_paste b w = x @ to_paste b' w) \<and> arrivals b' w = arrivals b w)"

lemma pulls_refl: "pulls b b"
  by (simp add: pulls_def)

lemma pulls_trans: "pulls a b \<Longrightarrow> pulls b c \<Longrightarrow> pulls a c"
  unfolding pulls_def by (metis append.assoc)

lemma pulls_same: "pulls a b \<Longrightarrow> same_streams b c \<Longrightarrow> pulls a c"
  by (simp add: pulls_def same_streams_def)

lemma feeds_same: "feeds u x a b \<Longrightarrow> same_streams b c \<Longrightarrow> feeds u x a c"
  by (simp add: feeds_def same_streams_def)

lemma store_input_ok:
  assumes "base_ok None b" and "length (mu_inputBuf (in_units b u)) + length bytes \<le> CON_INPUTBUF_SIZE"
  obtains b' where "store_input u bytes b = Some b'" "base_ok (Some u) b'" "feeds u bytes b b'"
    "in_units b' u = (in_units b u)\<lparr>mu_inputBuf := mu_inputBuf (in_units b u) @ bytes\<rparr>"
    "\<And>w. w \<noteq> u \<Longrightarrow> in_units b' w = in_units b w" "readRequests b' = readRequests b" "replies b' = replies b"
proof
  let ?v = "(in_units b u)\<lparr>mu_inputBuf := mu_inputBuf (in_units b u) @ bytes\<rparr>"
  show "store_input u bytes b = Some (set_unit u ?v b)" using assms(2) by (simp add: store_input_def Let_def)
  show "base_ok (Some u) (set_unit u ?v b)"
    using assms by (auto simp: base_ok_def)
  show "feeds u bytes b (set_unit u ?v b)"
    by (simp add: feeds_def accepted_def to_paste_def arrivals_def)
qed simp_all

lemma store_answer_ok:
  assumes "base_ok None b" and "length (mu_inputBuf (in_units b u)) + length bytes \<le> CON_INPUTBUF_SIZE"
  shows "\<exists>b'. map_option (answer_requests (Some u)) (store_input u bytes b) = Some b' \<and> base_ok None b' \<and> feeds u bytes b b'"
proof -
  from store_input_ok [OF assms] obtain b1 where b1: "store_input u bytes b = Some b1" "base_ok (Some u) b1" "feeds u bytes b b1"
    by blast
  then show ?thesis using answer_requests_ok [OF b1(2)] feeds_same by fastforce
qed

lemma feeds_none: "feeds u [] b b"
  by (simp add: feeds_def)

lemma pending_empty: "base_ok None b \<Longrightarrow> unit_reads u (readRequests b) \<noteq> [] \<Longrightarrow> mu_inputBuf (in_units b u) = []"
  by (auto simp: base_ok_def unit_reads_def filter_empty_conv)

lemma paste_data_ok:
  assumes ok: "base_ok None b"
  shows "\<exists>n b'. paste_data u b = Some (n, b') \<and> base_ok None b' \<and> pulls b b' \<and>
    set (readRequests b') \<subseteq> set (readRequests b) \<and>
    (pasteData (in_units b u) = [] \<longrightarrow> n = 0 \<and> b' = b) \<and>
    (pasteData (in_units b u) \<noteq> [] \<longrightarrow> unit_reads u (readRequests b) \<noteq> [] \<longrightarrow>
      n \<noteq> 0 \<and> length (readRequests b') < length (readRequests b))"
proof (cases "pasteData (in_units b u)")
  case Nil
  then show ?thesis using ok by (simp add: paste_data_def Let_def pulls_refl)
next
  case (Cons pd pds)
  define v where "v = in_units b u"
  define pos where "pos = pasteBufferPos v"
  define len where "len = length (pn_buffer pd)"
  define n where "n = min (len - pos) (CON_INPUTBUF_SIZE - length (mu_inputBuf v))"
  define x where "x = take n (drop pos (pn_buffer pd))"
  have vok: "unit_ok v" using ok by (simp add: base_ok_def v_def)
  then have room: "pos < len" "length (mu_inputBuf v) \<le> CON_INPUTBUF_SIZE"
    using Cons by (simp_all add: unit_ok_def v_def pos_def len_def)
  have lx: "length x = n" by (simp add: x_def n_def len_def)
  then have "length (mu_inputBuf (in_units b u)) + length x \<le> CON_INPUTBUF_SIZE"
    using room by (simp add: n_def v_def [symmetric])
  from store_input_ok [OF ok this] obtain b1 where b1: "store_input u x b = Some b1" "base_ok (Some u) b1" "feeds u x b b1"
    "in_units b1 u = v\<lparr>mu_inputBuf := mu_inputBuf v @ x\<rparr>" "\<And>w. w \<noteq> u \<Longrightarrow> in_units b1 w = in_units b w"
    "readRequests b1 = readRequests b" "replies b1 = replies b" unfolding v_def by blast
  define v2 where "v2 = (if pos + n \<ge> len then (in_units b1 u)\<lparr>pasteData := pds, pasteBufferPos := 0\<rparr>
      else (in_units b1 u)\<lparr>pasteBufferPos := pos + n\<rparr>)"
  define b2 where "b2 = set_unit u v2 b1"
  have res: "paste_data u b = Some (n, answer_requests (Some u) b2)"
    using Cons b1(1) room unfolding paste_data_def Let_def v_def [symmetric] pos_def [symmetric] len_def [symmetric]
    by (simp add: pos_def [symmetric] len_def [symmetric] n_def [symmetric] x_def [symmetric] b2_def v2_def)
  have v2ok: "unit_ok v2"
  proof -
    have "unit_ok (in_units b1 u)" using b1(2) by (simp add: base_ok_def)
    then show ?thesis using Cons b1(4) by (auto simp: unit_ok_def v2_def v_def [symmetric] len_def [symmetric] split: list.splits)
  qed
  then have ok2: "base_ok (Some u) b2" using b1(2) by (auto simp: base_ok_def b2_def)
  have buf2: "mu_inputBuf v2 = mu_inputBuf v @ x" using b1(4) by (simp add: v2_def)
  have "unit_pastes v = x @ unit_pastes v2"
  proof (cases "pos + n \<ge> len")
    case True
    then have "x = drop pos (pn_buffer pd)" by (simp add: x_def len_def)
    then show ?thesis using True Cons room by (simp add: unit_pastes_def v2_def v_def [symmetric] pos_def [symmetric] len_def)
  next
    case False
    have "drop pos (pn_buffer pd) = x @ drop (pos + n) (pn_buffer pd)" unfolding x_def
      by (metis add.commute append_take_drop_id drop_drop)
    then show ?thesis using False Cons room b1(4)
      by (simp add: unit_pastes_def v2_def v_def [symmetric] pos_def [symmetric] len_def)
  qed
  then have "pulls b b2"
    using b1 buf2 unfolding pulls_def
    by (auto simp: b2_def accepted_def to_paste_def arrivals_def feeds_def v_def [symmetric])
  then have "pulls b (answer_requests (Some u) b2)" using answer_requests_ok [OF ok2] pulls_same by blast
  moreover have "n \<noteq> 0 \<and> length (readRequests (answer_requests (Some u) b2)) < length (readRequests b)"
    if r: "unit_reads u (readRequests b) \<noteq> []"
  proof -
    have "mu_inputBuf v = []" using pending_empty [OF ok r] by (simp add: v_def)
    then have n: "n \<noteq> 0" using room by (simp add: n_def CON_INPUTBUF_SIZE_def)
    then have "mu_inputBuf (in_units b2 u) \<noteq> []" using lx buf2 by (auto simp: b2_def)
    then show ?thesis using answer_requests_ok [OF ok2] r b1(6) n by (simp add: b2_def)
  qed
  ultimately show ?thesis using res answer_requests_ok [OF ok2] Cons b1(6) by (auto simp: b2_def)
qed

section \<open>Waking up\<close>

lemma answer_requests_none [simp]: "answer_requests None b = b"
  by (simp add: answer_requests_def answer_loop_none)

lemma paste_scan_ok:
  assumes "base_ok None b" and "set reqs \<subseteq> set (readRequests b)"
  shows "\<exists>active b'. paste_scan reqs b = Some (active, b') \<and> base_ok None b' \<and> pulls b b' \<and>
    (if active then length (readRequests b') < length (readRequests b)
     else b' = b \<and> (\<forall>r \<in> set reqs. pasteData (in_units b (rq_unit r)) = []))"
  using assms(2)
proof (induction reqs)
  case Nil
  show ?case using assms(1) by (intro exI [of _ False] exI [of _ b]) (simp add: pulls_refl)
next
  case (Cons req reqs)
  from paste_data_ok [OF assms(1), of "rq_unit req"] obtain n b' where
    p: "paste_data (rq_unit req) b = Some (n, b')" "base_ok None b'" "pulls b b'"
      "pasteData (in_units b (rq_unit req)) = [] \<longrightarrow> n = 0 \<and> b' = b"
      "pasteData (in_units b (rq_unit req)) \<noteq> [] \<longrightarrow> unit_reads (rq_unit req) (readRequests b) \<noteq> [] \<longrightarrow>
        n \<noteq> 0 \<and> length (readRequests b') < length (readRequests b)" by blast
  have r: "unit_reads (rq_unit req) (readRequests b) \<noteq> []"
    using Cons.prems by (auto simp: unit_reads_def filter_empty_conv)
  show ?case
  proof (cases "pasteData (in_units b (rq_unit req)) = []")
    case True
    from Cons obtain active b2 where "paste_scan reqs b = Some (active, b2)" "base_ok None b2" "pulls b b2"
      "if active then length (readRequests b2) < length (readRequests b)
       else b2 = b \<and> (\<forall>r \<in> set reqs. pasteData (in_units b (rq_unit r)) = [])" by auto
    then show ?thesis using p True by (intro exI [of _ active] exI [of _ b2]) auto
  next
    case False
    then show ?thesis using p r by (intro exI [of _ True] exI [of _ b']) simp
  qed
qed

lemma wake_loop_ok:
  assumes "base_ok None b"
  shows "\<exists>b'. wake_loop b = Some b' \<and> base_ok None b' \<and> pulls b b' \<and>
    (\<forall>r \<in> set (readRequests b'). pasteData (in_units b' (rq_unit r)) = [])"
  using assms
proof (induction "length (readRequests b)" arbitrary: b rule: less_induct)
  case less
  from paste_scan_ok [OF less.prems order_refl] obtain active b1 where
    s: "paste_scan (readRequests b) b = Some (active, b1)" "base_ok None b1" "pulls b b1"
      "if active then length (readRequests b1) < length (readRequests b)
       else b1 = b \<and> (\<forall>r \<in> set (readRequests b). pasteData (in_units b (rq_unit r)) = [])" by blast
  show ?case
  proof (cases active)
    case True
    then obtain b' where "wake_loop b1 = Some b'" "base_ok None b'" "pulls b1 b'"
      "\<forall>r \<in> set (readRequests b'). pasteData (in_units b' (rq_unit r)) = []"
      using less.hyps [of b1] s by auto
    then show ?thesis using s True pulls_trans by (subst wake_loop.simps) auto
  next
    case False
    then show ?thesis using s by (subst wake_loop.simps) auto
  qed
qed

section \<open>Reading\<close>

definition arrived :: "read_request \<Rightarrow> input_base \<Rightarrow> input_base \<Rightarrow> bool" where
  "arrived req b b' \<longleftrightarrow> (\<forall>w. (\<exists>x. accepted b' w = accepted b w @ x \<and> to_paste b w = x @ to_paste b' w) \<and>
     arrivals b' w = arrivals b w @ (if w = rq_unit req then [req] else []))"

lemma read_command_ok:
  assumes "base_ok None b"
  shows "\<exists>b'. read_command req b = Some b' \<and> base_ok None b' \<and> arrived req b b'"
proof -
  let ?u = "rq_unit req"
  from paste_data_ok [OF assms, of ?u] obtain n b1 where p: "paste_data ?u b = Some (n, b1)" "base_ok None b1" "pulls b b1" by blast
  show ?thesis
  proof (cases "mu_inputBuf (in_units b1 ?u) = []")
    case True
    have "base_ok None (b1\<lparr>readRequests := readRequests b1 @ [req]\<rparr>)" using p(2) True by (auto simp: base_ok_def)
    moreover have "arrived req b (b1\<lparr>readRequests := readRequests b1 @ [req]\<rparr>)"
      using p(3) by (auto simp: arrived_def pulls_def accepted_def to_paste_def arrivals_def)
    ultimately show ?thesis using p(1) True by (simp add: read_command_def)
  next
    case False
    let ?b = "answer_read_request req b1"
    have f: "answer_frame ?u b1 ?b" "map fst (replies ?b) = map fst (replies b1) @ [req]" by (rule answer_one)+
    have none: "unit_reads ?u (readRequests b1) = []" using pending_empty [OF p(2)] False by blast
    then have "base_ok None ?b"
      using p(2) f(1) by (auto simp: base_ok_def answer_frame_def replies_ok_def unit_reads_def filter_empty_conv)
    moreover have "arrivals ?b w = arrivals b1 w @ (if w = ?u then [req] else [])" for w
      using f none by (cases "w = ?u") (simp_all add: arrivals_def answer_frame_def)
    then have "arrived req b ?b"
      using p(3) f(1) unfolding arrived_def pulls_def answer_frame_def by simp
    ultimately show ?thesis using p(1) False by (simp add: read_command_def)
  qed
qed

section \<open>Every step\<close>

text \<open>
  What a step may do to the streams of a unit, as a specification: data waiting to be pasted, bytes
  taken in and requests that arrived, each a list that grows at its end; a paste moves from the front of
  the first to the end of the second.
\<close>

type_synonym unit_streams = "byte list \<times> byte list \<times> read_request list"

inductive absorbs :: "(int list \<Rightarrow> byte list) \<Rightarrow> keymap \<Rightarrow> input_op \<Rightarrow> nat \<Rightarrow> unit_streams \<Rightarrow> unit_streams \<Rightarrow> bool"
  for fmt convert where
  nothing: "(\<And>req. op = Op_read req \<Longrightarrow> rq_unit req \<noteq> u) \<Longrightarrow> absorbs fmt convert op u st st"
| read: "absorbs fmt convert (Op_read req) (rq_unit req) (x @ ps, s, rs) (ps, s @ x, rs @ [req])"
| read_other: "rq_unit req \<noteq> u \<Longrightarrow> absorbs fmt convert (Op_read req) u (x @ ps, s, rs) (ps, s @ x, rs)"
| wake: "absorbs fmt convert Op_wake u (x @ ps, s, rs) (ps, s @ x, rs)"
| queue: "bracketed \<longrightarrow> clipboard \<Longrightarrow>
    absorbs fmt convert (Op_queue u (Some data) clipboard alloc) u (ps, s, rs) (ps @ framed bracketed data, s, rs)"
| raw: "absorbs fmt convert (Op_raw u True False event) u (ps, s, rs) (ps, s @ fmt event, rs)"
| focus: "absorbs fmt convert (Op_focus u True active) u (ps, s, rs) (ps, s @ [27, 0x5B, if active then 0x49 else 0x4F], rs)"
| wheel: "k \<le> lines \<Longrightarrow>
    absorbs fmt convert (Op_wheel u True lines n) u (ps, s, rs) (ps, s @ concat (replicate k [27, 0x4F, wheel_key n]), rs)"
| mouse: "read_report utf8 out = Some (code, release, x, y) \<Longrightarrow> 0 \<le> x \<Longrightarrow> x \<le> cu_XMax g \<Longrightarrow> 0 \<le> y \<Longrightarrow> y \<le> cu_YMax g \<Longrightarrow>
    absorbs fmt convert (Op_mouse u window g ev q px py) u (ps, s, rs) (ps, s @ out, rs)"
| key: "key_bytes convert kb utf8 application closing ev = Some bytes \<Longrightarrow>
    absorbs fmt convert (Op_key u kb utf8 application closing ev) u (ps, s, rs) (ps, s @ take k bytes, rs)"

definition unit_view :: "nat \<Rightarrow> input_base \<Rightarrow> unit_streams" where
  "unit_view u b = (to_paste b u, accepted b u, arrivals b u)"

definition op_ok :: "input_op \<Rightarrow> bool" where
  "op_ok op = (case op of
     Op_wheel u enabled lines n \<Rightarrow> n \<le> 3
   | Op_mouse u window g ev q px py \<Rightarrow> cu_XMax g \<le> 32767 \<and> cu_YMax g \<le> 32767 \<and> (\<forall>n. ev = Wheel n \<longrightarrow> n \<le> 3)
   | Op_key u kb utf8 application closing ev \<Rightarrow> key_ok (ie_key ev)
   | _ \<Rightarrow> True)"

text \<open>The keymap fills the buffer it is given at most.\<close>

definition keymap_ok :: "keymap \<Rightarrow> bool" where
  "keymap_ok convert \<longleftrightarrow> (\<forall>ev n text. convert ev n = Some text \<longrightarrow> length text \<le> n)"

text \<open>A step that does not fail, keeps the invariant and is allowed by the specification.\<close>

definition step_ok :: "(int list \<Rightarrow> byte list) \<Rightarrow> keymap \<Rightarrow> input_op \<Rightarrow> input_base \<Rightarrow> input_base option \<Rightarrow> bool" where
  "step_ok fmt convert op b r \<longleftrightarrow> (\<exists>b'. r = Some b' \<and> base_ok None b' \<and> (\<forall>u. absorbs fmt convert op u (unit_view u b) (unit_view u b')))"

lemma step_ok_same: "base_ok None b \<Longrightarrow> (\<And>req. op \<noteq> Op_read req) \<Longrightarrow> step_ok fmt convert op b (Some b)"
  by (auto simp: step_ok_def intro: absorbs.nothing)

lemma step_ok_feeds:
  assumes "\<exists>b'. r = Some b' \<and> base_ok None b' \<and> feeds u x b b'" and "\<And>req. op \<noteq> Op_read req"
    and "\<And>ps s rs. absorbs fmt convert op u (ps, s, rs) (ps, s @ x, rs)"
  shows "step_ok fmt convert op b r"
proof -
  from assms(1) obtain b' where b': "r = Some b'" "base_ok None b'" "feeds u x b b'" by blast
  have "absorbs fmt convert op w (unit_view w b) (unit_view w b')" for w
  proof (cases "w = u")
    case True
    then have "unit_view w b' = (to_paste b u, accepted b u @ x, arrivals b u)" using b'(3) by (simp add: unit_view_def feeds_def)
    then show ?thesis using assms(3) True by (simp add: unit_view_def)
  next
    case False
    then have "unit_view w b' = unit_view w b" using b'(3) by (simp add: unit_view_def feeds_def)
    moreover have "absorbs fmt convert op w (unit_view w b) (unit_view w b)" using assms(2) by (intro absorbs.nothing) blast
    ultimately show ?thesis by simp
  qed
  then show ?thesis using b' by (auto simp: step_ok_def)
qed

lemma store_report_ok:
  assumes "base_ok None b" and "\<And>req. op \<noteq> Op_read req" and "\<And>ps s rs. absorbs fmt convert op u (ps, s, rs) (ps, s @ report, rs)"
  shows "step_ok fmt convert op b (store_report u report b)"
proof -
  have "length (mu_inputBuf (in_units b u)) \<le> CON_INPUTBUF_SIZE" using assms(1) unit_ok_length by (simp add: base_ok_def)
  then show ?thesis
    using store_answer_ok [OF assms(1), of u report] step_ok_feeds [OF _ assms(2,3)] step_ok_same [OF assms(1,2)]
    by (auto simp: store_report_def)
qed

lemma more_pastes:
  "mouse_unit.more v = mouse_unit.more w \<Longrightarrow> pasteData v = pasteData w \<and> pasteBufferPos v = pasteBufferPos w"
  by (cases v, cases w) simp

lemma mouse_step:
  assumes "base_ok None b" and "op_ok (Op_mouse u window g ev q px py)"
  shows "step_ok fmt convert (Op_mouse u window g ev q px py) b (map_option snd (mouse_input window g ev q px py u b))"
proof -
  define v where "v = in_units b u"
  have vok: "unit_ok v" using assms(1) by (simp add: base_ok_def v_def)
  then have ev: "event_ok v g ev" using assms(2) unit_ok_length by (simp add: event_ok_def op_ok_def)
  from mouse_event_spec [OF this, of window q px py] obtain handled v' out where
    m: "report_mouse_event v window g ev q px py = Some (handled, v')" "mu_inputBuf v' = mu_inputBuf v @ out"
      "length (mu_inputBuf v') \<le> CON_INPUTBUF_SIZE" "mouse_unit.more v' = mouse_unit.more v"
      and out: "out \<noteq> [] \<longrightarrow> (\<exists>code x y. read_report (mouseUTF8 v) out = Some (code, mouseSGR v \<and> event_release ev, x, y) \<and>
        0 \<le> x \<and> x \<le> cu_XMax g \<and> 0 \<le> y \<and> y \<le> cu_YMax g)" by blast
  note more = more_pastes [OF m(4)]
  have v'ok: "unit_ok v'" using vok m(3) more by (simp add: unit_ok_def split: list.splits)
  define b1 where "b1 = set_unit u v' b"
  have f: "feeds u out b b1" using m(2) more
    by (simp add: feeds_def b1_def accepted_def to_paste_def arrivals_def unit_pastes_def v_def)
  have ok1: "base_ok (Some u) b1" using assms(1) v'ok by (auto simp: base_ok_def b1_def)
  show ?thesis
  proof (cases "out = []")
    case True
    then have "base_ok None b1" using assms(1) v'ok m(2) by (auto simp: base_ok_def b1_def v_def)
    moreover have "map_option snd (mouse_input window g ev q px py u b) = Some b1"
      using m(1,2) True by (simp add: mouse_input_def b1_def v_def)
    moreover have "absorbs fmt convert (Op_mouse u window g ev q px py) w (unit_view w b) (unit_view w b1)" for w
    proof -
      have "unit_view w b1 = unit_view w b" using f True by (simp add: unit_view_def feeds_def)
      moreover have "absorbs fmt convert (Op_mouse u window g ev q px py) w (unit_view w b) (unit_view w b)"
        by (intro absorbs.nothing) blast
      ultimately show ?thesis by simp
    qed
    ultimately show ?thesis unfolding step_ok_def by blast
  next
    case False
    have "map_option snd (mouse_input window g ev q px py u b) = Some (answer_requests (Some u) b1)"
      using m(1,2) False by (simp add: mouse_input_def b1_def v_def)
    then have "\<exists>b'. map_option snd (mouse_input window g ev q px py u b) = Some b' \<and> base_ok None b' \<and> feeds u out b b'"
      using answer_requests_ok [OF ok1] feeds_same [OF f] by blast
    then show ?thesis using out False by (intro step_ok_feeds) (auto intro: absorbs.mouse)
  qed
qed

lemma queue_step:
  assumes "base_ok None b"
  shows "step_ok fmt convert (Op_queue u data clipboard alloc) b (con_queue_data u data clipboard alloc b)"
proof -
  have same: "step_ok fmt convert (Op_queue u data clipboard alloc) b (Some b)" using assms by (rule step_ok_same) simp
  show ?thesis
  proof (cases data)
    case None
    then show ?thesis using same by (simp add: con_queue_data_def)
  next
    case (Some bytes)
    define v where "v = in_units b u"
    define br where "br \<longleftrightarrow> clipboard \<and> iu_bracketed v"
    define extra :: nat where "extra = (if br then 12 else 0)"
    define node where "node = \<lparr>pn_buffer = framed br bytes, pn_allocation = length bytes + extra\<rparr>"
    have len: "length (framed br bytes) \<le> length bytes + extra" by (simp add: framed_def extra_def)
    show ?thesis
    proof (cases "(bytes \<noteq> [] \<or> br) \<and> length bytes \<le> 0x7FFFFFFF - extra \<and> alloc")
      case False
      then show ?thesis using same Some unfolding con_queue_data_def Let_def v_def [symmetric] br_def [symmetric] extra_def [symmetric]
        by auto
    next
      case True
      define v' where "v' = v\<lparr>pasteData := pasteData v @ [node]\<rparr>"
      have res: "con_queue_data u data clipboard alloc b = Some (set_unit u v' b)"
        using True Some len
        unfolding con_queue_data_def Let_def v_def [symmetric] br_def [symmetric] extra_def [symmetric] v'_def node_def by simp
      have ne: "framed br bytes \<noteq> []" using True by (auto simp: framed_def)
      have vok: "unit_ok v" using assms by (simp add: base_ok_def v_def)
      then have "unit_ok v'" using ne len
        by (cases "pasteData v") (simp_all add: unit_ok_def v'_def node_def)
      then have "base_ok None (set_unit u v' b)" using assms by (auto simp: base_ok_def v'_def v_def)
      moreover have "unit_pastes v' = unit_pastes v @ framed br bytes"
      proof -
        have "pasteBufferPos v \<le> length (concat (map pn_buffer (pasteData v)))"
          using vok by (cases "pasteData v") (simp_all add: unit_ok_def)
        then show ?thesis by (simp add: unit_pastes_def v'_def node_def)
      qed
      then have "unit_view u (set_unit u v' b) = (to_paste b u @ framed br bytes, accepted b u, arrivals b u)"
        by (simp add: unit_view_def to_paste_def accepted_def arrivals_def v'_def v_def)
      moreover have "unit_view w (set_unit u v' b) = unit_view w b" if "w \<noteq> u" for w
        using that by (simp add: unit_view_def to_paste_def accepted_def arrivals_def)
      moreover have "br \<longrightarrow> clipboard" by (simp add: br_def)
      ultimately have "absorbs fmt convert (Op_queue u data clipboard alloc) w (unit_view w b) (unit_view w (set_unit u v' b))" for w
        by (cases "w = u") (auto simp: Some unit_view_def [of u b] intro: absorbs.queue absorbs.nothing)
      then show ?thesis using res \<open>base_ok None (set_unit u v' b)\<close> by (simp add: step_ok_def)
    qed
  qed
qed

lemma expand_byte_length: "length (expand_byte b) \<le> 2"
proof -
  have "unat b < 0x800" using byte_unat(1) [of b] by linarith
  then have "(ucast b :: codepoint) < 0x800" by (simp add: word_less_nat_alt)
  then show ?thesis by (simp add: expand_byte_def con_utf8_encode_def)
qed

lemma expand_length: "length (concat (map expand_byte bytes)) \<le> 2 * length bytes"
proof (induction bytes)
  case (Cons b bytes)
  then show ?case using expand_byte_length [of b] by simp
qed simp

lemma application_length: "length (con_application_cursor bytes application) \<le> max 3 (length bytes)"
  by (simp add: con_application_cursor_def Let_def split: option.splits)

lemma navigation_length: "con_modified_navigation b0 ev utf8 = Some out \<Longrightarrow> (\<And>b. b0 = Some b \<Longrightarrow> length b \<le> 80) \<Longrightarrow> length out \<le> 80"
  by (auto simp: con_modified_navigation_def Let_def split: if_splits option.splits)

lemma key_bytes_total:
  assumes "keymap_ok convert" and "key_ok (ie_key ev)"
  shows "\<exists>bytes. key_bytes convert kb utf8 application closing ev = Some bytes"
proof -
  define b0 where "b0 = (if closing then Some [28] else convert ev 80)"
  define b3 where "b3 = (case con_keyboard_event convert kb ev of
      None \<Rightarrow> map_option (\<lambda>b. con_application_cursor b application) (con_modified_navigation b0 ev utf8) | Some b \<Rightarrow> Some b)"
  have b0: "length b \<le> 80" if "b0 = Some b" for b
    using that assms(1) by (auto simp: b0_def keymap_ok_def split: if_splits)
  have b3: "length b \<le> 352" if some: "b3 = Some b" for b
  proof (cases "con_keyboard_event convert kb ev")
    case None
    then have "map_option (\<lambda>b. con_application_cursor b application) (con_modified_navigation b0 ev utf8) = Some b"
      using some by (simp add: b3_def)
    then obtain c where c: "con_modified_navigation b0 ev utf8 = Some c" "b = con_application_cursor c application" by blast
    from navigation_length [OF c(1) b0] have "length c \<le> 80" by blast
    then show ?thesis using c(2) application_length [of c application] by simp
  next
    case (Some out)
    then show ?thesis using some event_sequence [OF Some assms(2)] by (auto simp: b3_def)
  qed
  have "length (concat (map expand_byte b)) \<le> KEYINPUT_BUFSIZE * 2 + 1" if "b3 = Some b" for b
    using expand_length [of b] b3 [OF that] by (simp add: KEYINPUT_BUFSIZE_def)
  then show ?thesis using b3 unfolding key_bytes_def Let_def b0_def [symmetric] b3_def [symmetric]
    by (auto simp: KEYINPUT_BUFSIZE_def not_less split: option.splits)
qed

lemma input_step_ok:
  assumes ok: "base_ok None b" and "op_ok op" and map: "keymap_ok convert"
  shows "step_ok fmt convert op b (input_step fmt convert op b)"
proof (cases op)
  case (Op_read req)
  from read_command_ok [OF ok, of req] obtain b' where b': "read_command req b = Some b'" "base_ok None b'" "arrived req b b'" by blast
  have "absorbs fmt convert op w (unit_view w b) (unit_view w b')" for w
  proof -
    from b'(3) obtain x where "accepted b' w = accepted b w @ x" "to_paste b w = x @ to_paste b' w"
      "arrivals b' w = arrivals b w @ (if w = rq_unit req then [req] else [])" by (auto simp: arrived_def)
    then show ?thesis unfolding Op_read unit_view_def by (cases "w = rq_unit req") (auto intro: absorbs.read absorbs.read_other)
  qed
  then show ?thesis using b' Op_read by (simp add: step_ok_def)
next
  case (Op_queue u data clipboard alloc)
  then show ?thesis using queue_step [OF ok] by simp
next
  case Op_wake
  from wake_loop_ok [OF ok] obtain b' where b': "wake_loop b = Some b'" "base_ok None b'" "pulls b b'" by blast
  have "absorbs fmt convert op w (unit_view w b) (unit_view w b')" for w
  proof -
    from b'(3) obtain x where "accepted b' w = accepted b w @ x" "to_paste b w = x @ to_paste b' w" "arrivals b' w = arrivals b w"
      by (auto simp: pulls_def)
    then show ?thesis unfolding Op_wake unit_view_def by (auto intro: absorbs.wake)
  qed
  then show ?thesis using b' Op_wake by (simp add: step_ok_def)
next
  case (Op_raw u enabled motion event)
  have s: "step_ok fmt convert op b (Some b)" using ok Op_raw by (intro step_ok_same) simp_all
  have "step_ok fmt convert op b (store_report u (fmt event) b)" if "enabled" "\<not> motion"
    using ok Op_raw that by (intro store_report_ok) (auto intro: absorbs.raw)
  then show ?thesis using s Op_raw by (auto simp: report_raw_event_def option.map_comp comp_def option.map_ident)
next
  case (Op_focus u enabled active)
  have s: "step_ok fmt convert op b (Some b)" using ok Op_focus by (intro step_ok_same) simp_all
  have "step_ok fmt convert op b (store_report u [27, 0x5B, if active then 0x49 else 0x4F] b)" if "enabled"
    using ok Op_focus that absorbs.focus [of fmt convert u active] by (intro store_report_ok) simp_all
  then show ?thesis using s Op_focus by (cases enabled) (simp_all add: report_focus_event_def)
next
  case (Op_wheel u enabled lines n)
  have s: "step_ok fmt convert op b (Some b)" using ok Op_wheel by (intro step_ok_same) simp_all
  define k where "k = min lines ((CON_INPUTBUF_SIZE - length (mu_inputBuf (in_units b u))) div 3)"
  define x where "x = concat (replicate k [27, 0x4F, wheel_key n])"
  have len: "length (mu_inputBuf (in_units b u)) \<le> CON_INPUTBUF_SIZE" using ok unit_ok_length by (simp add: base_ok_def)
  have "k * 3 \<le> CON_INPUTBUF_SIZE - length (mu_inputBuf (in_units b u))"
    using div_mult_mod_eq [of "CON_INPUTBUF_SIZE - length (mu_inputBuf (in_units b u))" 3] by (simp add: k_def min_le_iff_disj)
  moreover have "length x = k * 3" by (simp add: x_def length_concat sum_list_replicate)
  ultimately have "length (mu_inputBuf (in_units b u)) + length x \<le> CON_INPUTBUF_SIZE" using len by simp
  from store_answer_ok [OF ok this] have "step_ok fmt convert op b (map_option (answer_requests (Some u)) (store_input u x b))" if "enabled"
    using Op_wheel that by (intro step_ok_feeds [where x = x]) (auto simp: x_def k_def intro!: absorbs.wheel)
  then show ?thesis using s Op_wheel len
    by (auto simp: report_alternate_scroll_def Let_def k_def [symmetric] x_def option.map_comp comp_def)
next
  case (Op_mouse u window g ev q px py)
  then show ?thesis using mouse_step [OF ok] assms(2) by simp
next
  case (Op_key u kb utf8 application closing ev)
  have s: "step_ok fmt convert op b (Some b)" using ok Op_key by (intro step_ok_same) simp_all
  have "key_ok (ie_key ev)" using assms(2) Op_key by (simp add: op_ok_def)
  from key_bytes_total [OF map this] obtain bytes where bytes: "key_bytes convert kb utf8 application closing ev = Some bytes" by blast
  define k where "k = min (length bytes) (CON_INPUTBUF_SIZE - length (mu_inputBuf (in_units b u)))"
  have "length (mu_inputBuf (in_units b u)) + length (take k bytes) \<le> CON_INPUTBUF_SIZE"
    using ok unit_ok_length [of "in_units b u"] by (simp add: base_ok_def k_def)
  from store_answer_ok [OF ok this] have "step_ok fmt convert op b (map_option (answer_requests (Some u)) (store_input u (take k bytes) b))"
    using Op_key bytes by (intro step_ok_feeds [where x = "take k bytes"]) (auto intro: absorbs.key)
  then show ?thesis using s Op_key bytes by (cases "bytes = []") (simp_all add: key_input_def Let_def k_def)
qed

section \<open>Properties\<close>

inductive absorbs_run :: "(int list \<Rightarrow> byte list) \<Rightarrow> keymap \<Rightarrow> input_op list \<Rightarrow> nat \<Rightarrow> unit_streams \<Rightarrow> unit_streams \<Rightarrow> bool"
  for fmt convert where
  stop: "absorbs_run fmt convert [] u st st"
| step: "absorbs fmt convert op u st st1 \<Longrightarrow> absorbs_run fmt convert ops u st1 st2 \<Longrightarrow> absorbs_run fmt convert (op # ops) u st st2"

fun reads_of :: "input_op list \<Rightarrow> read_request list" where
  "reads_of [] = []"
| "reads_of (Op_read req # ops) = req # reads_of ops"
| "reads_of (_ # ops) = reads_of ops"

lemma absorbs_arrivals: "absorbs fmt convert op u st st' \<Longrightarrow> snd (snd st') = snd (snd st) @ unit_reads u (reads_of [op])"
  by (induction rule: absorbs.induct) (simp_all, case_tac op, simp_all)

lemma reads_of_Cons: "reads_of (op # ops) = reads_of [op] @ reads_of ops"
  by (cases op) simp_all

lemma absorbs_run_arrivals:
  "absorbs_run fmt convert ops u st st' \<Longrightarrow> snd (snd st') = snd (snd st) @ unit_reads u (reads_of ops)"
proof (induction rule: absorbs_run.induct)
  case (step op u st st1 ops st2)
  have "unit_reads u (reads_of (op # ops)) = unit_reads u (reads_of [op]) @ unit_reads u (reads_of ops)"
    by (subst reads_of_Cons) simp
  then show ?case using absorbs_arrivals [OF step.hyps(1)] step.IH by simp
qed simp

definition fresh_base :: "input_base \<Rightarrow> bool" where
  "fresh_base b \<longleftrightarrow> readRequests b = [] \<and> replies b = [] \<and>
     (\<forall>u. mu_inputBuf (in_units b u) = [] \<and> pasteData (in_units b u) = [] \<and> pasteBufferPos (in_units b u) = 0)"

lemma fresh_ok: "fresh_base b \<Longrightarrow> base_ok None b \<and> unit_view u b = ([], [], [])"
  by (auto simp: fresh_base_def base_ok_def unit_ok_def unit_view_def to_paste_def unit_pastes_def accepted_def arrivals_def)

lemma input_run_ok:
  "keymap_ok convert \<Longrightarrow> base_ok None b \<Longrightarrow> list_all op_ok ops \<Longrightarrow>
    \<exists>b'. input_run fmt convert ops b = Some b' \<and> base_ok None b' \<and> (\<forall>u. absorbs_run fmt convert ops u (unit_view u b) (unit_view u b'))"
proof (induction ops arbitrary: b)
  case Nil
  then show ?case by (auto intro: absorbs_run.stop)
next
  case (Cons op ops)
  then obtain b1 where b1: "input_step fmt convert op b = Some b1" "base_ok None b1" "\<forall>u. absorbs fmt convert op u (unit_view u b) (unit_view u b1)"
    using input_step_ok [of b op convert fmt] by (auto simp: step_ok_def)
  from Cons.IH [OF Cons.prems(1) b1(2)] Cons.prems(3) obtain b' where "input_run fmt convert ops b1 = Some b'" "base_ok None b'"
    "\<forall>u. absorbs_run fmt convert ops u (unit_view u b1) (unit_view u b')" by auto
  then show ?case using b1 by (auto intro: absorbs_run.step)
qed

lemma input_run_append: "input_run fmt convert (xs @ ys) b = do { b' \<leftarrow> input_run fmt convert xs b; input_run fmt convert ys b' }"
  by (induction xs arbitrary: b) (auto split: bind_splits)


definition empty_input :: input_base where
  "empty_input = \<lparr>in_units = (\<lambda>u. \<lparr>mouseMode = 0, mouseSGR = False, mouseUTF8 = False, mouseReportedButtons = 0,
     mouseLastValid = False, mouseLastX = 0, mouseLastY = 0, mu_obscured = False, mu_inputBuf = [],
     iu_bracketed = True, pasteData = [], pasteBufferPos = 0\<rparr>), readRequests = [], replies = []\<rparr>"

lemma fresh_empty: "fresh_base empty_input"
  by (simp add: fresh_base_def empty_input_def)

definition demo_ops :: "input_op list" where
  "demo_ops = [Op_read \<lparr>rq_id = 1, rq_unit = 0, rq_length = 8\<rparr>,
     Op_key 0 \<lparr>keyboardAlternate = False, kb_state = None\<rparr> True False False
       \<lparr>ie_rawkey_class = True, ie_key = RK_OTHER 32, ie_up = False, ie_qual = no_qualifier\<rparr>]"

lemma demo_ok: "list_all op_ok demo_ops" "keymap_ok (\<lambda>ev n. Some (take n [0xE9]))" 
  by (simp_all add: demo_ops_def op_ok_def key_ok_def keymap_ok_def)


text \<open>
  C17. Whatever happened before, waking the task ends, and afterwards a reader that still waits has
  neither stored bytes nor queued data: everything queued for a unit with readers has been handed over
  up to what they asked for.
\<close>

theorem input_wake_serves:
  assumes "fresh_base b" and "list_all op_ok ops" and "keymap_ok convert"
  shows "\<exists>b'. input_run fmt convert (ops @ [Op_wake]) b = Some b' \<and>
    list_all (\<lambda>r. mu_inputBuf (in_units b' (rq_unit r)) = [] \<and> pasteData (in_units b' (rq_unit r)) = []) (readRequests b')"
proof -
  from input_run_ok [OF assms(3), of b ops fmt] fresh_ok [OF assms(1)] assms(2) obtain b1 where
    b1: "input_run fmt convert ops b = Some b1" "base_ok None b1" by auto
  from wake_loop_ok [OF b1(2)] obtain b' where b': "wake_loop b1 = Some b'" "base_ok None b'"
    "\<forall>r \<in> set (readRequests b'). pasteData (in_units b' (rq_unit r)) = []" by blast
  then show ?thesis using b1(1) by (auto simp: input_run_append list_all_iff base_ok_def)
qed

theorem input_wake_serves_witness:
  "\<exists>b'. input_run (\<lambda>_. []) (\<lambda>ev n. Some (take n [0xE9])) (demo_ops @ [Op_wake]) empty_input = Some b' \<and>
    list_all (\<lambda>r. mu_inputBuf (in_units b' (rq_unit r)) = [] \<and> pasteData (in_units b' (rq_unit r)) = []) (readRequests b')"
  by (rule input_wake_serves [OF fresh_empty demo_ok])

end
