(* ===== verification/Navigation.thy ===== *)
theory Navigation
  imports Search_Select
begin

text \<open>
  Keyboard navigation over the retained rows (\<open>devs/consoleng/navigation.h\<close>) and the keys that drive it
  (\<open>charmap_nav_key\<close> of \<open>charmapconclass.c\<close>). The chain of rows is a list and a row pointer a position in
  it, at or past its end for NULL. \<open>None\<close> is a read outside the arrays of a row or through NULL.
\<close>

section \<open>Cursors\<close>

record nav_cursor =
  nc_line :: nat
  nc_row :: nat
  nc_column :: nat

datatype con_nav_motion = CON_NAV_LEFT | CON_NAV_RIGHT | CON_NAV_UP | CON_NAV_DOWN |
  CON_NAV_FIRST | CON_NAV_LAST | CON_NAV_TOP | CON_NAV_BOTTOM |
  CON_NAV_WORD_NEXT | CON_NAV_WORD_END | CON_NAV_WORD_PREV |
  CON_NAV_SEMANTIC_NEXT | CON_NAV_SEMANTIC_END | CON_NAV_SEMANTIC_PREV |
  CON_NAV_PARAGRAPH_UP | CON_NAV_PARAGRAPH_DOWN | CON_NAV_BRACKET | CON_NAV_VIEW_ROW | CON_NAV_ROW |
  CON_NAV_OCCUPIED | CON_NAV_FIND

record con_nav =
  nv_cursor :: nav_cursor
  nv_anchor :: nav_cursor
  nv_width :: nat
  target_row :: nat
  nv_motion :: con_nav_motion
  selecting :: bool
  nv_pending :: bool
  linewise :: bool
  blockwise :: bool
  semanticwise :: bool
  match_ready :: bool
  match_phase :: nat
  selection_first :: nav_cursor
  selection_last :: nav_cursor
  word_phase :: nat
  word_kind :: nat
  scan_column :: nat
  bracket_char :: codepoint
  bracket_peer :: codepoint
  depth :: nat
  row_text :: bool
  nv_reverse :: bool
  nv_origin :: nav_cursor
  candidate :: nav_cursor
  candidate_valid :: bool
  find_char :: codepoint
  find_reverse :: bool
  find_short :: bool
  semantic_custom :: bool
  semantic_count :: nat
  semantic_chars :: "codepoint list"

text \<open>\<open>line->text && column < line->size ? line->text[column] : 0\<close>, with the same test of the row.\<close>

definition nav_text :: "charmap_line list \<Rightarrow> nat \<Rightarrow> nat \<Rightarrow> codepoint option" where
  "nav_text rs i col =
     (if i < length rs \<and> cells (rs ! i) \<noteq> [] \<and> col < line_size (rs ! i)
      then map_option cell_text (cell_at (rs ! i) col) else Some 0)"

text \<open>\<open>line->text && line->text[column] == 0xfffffffe\<close>.\<close>

definition nav_wide_cont :: "charmap_line list \<Rightarrow> nat \<Rightarrow> nat \<Rightarrow> bool option" where
  "nav_wide_cont rs i col =
     (if i < length rs \<and> cells (rs ! i) \<noteq> []
      then map_option (\<lambda>c. cell_text c = SEARCH_WIDE_CONT) (cell_at (rs ! i) col) else Some False)"

definition con_nav_columns :: "charmap_line list \<Rightarrow> nat \<Rightarrow> nav_cursor \<Rightarrow> nat" where
  "con_nav_columns rs w c =
     (let i = nc_line c; line = rs ! i; n = (if i < length rs then line_size line else 0);
          n' = (if i < length rs \<and> wrapColumns line \<noteq> 0 then
                  let padding = unat (wrapPadding line);
                      boundary = (if padding < wrapColumns line then wrapColumns line - padding else 0)
                  in if n > boundary then boundary else n
                else n)
      in if n' < w then n' else w)"

definition con_nav_text_clamp :: "charmap_line list \<Rightarrow> nat \<Rightarrow> nav_cursor \<Rightarrow> nav_cursor option" where
  "con_nav_text_clamp rs w c =
     (let n = con_nav_columns rs w c; col = (if nc_column c \<ge> n then if n \<noteq> 0 then n - 1 else 0 else nc_column c) in do {
       wide \<leftarrow> (if col \<noteq> 0 then nav_wide_cont rs (nc_line c) col else Some False);
       Some (c\<lparr>nc_column := (if wide then col - 1 else col)\<rparr>)
     })"

definition con_nav_grid_columns :: "charmap_line list \<Rightarrow> nat \<Rightarrow> nav_cursor \<Rightarrow> nat" where
  "con_nav_grid_columns rs w c =
     (let i = nc_line c; line = rs ! i in
      if i < length rs \<and> wrapColumns line \<noteq> 0 \<and> wrapColumns line \<le> w
      then if unat (wrapPadding line) < wrapColumns line then wrapColumns line - unat (wrapPadding line) else 0
      else w)"

definition con_nav_clamp :: "charmap_line list \<Rightarrow> nat \<Rightarrow> nav_cursor \<Rightarrow> nav_cursor option" where
  "con_nav_clamp rs w c =
     (let n = con_nav_grid_columns rs w c; col = (if nc_column c \<ge> n then if n \<noteq> 0 then n - 1 else 0 else nc_column c) in do {
       cp \<leftarrow> (if col \<noteq> 0 then nav_text rs (nc_line c) col else Some 0);
       Some (c\<lparr>nc_column := (if cp = SEARCH_WIDE_CONT then col - 1 else col)\<rparr>)
     })"

text \<open>One step to the neighbour: 0 at the end, 1 within a logical line, 2 across a hard row boundary.\<close>

definition con_nav_grid_advance :: "charmap_line list \<Rightarrow> nat \<Rightarrow> nav_cursor \<Rightarrow> bool \<Rightarrow> (nav_cursor \<times> nat) option" where
  "con_nav_grid_advance rs w c back =
     (let i = nc_line c in
      if i \<ge> length rs then Some (c, 0)
      else if back then
        if nc_column c \<noteq> 0 then do {
          c' \<leftarrow> con_nav_clamp rs w (c\<lparr>nc_column := nc_column c - 1\<rparr>);
          Some (c', 1)
        }
        else if i = 0 \<or> nc_row c = 0 then Some (c, 0)
        else do {
          c' \<leftarrow> con_nav_clamp rs w \<lparr>nc_line = i - 1, nc_row = nc_row c - 1, nc_column = w\<rparr>;
          Some (c', if wrapColumns (rs ! (i - 1)) \<noteq> 0 then 1 else 2)
        }
      else do {
        let next = add32 (nc_column c) 1;
        cp \<leftarrow> nav_text rs i next;
        let next' = (if cp = SEARCH_WIDE_CONT then next + 1 else next);
        (if next' < con_nav_grid_columns rs w c then Some (c\<lparr>nc_column := next'\<rparr>, 1)
         else if i + 1 \<ge> length rs then Some (c, 0)
         else Some (\<lparr>nc_line = i + 1, nc_row = add32 (nc_row c) 1, nc_column = 0\<rparr>, if wrapColumns (rs ! i) \<noteq> 0 then 1 else 2))
      })"

definition con_nav_advance :: "charmap_line list \<Rightarrow> nat \<Rightarrow> nav_cursor \<Rightarrow> bool \<Rightarrow> (nav_cursor \<times> nat) option" where
  "con_nav_advance rs w c back =
     (let i = nc_line c in
      if i \<ge> length rs then Some (c, 0)
      else if back then
        if nc_column c \<noteq> 0 then do {
          c' \<leftarrow> con_nav_text_clamp rs w (c\<lparr>nc_column := nc_column c - 1\<rparr>);
          Some (c', 1)
        }
        else if i = 0 \<or> nc_row c = 0 then Some (c, 0)
        else do {
          c' \<leftarrow> con_nav_text_clamp rs w \<lparr>nc_line = i - 1, nc_row = nc_row c - 1, nc_column = w\<rparr>;
          Some (c', if wrapColumns (rs ! (i - 1)) \<noteq> 0 then 1 else 2)
        }
      else do {
        let next = add32 (nc_column c) 1;
        c1 \<leftarrow> (if next < con_nav_columns rs w c then do {
                 wide \<leftarrow> nav_wide_cont rs i next;
                 Some (c\<lparr>nc_column := (if wide then next + 1 else next)\<rparr>)
               } else Some c);
        (if next < con_nav_columns rs w c \<and> nc_column c1 < con_nav_columns rs w c1 then Some (c1, 1)
         else if i + 1 \<ge> length rs then do { c2 \<leftarrow> con_nav_text_clamp rs w c1; Some (c2, 0) }
         else Some (\<lparr>nc_line = i + 1, nc_row = add32 (nc_row c1) 1, nc_column = 0\<rparr>, if wrapColumns (rs ! i) \<noteq> 0 then 1 else 2))
      })"

section \<open>Beginning, delimiters, moves\<close>

definition nav_zero :: "charmap_line list \<Rightarrow> con_nav" where
  "nav_zero rs =
     (let z = \<lparr>nc_line = length rs, nc_row = 0, nc_column = 0\<rparr> in
      \<lparr>nv_cursor = z, nv_anchor = z, nv_width = 0, target_row = 0, nv_motion = CON_NAV_LEFT, selecting = False,
       nv_pending = False, linewise = False, blockwise = False, semanticwise = False, match_ready = False,
       match_phase = 0, selection_first = z, selection_last = z, word_phase = 0, word_kind = 0, scan_column = 0,
       bracket_char = 0, bracket_peer = 0, depth = 0, row_text = False, nv_reverse = False, nv_origin = z,
       candidate = z, candidate_valid = False, find_char = 0, find_reverse = False, find_short = False,
       semantic_custom = False, semantic_count = 0, semantic_chars = replicate 64 0\<rparr>)"

definition con_nav_begin :: "charmap_line list \<Rightarrow> nat \<Rightarrow> nat \<Rightarrow> nat \<Rightarrow> nat \<Rightarrow> con_nav option" where
  "con_nav_begin rs i row column w = do {
     c \<leftarrow> con_nav_clamp rs w \<lparr>nc_line = i, nc_row = row, nc_column = column\<rparr>;
     Some ((nav_zero rs)\<lparr>nv_cursor := c, nv_width := w\<rparr>)
   }"

definition semantic_delimiters :: "codepoint list" where
  "semantic_delimiters = [0x2C, 0x60, 0x7C, 0x3A, 0x22, 0x27, 0x20, 0x28, 0x29, 0x5B, 0x5D, 0x7B, 0x7D, 0x3C, 0x3E]"

definition con_nav_semantic_delimiter :: "codepoint \<Rightarrow> bool" where
  "con_nav_semantic_delimiter cp \<longleftrightarrow>
     cp = 0 \<or> cp = 9 \<or> cp = 0x2502 \<or> (cp < 128 \<and> cp \<in> set semantic_delimiters)"

text \<open>\<open>chars\<close> is the array, \<open>None\<close> for NULL; the result \<open>None\<close> a read past its end.\<close>

definition con_nav_set_delimiters :: "con_nav \<Rightarrow> codepoint list option \<Rightarrow> nat \<Rightarrow> (bool \<times> con_nav) option" where
  "con_nav_set_delimiters n chars cnt =
     (if cnt > 64 \<or> (cnt \<noteq> 0 \<and> chars = None) then Some (False, n)
      else
        let n' = n\<lparr>semantic_custom := True, semantic_count := cnt\<rparr> in
        (case chars of
           None \<Rightarrow> Some (True, n')
         | Some cs \<Rightarrow> if length cs < cnt then None
                      else Some (True, n'\<lparr>semantic_chars := take cnt cs @ drop cnt (semantic_chars n)\<rparr>)))"

definition con_nav_delimiter :: "con_nav \<Rightarrow> codepoint \<Rightarrow> bool" where
  "con_nav_delimiter n cp =
     (if cp = 0 then True
      else if \<not> semantic_custom n then con_nav_semantic_delimiter cp
      else cp \<in> set (take (semantic_count n) (semantic_chars n)))"

definition semantic_motion :: "con_nav_motion \<Rightarrow> bool" where
  "semantic_motion m \<longleftrightarrow> m \<notin> {CON_NAV_LEFT, CON_NAV_RIGHT, CON_NAV_UP, CON_NAV_DOWN, CON_NAV_FIRST, CON_NAV_LAST,
     CON_NAV_TOP, CON_NAV_BOTTOM, CON_NAV_WORD_NEXT, CON_NAV_WORD_END, CON_NAV_WORD_PREV}"

definition con_nav_kind :: "charmap_line list \<Rightarrow> con_nav \<Rightarrow> nat option" where
  "con_nav_kind rs n = do {
     cp \<leftarrow> nav_text rs (nc_line (nv_cursor n)) (nc_column (nv_cursor n));
     Some (if cp = 0 \<or> cp = 0x20 \<or> cp = 9 then 0
           else if semantic_motion (nv_motion n) \<and> con_nav_delimiter n cp then 2
           else 1)
   }"

definition con_nav_move :: "con_nav \<Rightarrow> con_nav_motion \<Rightarrow> con_nav" where
  "con_nav_move n motion =
     (let n1 = n\<lparr>nv_motion := motion, nv_pending := True, word_phase := 0, match_ready := False, match_phase := 0,
            scan_column := 0, row_text := False, nv_origin := nv_cursor n\<rparr>
      in if motion = CON_NAV_PARAGRAPH_UP \<or> motion = CON_NAV_PARAGRAPH_DOWN
         then n1\<lparr>nv_cursor := (nv_cursor n1)\<lparr>nc_column := 0\<rparr>\<rparr> else n1)"

section \<open>One unit of work of each motion\<close>

definition con_nav_word_step :: "charmap_line list \<Rightarrow> con_nav \<Rightarrow> con_nav option" where
  "con_nav_word_step rs n =
     (let next = (nv_motion n = CON_NAV_WORD_NEXT \<or> nv_motion n = CON_NAV_SEMANTIC_NEXT);
          back = (nv_motion n = CON_NAV_WORD_PREV \<or> nv_motion n = CON_NAV_SEMANTIC_PREV) in do {
     kind \<leftarrow> con_nav_kind rs n;
     (if next then
        if word_phase n = 0 then
          if kind = 0 then Some (n\<lparr>word_phase := 1\<rparr>)
          else do {
            (c, boundary) \<leftarrow> con_nav_advance rs (nv_width n) (nv_cursor n) False;
            let n1 = n\<lparr>nv_cursor := c\<rparr>;
            (if boundary = 0 then Some (n1\<lparr>nv_pending := False\<rparr>)
             else if boundary = 2 \<or> kind = 2 then Some (n1\<lparr>word_phase := 1\<rparr>)
             else do {
               kind' \<leftarrow> con_nav_kind rs n1;
               Some (if kind' \<noteq> kind then n1\<lparr>word_phase := 1\<rparr> else n1)
             })
          }
        else if kind \<noteq> 0 then Some (n\<lparr>nv_pending := False\<rparr>)
        else do {
          (c, boundary) \<leftarrow> con_nav_advance rs (nv_width n) (nv_cursor n) False;
          let n1 = n\<lparr>nv_cursor := c\<rparr>;
          Some (if boundary = 0 then n1\<lparr>nv_pending := False\<rparr> else n1)
        }
      else if word_phase n = 0 then do {
        (c, boundary) \<leftarrow> con_nav_advance rs (nv_width n) (nv_cursor n) back;
        let n1 = n\<lparr>nv_cursor := c\<rparr>;
        let n2 = (if boundary = 0 then n1\<lparr>nv_pending := False\<rparr> else n1);
        Some (n2\<lparr>word_phase := 1\<rparr>)
      }
      else if word_phase n = 1 \<and> kind = 0 then do {
        (c, boundary) \<leftarrow> con_nav_advance rs (nv_width n) (nv_cursor n) back;
        let n1 = n\<lparr>nv_cursor := c\<rparr>;
        Some (if boundary = 0 then n1\<lparr>nv_pending := False\<rparr> else n1)
      }
      else
        let n1 = (if word_phase n = 1 then n\<lparr>word_phase := 2, word_kind := kind\<rparr> else n) in
        if kind = 2 then Some (n1\<lparr>nv_pending := False\<rparr>)
        else do {
          (c, boundary) \<leftarrow> con_nav_advance rs (nv_width n1) (nv_cursor n1) back;
          kind' \<leftarrow> (if boundary = 1 then con_nav_kind rs (n1\<lparr>nv_cursor := c\<rparr>) else Some 0);
          Some (if boundary \<noteq> 1 \<or> kind' \<noteq> word_kind n1 then n1\<lparr>nv_pending := False\<rparr> else n1\<lparr>nv_cursor := c\<rparr>)
        })
   })"

text \<open>\<open>cp && cp != ' ' && cp != '\t' && cp != 0xfffffffe\<close>.\<close>

definition visible_cp :: "codepoint \<Rightarrow> bool" where
  "visible_cp cp \<longleftrightarrow> cp \<noteq> 0 \<and> cp \<noteq> 0x20 \<and> cp \<noteq> 9 \<and> cp \<noteq> SEARCH_WIDE_CONT"

text \<open>\<open>line->text ? line->text[column] : 0\<close>, with no test of the size.\<close>

definition nav_cell :: "charmap_line list \<Rightarrow> nat \<Rightarrow> nat \<Rightarrow> codepoint option" where
  "nav_cell rs i col =
     (if cells (rs ! i) \<noteq> [] then map_option cell_text (cell_at (rs ! i) col) else Some 0)"

definition con_nav_paragraph_step :: "charmap_line list \<Rightarrow> con_nav \<Rightarrow> con_nav option" where
  "con_nav_paragraph_step rs n =
     (let c = nv_cursor n; i = nc_line c; sz = con_nav_columns rs (nv_width n) c in
      if scan_column n < sz then do {
        cp \<leftarrow> nav_cell rs i (scan_column n);
        Some (if visible_cp cp then n\<lparr>row_text := True, scan_column := sz\<rparr> else n\<lparr>scan_column := scan_column n + 1\<rparr>)
      }
      else if \<not> row_text n \<and> word_phase n \<noteq> 0 then Some (n\<lparr>nv_pending := False\<rparr>)
      else
        let n1 = (if row_text n then n\<lparr>word_phase := 1\<rparr> else n);
            back = (nv_motion n = CON_NAV_PARAGRAPH_UP) in
        if (if back then i = 0 \<or> nc_row c = 0 else i + 1 \<ge> length rs) then Some (n1\<lparr>nv_pending := False\<rparr>)
        else Some (n1\<lparr>nv_cursor := (if back then \<lparr>nc_line = i - 1, nc_row = nc_row c - 1, nc_column = 0\<rparr>
                                     else \<lparr>nc_line = i + 1, nc_row = add32 (nc_row c) 1, nc_column = 0\<rparr>),
                      scan_column := 0, row_text := False\<rparr>))"

definition bracket_pairs :: "codepoint list" where
  "bracket_pairs = [0x28, 0x29, 0x5B, 0x5D, 0x7B, 0x7D, 0x3C, 0x3E]"

definition con_nav_bracket_step :: "charmap_line list \<Rightarrow> con_nav \<Rightarrow> con_nav option" where
  "con_nav_bracket_step rs n =
     (let c = nv_cursor n in
      if word_phase n = 0 \<and> nc_line c \<ge> length rs then None
      else if word_phase n = 0 then do {
        cp \<leftarrow> nav_text rs (nc_line c) (nc_column c);
        let i = length (takeWhile (\<lambda>p. cp \<noteq> p) bracket_pairs);
        Some (if i = 8 then n\<lparr>nv_pending := False\<rparr>
              else n\<lparr>bracket_char := cp, bracket_peer := bracket_pairs ! (i XOR 1), nv_reverse := (i AND 1 \<noteq> 0),
                     depth := 0, word_phase := 1\<rparr>)
      }
      else do {
        (c', boundary) \<leftarrow> con_nav_advance rs (nv_width n) c (nv_reverse n);
        let n1 = n\<lparr>nv_cursor := c'\<rparr>;
        (if boundary = 0 then Some (n1\<lparr>nv_cursor := nv_origin n, nv_pending := False\<rparr>)
         else do {
           cp \<leftarrow> nav_text rs (nc_line c') (nc_column c');
           Some (if cp = bracket_char n then
                   if depth n = ulong_max then n1\<lparr>nv_cursor := nv_origin n, nv_pending := False\<rparr>
                   else n1\<lparr>depth := depth n + 1\<rparr>
                 else if cp = bracket_peer n then
                   if depth n = 0 then n1\<lparr>nv_pending := False\<rparr> else n1\<lparr>depth := depth n - 1\<rparr>
                 else n1)
         })
      })"

text \<open>The scan of a row for its first occupied cell.\<close>

definition nav_view_scan :: "charmap_line list \<Rightarrow> con_nav \<Rightarrow> con_nav option" where
  "nav_view_scan rs n =
     (let c = nv_cursor n in
      if scan_column n < con_nav_columns rs (nv_width n) c then do {
        cp \<leftarrow> nav_cell rs (nc_line c) (scan_column n);
        Some (if visible_cp cp then n\<lparr>nv_cursor := c\<lparr>nc_column := scan_column n\<rparr>, nv_pending := False\<rparr>
              else n\<lparr>scan_column := scan_column n + 1\<rparr>)
      } else Some (n\<lparr>nv_pending := False\<rparr>))"

definition con_nav_view_step :: "charmap_line list \<Rightarrow> con_nav \<Rightarrow> con_nav option" where
  "con_nav_view_step rs n =
     (let c = nv_cursor n; i = nc_line c in
      if word_phase n = 0 then
        if nc_row c < target_row n \<and> i + 1 < length rs then
          Some (n\<lparr>nv_cursor := c\<lparr>nc_line := i + 1, nc_row := add32 (nc_row c) 1\<rparr>\<rparr>)
        else if nc_row c > target_row n \<and> i \<noteq> 0 then
          Some (n\<lparr>nv_cursor := c\<lparr>nc_line := i - 1, nc_row := nc_row c - 1\<rparr>\<rparr>)
        else if nv_motion n = CON_NAV_ROW then do {
          c' \<leftarrow> con_nav_clamp rs (nv_width n) c;
          Some (n\<lparr>nv_cursor := c', nv_pending := False\<rparr>)
        }
        else nav_view_scan rs (n\<lparr>nv_cursor := c\<lparr>nc_column := 0\<rparr>, word_phase := 1\<rparr>)
      else nav_view_scan rs n)"

definition con_nav_find_step :: "charmap_line list \<Rightarrow> con_nav \<Rightarrow> con_nav option" where
  "con_nav_find_step rs n = do {
     let w = nv_width n;
     (c, boundary) \<leftarrow> con_nav_grid_advance rs w (nv_cursor n) (nv_reverse n);
     (if boundary \<noteq> 1 then Some (n\<lparr>nv_cursor := nv_origin n, nv_pending := False\<rparr>)
      else do {
        cp \<leftarrow> nav_text rs (nc_line c) (nc_column c);
        let n1 = n\<lparr>nv_cursor := c\<rparr>;
        (if (if cp = 0 then 0x20 else cp) \<noteq> find_char n then Some n1
         else if \<not> find_short n then Some (n1\<lparr>nv_pending := False\<rparr>)
         else if \<not> nv_reverse n then Some (n1\<lparr>nv_cursor := nv_cursor n, nv_pending := False\<rparr>)
         else do {
           after \<leftarrow> nav_text rs (nc_line c) (add32 (nc_column c) 1);
           c' \<leftarrow> (if after = SEARCH_WIDE_CONT then con_nav_clamp rs w c
                 else map_option fst (con_nav_grid_advance rs w c False));
           Some (n1\<lparr>nv_cursor := c', nv_pending := False\<rparr>)
         })
      })
   }"

definition con_nav_occupied_cell :: "charmap_line list \<Rightarrow> nat \<Rightarrow> nat \<Rightarrow> bool option" where
  "con_nav_occupied_cell rs i col = do { cp \<leftarrow> nav_text rs i col; Some (cp \<noteq> 0 \<and> cp \<noteq> 0x20 \<and> cp \<noteq> 9) }"

text \<open>The decision of \<open>con_nav_last_step\<close> when the scan of a row is over.\<close>

definition nav_last_decide :: "charmap_line list \<Rightarrow> con_nav \<Rightarrow> con_nav option" where
  "nav_last_decide rs n =
     (let c = nv_cursor n; w = nv_width n; o' = nv_origin n;
          occupied = (if row_text n then scan_column n else 0) in do {
     after \<leftarrow> nav_text rs (nc_line o') (add32 (nc_column o') 1);
     let current = (if after = SEARCH_WIDE_CONT then nc_column o' + 1 else nc_column o');
     let settle = (\<lambda>col. do {
           c' \<leftarrow> con_nav_clamp rs w (c\<lparr>nc_column := col\<rparr>);
           Some (n\<lparr>nv_cursor := c', nv_pending := False\<rparr>)
         });
     (if word_phase n = 3 then settle (if row_text n then occupied else current)
      else if current < occupied then settle occupied
      else if wrapColumns (rs ! nc_line c) \<noteq> 0 \<and> nc_line c + 1 < length rs \<and> add32 current 1 \<ge> con_nav_grid_columns rs w c
      then Some (n\<lparr>word_phase := 2, row_text := False\<rparr>)
      else settle (if w \<noteq> 0 then w - 1 else 0))
   })"

definition con_nav_last_step :: "charmap_line list \<Rightarrow> con_nav \<Rightarrow> con_nav option" where
  "con_nav_last_step rs n =
     (let w = nv_width n; c = nv_cursor n;
          n1 = (if word_phase n = 0 then n\<lparr>scan_column := con_nav_columns rs w c, word_phase := 1\<rparr> else n) in
      if word_phase n1 = 2 \<and> wrapColumns (rs ! nc_line c) \<noteq> 0 \<and> nc_line c + 1 < length rs then
        Some (n1\<lparr>nv_cursor := c\<lparr>nc_line := nc_line c + 1, nc_row := add32 (nc_row c) 1\<rparr>\<rparr>)
      else if word_phase n1 = 2 then
        Some (n1\<lparr>scan_column := con_nav_columns rs w c, word_phase := 3\<rparr>)
      else if scan_column n1 \<noteq> 0 then do {
        let n2 = n1\<lparr>scan_column := scan_column n1 - 1\<rparr>;
        occ \<leftarrow> con_nav_occupied_cell rs (nc_line c) (scan_column n2);
        (if \<not> occ then Some n2 else nav_last_decide rs (n2\<lparr>row_text := True\<rparr>))
      }
      else nav_last_decide rs n1)"

definition con_nav_occupied_step :: "charmap_line list \<Rightarrow> con_nav \<Rightarrow> con_nav option" where
  "con_nav_occupied_step rs n =
     (let w = nv_width n; c = nv_cursor n; i = nc_line c;
          n1 = (if word_phase n = 0 then n\<lparr>word_phase := 1, scan_column := 0, candidate_valid := False\<rparr> else n) in
      if word_phase n1 = 2 then
        if i \<noteq> 0 \<and> nc_row c \<noteq> 0 \<and> wrapColumns (rs ! (i - 1)) \<noteq> 0 then
          Some (n1\<lparr>nv_cursor := c\<lparr>nc_line := i - 1, nc_row := nc_row c - 1\<rparr>, scan_column := 0, word_phase := 3\<rparr>)
        else if candidate_valid n1 then Some (n1\<lparr>nv_cursor := candidate n1, nv_pending := False\<rparr>)
        else Some (n1\<lparr>nv_cursor := nv_origin n1, scan_column := 0, word_phase := 4\<rparr>)
      else do {
        let sz = con_nav_columns rs w c;
        occ \<leftarrow> (if scan_column n1 < sz then con_nav_occupied_cell rs i (scan_column n1) else Some False);
        (if scan_column n1 < sz \<and> \<not> occ then Some (n1\<lparr>scan_column := scan_column n1 + 1\<rparr>)
         else
           let col = (if occ then scan_column n1 else if w \<noteq> 0 then w - 1 else 0);
               settle = (do {
                 c' \<leftarrow> con_nav_clamp rs w (c\<lparr>nc_column := col\<rparr>);
                 Some (n1\<lparr>nv_cursor := c', nv_pending := False\<rparr>)
               }) in
           if word_phase n1 = 1 then
             if nc_column (nv_origin n1) \<noteq> col then settle else Some (n1\<lparr>word_phase := 2\<rparr>)
           else if word_phase n1 = 3 then
             Some ((if occ then n1\<lparr>candidate := c\<lparr>nc_column := col\<rparr>, candidate_valid := True\<rparr> else n1)\<lparr>word_phase := 2\<rparr>)
           else if occ \<or> wrapColumns (rs ! i) = 0 \<or> i + 1 \<ge> length rs then settle
           else Some (n1\<lparr>nv_cursor := c\<lparr>nc_line := i + 1, nc_row := add32 (nc_row c) 1\<rparr>, scan_column := 0\<rparr>))
      })"

text \<open>The motions of the \<open>switch\<close> in \<open>con_nav_step\<close>, each followed by \<open>con_nav_clamp\<close>.\<close>

definition nav_switch :: "charmap_line list \<Rightarrow> con_nav \<Rightarrow> con_nav option" where
  "nav_switch rs n =
     (let w = nv_width n; c = nv_cursor n; i = nc_line c;
          up = c\<lparr>nc_line := i - 1, nc_row := nc_row c - 1\<rparr>; down = c\<lparr>nc_line := i + 1, nc_row := add32 (nc_row c) 1\<rparr>;
          can_up = (i \<noteq> 0 \<and> nc_row c \<noteq> 0); can_down = (i + 1 < length rs) in do {
     n1 \<leftarrow> (case nv_motion n of
         CON_NAV_LEFT \<Rightarrow> do { (c', b) \<leftarrow> con_nav_grid_advance rs w c True;
           Some ((if b = 1 then n\<lparr>nv_cursor := c'\<rparr> else n)\<lparr>nv_pending := False\<rparr>) }
       | CON_NAV_RIGHT \<Rightarrow> do { (c', b) \<leftarrow> con_nav_grid_advance rs w c False;
           Some ((if b = 1 then n\<lparr>nv_cursor := c'\<rparr> else n)\<lparr>nv_pending := False\<rparr>) }
       | CON_NAV_UP \<Rightarrow> Some ((if can_up then n\<lparr>nv_cursor := up\<rparr> else n)\<lparr>nv_pending := False\<rparr>)
       | CON_NAV_TOP \<Rightarrow> Some (if can_up then n\<lparr>nv_cursor := up\<rparr> else n\<lparr>nv_pending := False\<rparr>)
       | CON_NAV_DOWN \<Rightarrow> Some ((if can_down then n\<lparr>nv_cursor := down\<rparr> else n)\<lparr>nv_pending := False\<rparr>)
       | CON_NAV_BOTTOM \<Rightarrow> Some (if can_down then n\<lparr>nv_cursor := down\<rparr> else n\<lparr>nv_pending := False\<rparr>)
       | CON_NAV_FIRST \<Rightarrow> Some (if nc_column c = 0 \<and> can_up \<and> wrapColumns (rs ! (i - 1)) \<noteq> 0 then n\<lparr>nv_cursor := up\<rparr>
                                else n\<lparr>nv_cursor := c\<lparr>nc_column := 0\<rparr>, nv_pending := False\<rparr>)
       | _ \<Rightarrow> Some (n\<lparr>nv_pending := False\<rparr>));
     c' \<leftarrow> con_nav_clamp rs w (nv_cursor n1);
     Some (n1\<lparr>nv_cursor := c'\<rparr>)
   })"

section \<open>Selections\<close>

text \<open>Ordered by row alone for lines, by row and column for semantic selections.\<close>

definition con_nav_line_selection_step :: "charmap_line list \<Rightarrow> con_nav \<Rightarrow> con_nav" where
  "con_nav_line_selection_step rs n =
     (if match_phase n = 0 then
        let a = nv_anchor n; b = nv_cursor n in
        n\<lparr>selection_first := (if nc_row a > nc_row b then b else a), selection_last := (if nc_row a > nc_row b then a else b),
          match_phase := 1\<rparr>
      else if match_phase n = 1 then
        let f = selection_first n; i = nc_line f in
        if i < length rs \<and> i \<noteq> 0 \<and> nc_row f \<noteq> 0 \<and> wrapColumns (rs ! (i - 1)) \<noteq> 0 then
          n\<lparr>selection_first := f\<lparr>nc_line := i - 1, nc_row := nc_row f - 1\<rparr>\<rparr>
        else n\<lparr>match_phase := 2\<rparr>
      else
        let l = selection_last n; i = nc_line l in
        if i < length rs \<and> wrapColumns (rs ! i) \<noteq> 0 \<and> i + 1 < length rs then
          n\<lparr>selection_last := l\<lparr>nc_line := i + 1, nc_row := add32 (nc_row l) 1\<rparr>\<rparr>
        else n\<lparr>match_ready := True\<rparr>)"

definition nav_after :: "nav_cursor \<Rightarrow> nav_cursor \<Rightarrow> bool" where
  "nav_after a b \<longleftrightarrow> nc_row a > nc_row b \<or> (nc_row a = nc_row b \<and> nc_column a > nc_column b)"

definition con_nav_semantic_selection_step :: "charmap_line list \<Rightarrow> con_nav \<Rightarrow> con_nav option" where
  "con_nav_semantic_selection_step rs n =
     (if match_phase n = 0 then
        let a = nv_anchor n; b = nv_cursor n in
        Some (n\<lparr>selection_first := (if nav_after a b then b else a), selection_last := (if nav_after a b then a else b),
          word_phase := 0, match_phase := (if nc_row a = nc_row b \<and> nc_column a = nc_column b then 1 else 3)\<rparr>)
      else if match_phase n = 1 then do {
        probe \<leftarrow> con_nav_bracket_step rs (n\<lparr>nv_cursor := selection_first n, nv_origin := nv_cursor n, nv_pending := True\<rparr>);
        let f = nv_cursor probe;
        let n1 = n\<lparr>selection_first := f, word_phase := word_phase probe, bracket_char := bracket_char probe,
                   bracket_peer := bracket_peer probe, nv_reverse := nv_reverse probe, depth := depth probe\<rparr>;
        Some (if nv_pending probe then n1
              else if nc_row f \<noteq> nc_row (nv_cursor n) \<or> nc_column f \<noteq> nc_column (nv_cursor n) then
                (if nav_after f (selection_last n1) then n1\<lparr>selection_first := selection_last n1, selection_last := f\<rparr> else n1)
                  \<lparr>match_ready := True\<rparr>
              else n1\<lparr>match_phase := 3\<rparr>)
      }
      else do {
        let left = (match_phase n = 3);
        (c, moved) \<leftarrow> con_nav_grid_advance rs (nv_width n) (if left then selection_first n else selection_last n) left;
        cp \<leftarrow> nav_text rs (nc_line c) (nc_column c);
        Some (if moved = 1 \<and> \<not> con_nav_delimiter n cp then
                if left then n\<lparr>selection_first := c\<rparr> else n\<lparr>selection_last := c\<rparr>
              else if left then n\<lparr>match_phase := 4\<rparr> else n\<lparr>match_ready := True\<rparr>)
      })"

section \<open>The driver\<close>

definition nav_busy :: "charmap_line list \<Rightarrow> con_nav \<Rightarrow> bool" where
  "nav_busy rs n \<longleftrightarrow> nc_line (nv_cursor n) < length rs \<and>
     (nv_pending n \<or> (selecting n \<and> (linewise n \<or> semanticwise n) \<and> \<not> match_ready n))"

definition nav_unit :: "charmap_line list \<Rightarrow> con_nav \<Rightarrow> con_nav option" where
  "nav_unit rs n =
     (if \<not> nv_pending n then
        if semanticwise n then con_nav_semantic_selection_step rs n else Some (con_nav_line_selection_step rs n)
      else (case nv_motion n of
          CON_NAV_FIND \<Rightarrow> con_nav_find_step rs n
        | CON_NAV_LAST \<Rightarrow> con_nav_last_step rs n
        | CON_NAV_OCCUPIED \<Rightarrow> con_nav_occupied_step rs n
        | CON_NAV_VIEW_ROW \<Rightarrow> con_nav_view_step rs n
        | CON_NAV_ROW \<Rightarrow> con_nav_view_step rs n
        | CON_NAV_BRACKET \<Rightarrow> con_nav_bracket_step rs n
        | CON_NAV_PARAGRAPH_UP \<Rightarrow> con_nav_paragraph_step rs n
        | CON_NAV_PARAGRAPH_DOWN \<Rightarrow> con_nav_paragraph_step rs n
        | CON_NAV_WORD_NEXT \<Rightarrow> con_nav_word_step rs n
        | CON_NAV_WORD_END \<Rightarrow> con_nav_word_step rs n
        | CON_NAV_WORD_PREV \<Rightarrow> con_nav_word_step rs n
        | CON_NAV_SEMANTIC_NEXT \<Rightarrow> con_nav_word_step rs n
        | CON_NAV_SEMANTIC_END \<Rightarrow> con_nav_word_step rs n
        | CON_NAV_SEMANTIC_PREV \<Rightarrow> con_nav_word_step rs n
        | _ \<Rightarrow> nav_switch rs n))"

definition nav_answer :: "charmap_line list \<Rightarrow> con_nav \<Rightarrow> bool \<times> con_nav" where
  "nav_answer rs n =
     (let null = (nc_line (nv_cursor n) \<ge> length rs); n1 = (if null then n\<lparr>nv_pending := False\<rparr> else n) in
      (\<not> nv_pending n1 \<and> (\<not> selecting n1 \<or> (\<not> linewise n1 \<and> \<not> semanticwise n1) \<or> match_ready n1 \<or> null), n1))"

fun con_nav_step :: "charmap_line list \<Rightarrow> nat \<Rightarrow> con_nav \<Rightarrow> (bool \<times> con_nav) option" where
  "con_nav_step rs 0 n = Some (nav_answer rs n)"
| "con_nav_step rs (Suc budget) n =
     (if nav_busy rs n then do { n' \<leftarrow> nav_unit rs n; con_nav_step rs budget n' } else Some (nav_answer rs n))"

definition con_nav_end :: "charmap_line list \<Rightarrow> nav_cursor \<Rightarrow> nat \<Rightarrow> nat option" where
  "con_nav_end rs p w = do {
     let e = add32 (nc_column p) 1;
     cp \<leftarrow> nav_text rs (nc_line p) e;
     let e' = (if cp = SEARCH_WIDE_CONT then e + 1 else e);
     Some (if e' < w then e' else w)
   }"

definition nav_position :: "nav_cursor \<Rightarrow> search_position" where
  "nav_position c = at (nc_line c) (nc_column c)"

text \<open>The selected range, its first and its last row.\<close>

definition con_nav_match :: "charmap_line list \<Rightarrow> con_nav \<Rightarrow> (search_match \<times> nat \<times> nat) option" where
  "con_nav_match rs n =
     (let w = nv_width n; f = selection_first n; l = selection_last n in
      if selecting n \<and> semanticwise n \<and> match_ready n then do {
        e \<leftarrow> con_nav_end rs l w;
        Some ((nav_position f, at (nc_line l) e), nc_row f, nc_row l)
      }
      else if selecting n \<and> linewise n \<and> match_ready n then
        Some ((at (nc_line f) 0, at (nc_line l) w), nc_row f, nc_row l)
      else
        let a0 = (if selecting n then nv_anchor n else nv_cursor n); b0 = nv_cursor n; swap = nav_after a0 b0;
            a = (if swap then b0 else a0); b = (if swap then a0 else b0) in
        if selecting n \<and> blockwise n then do {
          ae \<leftarrow> con_nav_end rs a w;
          be \<leftarrow> con_nav_end rs b w;
          Some ((at (nc_line a) (min (nc_column a) (nc_column b)), at (nc_line b) (max ae be)), nc_row a, nc_row b)
        }
        else do {
          e \<leftarrow> con_nav_end rs b w;
          Some ((nav_position a, at (nc_line b) e), nc_row a, nc_row b)
        })"

section \<open>Keys\<close>

text \<open>
  What a key does to the navigation state: a motion, a row of the view to go to, the character awaited
  by an inline find or its repetition, a kind of selection, its removal; and a tick of the timer.
\<close>

definition charmap_nav_select :: "con_nav \<Rightarrow> bool \<Rightarrow> bool \<Rightarrow> bool \<Rightarrow> con_nav" where
  "charmap_nav_select n lw bw sw =
     (let n1 = (if \<not> selecting n then n\<lparr>nv_anchor := nv_cursor n, selecting := True\<rparr>
                else if linewise n = lw \<and> blockwise n = bw \<and> semanticwise n = sw then n\<lparr>selecting := False\<rparr>
                else n)
      in n1\<lparr>linewise := lw, blockwise := bw, semanticwise := sw, match_ready := False, match_phase := 0\<rparr>)"

datatype nav_key = Key_motion con_nav_motion | Key_view nat con_nav_motion | Key_find_start bool bool |
  Key_find_char codepoint | Key_find_repeat bool | Key_select bool bool bool | Key_escape | Timer nat

definition nav_find :: "con_nav \<Rightarrow> bool \<Rightarrow> con_nav" where
  "nav_find n back = (con_nav_move n CON_NAV_FIND)\<lparr>nv_reverse := back\<rparr>"

definition charmap_nav_key :: "charmap_line list \<Rightarrow> nav_key \<Rightarrow> con_nav \<Rightarrow> con_nav option" where
  "charmap_nav_key rs k n =
     (case k of
        Key_motion m \<Rightarrow>
          let n1 = con_nav_move n m in
          if m \<in> {CON_NAV_LEFT, CON_NAV_RIGHT, CON_NAV_UP, CON_NAV_DOWN} then map_option snd (con_nav_step rs 1 n1) else Some n1
      | Key_view row m \<Rightarrow> Some (con_nav_move (n\<lparr>target_row := row\<rparr>) m)
      | Key_find_start back short \<Rightarrow> Some (n\<lparr>find_char := 0, find_reverse := back, find_short := short\<rparr>)
      | Key_find_char cp \<Rightarrow> Some (nav_find (n\<lparr>find_char := cp\<rparr>) (find_reverse n))
      | Key_find_repeat back \<Rightarrow> Some (if find_char n \<noteq> 0 then nav_find n (find_reverse n \<noteq> back) else n)
      | Key_select lw bw sw \<Rightarrow> Some (charmap_nav_select n lw bw sw)
      | Key_escape \<Rightarrow> Some (n\<lparr>selecting := False\<rparr>)
      | Timer budget \<Rightarrow> map_option snd (con_nav_step rs budget n))"

fun nav_run :: "charmap_line list \<Rightarrow> nav_key list \<Rightarrow> con_nav \<Rightarrow> con_nav option" where
  "nav_run rs [] n = Some n"
| "nav_run rs (k # ks) n = do { n' \<leftarrow> charmap_nav_key rs k n; nav_run rs ks n' }"

end
