(* ===== verification/Navigation_Laws.thy ===== *)
theory Navigation_Laws
  imports Navigation
begin

text \<open>
  Navigation is safe and ends. Every cursor of the navigation state stays on a retained row, a settled
  cursor is on a cell of the visible grid and never on the continuation of a wide character, and the
  work left, \<open>nav_work\<close>, decreases with every unit.
\<close>

section \<open>Rows and cells\<close>

definition nav_rows :: "charmap_line list \<Rightarrow> bool" where
  "nav_rows rs \<longleftrightarrow> list_all line_ok rs \<and> length rs \<le> ulong_max"

text \<open>The continuation of a wide character follows its first cell.\<close>

definition wide_rows :: "charmap_line list \<Rightarrow> bool" where
  "wide_rows rs \<longleftrightarrow> (\<forall>line \<in> set rs. \<forall>j < line_size line.
     cell_text (cells line ! j) = SEARCH_WIDE_CONT \<longrightarrow> j \<noteq> 0 \<and> visible_cp (cell_text (cells line ! (j - 1))))"

definition shown_text :: "charmap_line list \<Rightarrow> nat \<Rightarrow> nat \<Rightarrow> codepoint" where
  "shown_text rs i col = (if i < length rs \<and> col < line_size (rs ! i) then cell_text (cells (rs ! i) ! col) else 0)"

lemma nav_row:
  assumes "nav_rows rs" and "i < length rs"
  shows "line_size (rs ! i) \<le> length (cells (rs ! i))" "length (cells (rs ! i)) \<le> ulong_max"
  using assms by (auto simp: nav_rows_def list_all_length line_ok_def)

lemma nav_text_total: "nav_rows rs \<Longrightarrow> nav_text rs i col = Some (shown_text rs i col)"
  using nav_row [of rs i] by (auto simp: nav_text_def shown_text_def cell_at_def)

lemma nav_cell_total:
  assumes "nav_rows rs" and "i < length rs" and "col < line_size (rs ! i)"
  shows "nav_cell rs i col = Some (shown_text rs i col)"
    and "nav_wide_cont rs i col = Some (shown_text rs i col = SEARCH_WIDE_CONT)"
  using nav_row [OF assms(1,2)] assms(2,3)
  by (auto simp: nav_cell_def nav_wide_cont_def shown_text_def cell_at_def)

lemma occupied_cell_total:
  "nav_rows rs \<Longrightarrow> con_nav_occupied_cell rs i col = Some (shown_text rs i col \<notin> {0, 0x20, 9})"
  by (simp add: con_nav_occupied_cell_def nav_text_total)

lemma wide_leader:
  assumes "wide_rows rs" and "shown_text rs i col = SEARCH_WIDE_CONT"
  shows "col \<noteq> 0" "visible_cp (shown_text rs i (col - 1))" "shown_text rs i (col - 1) \<noteq> SEARCH_WIDE_CONT"
proof -
  from assms(2) have i: "i < length rs" "col < line_size (rs ! i)" "cell_text (cells (rs ! i) ! col) = SEARCH_WIDE_CONT"
    by (auto simp: shown_text_def SEARCH_WIDE_CONT_def split: if_splits)
  with assms(1) have "col \<noteq> 0 \<and> visible_cp (cell_text (cells (rs ! i) ! (col - 1)))"
    using nth_mem [OF i(1)] by (auto simp: wide_rows_def)
  with i show "col \<noteq> 0" "visible_cp (shown_text rs i (col - 1))" "shown_text rs i (col - 1) \<noteq> SEARCH_WIDE_CONT"
    by (auto simp: shown_text_def visible_cp_def)
qed

lemma columns_bound:
  "con_nav_columns rs w c \<le> w" "con_nav_columns rs w c \<le> con_nav_grid_columns rs w c"
  "con_nav_grid_columns rs w c \<le> w"
  "nc_line c < length rs \<Longrightarrow> con_nav_columns rs w c \<le> line_size (rs ! nc_line c)"
  by (auto simp: con_nav_columns_def con_nav_grid_columns_def Let_def)

lemma columns_same:
  assumes "nc_line d = nc_line c"
  shows "con_nav_columns rs w d = con_nav_columns rs w c" "con_nav_grid_columns rs w d = con_nav_grid_columns rs w c"
  using assms by (simp_all add: con_nav_columns_def con_nav_grid_columns_def)

lemma columns_column:
  "con_nav_columns rs w (c\<lparr>nc_column := x\<rparr>) = con_nav_columns rs w c"
  "con_nav_grid_columns rs w (c\<lparr>nc_column := x\<rparr>) = con_nav_grid_columns rs w c"
  by (simp_all add: con_nav_columns_def con_nav_grid_columns_def)

section \<open>Cursors\<close>

definition cur_ok :: "nat \<Rightarrow> charmap_line list \<Rightarrow> nat \<Rightarrow> nav_cursor \<Rightarrow> bool" where
  "cur_ok k rs w c \<longleftrightarrow> nc_line c < length rs \<and> nc_row c + k = nc_line c \<and> (nc_column c < w \<or> nc_column c = 0)"

definition settled :: "charmap_line list \<Rightarrow> nat \<Rightarrow> nav_cursor \<Rightarrow> bool" where
  "settled rs w c \<longleftrightarrow> (nc_column c < con_nav_grid_columns rs w c \<or> nc_column c = 0) \<and>
     shown_text rs (nc_line c) (nc_column c) \<noteq> SEARCH_WIDE_CONT"

lemma settled_zero: "wide_rows rs \<Longrightarrow> nc_column c = 0 \<Longrightarrow> settled rs w c"
  using wide_leader(1) [of rs "nc_line c" "nc_column c"] by (auto simp: settled_def)

lemma settled_pred:
  assumes "wide_rows rs" and "shown_text rs (nc_line c) (Suc col) = SEARCH_WIDE_CONT"
    and "col < con_nav_grid_columns rs w c"
  shows "settled rs w (c\<lparr>nc_column := col\<rparr>)"
  using wide_leader(3) [OF assms(1,2)] assms(3) by (simp add: settled_def con_nav_grid_columns_def)

definition clamped :: "charmap_line list \<Rightarrow> nat \<Rightarrow> nav_cursor \<Rightarrow> nav_cursor \<Rightarrow> bool" where
  "clamped rs w c d \<longleftrightarrow> nc_line d = nc_line c \<and> nc_row d = nc_row c \<and> nc_column d \<le> nc_column c \<and>
     (nc_column d < w \<or> nc_column d = 0) \<and> (wide_rows rs \<longrightarrow> settled rs w d)"

lemma clampedI:
  assumes col: "col \<le> nc_column c" "col < n \<or> col = 0" and n: "n \<le> con_nav_grid_columns rs w c"
  shows "clamped rs w c (c\<lparr>nc_column := (if shown_text rs (nc_line c) col = SEARCH_WIDE_CONT \<and> col \<noteq> 0 then col - 1 else col)\<rparr>)"
proof (cases "shown_text rs (nc_line c) col = SEARCH_WIDE_CONT \<and> col \<noteq> 0")
  case True
  then have s: "Suc (col - 1) = col" by simp
  have g: "col - 1 < con_nav_grid_columns rs w c" using True col n by linarith
  then have "col - 1 < w" using columns_bound(3) [of rs w c] by linarith
  moreover have "settled rs w (c\<lparr>nc_column := col - 1\<rparr>)" if "wide_rows rs"
    using settled_pred [OF that _ g] True s by simp
  ultimately show ?thesis using True col by (auto simp: clamped_def)
next
  case False
  have w: "col < w \<or> col = 0" using col(2) n columns_bound(3) [of rs w c] by linarith
  have "settled rs w (c\<lparr>nc_column := col\<rparr>)" if "wide_rows rs"
  proof (cases "col = 0")
    case True
    then show ?thesis using settled_zero [OF that] by simp
  next
    case nz: False
    then show ?thesis using False col(2) n by (auto simp: settled_def con_nav_grid_columns_def)
  qed
  then show ?thesis using False col(1) w by (auto simp: clamped_def)
qed

lemma clamp_total:
  assumes "nav_rows rs"
  obtains d where "con_nav_clamp rs w c = Some d" and "clamped rs w c d"
proof -
  define n where "n = con_nav_grid_columns rs w c"
  define col where "col = (if nc_column c \<ge> n then if n \<noteq> 0 then n - 1 else 0 else nc_column c)"
  have *: "col \<le> nc_column c" "col < n \<or> col = 0" by (auto simp: col_def)
  have "con_nav_clamp rs w c =
      Some (c\<lparr>nc_column := (if shown_text rs (nc_line c) col = SEARCH_WIDE_CONT \<and> col \<noteq> 0 then col - 1 else col)\<rparr>)"
    using assms by (auto simp: con_nav_clamp_def Let_def n_def [symmetric] col_def [symmetric] nav_text_total SEARCH_WIDE_CONT_def)
  with clampedI [OF *, of rs w] show thesis using that n_def by blast
qed

lemma text_clamp_total:
  assumes "nav_rows rs"
  obtains d where "con_nav_text_clamp rs w c = Some d" and "clamped rs w c d"
proof -
  define n where "n = con_nav_columns rs w c"
  define col where "col = (if nc_column c \<ge> n then if n \<noteq> 0 then n - 1 else 0 else nc_column c)"
  have *: "col \<le> nc_column c" "col < n \<or> col = 0" by (auto simp: col_def)
  have r: "nc_line c < length rs \<and> col < line_size (rs ! nc_line c)" if "col \<noteq> 0"
  proof -
    have "col < n" using * that by simp
    then show ?thesis using columns_bound(4) [of c rs w]
      by (cases "nc_line c < length rs") (auto simp: n_def con_nav_columns_def Let_def split: if_splits)
  qed
  have "con_nav_text_clamp rs w c =
      Some (c\<lparr>nc_column := (if shown_text rs (nc_line c) col = SEARCH_WIDE_CONT \<and> col \<noteq> 0 then col - 1 else col)\<rparr>)"
    using r nav_cell_total(2) [OF assms, of "nc_line c" col]
    by (auto simp: con_nav_text_clamp_def Let_def n_def [symmetric] col_def [symmetric])
  with clampedI [OF *, of rs w] columns_bound(2) [of rs w c] show thesis using that n_def by blast
qed

lemma clamped_ok: "clamped rs w c d \<Longrightarrow> nc_line c < length rs \<Longrightarrow> nc_row c + k = nc_line c \<Longrightarrow> cur_ok k rs w d"
  by (auto simp: clamped_def cur_ok_def)

section \<open>Steps to the neighbour\<close>

definition nav_pos :: "nat \<Rightarrow> nav_cursor \<Rightarrow> nat" where
  "nav_pos w c = nc_line c * Suc w + nc_column c"

definition nav_end :: "charmap_line list \<Rightarrow> nat \<Rightarrow> nat" where
  "nav_end rs w = length rs * Suc w"

definition nav_dist :: "charmap_line list \<Rightarrow> nat \<Rightarrow> bool \<Rightarrow> nav_cursor \<Rightarrow> nat" where
  "nav_dist rs w back c = (if back then nav_pos w c else nav_end rs w - nav_pos w c)"

lemma pos_less: "cur_ok k rs w c \<Longrightarrow> nav_pos w c < nav_end rs w"
proof -
  assume c: "cur_ok k rs w c"
  then have "Suc (nc_line c) * Suc w \<le> length rs * Suc w" unfolding cur_ok_def by (intro mult_le_mono1) simp
  moreover have "nc_column c < Suc w" using c by (auto simp: cur_ok_def)
  ultimately show ?thesis by (simp add: nav_pos_def nav_end_def)
qed

lemma dist_bound: "cur_ok k rs w c \<Longrightarrow> nav_dist rs w back c \<le> nav_end rs w"
  using pos_less [of k rs w c] by (simp add: nav_dist_def)

definition stepped :: "charmap_line list \<Rightarrow> nat \<Rightarrow> bool \<Rightarrow> nav_cursor \<Rightarrow> nav_cursor \<Rightarrow> bool" where
  "stepped rs w back c d \<longleftrightarrow> (if back then nav_pos w d < nav_pos w c else nav_pos w c < nav_pos w d)"

lemma stepped_dist: "stepped rs w back c d \<Longrightarrow> cur_ok k rs w d \<Longrightarrow> nav_dist rs w back d < nav_dist rs w back c"
  using pos_less [of k rs w d] by (auto simp: stepped_def nav_dist_def)

lemma stepped_back_row:
  assumes "nc_line d < nc_line c" and "nc_column d \<le> w"
  shows "nav_pos w d < nav_pos w c"
proof -
  have "Suc (nc_line d) * Suc w \<le> nc_line c * Suc w" using assms(1) by (intro mult_le_mono1) simp
  then show ?thesis using assms(2) by (simp add: nav_pos_def)
qed

lemma stepped_column:
  assumes "nc_line d = nc_line c" and "nc_column d < nc_column c"
  shows "nav_pos w d < nav_pos w c"
  using assms by (simp add: nav_pos_def)

definition moved :: "nat \<Rightarrow> charmap_line list \<Rightarrow> nat \<Rightarrow> bool \<Rightarrow> nav_cursor \<Rightarrow> nav_cursor \<Rightarrow> nat \<Rightarrow> bool" where
  "moved k rs w back c d b \<longleftrightarrow> cur_ok k rs w d \<and> (wide_rows rs \<and> settled rs w c \<longrightarrow> settled rs w d) \<and>
     (b \<noteq> 0 \<longrightarrow> stepped rs w back c d)"

lemma moved_back:
  assumes c: "cur_ok k rs w c" and d: "clamped rs w c' d"
    and c': "c' = (if nc_column c \<noteq> 0 then c\<lparr>nc_column := nc_column c - 1\<rparr>
                   else \<lparr>nc_line = nc_line c - 1, nc_row = nc_row c - 1, nc_column = w\<rparr>)"
    and up: "nc_column c = 0 \<Longrightarrow> nc_line c \<noteq> 0 \<and> nc_row c \<noteq> 0"
  shows "moved k rs w True c d b"
proof -
  have k: "nc_row c' + k = nc_line c'" "nc_line c' < length rs"
    using c up by (auto simp: c' cur_ok_def)
  have d': "cur_ok k rs w d" by (rule clamped_ok [OF d k(2,1)])
  have "nav_pos w d < nav_pos w c"
  proof (cases "nc_column c = 0")
    case True
    then show ?thesis using d up by (intro stepped_back_row) (auto simp: c' clamped_def)
  next
    case False
    then show ?thesis using d by (intro stepped_column) (auto simp: c' clamped_def)
  qed
  with d d' show ?thesis by (auto simp: moved_def clamped_def stepped_def)
qed

lemma moved_down:
  assumes c: "cur_ok k rs w c" and "Suc (nc_line c) < length rs" and "length rs \<le> ulong_max"
  shows "moved k rs w False c \<lparr>nc_line = Suc (nc_line c), nc_row = add32 (nc_row c) 1, nc_column = 0\<rparr> b"
proof -
  have "add32 (nc_row c) 1 = nc_row c + 1" using assms by (intro add32_exact) (auto simp: cur_ok_def)
  moreover have "nav_pos w c < nav_pos w \<lparr>nc_line = Suc (nc_line c), nc_row = add32 (nc_row c) 1, nc_column = 0\<rparr>"
    using c by (intro stepped_back_row) (auto simp: cur_ok_def)
  ultimately show ?thesis
    using assms by (auto simp: moved_def cur_ok_def stepped_def settled_zero)
qed

lemma moved_right:
  assumes c: "cur_ok k rs w c" and "nc_column c < col" and col: "col < n" and n: "n \<le> con_nav_grid_columns rs w c"
    and "shown_text rs (nc_line c) col \<noteq> SEARCH_WIDE_CONT \<or> \<not> wide_rows rs"
  shows "moved k rs w False c (c\<lparr>nc_column := col\<rparr>) b"
proof -
  have "col < w" using col n columns_bound(3) [of rs w c] by linarith
  with assms show ?thesis
    by (auto simp: moved_def cur_ok_def stepped_def nav_pos_def settled_def con_nav_grid_columns_def)
qed

lemma moved_stay: "cur_ok k rs w c \<Longrightarrow> moved k rs w back c c 0"
  by (simp add: moved_def)

lemma after_wide:
  assumes "wide_rows rs"
  shows "shown_text rs i (if shown_text rs i j = SEARCH_WIDE_CONT then Suc j else j) \<noteq> SEARCH_WIDE_CONT"
  using wide_leader(2) [OF assms, of i "Suc j"] by (auto simp: visible_cp_def)

lemma grid_advance_total:
  assumes r: "nav_rows rs" and c: "cur_ok k rs w c" and w: "w \<le> ulong_max"
  obtains d b where "con_nav_grid_advance rs w c back = Some (d, b)" and "moved k rs w back c d b"
proof -
  have i: "\<not> nc_line c \<ge> length rs" using c by (simp add: cur_ok_def)
  show thesis
  proof (cases "back")
    case True
    show thesis
    proof (cases "nc_column c = 0 \<and> (nc_line c = 0 \<or> nc_row c = 0)")
      case stay: True
      show thesis by (rule that [of c 0]) (use True i stay c in \<open>auto simp: con_nav_grid_advance_def Let_def moved_stay\<close>)
    next
      case False
      let ?c = "if nc_column c \<noteq> 0 then c\<lparr>nc_column := nc_column c - 1\<rparr>
                else \<lparr>nc_line = nc_line c - 1, nc_row = nc_row c - 1, nc_column = w\<rparr>"
      obtain d where d: "con_nav_clamp rs w ?c = Some d" "clamped rs w ?c d" using clamp_total [OF r] .
      have "\<exists>b. con_nav_grid_advance rs w c back = Some (d, b)"
        using True i False d(1) by (auto simp: con_nav_grid_advance_def Let_def split: if_splits)
      then obtain b where b: "con_nav_grid_advance rs w c back = Some (d, b)" ..
      show thesis by (rule that [OF b]) (use True False in \<open>auto intro!: moved_back [OF c d(2) refl]\<close>)
    qed
  next
    case False
    have nx: "add32 (nc_column c) (Suc 0) = Suc (nc_column c)"
      using c w arith32(1) [of "nc_column c" 1] by (auto simp: cur_ok_def ulong_max_def)
    define j where "j = (if shown_text rs (nc_line c) (Suc (nc_column c)) = SEARCH_WIDE_CONT then Suc (Suc (nc_column c)) else Suc (nc_column c))"
    have j: "nc_column c < j" "shown_text rs (nc_line c) j \<noteq> SEARCH_WIDE_CONT \<or> \<not> wide_rows rs"
      using after_wide [of rs "nc_line c" "Suc (nc_column c)"] by (auto simp: j_def)
    have eq: "con_nav_grid_advance rs w c back =
        (if j < con_nav_grid_columns rs w c then Some (c\<lparr>nc_column := j\<rparr>, 1)
         else if nc_line c + 1 \<ge> length rs then Some (c, 0)
         else Some (\<lparr>nc_line = nc_line c + 1, nc_row = add32 (nc_row c) 1, nc_column = 0\<rparr>, if wrapColumns (rs ! nc_line c) \<noteq> 0 then 1 else 2))"
      using False i by (simp add: con_nav_grid_advance_def Let_def nx nav_text_total [OF r] j_def)
    show thesis
    proof (cases "j < con_nav_grid_columns rs w c")
      case True
      have "moved k rs w back c (c\<lparr>nc_column := j\<rparr>) 1"
        using False moved_right [OF c j(1) True order_refl j(2)] by simp
      then show thesis using that eq True by simp
    next
      case over: False
      show thesis
      proof (cases "nc_line c + 1 \<ge> length rs")
        case True
        show thesis by (rule that [of c 0]) (use eq over True c in \<open>simp_all add: moved_stay\<close>)
      next
        case down: False
        have "moved k rs w back c \<lparr>nc_line = nc_line c + 1, nc_row = add32 (nc_row c) 1, nc_column = 0\<rparr> b" for b
          using moved_down [OF c] down r False by (simp add: nav_rows_def)
        then show thesis using that eq over down by simp
      qed
    qed
  qed
qed

lemma advance_total:
  assumes r: "nav_rows rs" and c: "cur_ok k rs w c" and w: "w \<le> ulong_max"
  obtains d b where "con_nav_advance rs w c back = Some (d, b)" and "moved k rs w back c d b"
proof -
  have i: "\<not> nc_line c \<ge> length rs" using c by (simp add: cur_ok_def)
  show thesis
  proof (cases "back")
    case True
    show thesis
    proof (cases "nc_column c = 0 \<and> (nc_line c = 0 \<or> nc_row c = 0)")
      case stay: True
      show thesis by (rule that [of c 0]) (use True i stay c in \<open>auto simp: con_nav_advance_def Let_def moved_stay\<close>)
    next
      case False
      let ?c = "if nc_column c \<noteq> 0 then c\<lparr>nc_column := nc_column c - 1\<rparr>
                else \<lparr>nc_line = nc_line c - 1, nc_row = nc_row c - 1, nc_column = w\<rparr>"
      obtain d where d: "con_nav_text_clamp rs w ?c = Some d" "clamped rs w ?c d" using text_clamp_total [OF r] .
      have "\<exists>b. con_nav_advance rs w c back = Some (d, b)"
        using True i False d(1) by (auto simp: con_nav_advance_def Let_def split: if_splits)
      then obtain b where b: "con_nav_advance rs w c back = Some (d, b)" ..
      show thesis by (rule that [OF b]) (use True False in \<open>auto intro!: moved_back [OF c d(2) refl]\<close>)
    qed
  next
    case False
    define n where "n = con_nav_columns rs w c"
    have nx: "add32 (nc_column c) (Suc 0) = Suc (nc_column c)"
      using c w arith32(1) [of "nc_column c" 1] by (auto simp: cur_ok_def ulong_max_def)
    define j where "j = (if shown_text rs (nc_line c) (Suc (nc_column c)) = SEARCH_WIDE_CONT then Suc (Suc (nc_column c)) else Suc (nc_column c))"
    have j: "nc_column c < j" "shown_text rs (nc_line c) j \<noteq> SEARCH_WIDE_CONT \<or> \<not> wide_rows rs"
      using after_wide [of rs "nc_line c" "Suc (nc_column c)"] by (auto simp: j_def)
    let ?c1 = "if Suc (nc_column c) < n then c\<lparr>nc_column := j\<rparr> else c"
    have wide: "nav_wide_cont rs (nc_line c) (Suc (nc_column c)) =
        Some (shown_text rs (nc_line c) (Suc (nc_column c)) = SEARCH_WIDE_CONT)" if "Suc (nc_column c) < n"
      using nav_cell_total(2) [OF r, of "nc_line c" "Suc (nc_column c)"] i that columns_bound(4) [of c rs w] by (simp add: n_def)
    have n1: "con_nav_columns rs w ?c1 = n" by (simp add: n_def columns_column)
    obtain d where d: "con_nav_text_clamp rs w ?c1 = Some d" "clamped rs w ?c1 d" using text_clamp_total [OF r] .
    have eq: "con_nav_advance rs w c back =
        (if Suc (nc_column c) < n \<and> j < n then Some (c\<lparr>nc_column := j\<rparr>, 1)
         else if nc_line c + 1 \<ge> length rs then Some (d, 0)
         else Some (\<lparr>nc_line = nc_line c + 1, nc_row = add32 (nc_row c) 1, nc_column = 0\<rparr>, if wrapColumns (rs ! nc_line c) \<noteq> 0 then 1 else 2))"
    proof (cases "Suc (nc_column c) < n")
      case True
      have "con_nav_advance rs w c back =
          (if j < n then Some (c\<lparr>nc_column := j\<rparr>, 1)
           else if nc_line c + 1 \<ge> length rs then map_option (\<lambda>d. (d, 0)) (con_nav_text_clamp rs w (c\<lparr>nc_column := j\<rparr>))
           else Some (\<lparr>nc_line = nc_line c + 1, nc_row = add32 (nc_row c) 1, nc_column = 0\<rparr>, if wrapColumns (rs ! nc_line c) \<noteq> 0 then 1 else 2))"
      proof (cases "shown_text rs (nc_line c) (Suc (nc_column c)) = SEARCH_WIDE_CONT")
        case wc: True
        then show ?thesis using \<open>\<not> back\<close> i True by (simp add: con_nav_advance_def Let_def nx n_def [symmetric] wide j_def columns_column map_option_case split: option.splits)
      next
        case nw: False
        then show ?thesis using \<open>\<not> back\<close> i True by (simp add: con_nav_advance_def Let_def nx n_def [symmetric] wide j_def columns_column map_option_case split: option.splits)
      qed
      with True d(1) show ?thesis by simp
    next
      case nr: False
      with \<open>\<not> back\<close> i d(1) show ?thesis by (simp add: con_nav_advance_def Let_def nx n_def [symmetric])
    qed
    show thesis
    proof (cases "Suc (nc_column c) < n \<and> j < n")
      case True
      have "moved k rs w back c (c\<lparr>nc_column := j\<rparr>) 1"
        using False moved_right [OF c j(1) conjunct2 [OF True] _ j(2)] columns_bound(2) [of rs w c] by (simp add: n_def)
      then show thesis using that eq True by simp
    next
      case over: False
      show thesis
      proof (cases "nc_line c + 1 \<ge> length rs")
        case True
        have "cur_ok k rs w d" by (rule clamped_ok [OF d(2)]) (use c in \<open>auto simp: cur_ok_def\<close>)
        then have "moved k rs w back c d 0" using d(2) by (auto simp: moved_def clamped_def)
        then show thesis using that eq over True by simp
      next
        case down: False
        have "moved k rs w back c \<lparr>nc_line = nc_line c + 1, nc_row = add32 (nc_row c) 1, nc_column = 0\<rparr> b" for b
          using moved_down [OF c] down r False by (simp add: nav_rows_def)
        then show thesis using that eq over down by simp
      qed
    qed
  qed
qed

end
