(* ===== verification/Navigation_Props.thy ===== *)
theory Navigation_Props
  imports Navigation_Laws
begin

text \<open>
  What the units of work keep and how much work is left: every motion ends, every selection is
  completed, and no history of keys makes navigation read outside the retained rows.
\<close>

section \<open>Work\<close>

definition bracket_work :: "charmap_line list \<Rightarrow> nat \<Rightarrow> nat \<Rightarrow> bool \<Rightarrow> nav_cursor \<Rightarrow> nat" where
  "bracket_work rs w phase back c = (if phase = 0 then nav_end rs w + 2 else nav_dist rs w back c + 1)"

definition view_work :: "charmap_line list \<Rightarrow> con_nav \<Rightarrow> nat" where
  "view_work rs n =
     (let c = nv_cursor n; w = nv_width n in
      if word_phase n = 0 then
        (if nc_row c < target_row n then length rs - nc_line c else if nc_row c > target_row n then nc_line c else 0) + w + 2
      else w + 1 - scan_column n)"

definition last_work :: "charmap_line list \<Rightarrow> con_nav \<Rightarrow> nat" where
  "last_work rs n =
     (let w = nv_width n in
      if word_phase n = 0 then 2 * w + length rs + 6
      else if word_phase n = 2 then length rs - nc_line (nv_cursor n) + w + 3
      else if word_phase n = 3 then scan_column n
      else scan_column n + w + length rs + 4)"

definition occupied_work :: "charmap_line list \<Rightarrow> con_nav \<Rightarrow> nat" where
  "occupied_work rs n =
     (let w = nv_width n; i = nc_line (nv_cursor n); r = length rs; down = r * (w + 2) + w + 2 in
      if word_phase n = 0 then r * (w + 3) + w + down + 4
      else if word_phase n = 1 then r * (w + 3) + (w - scan_column n) + down + 3
      else if word_phase n = 2 then i * (w + 3) + down + 1
      else if word_phase n = 3 then i * (w + 3) + (w - scan_column n) + down + 2
      else (r - i) * (w + 2) + (w - scan_column n))"

definition motion_work :: "charmap_line list \<Rightarrow> con_nav \<Rightarrow> nat" where
  "motion_work rs n =
     (let w = nv_width n; c = nv_cursor n in
      case nv_motion n of
        CON_NAV_WORD_NEXT \<Rightarrow> nav_dist rs w False c + (1 - word_phase n)
      | CON_NAV_SEMANTIC_NEXT \<Rightarrow> nav_dist rs w False c + (1 - word_phase n)
      | CON_NAV_WORD_END \<Rightarrow> nav_dist rs w False c + (3 - word_phase n)
      | CON_NAV_SEMANTIC_END \<Rightarrow> nav_dist rs w False c + (3 - word_phase n)
      | CON_NAV_WORD_PREV \<Rightarrow> nav_dist rs w True c + (3 - word_phase n)
      | CON_NAV_SEMANTIC_PREV \<Rightarrow> nav_dist rs w True c + (3 - word_phase n)
      | CON_NAV_PARAGRAPH_UP \<Rightarrow> nc_line c * Suc w + (w - scan_column n)
      | CON_NAV_PARAGRAPH_DOWN \<Rightarrow> (length rs - nc_line c) * Suc w + (w - scan_column n)
      | CON_NAV_BRACKET \<Rightarrow> bracket_work rs w (word_phase n) (nv_reverse n) c
      | CON_NAV_VIEW_ROW \<Rightarrow> view_work rs n
      | CON_NAV_ROW \<Rightarrow> view_work rs n
      | CON_NAV_FIND \<Rightarrow> nav_dist rs w (nv_reverse n) c
      | CON_NAV_LAST \<Rightarrow> last_work rs n
      | CON_NAV_OCCUPIED \<Rightarrow> occupied_work rs n
      | CON_NAV_BOTTOM \<Rightarrow> length rs - nc_line c
      | _ \<Rightarrow> nc_line c)"

section \<open>What a unit of a motion keeps\<close>

definition loose :: "con_nav_motion \<Rightarrow> bool" where
  "loose m \<longleftrightarrow> m \<in> {CON_NAV_VIEW_ROW, CON_NAV_ROW, CON_NAV_LAST, CON_NAV_OCCUPIED}"

text \<open>
  The cursors a motion relies on. With \<open>st\<close> they are also settled; four motions let the cursor off the
  grid until they end.
\<close>

definition view_motion :: "con_nav_motion \<Rightarrow> bool" where
  "view_motion m \<longleftrightarrow> m = CON_NAV_VIEW_ROW \<or> m = CON_NAV_ROW"

definition phase_ok :: "bool \<Rightarrow> nat \<Rightarrow> charmap_line list \<Rightarrow> con_nav \<Rightarrow> bool" where
  "phase_ok st k rs n \<longleftrightarrow> (candidate_valid n \<longrightarrow> cur_ok k rs (nv_width n) (candidate n) \<and>
     (st \<and> nv_motion n = CON_NAV_OCCUPIED \<and> word_phase n \<noteq> 0 \<longrightarrow> settled rs (nv_width n) (candidate n))) \<and>
     (view_motion (nv_motion n) \<and> word_phase n \<noteq> 0 \<and> nv_pending n \<longrightarrow> nc_column (nv_cursor n) = 0) \<and>
     (nv_motion n = CON_NAV_OCCUPIED \<and> word_phase n = 3 \<and> scan_column n \<noteq> 0 \<and> nv_pending n \<longrightarrow>
        shown_text rs (nc_line (nv_cursor n)) (scan_column n - 1) \<in> {0, 0x20, 9})"

definition nav_ready :: "bool \<Rightarrow> nat \<Rightarrow> charmap_line list \<Rightarrow> con_nav \<Rightarrow> bool" where
  "nav_ready st k rs n \<longleftrightarrow> nav_rows rs \<and> (st \<longrightarrow> wide_rows rs) \<and> nv_width n \<le> ulong_max \<and>
     cur_ok k rs (nv_width n) (nv_cursor n) \<and> (st \<and> \<not> loose (nv_motion n) \<longrightarrow> settled rs (nv_width n) (nv_cursor n)) \<and>
     cur_ok k rs (nv_width n) (nv_origin n) \<and> (st \<longrightarrow> settled rs (nv_width n) (nv_origin n)) \<and> phase_ok st k rs n"

definition nav_kept :: "con_nav \<Rightarrow> con_nav \<Rightarrow> bool" where
  "nav_kept n n' \<longleftrightarrow> nv_width n' = nv_width n \<and> nv_anchor n' = nv_anchor n \<and> selecting n' = selecting n \<and>
     linewise n' = linewise n \<and> blockwise n' = blockwise n \<and> semanticwise n' = semanticwise n \<and>
     match_ready n' = match_ready n \<and> match_phase n' = match_phase n \<and> selection_first n' = selection_first n \<and>
     selection_last n' = selection_last n \<and> nv_motion n' = nv_motion n \<and> nv_origin n' = nv_origin n \<and>
     target_row n' = target_row n"

definition motion_good :: "bool \<Rightarrow> nat \<Rightarrow> charmap_line list \<Rightarrow> con_nav \<Rightarrow> con_nav \<Rightarrow> bool" where
  "motion_good st k rs n n' \<longleftrightarrow> nav_kept n n' \<and> cur_ok k rs (nv_width n) (nv_cursor n') \<and>
     (st \<and> \<not> (nv_pending n' \<and> loose (nv_motion n)) \<longrightarrow> settled rs (nv_width n) (nv_cursor n')) \<and>
     phase_ok st k rs n' \<and> (nv_pending n' \<longrightarrow> motion_work rs n' < motion_work rs n)"

lemma readyD:
  assumes "nav_ready st k rs n"
  shows "nav_rows rs" "st \<Longrightarrow> wide_rows rs" "nv_width n \<le> ulong_max" "cur_ok k rs (nv_width n) (nv_cursor n)"
    "st \<Longrightarrow> \<not> loose (nv_motion n) \<Longrightarrow> settled rs (nv_width n) (nv_cursor n)"
    "cur_ok k rs (nv_width n) (nv_origin n)" "st \<Longrightarrow> settled rs (nv_width n) (nv_origin n)" "phase_ok st k rs n"
  using assms by (auto simp: nav_ready_def)

lemma kind_total: "nav_rows rs \<Longrightarrow> con_nav_kind rs n = Some (the (con_nav_kind rs n))"
  by (simp add: con_nav_kind_def nav_text_total)

lemma ready_candidate:
  assumes "nav_ready st k rs n" and "\<not> loose (nv_motion n)" and "candidate n' = candidate n"
    and "candidate_valid n' = candidate_valid n" and "nv_motion n' = nv_motion n" and "nv_width n' = nv_width n"
  shows "phase_ok st k rs n'"
  using assms readyD(8) [OF assms(1)] by (auto simp: phase_ok_def loose_def view_motion_def)

text \<open>An advance as the motions use it.\<close>

lemma ready_advance:
  assumes "nav_ready st k rs n" and "\<not> loose (nv_motion n)"
  obtains d b where "con_nav_advance rs (nv_width n) (nv_cursor n) back = Some (d, b)"
    and "cur_ok k rs (nv_width n) d" and "st \<Longrightarrow> settled rs (nv_width n) d"
    and "b \<noteq> 0 \<Longrightarrow> nav_dist rs (nv_width n) back d < nav_dist rs (nv_width n) back (nv_cursor n)"
proof -
  note r = readyD [OF assms(1)]
  obtain d b where d: "con_nav_advance rs (nv_width n) (nv_cursor n) back = Some (d, b)" "moved k rs (nv_width n) back (nv_cursor n) d b"
    using advance_total [OF r(1,4,3)] .
  show thesis
    by (rule that [OF d(1)]) (use d(2) r(2,5) assms(2) stepped_dist in \<open>auto simp: moved_def\<close>)
qed

lemma ready_grid:
  assumes "nav_ready st k rs n" and "\<not> loose (nv_motion n)"
  obtains d b where "con_nav_grid_advance rs (nv_width n) (nv_cursor n) back = Some (d, b)"
    and "cur_ok k rs (nv_width n) d" and "st \<Longrightarrow> settled rs (nv_width n) d"
    and "b \<noteq> 0 \<Longrightarrow> nav_dist rs (nv_width n) back d < nav_dist rs (nv_width n) back (nv_cursor n)"
proof -
  note r = readyD [OF assms(1)]
  obtain d b where d: "con_nav_grid_advance rs (nv_width n) (nv_cursor n) back = Some (d, b)" "moved k rs (nv_width n) back (nv_cursor n) d b"
    using grid_advance_total [OF r(1,4,3)] .
  show thesis
    by (rule that [OF d(1)]) (use d(2) r(2,5) assms(2) stepped_dist in \<open>auto simp: moved_def\<close>)
qed

section \<open>Words\<close>

lemma word_next_good:
  assumes r: "nav_ready st k rs n" and m: "nv_motion n = CON_NAV_WORD_NEXT \<or> nv_motion n = CON_NAV_SEMANTIC_NEXT"
    and p: "nv_pending n"
  shows "\<exists>n'. con_nav_word_step rs n = Some n' \<and> motion_good st k rs n n'"
proof -
  note f = readyD [OF r]
  have nl: "\<not> loose (nv_motion n)" using m by (auto simp: loose_def)
  obtain d b where d: "con_nav_advance rs (nv_width n) (nv_cursor n) False = Some (d, b)"
    "cur_ok k rs (nv_width n) d" "st \<Longrightarrow> settled rs (nv_width n) d"
    "b \<noteq> 0 \<Longrightarrow> nav_dist rs (nv_width n) False d < nav_dist rs (nv_width n) False (nv_cursor n)"
    using ready_advance [OF r nl] by blast
  define kd where "kd m = the (con_nav_kind rs m)" for m
  have x: "con_nav_kind rs m = Some (kd m)" for m
    unfolding kd_def by (rule kind_total [OF f(1)])
  note cand = ready_candidate [OF r nl]
  show ?thesis
    using m p d x f(4) f(5) [OF _ nl] nl
    by (auto simp: con_nav_word_step_def motion_good_def nav_kept_def motion_work_def Let_def cand)
qed

lemma word_scan_good:
  assumes r: "nav_ready st k rs n" and m: "nv_motion n \<in> {CON_NAV_WORD_END, CON_NAV_SEMANTIC_END, CON_NAV_WORD_PREV, CON_NAV_SEMANTIC_PREV}"
    and p: "nv_pending n"
  shows "\<exists>n'. con_nav_word_step rs n = Some n' \<and> motion_good st k rs n n'"
proof -
  note f = readyD [OF r]
  have nl: "\<not> loose (nv_motion n)" using m by (auto simp: loose_def)
  define bk where "bk = (nv_motion n = CON_NAV_WORD_PREV \<or> nv_motion n = CON_NAV_SEMANTIC_PREV)"
  obtain d b where d: "con_nav_advance rs (nv_width n) (nv_cursor n) bk = Some (d, b)"
    "cur_ok k rs (nv_width n) d" "st \<Longrightarrow> settled rs (nv_width n) d"
    "b \<noteq> 0 \<Longrightarrow> nav_dist rs (nv_width n) bk d < nav_dist rs (nv_width n) bk (nv_cursor n)"
    using ready_advance [OF r nl] by blast
  have work: "motion_work rs n' = nav_dist rs (nv_width n) bk (nv_cursor n') + (3 - word_phase n')"
    if "nv_motion n' = nv_motion n" "nv_width n' = nv_width n" for n'
    using m that by (auto simp: motion_work_def bk_def)
  define kd where "kd m = the (con_nav_kind rs m)" for m
  have x: "con_nav_kind rs m = Some (kd m)" for m
    unfolding kd_def by (rule kind_total [OF f(1)])
  note cand = ready_candidate [OF r nl]
  have nn: "\<not> (nv_motion n = CON_NAV_WORD_NEXT \<or> nv_motion n = CON_NAV_SEMANTIC_NEXT)" using m by auto
  show ?thesis
    unfolding con_nav_word_step_def Let_def bk_def [symmetric]
    using p d x f(4) f(5) [OF _ nl] nl nn
    by (auto simp: motion_good_def nav_kept_def work cand)
qed

section \<open>Paragraphs, brackets, inline find\<close>

lemma up_ok: "cur_ok k rs w c \<Longrightarrow> nc_line c \<noteq> 0 \<Longrightarrow> nc_row c \<noteq> 0 \<Longrightarrow> nc_column c' = nc_column c \<or> nc_column c' = 0 \<Longrightarrow>
    nc_line c' = nc_line c - 1 \<Longrightarrow> nc_row c' = nc_row c - 1 \<Longrightarrow> cur_ok k rs w c'"
  by (auto simp: cur_ok_def)

lemma down_ok: "nav_rows rs \<Longrightarrow> cur_ok k rs w c \<Longrightarrow> Suc (nc_line c) < length rs \<Longrightarrow> nc_column c' = nc_column c \<or> nc_column c' = 0 \<Longrightarrow>
    nc_line c' = Suc (nc_line c) \<Longrightarrow> nc_row c' = add32 (nc_row c) (Suc 0) \<Longrightarrow> cur_ok k rs w c'"
  using add32_exact [of "nc_row c" 1] by (auto simp: cur_ok_def nav_rows_def)

lemma paragraph_good:
  assumes r: "nav_ready st k rs n" and m: "nv_motion n = CON_NAV_PARAGRAPH_UP \<or> nv_motion n = CON_NAV_PARAGRAPH_DOWN"
    and p: "nv_pending n"
  shows "\<exists>n'. con_nav_paragraph_step rs n = Some n' \<and> motion_good st k rs n n'"
proof -
  note f = readyD [OF r]
  have nl: "\<not> loose (nv_motion n)" using m by (auto simp: loose_def)
  define w where "w = nv_width n"
  define c where "c = nv_cursor n"
  define sz where "sz = con_nav_columns rs w c"
  have sz: "sz \<le> w" "sz \<le> line_size (rs ! nc_line c)"
    using columns_bound(1,4) f(4) by (auto simp: sz_def w_def c_def cur_ok_def)
  have cell: "\<exists>x. nav_cell rs (nc_line c) (scan_column n) = Some x" if "scan_column n < sz"
    using nav_cell_total(1) [OF f(1), of "nc_line c" "scan_column n"] f(4) sz(2) that by (auto simp: cur_ok_def c_def)
  note cand = ready_candidate [OF r nl]
  consider (scan) "scan_column n < sz" | (over) "\<not> scan_column n < sz" "\<not> row_text n \<and> word_phase n \<noteq> 0"
    | (row) "\<not> scan_column n < sz" "\<not> (\<not> row_text n \<and> word_phase n \<noteq> 0)" by blast
  then show ?thesis
  proof cases
    case scan
    with cell obtain x where "nav_cell rs (nc_line c) (scan_column n) = Some x" by blast
    then show ?thesis using scan m f(4) f(5) [OF _ nl] sz(1) nl
      by (auto simp: con_nav_paragraph_step_def Let_def c_def [symmetric] w_def [symmetric] sz_def [symmetric]
          motion_good_def nav_kept_def motion_work_def cand)
  next
    case over
    then show ?thesis using f(4) f(5) [OF _ nl] nl
      by (auto simp: con_nav_paragraph_step_def Let_def c_def w_def sz_def motion_good_def nav_kept_def cand)
  next
    case row
    note defs = con_nav_paragraph_step_def Let_def c_def [symmetric] w_def [symmetric] sz_def [symmetric]
      motion_good_def nav_kept_def
    show ?thesis
    proof (cases "nv_motion n = CON_NAV_PARAGRAPH_UP")
      case True
      show ?thesis
      proof (cases "nc_line c = 0 \<or> nc_row c = 0")
        case True
        then show ?thesis using row \<open>nv_motion n = CON_NAV_PARAGRAPH_UP\<close> f(4) f(5) [OF _ nl] by (simp add: defs cand c_def [symmetric] w_def [symmetric])
      next
        case False
        define d where "d = \<lparr>nc_line = nc_line c - 1, nc_row = nc_row c - 1, nc_column = 0\<rparr>"
        have d: "cur_ok k rs w d" "st \<Longrightarrow> settled rs w d"
          using False f(2,4) up_ok [of k rs w c d] settled_zero [of rs d w] by (auto simp: d_def c_def w_def)
        have "(nc_line c - 1) * Suc w + w < nc_line c * Suc w + x" for x using False by (cases "nc_line c") auto
        then show ?thesis using row True False d nl
          by (simp add: defs cand d_def [symmetric] motion_work_def) (auto simp: d_def c_def [symmetric] w_def [symmetric])
      qed
    next
      case down: False
      show ?thesis
      proof (cases "Suc (nc_line c) \<ge> length rs")
        case True
        then show ?thesis using row down f(4) f(5) [OF _ nl] by (simp add: defs cand c_def [symmetric] w_def [symmetric])
      next
        case False
        define d where "d = \<lparr>nc_line = Suc (nc_line c), nc_row = add32 (nc_row c) (Suc 0), nc_column = 0\<rparr>"
        have d: "cur_ok k rs w d" "st \<Longrightarrow> settled rs w d"
          using False f(2,4) down_ok [OF f(1), of k w c d] settled_zero [of rs d w] by (auto simp: d_def c_def w_def)
        have "(length rs - Suc (nc_line c)) * Suc w + w < (length rs - nc_line c) * Suc w + x" for x
          using False by (cases "length rs - nc_line c") (auto simp: Suc_diff_Suc [symmetric] simp del: diff_Suc_Suc)
        then show ?thesis using row m down False d nl
          by (simp add: defs cand d_def [symmetric] motion_work_def) (auto simp: d_def c_def [symmetric] w_def [symmetric])
      qed
    qed
  qed
qed

definition bracket_kept :: "con_nav \<Rightarrow> con_nav \<Rightarrow> bool" where
  "bracket_kept n n' \<longleftrightarrow> nav_kept n n' \<and> candidate n' = candidate n \<and> candidate_valid n' = candidate_valid n"

lemma bracket_total:
  assumes r: "nav_rows rs" and w: "nv_width n \<le> ulong_max" and c: "cur_ok k rs (nv_width n) (nv_cursor n)"
  obtains n' where "con_nav_bracket_step rs n = Some n'" and "bracket_kept n n'"
    and "cur_ok k rs (nv_width n) (nv_origin n) \<Longrightarrow> cur_ok k rs (nv_width n) (nv_cursor n')"
    and "wide_rows rs \<Longrightarrow> settled rs (nv_width n) (nv_cursor n) \<Longrightarrow> settled rs (nv_width n) (nv_origin n) \<Longrightarrow>
      settled rs (nv_width n) (nv_cursor n')"
    and "nv_pending n' \<Longrightarrow> bracket_work rs (nv_width n) (word_phase n') (nv_reverse n') (nv_cursor n') <
      bracket_work rs (nv_width n) (word_phase n) (nv_reverse n) (nv_cursor n)"
proof -
  define w where "w = nv_width n"
  note defs = con_nav_bracket_step_def Let_def bracket_kept_def nav_kept_def bracket_work_def w_def [symmetric] nav_text_total [OF r]
  show thesis
  proof (cases "word_phase n = 0")
    case True
    have i: "\<not> nc_line (nv_cursor n) \<ge> length rs" using c by (simp add: cur_ok_def)
    have d: "nav_dist rs w b (nv_cursor n) < Suc (nav_end rs w)" for b using dist_bound [OF c, of b] by (simp add: w_def)
    define j where "j = length (takeWhile (\<lambda>p. shown_text rs (nc_line (nv_cursor n)) (nc_column (nv_cursor n)) \<noteq> p) bracket_pairs)"
    show thesis
    proof (cases "j = 8")
      case eight: True
      show thesis by (rule that [of "n\<lparr>nv_pending := False\<rparr>"]) (use True eight i c in \<open>simp_all add: defs j_def\<close>)
    next
      case False
      then obtain n' where "con_nav_bracket_step rs n = Some n'" "bracket_kept n n'" "nv_cursor n' = nv_cursor n" "word_phase n' = 1"
        using True i by (simp add: defs j_def)
      then show thesis using that [of n'] True c d by (simp add: bracket_work_def w_def)
    qed
  next
    case False
    obtain d b where d: "con_nav_advance rs w (nv_cursor n) (nv_reverse n) = Some (d, b)" "moved k rs w (nv_reverse n) (nv_cursor n) d b"
      using advance_total [OF r c w] unfolding w_def .
    have s: "nav_dist rs w (nv_reverse n) d < nav_dist rs w (nv_reverse n) (nv_cursor n)" if "b \<noteq> 0"
      using d(2) that stepped_dist by (auto simp: moved_def)
    define cp where "cp = shown_text rs (nc_line d) (nc_column d)"
    define stop where "stop = n\<lparr>nv_cursor := nv_origin n, nv_pending := False\<rparr>"
    define m where "m = (if b = 0 then stop
       else if cp = bracket_char n then if depth n = ulong_max then stop else n\<lparr>nv_cursor := d, depth := depth n + 1\<rparr>
       else if cp = bracket_peer n then
         if depth n = 0 then n\<lparr>nv_cursor := d, nv_pending := False\<rparr> else n\<lparr>nv_cursor := d, depth := depth n - 1\<rparr>
       else n\<lparr>nv_cursor := d\<rparr>)"
    have eq: "con_nav_bracket_step rs n = Some m"
      using False d(1) by (simp add: con_nav_bracket_step_def Let_def w_def [symmetric] nav_text_total [OF r] m_def stop_def cp_def)
    have "word_phase m = word_phase n" "nv_reverse m = nv_reverse n"
      "nv_cursor m = nv_origin n \<and> \<not> nv_pending m \<or> nv_cursor m = d \<and> (nv_pending m \<longrightarrow> b \<noteq> 0)"
      by (auto simp: m_def stop_def)
    moreover have "bracket_kept n m" by (auto simp: bracket_kept_def nav_kept_def m_def stop_def)
    ultimately show thesis
      using that [OF eq] d(2) s False by (auto simp: bracket_work_def moved_def w_def [symmetric])
  qed
qed

lemma bracket_good:
  assumes r: "nav_ready st k rs n" and m: "nv_motion n = CON_NAV_BRACKET"
  shows "\<exists>n'. con_nav_bracket_step rs n = Some n' \<and> motion_good st k rs n n'"
proof -
  note f = readyD [OF r]
  have nl: "\<not> loose (nv_motion n)" using m by (auto simp: loose_def)
  obtain n' where n': "con_nav_bracket_step rs n = Some n'" "bracket_kept n n'"
    "cur_ok k rs (nv_width n) (nv_cursor n')"
    "wide_rows rs \<Longrightarrow> settled rs (nv_width n) (nv_cursor n) \<Longrightarrow> settled rs (nv_width n) (nv_origin n) \<Longrightarrow>
      settled rs (nv_width n) (nv_cursor n')"
    "nv_pending n' \<Longrightarrow> bracket_work rs (nv_width n) (word_phase n') (nv_reverse n') (nv_cursor n') <
      bracket_work rs (nv_width n) (word_phase n) (nv_reverse n) (nv_cursor n)"
    using bracket_total [OF f(1,3,4)] f(6) by metis
  then show ?thesis
    using m f(2,5,7) nl ready_candidate [OF r nl, of n']
    by (auto simp: motion_good_def bracket_kept_def nav_kept_def motion_work_def)
qed

lemma find_good:
  assumes r: "nav_ready st k rs n" and m: "nv_motion n = CON_NAV_FIND" and p: "nv_pending n"
  shows "\<exists>n'. con_nav_find_step rs n = Some n' \<and> motion_good st k rs n n'"
proof -
  note f = readyD [OF r]
  have nl: "\<not> loose (nv_motion n)" using m by (auto simp: loose_def)
  define w where "w = nv_width n"
  obtain d b where d: "con_nav_grid_advance rs w (nv_cursor n) (nv_reverse n) = Some (d, b)"
    "cur_ok k rs w d" "st \<Longrightarrow> settled rs w d"
    "b \<noteq> 0 \<Longrightarrow> nav_dist rs w (nv_reverse n) d < nav_dist rs w (nv_reverse n) (nv_cursor n)"
    using ready_grid [OF r nl] unfolding w_def by blast
  obtain e where e: "con_nav_clamp rs w d = Some e" "clamped rs w d e" using clamp_total [OF f(1)] .
  have e': "cur_ok k rs w e" "st \<Longrightarrow> settled rs w e"
    using clamped_ok [OF e(2)] d(2) e(2) f(2) by (auto simp: cur_ok_def clamped_def)
  obtain g b' where g: "con_nav_grid_advance rs w d False = Some (g, b')" "moved k rs w False d g b'"
    using grid_advance_total [OF f(1) d(2)] f(3) unfolding w_def by blast
  have g': "cur_ok k rs w g" "st \<Longrightarrow> settled rs w g" using g(2) d(3) f(2) by (auto simp: moved_def)
  show ?thesis
    using m p d e e' g g' f(4) f(5) [OF _ nl] f(6,7) nl
    by (auto simp: con_nav_find_step_def Let_def nav_text_total [OF f(1)] w_def [symmetric]
        motion_good_def nav_kept_def motion_work_def ready_candidate [OF r nl])
qed

section \<open>The view, the ends of a line, single steps\<close>

lemma grid_clamp:
  assumes r: "nav_ready st k rs n" and i: "nc_line c < length rs" "nc_row c + k = nc_line c"
  obtains d where "con_nav_clamp rs (nv_width n) c = Some d" and "cur_ok k rs (nv_width n) d"
    and "st \<Longrightarrow> settled rs (nv_width n) d"
proof -
  note f = readyD [OF r]
  obtain d where d: "con_nav_clamp rs (nv_width n) c = Some d" "clamped rs (nv_width n) c d" using clamp_total [OF f(1)] .
  show thesis by (rule that [OF d(1) clamped_ok [OF d(2) i]]) (use d(2) f(2) in \<open>auto simp: clamped_def\<close>)
qed

lemma view_scan:
  assumes r: "nav_rows rs" and c: "cur_ok k rs (nv_width n) (nv_cursor n)" and z: "nc_column (nv_cursor n) = 0"
  obtains n' where "nav_view_scan rs n = Some n'" and "bracket_kept n n'" and "word_phase n' = word_phase n"
    and "cur_ok k rs (nv_width n) (nv_cursor n')" and "wide_rows rs \<Longrightarrow> settled rs (nv_width n) (nv_cursor n')"
    and "nv_pending n' \<Longrightarrow> nv_cursor n' = nv_cursor n \<and> (nv_pending n \<longrightarrow> nv_width n - scan_column n' < nv_width n - scan_column n)"
proof -
  define c where "c = nv_cursor n"
  define j where "j = scan_column n"
  define cp where "cp = shown_text rs (nc_line c) j"
  define m where "m = (if j < con_nav_columns rs (nv_width n) c then
      if visible_cp cp then n\<lparr>nv_cursor := c\<lparr>nc_column := j\<rparr>, nv_pending := False\<rparr> else n\<lparr>scan_column := j + 1\<rparr>
    else n\<lparr>nv_pending := False\<rparr>)"
  note b = columns_bound(1-3) [of rs "nv_width n" c] columns_bound(4) [of c rs "nv_width n"]
  have cl: "nc_line c < length rs" using c by (simp add: c_def cur_ok_def)
  have eq: "nav_view_scan rs n = Some m"
    using nav_cell_total(1) [OF r cl, of j] b cl
    by (auto simp: nav_view_scan_def Let_def m_def c_def [symmetric] j_def [symmetric] cp_def)
  have "cur_ok k rs (nv_width n) (nv_cursor m)" "wide_rows rs \<Longrightarrow> settled rs (nv_width n) (nv_cursor m)"
    "nv_pending m \<Longrightarrow> nv_cursor m = nv_cursor n \<and> (nv_pending n \<longrightarrow> nv_width n - scan_column m < nv_width n - scan_column n)"
    using c z b settled_zero [of rs c] 
    by (auto simp: m_def c_def [symmetric] j_def [symmetric] cp_def cur_ok_def settled_def visible_cp_def columns_column)
  moreover have "bracket_kept n m" "word_phase m = word_phase n" by (auto simp: m_def bracket_kept_def nav_kept_def)
  ultimately show thesis using that [OF eq] by blast
qed

lemma view_good:
  assumes r: "nav_ready st k rs n" and m: "view_motion (nv_motion n)" and p: "nv_pending n"
  shows "\<exists>n'. con_nav_view_step rs n = Some n' \<and> motion_good st k rs n n'"
proof -
  note f = readyD [OF r]
  define w where "w = nv_width n"
  define c where "c = nv_cursor n"
  have c: "cur_ok k rs w c" using f(4) by (simp add: w_def c_def)
  have l: "loose (nv_motion n)" using m by (auto simp: loose_def view_motion_def)
  have ph: "phase_ok st k rs n'" if "candidate n' = candidate n" "candidate_valid n' = candidate_valid n"
    "nv_motion n' = nv_motion n" "nv_width n' = nv_width n"
    "word_phase n' \<noteq> 0 \<Longrightarrow> nv_pending n' \<Longrightarrow> nc_column (nv_cursor n') = 0" for n'
    using f(8) m that by (auto simp: phase_ok_def view_motion_def)
  have work: "motion_work rs n' = view_work rs n'" if "nv_motion n' = nv_motion n" for n'
    using m that by (auto simp: motion_work_def view_motion_def)
  have scan: "\<exists>n'. nav_view_scan rs e = Some n' \<and> motion_good st k rs n n'"
    if e: "nav_kept n e" "candidate e = candidate n" "candidate_valid e = candidate_valid n" "word_phase e \<noteq> 0" "nv_pending e"
      and ec: "cur_ok k rs w (nv_cursor e)" "nc_column (nv_cursor e) = 0"
      and lt: "word_phase n \<noteq> 0 \<Longrightarrow> scan_column e = scan_column n" for e
  proof -
    have ew: "nv_width e = w" using e(1) by (simp add: nav_kept_def w_def)
    obtain n' where n': "nav_view_scan rs e = Some n'" "bracket_kept e n'" "word_phase n' = word_phase e"
      "cur_ok k rs w (nv_cursor n')" "wide_rows rs \<Longrightarrow> settled rs w (nv_cursor n')"
      "nv_pending n' \<Longrightarrow> nv_cursor n' = nv_cursor e \<and> (nv_pending e \<longrightarrow> w - scan_column n' < w - scan_column e)"
      using view_scan [OF f(1), of k e] ec unfolding ew by metis
    have "view_work rs n' < view_work rs n" if "nv_pending n'"
    proof -
      have "nv_width n' = w" using n'(2) ew by (simp add: bracket_kept_def nav_kept_def)
      moreover have "word_phase n' \<noteq> 0" using n'(3) e(4) by simp
      moreover have "w - scan_column n' < w - scan_column e" using n'(6) [OF that] e(5) by simp
      ultimately show ?thesis using lt
        by (cases "word_phase n = 0") (simp_all add: view_work_def Let_def w_def [symmetric])
    qed
    then have "motion_good st k rs n n'"
    proof -
      assume lt: "nv_pending n' \<Longrightarrow> view_work rs n' < view_work rs n"
      have bk: "bracket_kept n n'" using n'(2) e(1-3) by (simp add: bracket_kept_def nav_kept_def)
      then have k: "nav_kept n n'" "nv_motion n' = nv_motion n" by (simp_all add: bracket_kept_def nav_kept_def)
      have "phase_ok st k rs n'" using ph [of n'] bk n'(6) ec(2) by (simp add: bracket_kept_def nav_kept_def)
      moreover have "nv_pending n' \<longrightarrow> motion_work rs n' < motion_work rs n"
        using lt work [OF k(2)] work [OF refl] by simp
      ultimately show ?thesis using n'(4,5) f(2) k(1) by (simp add: motion_good_def w_def [symmetric])
    qed
    with n'(1) show ?thesis by blast
  qed
  note defs = motion_good_def nav_kept_def ph work l w_def [symmetric]
  consider (down) "word_phase n = 0" "nc_row c < target_row n" "nc_line c + 1 < length rs"
    | (up) "word_phase n = 0" "\<not> (nc_row c < target_row n \<and> nc_line c + 1 < length rs)" "nc_row c > target_row n" "nc_line c \<noteq> 0"
    | (row) "word_phase n = 0" "\<not> (nc_row c < target_row n \<and> nc_line c + 1 < length rs)"
        "\<not> (nc_row c > target_row n \<and> nc_line c \<noteq> 0)" "nv_motion n = CON_NAV_ROW"
    | (start) "word_phase n = 0" "\<not> (nc_row c < target_row n \<and> nc_line c + 1 < length rs)"
        "\<not> (nc_row c > target_row n \<and> nc_line c \<noteq> 0)" "nv_motion n \<noteq> CON_NAV_ROW"
    | (scanning) "word_phase n \<noteq> 0" by blast
  then show ?thesis
  proof cases
    case down
    define d where "d = c\<lparr>nc_line := nc_line c + 1, nc_row := add32 (nc_row c) 1\<rparr>"
    have d: "cur_ok k rs w d" using down_ok [OF f(1) c, of d] down(3) by (simp add: d_def)
    have a: "nc_row d = Suc (nc_row c)" "nc_line d = Suc (nc_line c)" using d c by (auto simp: cur_ok_def d_def)
    have "view_work rs (n\<lparr>nv_cursor := d\<rparr>) < view_work rs n"
      using down a by (auto simp: view_work_def c_def [symmetric])
    moreover have "con_nav_view_step rs n = Some (n\<lparr>nv_cursor := d\<rparr>)"
      using down by (simp add: con_nav_view_step_def Let_def c_def [symmetric] d_def)
    moreover have "phase_ok st k rs (n\<lparr>nv_cursor := d\<rparr>)" by (rule ph) (simp_all add: down(1))
    ultimately show ?thesis using d p by (simp add: defs)
  next
    case up
    define d where "d = c\<lparr>nc_line := nc_line c - 1, nc_row := nc_row c - 1\<rparr>"
    have d: "cur_ok k rs w d" using up_ok [OF c, of d] up by (simp add: d_def)
    have a: "nc_row d = nc_row c - 1" "nc_line d = nc_line c - 1" by (simp_all add: d_def)
    have "view_work rs (n\<lparr>nv_cursor := d\<rparr>) < view_work rs n"
      using up a by (auto simp: view_work_def c_def [symmetric])
    moreover have "con_nav_view_step rs n = Some (n\<lparr>nv_cursor := d\<rparr>)"
      using up by (simp add: con_nav_view_step_def Let_def c_def [symmetric] d_def)
    moreover have "phase_ok st k rs (n\<lparr>nv_cursor := d\<rparr>)" by (rule ph) (simp_all add: up(1))
    ultimately show ?thesis using d p by (simp add: defs)
  next
    case row
    obtain d where d: "con_nav_clamp rs w c = Some d" "cur_ok k rs w d" "st \<Longrightarrow> settled rs w d"
      using grid_clamp [OF r, of c] c unfolding w_def cur_ok_def by blast
    have "con_nav_view_step rs n = Some (n\<lparr>nv_cursor := d, nv_pending := False\<rparr>)"
      using row d(1) by (auto simp: con_nav_view_step_def Let_def c_def [symmetric] w_def [symmetric])
    moreover have "phase_ok st k rs (n\<lparr>nv_cursor := d, nv_pending := False\<rparr>)" by (rule ph) simp_all
    ultimately show ?thesis using d by (simp add: defs)
  next
    case start
    let ?e = "n\<lparr>nv_cursor := c\<lparr>nc_column := 0\<rparr>, word_phase := 1\<rparr>"
    have "con_nav_view_step rs n = nav_view_scan rs ?e"
      using start by (auto simp: con_nav_view_step_def Let_def c_def [symmetric])
    then show ?thesis using scan [of ?e] c p start(1) by (simp add: nav_kept_def cur_ok_def)
  next
    case scanning
    have "nc_column c = 0" using f(8) m p scanning by (simp add: phase_ok_def c_def)
    then show ?thesis using scan [of n] c p scanning by (simp add: con_nav_view_step_def nav_kept_def Let_def c_def)
  qed
qed

lemma last_decide:
  assumes r: "nav_rows rs" and c: "cur_ok k rs (nv_width n) (nv_cursor n)" and p: "nv_pending n"
  obtains n' where "nav_last_decide rs n = Some n'" and "bracket_kept n n'"
    and "cur_ok k rs (nv_width n) (nv_cursor n')"
    and "\<not> nv_pending n' \<Longrightarrow> wide_rows rs \<Longrightarrow> settled rs (nv_width n) (nv_cursor n')"
    and "nv_pending n' \<Longrightarrow> nv_cursor n' = nv_cursor n \<and> word_phase n' = 2 \<and> word_phase n \<noteq> 3"
proof -
  define w where "w = nv_width n"
  define c where "c = nv_cursor n"
  define o' where "o' = nv_origin n"
  define current where "current = (if shown_text rs (nc_line o') (add32 (nc_column o') 1) = SEARCH_WIDE_CONT then nc_column o' + 1 else nc_column o')"
  define occupied where "occupied = (if row_text n then scan_column n else 0)"
  define move where "move \<longleftrightarrow> word_phase n \<noteq> 3 \<and> \<not> current < occupied \<and> wrapColumns (rs ! nc_line c) \<noteq> 0 \<and> nc_line c + 1 < length rs \<and>
    add32 current 1 \<ge> con_nav_grid_columns rs w c"
  define col where "col = (if word_phase n = 3 then if row_text n then occupied else current
    else if current < occupied then occupied else if w \<noteq> 0 then w - 1 else 0)"
  have c: "cur_ok k rs w c" using c by (simp add: w_def c_def)
  obtain d where d: "con_nav_clamp rs w (c\<lparr>nc_column := col\<rparr>) = Some d" "clamped rs w (c\<lparr>nc_column := col\<rparr>) d" using clamp_total [OF r] .
  have d': "cur_ok k rs w d" by (rule clamped_ok [OF d(2)]) (use c in \<open>simp_all add: cur_ok_def\<close>)
  have eq: "nav_last_decide rs n =
      Some (if move then n\<lparr>word_phase := 2, row_text := False\<rparr> else n\<lparr>nv_cursor := d, nv_pending := False\<rparr>)"
  proof -
    have "nav_last_decide rs n =
        (if word_phase n = 3 \<or> current < occupied \<or> \<not> move then
           map_option (\<lambda>d. n\<lparr>nv_cursor := d, nv_pending := False\<rparr>) (con_nav_clamp rs w (c\<lparr>nc_column := col\<rparr>))
         else Some (n\<lparr>word_phase := 2, row_text := False\<rparr>))"
      unfolding nav_last_decide_def Let_def nav_text_total [OF r] c_def [symmetric] w_def [symmetric] o'_def [symmetric]
        occupied_def [symmetric] bind.bind_lunit current_def [symmetric]
      by (simp add: col_def move_def map_option_case split: option.splits)
    then show ?thesis using d(1) by (simp add: move_def)
  qed
  show thesis
    by (rule that [OF eq]) (use c d' d(2) p in \<open>auto simp: bracket_kept_def nav_kept_def clamped_def move_def w_def [symmetric] c_def [symmetric]\<close>)
qed

lemma last_good:
  assumes r: "nav_ready st k rs n" and m: "nv_motion n = CON_NAV_LAST" and p: "nv_pending n"
  shows "\<exists>n'. con_nav_last_step rs n = Some n' \<and> motion_good st k rs n n'"
proof -
  note f = readyD [OF r]
  define w where "w = nv_width n"
  define c where "c = nv_cursor n"
  have c: "cur_ok k rs w c" using f(4) by (simp add: w_def c_def)
  have l: "loose (nv_motion n)" using m by (auto simp: loose_def)
  have ph: "phase_ok st k rs n'" if "candidate n' = candidate n" "candidate_valid n' = candidate_valid n"
    "nv_motion n' = nv_motion n" "nv_width n' = nv_width n" for n'
    using f(8) m that by (auto simp: phase_ok_def view_motion_def)
  have work: "motion_work rs n' = last_work rs n'" if "nv_motion n' = nv_motion n" for n'
    using m that by (auto simp: motion_work_def)
  define n1 where "n1 = (if word_phase n = 0 then n\<lparr>scan_column := con_nav_columns rs w c, word_phase := 1\<rparr> else n)"
  have k1: "bracket_kept n n1" "nv_cursor n1 = c" "nv_pending n1" "word_phase n1 \<noteq> 0" "nv_width n1 = w"
    using p by (auto simp: n1_def bracket_kept_def nav_kept_def c_def w_def)
  have w1: "last_work rs n1 \<le> last_work rs n" "word_phase n = 0 \<Longrightarrow> last_work rs n1 < last_work rs n"
    using columns_bound(1) [of rs w c] by (auto simp: n1_def last_work_def Let_def w_def [symmetric])
  have good: "motion_good st k rs n n'"
    if "bracket_kept n1 n'" "cur_ok k rs w (nv_cursor n')" "\<not> nv_pending n' \<Longrightarrow> st \<Longrightarrow> settled rs w (nv_cursor n')"
      "nv_pending n' \<Longrightarrow> last_work rs n' < last_work rs n1" for n'
  proof -
    have bk: "bracket_kept n n'" using that(1) k1(1) by (simp add: bracket_kept_def nav_kept_def)
    then have k: "nav_kept n n'" "nv_motion n' = nv_motion n" by (simp_all add: bracket_kept_def nav_kept_def)
    have "phase_ok st k rs n'" using ph [of n'] bk by (simp add: bracket_kept_def nav_kept_def)
    moreover have "nv_pending n' \<longrightarrow> motion_work rs n' < motion_work rs n"
      using that(4) w1(1) work [OF k(2)] work [OF refl] by (auto intro: less_le_trans)
    ultimately show ?thesis using that(2,3) k(1) l by (simp add: motion_good_def w_def [symmetric])
  qed
  have decide: "\<exists>n'. nav_last_decide rs e = Some n' \<and> motion_good st k rs n n'"
    if e: "bracket_kept n1 e" "nv_cursor e = c" "nv_pending e" "word_phase e = word_phase n1" "word_phase n1 \<noteq> 2" for e
  proof -
    have ew: "nv_width e = w" using e(1) k1 by (simp add: bracket_kept_def nav_kept_def)
    obtain n' where n': "nav_last_decide rs e = Some n'" "bracket_kept e n'" "cur_ok k rs w (nv_cursor n')"
      "\<not> nv_pending n' \<Longrightarrow> wide_rows rs \<Longrightarrow> settled rs w (nv_cursor n')"
      "nv_pending n' \<Longrightarrow> nv_cursor n' = nv_cursor e \<and> word_phase n' = 2 \<and> word_phase e \<noteq> 3"
      using last_decide [OF f(1), of k e] c e(3) unfolding ew e(2) by metis
    have "last_work rs n' < last_work rs n1" if "nv_pending n'"
      using n'(2,5) that e k1 by (auto simp: last_work_def Let_def bracket_kept_def nav_kept_def)
    then have "motion_good st k rs n n'"
      using n' e f(2) by (intro good) (auto simp: bracket_kept_def nav_kept_def)
    with n'(1) show ?thesis by blast
  qed
  have step: "con_nav_last_step rs n =
      (if word_phase n1 = 2 \<and> wrapColumns (rs ! nc_line c) \<noteq> 0 \<and> nc_line c + 1 < length rs then
        Some (n1\<lparr>nv_cursor := c\<lparr>nc_line := nc_line c + 1, nc_row := add32 (nc_row c) 1\<rparr>\<rparr>)
      else if word_phase n1 = 2 then
        Some (n1\<lparr>scan_column := con_nav_columns rs w c, word_phase := 3\<rparr>)
      else if scan_column n1 \<noteq> 0 then
        if shown_text rs (nc_line c) (scan_column n1 - 1) \<in> {0, 0x20, 9} then Some (n1\<lparr>scan_column := scan_column n1 - 1\<rparr>)
        else nav_last_decide rs (n1\<lparr>scan_column := scan_column n1 - 1, row_text := True\<rparr>)
      else nav_last_decide rs n1)"
    unfolding con_nav_last_step_def Let_def w_def [symmetric] c_def [symmetric] n1_def [symmetric] occupied_cell_total [OF f(1)]
    by simp
  consider (down) "word_phase n1 = 2" "wrapColumns (rs ! nc_line c) \<noteq> 0" "nc_line c + 1 < length rs"
    | (final) "word_phase n1 = 2" "\<not> (wrapColumns (rs ! nc_line c) \<noteq> 0 \<and> nc_line c + 1 < length rs)"
    | (blank) "word_phase n1 \<noteq> 2" "scan_column n1 \<noteq> 0" "shown_text rs (nc_line c) (scan_column n1 - 1) \<in> {0, 0x20, 9}"
    | (occupied) "word_phase n1 \<noteq> 2" "scan_column n1 \<noteq> 0" "shown_text rs (nc_line c) (scan_column n1 - 1) \<notin> {0, 0x20, 9}"
    | (over) "word_phase n1 \<noteq> 2" "scan_column n1 = 0" by blast
  then show ?thesis
  proof cases
    case down
    define d where "d = c\<lparr>nc_line := nc_line c + 1, nc_row := add32 (nc_row c) 1\<rparr>"
    have d: "cur_ok k rs w d" using down_ok [OF f(1) c, of d] down(3) by (simp add: d_def)
    have "motion_good st k rs n (n1\<lparr>nv_cursor := d\<rparr>)"
      by (rule good) (use down d k1 in \<open>auto simp: bracket_kept_def nav_kept_def last_work_def d_def\<close>)
    then show ?thesis using down by (simp add: step d_def)
  next
    case final
    have "motion_good st k rs n (n1\<lparr>scan_column := con_nav_columns rs w c, word_phase := 3\<rparr>)"
      by (rule good) (use final c k1 columns_bound(1) [of rs w c] in \<open>auto simp: bracket_kept_def nav_kept_def last_work_def\<close>)
    then show ?thesis using final by (auto simp: step)
  next
    case blank
    have "motion_good st k rs n (n1\<lparr>scan_column := scan_column n1 - 1\<rparr>)"
      by (rule good) (use blank c k1 in \<open>auto simp: bracket_kept_def nav_kept_def last_work_def Let_def\<close>)
    then show ?thesis using blank by (simp add: step)
  next
    case occupied
    show ?thesis
      using decide [of "n1\<lparr>scan_column := scan_column n1 - 1, row_text := True\<rparr>"] occupied k1 by (simp add: step bracket_kept_def nav_kept_def)
  next
    case over
    show ?thesis using decide [of n1] over k1 by (simp add: step bracket_kept_def nav_kept_def)
  qed
qed

lemma occupied_settled:
  assumes w: "wide_rows rs" and c: "cur_ok k rs w c" and j: "j < con_nav_columns rs w c"
    and t: "shown_text rs (nc_line c) j \<notin> {0, 0x20, 9}" and b: "j \<noteq> 0 \<Longrightarrow> shown_text rs (nc_line c) (j - 1) \<in> {0, 0x20, 9}"
  shows "settled rs w (c\<lparr>nc_column := j\<rparr>)"
  using wide_leader(1,2) [OF w, of "nc_line c" j] b j columns_bound(2) [of rs w c]
  by (auto simp: settled_def columns_column visible_cp_def)

lemma occupied_good:
  assumes r: "nav_ready st k rs n" and m: "nv_motion n = CON_NAV_OCCUPIED" and p: "nv_pending n"
  shows "\<exists>n'. con_nav_occupied_step rs n = Some n' \<and> motion_good st k rs n n'"
proof -
  note f = readyD [OF r]
  define w where "w = nv_width n"
  define c where "c = nv_cursor n"
  have c: "cur_ok k rs w c" using f(4) by (simp add: w_def c_def)
  have l: "loose (nv_motion n)" using m by (auto simp: loose_def)
  have work: "motion_work rs n' = occupied_work rs n'" if "nv_motion n' = nv_motion n" for n'
    using m that by (auto simp: motion_work_def)
  define n1 where "n1 = (if word_phase n = 0 then n\<lparr>word_phase := 1, scan_column := 0, candidate_valid := False\<rparr> else n)"
  have k1: "nav_kept n n1" "nv_cursor n1 = c" "nv_pending n1" "word_phase n1 \<noteq> 0" "nv_width n1 = w"
    "nv_motion n1 = CON_NAV_OCCUPIED" "nv_origin n1 = nv_origin n"
    using p m by (auto simp: n1_def nav_kept_def c_def w_def)
  have ph1: "phase_ok st k rs n1" using f(8) by (auto simp: n1_def phase_ok_def view_motion_def m)
  have w1: "occupied_work rs n1 \<le> occupied_work rs n" by (auto simp: n1_def occupied_work_def Let_def)
  have good: "motion_good st k rs n n'"
    if "nav_kept n1 n'" "cur_ok k rs w (nv_cursor n')" "\<not> nv_pending n' \<Longrightarrow> st \<Longrightarrow> settled rs w (nv_cursor n')"
      "phase_ok st k rs n'" "nv_pending n' \<Longrightarrow> occupied_work rs n' < occupied_work rs n1" for n'
  proof -
    have k: "nav_kept n n'" "nv_motion n' = nv_motion n" using that(1) k1(1) by (simp_all add: nav_kept_def)
    have "nv_pending n' \<longrightarrow> motion_work rs n' < motion_work rs n"
      using that(5) w1 work [OF k(2)] work [OF refl] by (auto intro: less_le_trans)
    then show ?thesis using that(2,3,4) k(1) l by (simp add: motion_good_def w_def [symmetric])
  qed
  define sz where "sz = con_nav_columns rs w c"
  define j where "j = scan_column n1"
  define occ where "occ \<longleftrightarrow> j < sz \<and> shown_text rs (nc_line c) j \<notin> {0, 0x20, 9}"
  define col where "col = (if occ then j else if w \<noteq> 0 then w - 1 else 0)"
  have szw: "sz \<le> w" using columns_bound(1) by (simp add: sz_def)
  obtain d where d: "con_nav_clamp rs w (c\<lparr>nc_column := col\<rparr>) = Some d" "cur_ok k rs w d" "st \<Longrightarrow> settled rs w d"
    using grid_clamp [OF r, of "c\<lparr>nc_column := col\<rparr>"] c unfolding w_def cur_ok_def by auto
  have occ_total: "(if j < sz then con_nav_occupied_cell rs (nc_line c) j else Some False) = Some occ"
    by (simp add: occupied_cell_total [OF f(1)] occ_def)
  have step: "con_nav_occupied_step rs n =
      (if word_phase n1 = 2 then
         if nc_line c \<noteq> 0 \<and> nc_row c \<noteq> 0 \<and> wrapColumns (rs ! (nc_line c - 1)) \<noteq> 0 then
           Some (n1\<lparr>nv_cursor := c\<lparr>nc_line := nc_line c - 1, nc_row := nc_row c - 1\<rparr>, scan_column := 0, word_phase := 3\<rparr>)
         else if candidate_valid n1 then Some (n1\<lparr>nv_cursor := candidate n1, nv_pending := False\<rparr>)
         else Some (n1\<lparr>nv_cursor := nv_origin n1, scan_column := 0, word_phase := 4\<rparr>)
       else if j < sz \<and> \<not> occ then Some (n1\<lparr>scan_column := j + 1\<rparr>)
       else if word_phase n1 = 1 then
         if nc_column (nv_origin n1) \<noteq> col then Some (n1\<lparr>nv_cursor := d, nv_pending := False\<rparr>) else Some (n1\<lparr>word_phase := 2\<rparr>)
       else if word_phase n1 = 3 then
         Some ((if occ then n1\<lparr>candidate := c\<lparr>nc_column := col\<rparr>, candidate_valid := True\<rparr> else n1)\<lparr>word_phase := 2\<rparr>)
       else if occ \<or> wrapColumns (rs ! nc_line c) = 0 \<or> nc_line c + 1 \<ge> length rs then Some (n1\<lparr>nv_cursor := d, nv_pending := False\<rparr>)
       else Some (n1\<lparr>nv_cursor := c\<lparr>nc_line := nc_line c + 1, nc_row := add32 (nc_row c) 1\<rparr>, scan_column := 0\<rparr>))"
    unfolding con_nav_occupied_step_def Let_def w_def [symmetric] c_def [symmetric] n1_def [symmetric] sz_def [symmetric] j_def [symmetric]
      occ_total bind.bind_lunit col_def [symmetric]
    by (simp add: d(1))
  note phs = phase_ok_def view_motion_def k1(6)
  have wk: "nv_width n1 = w" by (rule k1(5))
  consider (up) "word_phase n1 = 2" "nc_line c \<noteq> 0" "nc_row c \<noteq> 0" "wrapColumns (rs ! (nc_line c - 1)) \<noteq> 0"
    | (turn) "word_phase n1 = 2" "\<not> (nc_line c \<noteq> 0 \<and> nc_row c \<noteq> 0 \<and> wrapColumns (rs ! (nc_line c - 1)) \<noteq> 0)"
    | (scan) "word_phase n1 \<noteq> 2" "j < sz" "\<not> occ" | (other) "word_phase n1 \<noteq> 2" "\<not> (j < sz \<and> \<not> occ)" by blast
  then show ?thesis
  proof cases
    case up
    define e where "e = c\<lparr>nc_line := nc_line c - 1, nc_row := nc_row c - 1\<rparr>"
    have e: "cur_ok k rs w e" using up_ok [OF c, of e] up by (simp add: e_def)
    have "(nc_line c - 1) * (w + 3) + w + 2 < nc_line c * (w + 3) + 1" using up(2) by (cases "nc_line c") auto
    then have "motion_good st k rs n (n1\<lparr>nv_cursor := e, scan_column := 0, word_phase := 3\<rparr>)"
      using e up(1) k1(2-5) ph1 by (intro good) (auto simp: nav_kept_def phs occupied_work_def Let_def wk e_def)
    then show ?thesis using up by (simp add: step e_def)
  next
    case turn
    show ?thesis
    proof (cases "candidate_valid n1")
      case True
      have "motion_good st k rs n (n1\<lparr>nv_cursor := candidate n1, nv_pending := False\<rparr>)"
        using ph1 True turn(1) by (intro good) (auto simp: nav_kept_def phs wk)
      then show ?thesis using turn True by (auto simp: step)
    next
      case False
      have "(length rs - nc_line (nv_origin n)) * (w + 2) \<le> length rs * (w + 2)" by (rule mult_le_mono1) simp
      then have "motion_good st k rs n (n1\<lparr>nv_cursor := nv_origin n1, scan_column := 0, word_phase := 4\<rparr>)"
        using f(6) turn(1) False ph1 k1(2-7) by (intro good) (auto simp: nav_kept_def phs occupied_work_def Let_def wk w_def [symmetric])
      then show ?thesis using turn False by (auto simp: step)
    qed
  next
    case scan
    have "w - Suc j < w - j" using scan(2) szw by simp
    then have lt: "scan_column n1 < w" by (simp add: j_def)
    have blank: "shown_text rs (nc_line c) (scan_column n1) \<in> {0, 0x20, 9}" using scan(2,3) by (simp add: occ_def j_def)
    have "occupied_work rs (n1\<lparr>scan_column := j + 1\<rparr>) < occupied_work rs n1"
      using lt scan(1) k1(4) by (auto simp: occupied_work_def Let_def wk j_def)
    moreover have "phase_ok st k rs (n1\<lparr>scan_column := j + 1\<rparr>)"
      using ph1 blank k1(2) by (simp add: phs j_def)
    ultimately have "motion_good st k rs n (n1\<lparr>scan_column := j + 1\<rparr>)"
      using c k1(2,3) by (intro good) (simp_all add: nav_kept_def)
    then show ?thesis using scan by (simp add: step)
  next
    case other
    have settle: "motion_good st k rs n (n1\<lparr>nv_cursor := d, nv_pending := False\<rparr>)"
      using d ph1 by (intro good) (auto simp: nav_kept_def phs wk)
    consider "word_phase n1 = 1" "nc_column (nv_origin n1) \<noteq> col" | "word_phase n1 = 1" "nc_column (nv_origin n1) = col"
      | "word_phase n1 = 3" | "word_phase n1 \<noteq> 1" "word_phase n1 \<noteq> 3" "occ \<or> wrapColumns (rs ! nc_line c) = 0 \<or> nc_line c + 1 \<ge> length rs"
      | "word_phase n1 \<noteq> 1" "word_phase n1 \<noteq> 3" "\<not> (occ \<or> wrapColumns (rs ! nc_line c) = 0 \<or> nc_line c + 1 \<ge> length rs)" by blast
    then show ?thesis
    proof cases
      case 1
      then show ?thesis using settle other by (auto simp: step)
    next
      case 2
      have "nc_line c * (w + 3) \<le> length rs * (w + 3)" using c by (intro mult_le_mono1) (simp add: cur_ok_def)
      then have "nc_line c * (w + 3) < Suc (Suc (length rs * (w + 3) + x))" for x by linarith
      then have "motion_good st k rs n (n1\<lparr>word_phase := 2\<rparr>)"
        using 2(1) c k1(2-4) ph1 by (intro good) (auto simp: nav_kept_def phs occupied_work_def Let_def wk)
      then show ?thesis using 2 other by (auto simp: step)
    next
      case 3
      have s: "settled rs w (c\<lparr>nc_column := j\<rparr>)" if st occ
        using occupied_settled [OF f(2) [OF that(1)] c, of j] that(2) ph1 3 k1 by (auto simp: occ_def sz_def phs j_def)
      have jw: "j < w" if occ using that szw by (simp add: occ_def)
      note wk' = phs occupied_work_def Let_def wk nav_kept_def
      show ?thesis
      proof (cases occ)
        case True
        have e: "cur_ok k rs w (c\<lparr>nc_column := j\<rparr>)" using c jw [OF True] by (simp add: cur_ok_def)
        have "motion_good st k rs n (n1\<lparr>candidate := c\<lparr>nc_column := j\<rparr>, candidate_valid := True, word_phase := 2\<rparr>)"
          using 3 c k1(2-4) ph1 s [OF _ True] e by (intro good) (simp_all add: wk')
        then show ?thesis using 3 other True by (simp add: step col_def)
      next
        case False
        have "motion_good st k rs n (n1\<lparr>word_phase := 2\<rparr>)"
          using 3 c k1(2-4) ph1 by (intro good) (simp_all add: wk')
        then show ?thesis using 3 other False by (simp add: step)
      qed
    next
      case 4
      then show ?thesis using settle other by (auto simp: step)
    next
      case 5
      define e where "e = c\<lparr>nc_line := nc_line c + 1, nc_row := add32 (nc_row c) 1\<rparr>"
      have i: "Suc (nc_line c) < length rs" using 5 by simp
      have e: "cur_ok k rs w e" using down_ok [OF f(1) c, of e] i by (simp add: e_def)
      have "(length rs - Suc (nc_line c)) * (w + 2) + w < (length rs - nc_line c) * (w + 2)"
        using i by (cases "length rs - nc_line c") (auto simp: Suc_diff_Suc [symmetric] simp del: diff_Suc_Suc)
      then have "motion_good st k rs n (n1\<lparr>nv_cursor := e, scan_column := 0\<rparr>)"
        using e 5 other(1) k1(2-4) ph1 by (intro good) (auto simp: nav_kept_def phs occupied_work_def Let_def wk e_def)
      then show ?thesis using 5 other by (auto simp: step e_def)
    qed
  qed
qed

end
