(* ===== verification/Navigation_Safe.thy ===== *)
theory Navigation_Safe
  imports Navigation_Props
begin

text \<open>
  Navigation as a whole: the invariant of its state, the work that is left of a motion and of the
  expansion of a selection, and the two properties - no history of keys leaves the retained rows, and
  every motion completes, with the same result however its work is divided into ticks of the timer.
\<close>

section \<open>Single steps\<close>

lemma switch_finish:
  assumes r: "nav_ready st k rs n" and m: "\<not> loose (nv_motion n)" and k1: "bracket_kept n n1"
    and c1: "nc_line (nv_cursor n1) < length rs" "nc_row (nv_cursor n1) + k = nc_line (nv_cursor n1)"
    and wk: "nv_pending n1 \<Longrightarrow> motion_work rs (n1\<lparr>nv_cursor := d\<rparr>) < motion_work rs n"
    and d: "con_nav_clamp rs (nv_width n) (nv_cursor n1) = Some d" "clamped rs (nv_width n) (nv_cursor n1) d"
  shows "motion_good st k rs n (n1\<lparr>nv_cursor := d\<rparr>)"
proof -
  have w: "cur_ok k rs (nv_width n) d" by (rule clamped_ok [OF d(2) c1])
  have "nv_pending n1 \<longrightarrow> motion_work rs (n1\<lparr>nv_cursor := d\<rparr>) < motion_work rs n"
    using d(2) wk by (auto simp: clamped_def)
  moreover have "phase_ok st k rs (n1\<lparr>nv_cursor := d\<rparr>)"
    by (rule ready_candidate [OF r m]) (use k1 in \<open>simp_all add: bracket_kept_def nav_kept_def\<close>)
  ultimately show ?thesis
    using w d(2) k1 readyD(2) [OF r] by (auto simp: motion_good_def bracket_kept_def nav_kept_def clamped_def)
qed

definition switch_motion :: "con_nav_motion \<Rightarrow> bool" where
  "switch_motion m \<longleftrightarrow> m \<in> {CON_NAV_LEFT, CON_NAV_RIGHT, CON_NAV_UP, CON_NAV_DOWN, CON_NAV_FIRST, CON_NAV_TOP, CON_NAV_BOTTOM}"

lemma switch_good:
  assumes r: "nav_ready st k rs n" and m: "switch_motion (nv_motion n)" and p: "nv_pending n"
  shows "\<exists>n'. nav_switch rs n = Some n' \<and> motion_good st k rs n n'"
proof -
  note f = readyD [OF r]
  have nl: "\<not> loose (nv_motion n)" using m by (auto simp: loose_def switch_motion_def)
  define w where "w = nv_width n"
  define c where "c = nv_cursor n"
  have c: "cur_ok k rs w c" using f(4) by (simp add: w_def c_def)
  have fin: "\<exists>n'. (do { c' \<leftarrow> con_nav_clamp rs w (nv_cursor n1); Some (n1\<lparr>nv_cursor := c'\<rparr>) }) = Some n' \<and> motion_good st k rs n n'"
    if "bracket_kept n n1" "nc_line (nv_cursor n1) < length rs" "nc_row (nv_cursor n1) + k = nc_line (nv_cursor n1)"
      "\<And>d. nv_pending n1 \<Longrightarrow> nc_line d = nc_line (nv_cursor n1) \<Longrightarrow> motion_work rs (n1\<lparr>nv_cursor := d\<rparr>) < motion_work rs n" for n1
  proof -
    obtain d where d: "con_nav_clamp rs w (nv_cursor n1) = Some d" "clamped rs w (nv_cursor n1) d" using clamp_total [OF f(1)] .
    have "motion_good st k rs n (n1\<lparr>nv_cursor := d\<rparr>)"
      using d that by (intro switch_finish [OF r nl]) (auto simp: w_def clamped_def)
    with d(1) show ?thesis by simp
  qed
  obtain gl bl where gl: "con_nav_grid_advance rs w c True = Some (gl, bl)" "cur_ok k rs w gl"
    using ready_grid [OF r nl] unfolding w_def c_def by blast
  obtain gr br where gr: "con_nav_grid_advance rs w c False = Some (gr, br)" "cur_ok k rs w gr"
    using ready_grid [OF r nl] unfolding w_def c_def by blast
  have base: "bracket_kept n n1" if "n1 = n\<lparr>nv_cursor := x\<rparr> \<or> n1 = n\<lparr>nv_cursor := x, nv_pending := False\<rparr> \<or>
      n1 = n\<lparr>nv_pending := False\<rparr>" for n1 x
    using that by (auto simp: bracket_kept_def nav_kept_def)
  define up where "up = c\<lparr>nc_line := nc_line c - Suc 0, nc_row := nc_row c - Suc 0\<rparr>"
  define down where "down = c\<lparr>nc_line := Suc (nc_line c), nc_row := add32 (nc_row c) (Suc 0)\<rparr>"
  have up: "nc_line up < length rs" "nc_row up + k = nc_line up" "nc_line up < nc_line c" if "nc_line c \<noteq> 0" "nc_row c \<noteq> 0"
    using up_ok [OF c that, of up] that by (auto simp: cur_ok_def up_def)
  have down: "nc_line down < length rs" "nc_row down + k = nc_line down" "nc_line down = Suc (nc_line c)" if "nc_line c + 1 < length rs"
    using down_ok [OF f(1) c, of down] that by (auto simp: cur_ok_def down_def)
  note defs = nav_switch_def Let_def w_def [symmetric] c_def [symmetric] up_def [symmetric] down_def [symmetric]
  have cc: "nc_line c < length rs" "nc_row c + k = nc_line c" using c by (simp_all add: cur_ok_def)
  show ?thesis
  proof (cases "nv_motion n")
    case CON_NAV_LEFT
    show ?thesis
      using fin [of "(if bl = 1 then n\<lparr>nv_cursor := gl\<rparr> else n)\<lparr>nv_pending := False\<rparr>"] base [of _ gl] gl cc CON_NAV_LEFT
      by (cases "bl = 1") (simp_all add: defs cur_ok_def)
  next
    case CON_NAV_RIGHT
    show ?thesis
      using fin [of "(if br = 1 then n\<lparr>nv_cursor := gr\<rparr> else n)\<lparr>nv_pending := False\<rparr>"] base [of _ gr] gr cc CON_NAV_RIGHT
      by (cases "br = 1") (simp_all add: defs cur_ok_def)
  next
    case CON_NAV_UP
    show ?thesis
    proof (cases "nc_line c \<noteq> 0 \<and> nc_row c \<noteq> 0")
      case True
      then show ?thesis using fin [of "n\<lparr>nv_cursor := up, nv_pending := False\<rparr>"] base [of _ up] up CON_NAV_UP by (simp add: defs)
    next
      case False
      then show ?thesis using fin [of "n\<lparr>nv_pending := False\<rparr>"] base [of _ c] cc CON_NAV_UP by (auto simp add: defs)
    qed
  next
    case CON_NAV_TOP
    show ?thesis
    proof (cases "nc_line c \<noteq> 0 \<and> nc_row c \<noteq> 0")
      case True
      then show ?thesis using fin [of "n\<lparr>nv_cursor := up\<rparr>"] base [of _ up] up CON_NAV_TOP by (simp add: defs motion_work_def)
    next
      case False
      then show ?thesis using fin [of "n\<lparr>nv_pending := False\<rparr>"] base [of _ c] cc CON_NAV_TOP by (auto simp add: defs)
    qed
  next
    case CON_NAV_DOWN
    show ?thesis
    proof (cases "nc_line c + 1 < length rs")
      case True
      then show ?thesis using fin [of "n\<lparr>nv_cursor := down, nv_pending := False\<rparr>"] base [of _ down] down CON_NAV_DOWN by (simp add: defs)
    next
      case False
      then show ?thesis using fin [of "n\<lparr>nv_pending := False\<rparr>"] base [of _ c] cc CON_NAV_DOWN by (simp add: defs)
    qed
  next
    case CON_NAV_BOTTOM
    show ?thesis
    proof (cases "nc_line c + 1 < length rs")
      case True
      then show ?thesis using fin [of "n\<lparr>nv_cursor := down\<rparr>"] base [of _ down] down CON_NAV_BOTTOM
        by (simp add: defs motion_work_def diff_less_mono2)
    next
      case False
      then show ?thesis using fin [of "n\<lparr>nv_pending := False\<rparr>"] base [of _ c] cc CON_NAV_BOTTOM by (simp add: defs)
    qed
  next
    case CON_NAV_FIRST
    show ?thesis
    proof (cases "nc_column c = 0 \<and> (nc_line c \<noteq> 0 \<and> nc_row c \<noteq> 0) \<and> wrapColumns (rs ! (nc_line c - 1)) \<noteq> 0")
      case True
      then show ?thesis using fin [of "n\<lparr>nv_cursor := up\<rparr>"] base [of _ up] up CON_NAV_FIRST by (simp add: defs motion_work_def)
    next
      case False
      then show ?thesis
        using fin [of "n\<lparr>nv_cursor := c\<lparr>nc_column := 0\<rparr>, nv_pending := False\<rparr>"] base [of _ "c\<lparr>nc_column := 0\<rparr>"] cc CON_NAV_FIRST
        by (auto simp add: defs)
    qed
  qed (use m in \<open>simp_all add: switch_motion_def\<close>)
qed

lemma motion_unit_good:
  assumes r: "nav_ready st k rs n" and p: "nv_pending n"
  shows "\<exists>n'. nav_unit rs n = Some n' \<and> motion_good st k rs n n'"
  using word_next_good [OF r _ p] word_scan_good [OF r _ p] paragraph_good [OF r _ p] bracket_good [OF r] find_good [OF r _ p]
    view_good [OF r _ p] last_good [OF r _ p] occupied_good [OF r _ p] switch_good [OF r _ p] p
  by (cases "nv_motion n") (simp_all add: nav_unit_def switch_motion_def view_motion_def)

section \<open>The invariant\<close>

definition selection_ok :: "nat \<Rightarrow> charmap_line list \<Rightarrow> con_nav \<Rightarrow> bool" where
  "selection_ok k rs n \<longleftrightarrow>
     (let w = nv_width n; f = selection_first n; l = selection_last n; c = nv_cursor n in
      (selecting n \<longrightarrow> cur_ok k rs w (nv_anchor n)) \<and>
      (match_phase n \<noteq> 0 \<longrightarrow> cur_ok k rs w f \<and> cur_ok k rs w l) \<and>
      (match_ready n \<longrightarrow> match_phase n \<noteq> 0) \<and> (nv_pending n \<longrightarrow> match_phase n = 0) \<and>
      (if semanticwise n then
         (match_phase n = 1 \<and> \<not> match_ready n \<longrightarrow> nc_row l = nc_row c \<and> nc_column l = nc_column c) \<and>
         ((match_phase n \<noteq> 0 \<and> match_phase n \<noteq> 1) \<or> match_ready n \<longrightarrow> \<not> nav_after f l)
       else match_phase n \<noteq> 0 \<longrightarrow> nc_row f \<le> nc_row l))"

definition nav_ok :: "bool \<Rightarrow> nat \<Rightarrow> charmap_line list \<Rightarrow> con_nav \<Rightarrow> bool" where
  "nav_ok st k rs n \<longleftrightarrow> nv_width n \<le> ulong_max \<and> cur_ok k rs (nv_width n) (nv_cursor n) \<and>
     (st \<and> \<not> (nv_pending n \<and> loose (nv_motion n)) \<longrightarrow> settled rs (nv_width n) (nv_cursor n)) \<and>
     (nv_pending n \<longrightarrow> cur_ok k rs (nv_width n) (nv_origin n) \<and> (st \<longrightarrow> settled rs (nv_width n) (nv_origin n)) \<and> phase_ok st k rs n) \<and>
     (candidate_valid n \<longrightarrow> cur_ok k rs (nv_width n) (candidate n)) \<and> selection_ok k rs n"

lemma after_pos:
  assumes "cur_ok k rs w a" and "cur_ok k rs w b"
  shows "nav_after a b \<longleftrightarrow> nav_pos w b < nav_pos w a"
proof (cases "nc_line a" "nc_line b" rule: linorder_cases)
  case less
  then have "nav_pos w a < nav_pos w b" by (rule stepped_back_row) (use assms in \<open>auto simp: cur_ok_def\<close>)
  with less assms show ?thesis by (auto simp: nav_after_def cur_ok_def)
next
  case equal
  then show ?thesis using assms by (auto simp: nav_after_def cur_ok_def nav_pos_def)
next
  case greater
  then have "nav_pos w b < nav_pos w a" by (rule stepped_back_row) (use assms in \<open>auto simp: cur_ok_def\<close>)
  with greater assms show ?thesis by (auto simp: nav_after_def cur_ok_def)
qed

definition sel_work :: "charmap_line list \<Rightarrow> con_nav \<Rightarrow> nat" where
  "sel_work rs n =
     (let w = nv_width n; f = selection_first n; l = selection_last n; t = nav_end rs w; r = length rs in
      if \<not> selecting n \<or> (\<not> linewise n \<and> \<not> semanticwise n) \<or> match_ready n then 0
      else if semanticwise n then
        if match_phase n = 0 then 3 * t + 6
        else if match_phase n = 1 then bracket_work rs w (word_phase n) (nv_reverse n) f + 2 * t + 3
        else if match_phase n = 3 then nav_pos w f + t + 2
        else t - nav_pos w l + 1
      else if match_phase n = 0 then 2 * r + 4
      else if match_phase n = 1 then nc_line f + r + 2
      else r - nc_line l + 1)"

definition nav_work :: "charmap_line list \<Rightarrow> con_nav \<Rightarrow> nat" where
  "nav_work rs n =
     (if nv_pending n then motion_work rs n + 3 * nav_end rs (nv_width n) + 2 * length rs + 11 else sel_work rs n)"

text \<open>What no unit changes.\<close>

definition nav_frame :: "con_nav \<Rightarrow> con_nav \<Rightarrow> bool" where
  "nav_frame n n' \<longleftrightarrow> nv_width n' = nv_width n \<and> selecting n' = selecting n \<and> nv_anchor n' = nv_anchor n \<and>
     linewise n' = linewise n \<and> blockwise n' = blockwise n \<and> semanticwise n' = semanticwise n"

lemma frame_refl [simp]: "nav_frame n n"
  by (simp add: nav_frame_def)

lemma frame_trans: "nav_frame a b \<Longrightarrow> nav_frame b c \<Longrightarrow> nav_frame a c"
  by (simp add: nav_frame_def)

section \<open>The expansion of a selection\<close>

text \<open>A unit of the expansion leaves the cursor alone.\<close>

definition sel_good :: "nat \<Rightarrow> charmap_line list \<Rightarrow> con_nav \<Rightarrow> con_nav \<Rightarrow> bool" where
  "sel_good k rs n n' \<longleftrightarrow> nav_frame n n' \<and> nv_cursor n' = nv_cursor n \<and> nv_pending n' = nv_pending n \<and>
     candidate_valid n' = candidate_valid n \<and> candidate n' = candidate n \<and> selection_ok k rs n' \<and> sel_work rs n' < sel_work rs n"

lemma line_selection_good:
  assumes r: "nav_rows rs" and s: "selection_ok k rs n" and c: "cur_ok k rs (nv_width n) (nv_cursor n)" and p: "\<not> nv_pending n"
    and b: "selecting n" "linewise n" "\<not> semanticwise n" "\<not> match_ready n"
  shows "sel_good k rs n (con_nav_line_selection_step rs n)"
proof -
  define w where "w = nv_width n"
  define f where "f = selection_first n"
  define l where "l = selection_last n"
  note s' = s [unfolded selection_ok_def Let_def, folded w_def f_def l_def]
  note defs = con_nav_line_selection_step_def Let_def f_def [symmetric] l_def [symmetric] sel_good_def nav_frame_def
    selection_ok_def sel_work_def w_def [symmetric]
  consider (start) "match_phase n = 0" | (first) "match_phase n = 1" | (last) "match_phase n \<noteq> 0" "match_phase n \<noteq> 1" by blast
  then show ?thesis
  proof cases
    case start
    have "nc_line (nv_cursor n) < length rs" "nc_line (nv_anchor n) < length rs" using c s' b by (simp_all add: cur_ok_def)
    then show ?thesis using start s' c p b by (auto simp: defs)
  next
    case first
    have fl: "cur_ok k rs w f" "cur_ok k rs w l" "nc_row f \<le> nc_row l" using s' first b by auto
    show ?thesis
    proof (cases "nc_line f \<noteq> 0 \<and> nc_row f \<noteq> 0 \<and> wrapColumns (rs ! (nc_line f - 1)) \<noteq> 0")
      case True
      define e where "e = f\<lparr>nc_line := nc_line f - Suc 0, nc_row := nc_row f - Suc 0\<rparr>"
      have e: "cur_ok k rs w e" "nc_row e \<le> nc_row l" "nc_line e < nc_line f"
        using up_ok [OF fl(1), of e] True fl(3) by (auto simp: e_def)
      have "con_nav_line_selection_step rs n = n\<lparr>selection_first := e\<rparr>"
        using first True fl(1) by (auto simp: con_nav_line_selection_step_def Let_def f_def [symmetric] e_def cur_ok_def)
      then show ?thesis using first fl e s' p b by (simp add: sel_good_def nav_frame_def selection_ok_def sel_work_def Let_def
          w_def [symmetric] f_def [symmetric] l_def [symmetric])
    next
      case False
      have "con_nav_line_selection_step rs n = n\<lparr>match_phase := 2\<rparr>"
      proof -
        have no: "\<not> (nc_line f < length rs \<and> nc_line f \<noteq> 0 \<and> nc_row f \<noteq> 0 \<and> wrapColumns (rs ! (nc_line f - 1)) \<noteq> 0)"
          using False by blast
        show ?thesis unfolding con_nav_line_selection_step_def Let_def f_def [symmetric] if_not_P [OF no] using first by simp
      qed
      moreover have "length rs - nc_line l < Suc (nc_line f + length rs)" by linarith
      ultimately show ?thesis using first fl s' p b by (simp add: sel_good_def nav_frame_def selection_ok_def sel_work_def Let_def
          w_def [symmetric] f_def [symmetric] l_def [symmetric])
    qed
  next
    case last
    have fl: "cur_ok k rs w f" "cur_ok k rs w l" "nc_row f \<le> nc_row l" using s' last b by auto
    show ?thesis
    proof (cases "wrapColumns (rs ! nc_line l) \<noteq> 0 \<and> Suc (nc_line l) < length rs")
      case True
      define e where "e = l\<lparr>nc_line := Suc (nc_line l), nc_row := add32 (nc_row l) (Suc 0)\<rparr>"
      have e: "cur_ok k rs w e" using down_ok [OF r fl(2), of e] True by (auto simp: e_def)
      then have e': "nc_row f \<le> nc_row e" "nc_line e = Suc (nc_line l)" using fl by (auto simp: cur_ok_def e_def)
      have "con_nav_line_selection_step rs n = n\<lparr>selection_last := e\<rparr>"
        using last True fl(2) by (auto simp: con_nav_line_selection_step_def Let_def l_def [symmetric] e_def)
      moreover have "length rs - Suc (nc_line l) < length rs - nc_line l" using True by (auto intro!: diff_less_mono2)
      ultimately show ?thesis using last fl e e' s' p b by (simp add: sel_good_def nav_frame_def selection_ok_def sel_work_def Let_def
          w_def [symmetric] f_def [symmetric] l_def [symmetric])
    next
      case False
      have "con_nav_line_selection_step rs n = n\<lparr>match_ready := True\<rparr>"
      proof -
        have no: "\<not> (nc_line l < length rs \<and> wrapColumns (rs ! nc_line l) \<noteq> 0 \<and> nc_line l + 1 < length rs)" using False by simp
        show ?thesis unfolding con_nav_line_selection_step_def Let_def l_def [symmetric] if_not_P [OF no] using last by simp
      qed
      then show ?thesis using last fl s' p b by (simp add: sel_good_def nav_frame_def selection_ok_def sel_work_def Let_def
          w_def [symmetric] f_def [symmetric] l_def [symmetric])
    qed
  qed
qed

lemma semantic_selection_good:
  assumes r: "nav_rows rs" and s: "selection_ok k rs n" and w: "nv_width n \<le> ulong_max"
    and c: "cur_ok k rs (nv_width n) (nv_cursor n)" and p: "\<not> nv_pending n"
    and b: "selecting n" "semanticwise n" "\<not> match_ready n"
  shows "\<exists>n'. con_nav_semantic_selection_step rs n = Some n' \<and> sel_good k rs n n'"
proof -
  define w where "w = nv_width n"
  define f where "f = selection_first n"
  define l where "l = selection_last n"
  define c where "c = nv_cursor n"
  have cok: "cur_ok k rs w c" and wok: "w \<le> ulong_max" using assms by (simp_all add: w_def c_def)
  note s' = s [unfolded selection_ok_def Let_def, folded w_def f_def l_def c_def]
  note good = sel_good_def nav_frame_def selection_ok_def sel_work_def Let_def w_def [symmetric] f_def [symmetric] l_def [symmetric] c_def [symmetric]
  consider (start) "match_phase n = 0" | (bracket) "match_phase n = 1" | (left) "match_phase n = 3"
    | (right) "match_phase n \<noteq> 0" "match_phase n \<noteq> 1" "match_phase n \<noteq> 3" by blast
  then show ?thesis
  proof cases
    case start
    define a where "a = nv_anchor n"
    define x where "x = (if nav_after a c then c else a)"
    define y where "y = (if nav_after a c then a else c)"
    define ph where "ph = (if nc_row a = nc_row c \<and> nc_column a = nc_column c then 1 else (3 :: nat))"
    have a: "cur_ok k rs w a" using s' b by (simp add: a_def)
    have xy: "cur_ok k rs w x" "cur_ok k rs w y" "\<not> nav_after x y" "ph = 1 \<Longrightarrow> nc_row y = nc_row c \<and> nc_column y = nc_column c"
      using a cok by (auto simp: x_def y_def ph_def nav_after_def)
    have ph: "ph \<noteq> 0" "ph = 1 \<or> ph = 3" by (auto simp: ph_def)
    have "con_nav_semantic_selection_step rs n = Some (n\<lparr>selection_first := x, selection_last := y, word_phase := 0, match_phase := ph\<rparr>)"
      unfolding con_nav_semantic_selection_step_def Let_def a_def [symmetric] c_def [symmetric] x_def [symmetric] y_def [symmetric] ph_def [symmetric]
      using start by simp
    moreover have "nav_pos w x < nav_end rs w" by (rule pos_less [OF xy(1)])
    ultimately show ?thesis using start s' xy ph p b
      by (elim disjE) (simp_all add: good bracket_work_def)
  next
    case bracket
    define m where "m = n\<lparr>nv_cursor := f, nv_origin := c, nv_pending := True\<rparr>"
    have fl: "cur_ok k rs w f" "cur_ok k rs w l" "nc_row l = nc_row c" "nc_column l = nc_column c" using s' bracket b by auto
    have mm: "nv_width m \<le> ulong_max" "cur_ok k rs (nv_width m) (nv_cursor m)" "cur_ok k rs (nv_width m) (nv_origin m)"
      using wok fl cok by (simp_all add: m_def w_def [symmetric])
    obtain pr where pr: "con_nav_bracket_step rs m = Some pr" "cur_ok k rs w (nv_cursor pr)"
      "nv_pending pr \<Longrightarrow> bracket_work rs w (word_phase pr) (nv_reverse pr) (nv_cursor pr) < bracket_work rs w (word_phase n) (nv_reverse n) f"
      using bracket_total [OF r mm(1,2)] mm(3) unfolding m_def w_def by (simp; metis)
    define e where "e = nv_cursor pr"
    define n1 where "n1 = n\<lparr>selection_first := e, word_phase := word_phase pr, bracket_char := bracket_char pr,
      bracket_peer := bracket_peer pr, nv_reverse := nv_reverse pr, depth := depth pr\<rparr>"
    define elsewhere where "elsewhere \<longleftrightarrow> nc_row e \<noteq> nc_row c \<or> nc_column e \<noteq> nc_column c"
    have step: "con_nav_semantic_selection_step rs n = Some
        (if nv_pending pr then n1
         else if elsewhere then
           (if nav_after e l then n1\<lparr>selection_first := l, selection_last := e\<rparr> else n1)\<lparr>match_ready := True\<rparr>
         else n1\<lparr>match_phase := 3\<rparr>)"
      using bracket pr(1) unfolding con_nav_semantic_selection_step_def Let_def f_def [symmetric] c_def [symmetric] m_def [symmetric]
      by (simp add: n1_def e_def [symmetric] elsewhere_def l_def [symmetric] c_def [symmetric])
    have e: "cur_ok k rs w e" "nav_pos w e < nav_end rs w" using pr(2) pos_less [of k rs w e] by (simp_all add: e_def)
    note defs = good n1_def
    show ?thesis
    proof (cases "nv_pending pr")
      case True
      then show ?thesis using step bracket fl e s' p b pr(3) by (simp add: defs e_def [symmetric])
    next
      case ended: False
      show ?thesis
      proof (cases elsewhere)
        case True
        then show ?thesis using step ended bracket fl e s' p b
          by (cases "nav_after e l") (simp_all add: defs after_pos [OF e(1) fl(2)] after_pos [OF fl(2) e(1)] bracket_work_def)
      next
        case False
        then have "\<not> nav_after e l" using fl by (simp add: elsewhere_def nav_after_def)
        then show ?thesis using step ended False bracket fl e s' p b by (simp add: defs bracket_work_def)
      qed
    qed
  next
    case left
    have fl: "cur_ok k rs w f" "cur_ok k rs w l" "\<not> nav_after f l" using s' left b by auto
    obtain d mv where d: "con_nav_grid_advance rs w f True = Some (d, mv)" "moved k rs w True f d mv"
      using grid_advance_total [OF r fl(1) wok] .
    define go where "go \<longleftrightarrow> mv = 1 \<and> \<not> con_nav_delimiter n (shown_text rs (nc_line d) (nc_column d))"
    have step: "con_nav_semantic_selection_step rs n = Some (if go then n\<lparr>selection_first := d\<rparr> else n\<lparr>match_phase := 4\<rparr>)"
      using left d(1) by (simp add: con_nav_semantic_selection_step_def Let_def f_def [symmetric] w_def [symmetric] nav_text_total [OF r] go_def)
    have dd: "cur_ok k rs w d" using d(2) by (simp add: moved_def)
    show ?thesis
    proof (cases go)
      case True
      then have lt: "nav_pos w d < nav_pos w f" using d(2) by (simp add: go_def moved_def stepped_def)
      then have "\<not> nav_after d l" using fl(3) by (simp add: after_pos [OF dd fl(2)] after_pos [OF fl(1,2)])
      then show ?thesis using step True left fl dd lt s' p b by (simp add: good)
    next
      case False
      then show ?thesis using step left fl s' p b by (simp add: good)
    qed
  next
    case right
    have fl: "cur_ok k rs w f" "cur_ok k rs w l" "\<not> nav_after f l" using s' right b by auto
    obtain d mv where d: "con_nav_grid_advance rs w l False = Some (d, mv)" "moved k rs w False l d mv"
      using grid_advance_total [OF r fl(2) wok] .
    define go where "go \<longleftrightarrow> mv = 1 \<and> \<not> con_nav_delimiter n (shown_text rs (nc_line d) (nc_column d))"
    have step: "con_nav_semantic_selection_step rs n = Some (if go then n\<lparr>selection_last := d\<rparr> else n\<lparr>match_ready := True\<rparr>)"
      using right d(1) by (simp add: con_nav_semantic_selection_step_def Let_def l_def [symmetric] w_def [symmetric] nav_text_total [OF r] go_def)
    have dd: "cur_ok k rs w d" using d(2) by (simp add: moved_def)
    show ?thesis
    proof (cases go)
      case True
      then have lt: "nav_pos w l < nav_pos w d" using d(2) by (simp add: go_def moved_def stepped_def)
      then have "\<not> nav_after f d" using fl(3) by (simp add: after_pos [OF fl(1) dd] after_pos [OF fl(1,2)])
      moreover have "nav_end rs w - nav_pos w d < nav_end rs w - nav_pos w l" using lt pos_less [OF dd] by linarith
      ultimately show ?thesis using step True right fl dd s' p b by (simp add: good)
    next
      case False
      then show ?thesis using step right fl s' p b by (simp add: good)
    qed
  qed
qed

section \<open>The driver\<close>

lemma ok_busy: "nav_ok st k rs n \<Longrightarrow> nav_busy rs n \<longleftrightarrow>
    nv_pending n \<or> (selecting n \<and> (linewise n \<or> semanticwise n) \<and> \<not> match_ready n)"
  by (auto simp: nav_busy_def nav_ok_def cur_ok_def)

lemma ok_answer: "nav_ok st k rs n \<Longrightarrow> nav_answer rs n = (\<not> nav_busy rs n, n)"
  by (auto simp: nav_answer_def nav_busy_def nav_ok_def cur_ok_def Let_def)

lemma sel_work_bound:
  assumes "nav_ok st k rs n"
  shows "sel_work rs n \<le> 3 * nav_end rs (nv_width n) + 2 * length rs + 10"
proof -
  define w where "w = nv_width n"
  have s: "match_phase n \<noteq> 0 \<Longrightarrow> cur_ok k rs w (selection_first n)" "match_phase n \<noteq> 0 \<Longrightarrow> cur_ok k rs w (selection_last n)"
    using assms by (auto simp: nav_ok_def selection_ok_def Let_def w_def)
  have "bracket_work rs w ph b c \<le> nav_end rs w + 2" if "cur_ok k rs w c" for ph b c
    using dist_bound [OF that, of b] by (simp add: bracket_work_def)
  note f = this [OF s(1), of "word_phase n" "nv_reverse n"] pos_less [OF s(1)]
  have "nc_line (selection_first n) \<le> length rs" if "match_phase n \<noteq> 0" using s(1) [OF that] by (simp add: cur_ok_def)
  with f show ?thesis
    by (auto simp: sel_work_def Let_def w_def [symmetric])
qed

lemma unit_ok:
  assumes r: "nav_rows rs" and st: "st \<longrightarrow> wide_rows rs" and n: "nav_ok st k rs n" and b: "nav_busy rs n"
  obtains n' where "nav_unit rs n = Some n'" and "nav_ok st k rs n'" and "nav_work rs n' < nav_work rs n" and "nav_frame n n'"
proof (cases "nv_pending n")
  case True
  have "nav_ready st k rs n" using True n r st by (auto simp: nav_ok_def nav_ready_def)
  from motion_unit_good [OF this True] obtain n' where n': "nav_unit rs n = Some n'" "motion_good st k rs n n'" by blast
  have k: "nav_kept n n'" and g: "cur_ok k rs (nv_width n) (nv_cursor n')"
    "st \<and> \<not> (nv_pending n' \<and> loose (nv_motion n)) \<longrightarrow> settled rs (nv_width n) (nv_cursor n')"
    "phase_ok st k rs n'" "nv_pending n' \<longrightarrow> motion_work rs n' < motion_work rs n"
    using n'(2) by (auto simp: motion_good_def)
  have "selection_ok k rs n'" using k n True by (auto simp: nav_ok_def nav_kept_def selection_ok_def Let_def)
  with k g n have ok: "nav_ok st k rs n'" using True by (auto simp: nav_ok_def nav_kept_def phase_ok_def)
  have "nv_width n' = nv_width n" using k by (simp add: nav_kept_def)
  then have "nav_work rs n' < nav_work rs n"
    using True g(4) sel_work_bound [OF ok] by (auto simp: nav_work_def)
  moreover have "nav_frame n n'" using k by (simp add: nav_kept_def nav_frame_def)
  ultimately show thesis using that [OF n'(1) ok] by blast
next
  case False
  have bb: "selecting n" "linewise n \<or> semanticwise n" "\<not> match_ready n" using b False n by (auto simp: ok_busy)
  have s: "selection_ok k rs n" "nv_width n \<le> ulong_max" "cur_ok k rs (nv_width n) (nv_cursor n)" using n by (auto simp: nav_ok_def)
  have "\<exists>n'. nav_unit rs n = Some n' \<and> sel_good k rs n n'"
  proof (cases "semanticwise n")
    case True
    then show ?thesis using semantic_selection_good [OF r s False bb(1) True bb(3)] False by (simp add: nav_unit_def)
  next
    case sem: False
    then show ?thesis using line_selection_good [OF r s(1,3) False bb(1) _ sem bb(3)] bb(2) False by (simp add: nav_unit_def)
  qed
  then obtain n' where n': "nav_unit rs n = Some n'" "sel_good k rs n n'" by blast
  then have "nav_ok st k rs n'" "nav_work rs n' < nav_work rs n" "nav_frame n n'"
    using n False by (auto simp: sel_good_def nav_ok_def nav_work_def nav_frame_def)
  with n'(1) show thesis by (rule that)
qed

lemma step_ok:
  assumes r: "nav_rows rs" and st: "st \<longrightarrow> wide_rows rs" and n: "nav_ok st k rs n"
  shows "\<exists>n'. con_nav_step rs b n = Some (\<not> nav_busy rs n', n') \<and> nav_ok st k rs n' \<and> nav_frame n n' \<and>
    (nav_work rs n \<le> b \<longrightarrow> \<not> nav_busy rs n')"
  using n
proof (induction b arbitrary: n)
  case 0
  have "\<not> nav_busy rs n" if "nav_work rs n \<le> 0"
  proof
    assume "nav_busy rs n"
    from unit_ok [OF r st 0 this] that show False by auto
  qed
  with 0 show ?case by (auto simp: ok_answer)
next
  case (Suc b)
  show ?case
  proof (cases "nav_busy rs n")
    case True
    obtain n' where n': "nav_unit rs n = Some n'" "nav_ok st k rs n'" "nav_work rs n' < nav_work rs n" "nav_frame n n'"
      using unit_ok [OF r st Suc.prems True] .
    from Suc.IH [OF n'(2)] obtain m where "con_nav_step rs b n' = Some (\<not> nav_busy rs m, m)" "nav_ok st k rs m"
      "nav_frame n' m" "nav_work rs n' \<le> b \<longrightarrow> \<not> nav_busy rs m" by blast
    with n' True show ?thesis using frame_trans [OF n'(4)] by auto
  qed (use Suc.prems in \<open>auto simp: ok_answer\<close>)
qed

text \<open>Once nothing is left to do, further ticks change nothing; a budget may be divided at will.\<close>

lemma step_idle: "nav_ok st k rs n \<Longrightarrow> \<not> nav_busy rs n \<Longrightarrow> con_nav_step rs b n = Some (True, n)"
  by (cases b) (simp_all add: ok_answer)

lemma step_add:
  assumes r: "nav_rows rs" and st: "st \<longrightarrow> wide_rows rs" and n: "nav_ok st k rs n"
  shows "con_nav_step rs (a + b) n = do { (_, n') \<leftarrow> con_nav_step rs a n; con_nav_step rs b n' }"
  using n
proof (induction a arbitrary: n)
  case 0
  then show ?case by (simp add: ok_answer)
next
  case (Suc a)
  show ?case
  proof (cases "nav_busy rs n")
    case True
    obtain n' where n': "nav_unit rs n = Some n'" "nav_ok st k rs n'"
      using unit_ok [OF r st Suc.prems True] .
    then show ?thesis using True Suc.IH [OF n'(2)] by simp
  next
    case False
    then show ?thesis using Suc.prems by (simp add: ok_answer step_idle)
  qed
qed

lemma ticks_sum:
  assumes r: "nav_rows rs" and st: "st \<longrightarrow> wide_rows rs" and n: "nav_ok st k rs n"
  shows "nav_run rs (map Timer bs) n = map_option snd (con_nav_step rs (sum_list bs) n)"
  using n
proof (induction bs arbitrary: n)
  case Nil
  then show ?case by (simp add: ok_answer)
next
  case (Cons b bs)
  from step_ok [OF r st Cons.prems, of b] obtain n' where n': "con_nav_step rs b n = Some (\<not> nav_busy rs n', n')" "nav_ok st k rs n'" by blast
  then show ?case using Cons.IH [OF n'(2)] step_add [OF r st Cons.prems, of b "sum_list bs"]
    by (simp add: charmap_nav_key_def)
qed

section \<open>Keys\<close>

lemma move_ok:
  assumes n: "nav_ok False k rs n" and st: "st \<Longrightarrow> wide_rows rs \<and> settled rs (nv_width n) (nv_cursor n)"
  shows "nav_ok st k rs (con_nav_move n m)"
proof -
  define c where "c = (if m = CON_NAV_PARAGRAPH_UP \<or> m = CON_NAV_PARAGRAPH_DOWN then (nv_cursor n)\<lparr>nc_column := 0\<rparr> else nv_cursor n)"
  define mm where "mm = con_nav_move n m"
  have z: "settled rs (nv_width n) ((nv_cursor n)\<lparr>nc_column := 0\<rparr>)" if st using st [OF that] by (simp add: settled_zero)
  have c: "cur_ok k rs (nv_width n) c" "st \<Longrightarrow> settled rs (nv_width n) c"
    using n st z by (simp_all add: c_def nav_ok_def cur_ok_def)
  have mm: "nv_width mm = nv_width n" "nv_cursor mm = c" "nv_origin mm = nv_cursor n" "nv_pending mm" "word_phase mm = 0"
    "match_phase mm = 0" "\<not> match_ready mm" "selecting mm = selecting n" "nv_anchor mm = nv_anchor n"
    "candidate mm = candidate n" "candidate_valid mm = candidate_valid n"
    by (simp_all add: mm_def con_nav_move_def Let_def c_def)
  have "selection_ok k rs mm" using n mm by (simp add: nav_ok_def selection_ok_def Let_def)
  moreover have "phase_ok st k rs mm" using n mm by (simp add: nav_ok_def phase_ok_def)
  ultimately show ?thesis
    using n st c mm by (simp add: nav_ok_def mm_def [symmetric])
qed

lemma select_ok:
  assumes n: "nav_ok st k rs n"
  shows "nav_ok st k rs (charmap_nav_select n lw bw sw)"
  using n by (auto simp: nav_ok_def charmap_nav_select_def selection_ok_def Let_def phase_ok_def)

lemma reverse_ok [simp]: "nav_ok st k rs (n\<lparr>nv_reverse := b\<rparr>) = nav_ok st k rs n"
  by (simp add: nav_ok_def selection_ok_def phase_ok_def)

lemma fields_ok [simp]:
  "nav_ok st k rs (n\<lparr>target_row := t\<rparr>) = nav_ok st k rs n"
  "nav_ok st k rs (n\<lparr>find_char := cp\<rparr>) = nav_ok st k rs n"
  "nav_ok st k rs (n\<lparr>find_char := cp, find_reverse := b, find_short := s\<rparr>) = nav_ok st k rs n"
  "nav_ok st k rs n \<Longrightarrow> nav_ok st k rs (n\<lparr>selecting := False\<rparr>)"
  by (auto simp: nav_ok_def selection_ok_def phase_ok_def Let_def)

lemma key_ok:
  assumes r: "nav_rows rs" and n: "nav_ok False k rs n"
  shows "\<exists>n'. charmap_nav_key rs e n = Some n' \<and> nav_ok False k rs n' \<and> nv_width n' = nv_width n"
proof -
  have mv: "nav_ok False k rs (con_nav_move m x)" if "nav_ok False k rs m" for m x using move_ok [OF that, of False] by simp
  have wd: "nv_width (con_nav_move m x) = nv_width m" for m x by (simp add: con_nav_move_def Let_def)
  have st: "\<exists>n'. map_option snd (con_nav_step rs b m) = Some n' \<and> nav_ok False k rs n' \<and> nv_width n' = nv_width m"
    if "nav_ok False k rs m" for b m
    using step_ok [OF r _ that, of b] by (auto simp: nav_frame_def)
  show ?thesis
  proof (cases e)
    case (Key_motion m)
    then show ?thesis using st [OF mv [OF n], of 1 m] mv [OF n, of m] by (auto simp: charmap_nav_key_def Let_def wd)
  next
    case (Key_view t m)
    then show ?thesis using mv [of "n\<lparr>target_row := t\<rparr>" m] n by (simp add: charmap_nav_key_def wd)
  next
    case (Key_find_char cp)
    then show ?thesis using mv [of "n\<lparr>find_char := cp\<rparr>"] n by (simp add: charmap_nav_key_def nav_find_def wd)
  next
    case (Key_find_repeat b)
    then show ?thesis using mv [OF n] n by (auto simp: charmap_nav_key_def nav_find_def wd)
  next
    case (Key_select lw bw sw)
    then show ?thesis using select_ok [OF n] by (simp add: charmap_nav_key_def charmap_nav_select_def Let_def)
  next
    case (Timer b)
    then show ?thesis using st [OF n] by (simp add: charmap_nav_key_def)
  qed (use n in \<open>simp_all add: charmap_nav_key_def\<close>)
qed

lemma run_ok:
  assumes r: "nav_rows rs"
  shows "nav_ok False k rs n \<Longrightarrow> \<exists>n'. nav_run rs ks n = Some n' \<and> nav_ok False k rs n' \<and> nv_width n' = nv_width n"
proof (induction ks arbitrary: n)
  case (Cons e ks)
  from key_ok [OF r Cons.prems] obtain n1 where n1: "charmap_nav_key rs e n = Some n1" "nav_ok False k rs n1" "nv_width n1 = nv_width n" by blast
  from Cons.IH [OF n1(2)] n1 show ?case by auto
qed simp

lemma begin_ok:
  assumes r: "nav_rows rs" and w: "w \<le> ulong_max" and i: "i < length rs" "row + k = i"
  obtains n where "con_nav_begin rs i row column w = Some n" and "nav_ok False k rs n" and "nv_width n = w" and "\<not> nav_busy rs n"
    and "wide_rows rs \<Longrightarrow> settled rs w (nv_cursor n)"
proof -
  define c where "c = \<lparr>nc_line = i, nc_row = row, nc_column = column\<rparr>"
  obtain d where d: "con_nav_clamp rs w c = Some d" "clamped rs w c d" using clamp_total [OF r] .
  have "cur_ok k rs w d" by (rule clamped_ok [OF d(2)]) (use i in \<open>simp_all add: c_def\<close>)
  with d w show thesis
    by (intro that [of "(nav_zero rs)\<lparr>nv_cursor := d, nv_width := w\<rparr>"])
      (auto simp: con_nav_begin_def c_def [symmetric] nav_ok_def nav_zero_def Let_def selection_ok_def nav_busy_def clamped_def)
qed

section \<open>The selected range\<close>

text \<open>A range from \<open>p\<close> to \<open>q\<close>, on the rows \<open>r1\<close> and \<open>r2\<close>: inside the retained rows, in order, and not empty.\<close>

definition span_ok :: "nat \<Rightarrow> charmap_line list \<Rightarrow> nat \<Rightarrow> search_position \<Rightarrow> search_position \<Rightarrow> nat \<Rightarrow> nat \<Rightarrow> bool" where
  "span_ok k rs w p q r1 r2 \<longleftrightarrow> pos_line p < length rs \<and> pos_line q < length rs \<and> r1 + k = pos_line p \<and> r2 + k = pos_line q \<and>
     pos_column q \<le> w \<and>
     (w \<noteq> 0 \<longrightarrow> pos_line p < pos_line q \<or> (pos_line p = pos_line q \<and> pos_column p < pos_column q))"

lemma end_total:
  assumes "nav_rows rs" and "cur_ok k rs w c" and "w \<le> ulong_max"
  obtains e where "con_nav_end rs c w = Some e" and "e \<le> w" and "w \<noteq> 0 \<Longrightarrow> nc_column c < e"
proof -
  have "add32 (nc_column c) (Suc 0) = Suc (nc_column c)"
    using assms(2,3) arith32(1) [of "nc_column c" 1] by (auto simp: cur_ok_def ulong_max_def)
  then show thesis
    using assms(2) by (intro that [of "if (if shown_text rs (nc_line c) (Suc (nc_column c)) = SEARCH_WIDE_CONT then Suc (Suc (nc_column c)) else Suc (nc_column c)) < w
      then (if shown_text rs (nc_line c) (Suc (nc_column c)) = SEARCH_WIDE_CONT then Suc (Suc (nc_column c)) else Suc (nc_column c)) else w"])
      (auto simp: con_nav_end_def Let_def nav_text_total [OF assms(1)] cur_ok_def)
qed

lemma span_cursors:
  assumes "cur_ok k rs w a" "cur_ok k rs w b" "\<not> nav_after a b" "e \<le> w" "w \<noteq> 0 \<Longrightarrow> nc_column b < e"
  shows "span_ok k rs w (nav_position a) (at (nc_line b) e) (nc_row a) (nc_row b)"
  using assms by (auto simp: span_ok_def nav_position_def at_def cur_ok_def nav_after_def)

lemma match_ok:
  assumes r: "nav_rows rs" and n: "nav_ok False k rs n"
  shows "\<exists>p q r1 r2. con_nav_match rs n = Some ((p, q), r1, r2) \<and> span_ok k rs (nv_width n) p q r1 r2"
proof -
  define w where "w = nv_width n"
  define f where "f = selection_first n"
  define l where "l = selection_last n"
  have w: "w \<le> ulong_max" and c: "cur_ok k rs w (nv_cursor n)" using n by (simp_all add: nav_ok_def w_def)
  note s = n [unfolded nav_ok_def selection_ok_def Let_def, folded w_def f_def l_def]
  note defs = con_nav_match_def Let_def w_def [symmetric] f_def [symmetric] l_def [symmetric]
  consider (sem) "selecting n" "semanticwise n" "match_ready n" | (row) "selecting n" "linewise n" "match_ready n" "\<not> semanticwise n"
    | (plain) "\<not> (selecting n \<and> semanticwise n \<and> match_ready n)" "\<not> (selecting n \<and> linewise n \<and> match_ready n)" by blast
  then show ?thesis
  proof cases
    case sem
    then have fl: "cur_ok k rs w f" "cur_ok k rs w l" "\<not> nav_after f l" using s by auto
    obtain e where e: "con_nav_end rs l w = Some e" "e \<le> w" "w \<noteq> 0 \<Longrightarrow> nc_column l < e" using end_total [OF r fl(2) w] by blast
    show ?thesis using sem e(1) span_cursors [OF fl e(2,3)] by (simp add: defs)
  next
    case row
    then have "cur_ok k rs w f" "cur_ok k rs w l" "nc_row f \<le> nc_row l" using s by auto
    then have "span_ok k rs w (at (nc_line f) 0) (at (nc_line l) w) (nc_row f) (nc_row l)" by (auto simp: span_ok_def at_def cur_ok_def)
    then show ?thesis using row by (simp add: defs)
  next
    case plain
    define a0 where "a0 = (if selecting n then nv_anchor n else nv_cursor n)"
    define b0 where "b0 = nv_cursor n"
    define a where "a = (if nav_after a0 b0 then b0 else a0)"
    define b where "b = (if nav_after a0 b0 then a0 else b0)"
    have ab: "cur_ok k rs w a" "cur_ok k rs w b" "\<not> nav_after a b"
      using s c by (auto simp: a_def b_def a0_def b0_def nav_after_def)
    obtain ae where ae: "con_nav_end rs a w = Some ae" "ae \<le> w" "w \<noteq> 0 \<Longrightarrow> nc_column a < ae" using end_total [OF r ab(1) w] by blast
    obtain be where be: "con_nav_end rs b w = Some be" "be \<le> w" "w \<noteq> 0 \<Longrightarrow> nc_column b < be" using end_total [OF r ab(2) w] by blast
    have m: "con_nav_match rs n = (if selecting n \<and> blockwise n
        then Some ((at (nc_line a) (min (nc_column a) (nc_column b)), at (nc_line b) (max ae be)), nc_row a, nc_row b)
        else Some ((nav_position a, at (nc_line b) be), nc_row a, nc_row b))"
      unfolding con_nav_match_def Let_def w_def [symmetric] if_not_P [OF plain(1)] if_not_P [OF plain(2)]
      unfolding a0_def [symmetric] unfolding b0_def [symmetric] unfolding a_def [symmetric] b_def [symmetric]
      by (simp add: ae(1) be(1))
    have "span_ok k rs w (at (nc_line a) (min (nc_column a) (nc_column b))) (at (nc_line b) (max ae be)) (nc_row a) (nc_row b)"
      using ab ae(2,3) be(2,3) by (auto simp: span_ok_def at_def cur_ok_def nav_after_def)
    then show ?thesis using span_cursors [OF ab be(2,3)] m by (auto simp: w_def)
  qed
qed

section \<open>The properties\<close>

text \<open>
  C6. Keyboard navigation is safe. From any row of well-formed retained text, through any sequence of
  motions, view and find requests, selections, cancellations and timer ticks with any budgets, no
  operation reads outside a row or follows a null pointer; the cursor stays on a retained row, with the
  row number that belongs to it, within the width of the grid; and the range it selects lies in
  the retained rows, is in order and not empty.
\<close>

theorem navigation_safe:
  assumes "nav_rows rs" and "w \<le> ulong_max" and "i < length rs" and "row + k = i"
  shows "\<exists>n0 n p q r1 r2. con_nav_begin rs i row column w = Some n0 \<and> nav_run rs ks n0 = Some n \<and>
    nc_line (nv_cursor n) < length rs \<and> nc_row (nv_cursor n) + k = nc_line (nv_cursor n) \<and>
    (nc_column (nv_cursor n) < w \<or> nc_column (nv_cursor n) = 0) \<and>
    con_nav_match rs n = Some ((p, q), r1, r2) \<and> span_ok k rs w p q r1 r2"
proof -
  obtain n0 where n0: "con_nav_begin rs i row column w = Some n0" "nav_ok False k rs n0" "nv_width n0 = w"
    using begin_ok [OF assms] .
  from run_ok [OF assms(1) n0(2), of ks] obtain n where n: "nav_run rs ks n0 = Some n" "nav_ok False k rs n" "nv_width n = w"
    using n0(3) by auto
  from match_ok [OF assms(1) n(2)] obtain p q r1 r2 where m: "con_nav_match rs n = Some ((p, q), r1, r2)" "span_ok k rs w p q r1 r2"
    using n(3) by auto
  have "cur_ok k rs w (nv_cursor n)" using n(2,3) by (simp add: nav_ok_def)
  with n0(1) n(1) m show ?thesis by (auto simp: cur_ok_def)
qed

text \<open>How much work a motion and the expansion of the selection after it can be.\<close>

definition nav_bound :: "nat \<Rightarrow> nat \<Rightarrow> nat" where
  "nav_bound r w = 5 * (r + 1) * (w + 4)"

lemma move_work:
  assumes n: "nav_ok st k rs (con_nav_move n m)"
  shows "nav_work rs (con_nav_move n m) \<le> nav_bound (length rs) (nv_width n)"
proof -
  define mm where "mm = con_nav_move n m"
  define w where "w = nv_width n"
  define r where "r = length rs"
  have mm: "nv_width mm = w" "word_phase mm = 0" "nv_pending mm" "scan_column mm = 0" by (simp_all add: mm_def con_nav_move_def Let_def w_def)
  have c: "cur_ok k rs w (nv_cursor mm)" using n mm(1) by (simp add: nav_ok_def mm_def [symmetric])
  have i: "nc_line (nv_cursor mm) < r" using c by (simp add: cur_ok_def r_def)
  define x where "x = r * w"
  define most where "most = 2 * x + 5 * r + 2 * w + 6"
  have d: "nav_dist rs w b (nv_cursor mm) \<le> r + x" for b using dist_bound [OF c, of b] by (simp add: nav_end_def r_def x_def)
  have d': "nav_dist rs w b (nv_cursor mm) + 3 \<le> most" for b using d [of b] unfolding most_def by linarith
  have "nc_line (nv_cursor mm) * w \<le> x" "(r - nc_line (nv_cursor mm)) * w \<le> x" unfolding x_def using i by (auto intro: mult_le_mono1)
  then have p: "nc_line (nv_cursor mm) * Suc w + w \<le> most" "(r - nc_line (nv_cursor mm)) * Suc w + w \<le> most"
    using i unfolding mult_Suc_right most_def by linarith+
  have "r - nc_line (nv_cursor mm) \<le> w + (4 + (2 * x + 5 * r))" by linarith
  then have v: "view_work rs mm \<le> most" using i by (simp add: view_work_def Let_def mm most_def r_def [symmetric])
  have l: "last_work rs mm \<le> most" "occupied_work rs mm \<le> most" "nc_line (nv_cursor mm) \<le> most"
      "r - nc_line (nv_cursor mm) \<le> most" "nav_end rs w + 2 \<le> most"
    using i by (simp_all add: last_work_def occupied_work_def Let_def mm most_def x_def r_def [symmetric] nav_end_def algebra_simps)
  have d1: "nav_dist rs w b (nv_cursor mm) + 1 \<le> most" "nav_dist rs w b (nv_cursor mm) \<le> most" for b using d' [of b] by linarith+
  have "motion_work rs mm \<le> most"
    using d' d1 p v l by (cases "nv_motion mm") (simp_all add: motion_work_def Let_def mm bracket_work_def r_def [symmetric])
  then have "motion_work rs mm \<le> 2 * (r * w) + 5 * r + 2 * w + 6" by (simp add: most_def x_def)
  then have "nav_work rs mm \<le> 5 * (r * w) + 10 * r + 2 * w + 17"
    using mm by (simp add: nav_work_def nav_end_def r_def [symmetric])
  also have "\<dots> \<le> nav_bound r w" by (simp add: nav_bound_def algebra_simps)
  finally show ?thesis by (simp add: mm_def r_def w_def)
qed


section \<open>Witnesses\<close>

text \<open>A row of characters, not wrapped.\<close>

definition nav_row_of :: "codepoint list \<Rightarrow> charmap_line" where
  "nav_row_of cps = charmap_newline\<lparr>line_size := length cps, capacity := length cps,
     cells := map (\<lambda>cp. zero_cell\<lparr>cell_text := cp\<rparr>) cps\<rparr>"

lemma nav_row_of_ok: "length cps \<le> ulong_max \<Longrightarrow> nav_rows [nav_row_of cps]"
  by (simp add: nav_rows_def nav_row_of_def line_ok_def charmap_newline_def ulong_max_def)

lemma nav_row_of_wide: "SEARCH_WIDE_CONT \<notin> set cps \<Longrightarrow> wide_rows [nav_row_of cps]"
  by (auto simp: wide_rows_def nav_row_of_def charmap_newline_def in_set_conv_nth)

theorem navigation_safe_witness:
  "\<exists>n0 n p q r1 r2. con_nav_begin [nav_row_of [0x28, 0x61, 0x29]] 0 0 0 3 = Some n0 \<and>
     nav_run [nav_row_of [0x28, 0x61, 0x29]] [Key_select False False True, Key_motion CON_NAV_BRACKET, Timer 50] n0 = Some n \<and>
     con_nav_match [nav_row_of [0x28, 0x61, 0x29]] n = Some ((p, q), r1, r2) \<and>
     span_ok 0 [nav_row_of [0x28, 0x61, 0x29]] 3 p q r1 r2"
  using navigation_safe [OF nav_row_of_ok [of "[0x28, 0x61, 0x29]"], of 3 0 0 0 0
      "[Key_select False False True, Key_motion CON_NAV_BRACKET, Timer 50]"]
  by (auto simp: ulong_max_def)


end
