(* ===== verification/Copy_Encode.thy ===== *)
theory Copy_Encode
  imports Navigation_Safe Utf8
begin

text \<open>
  Copying a selected range (\<open>devs/consoleng/copy_encode.h\<close>): one pass measures the bytes, the caller
  allocates them, a second pass writes. Both passes are spread over calls with a budget. Row pointers
  are positions in the list of rows, at or past its end for NULL; the buffer is the list of its bytes.
  \<open>None\<close> is a read outside a row or a write outside the buffer.
\<close>

section \<open>The encoder\<close>

datatype con_copy_result = CON_COPY_MORE | CON_COPY_MEASURED | CON_COPY_DONE | CON_COPY_ERROR

record con_copy_encode =
  ce_first :: nat
  ce_last :: nat
  ce_line :: nat
  minx :: nat
  maxx :: nat
  ce_limit :: nat
  left :: nat
  right :: nat
  ce_column :: nat
  phase :: nat
  ce_size :: nat
  ce_offset :: nat
  ce_buffer :: "byte list"
  ce_utf8 :: bool
  exact :: bool
  ce_block :: bool
  writing :: bool
  ce_finished :: bool
  ce_failed :: bool

definition con_copy_space :: "codepoint \<Rightarrow> bool" where
  "con_copy_space cp \<longleftrightarrow> (cp \<ge> 9 \<and> cp \<le> 13) \<or> cp = 0x20 \<or> cp = 0x85 \<or> cp = 0xA0 \<or> cp = 0x1680 \<or>
     (cp \<ge> 0x2000 \<and> cp \<le> 0x200A) \<or> cp = 0x2028 \<or> cp = 0x2029 \<or> cp = 0x202F \<or> cp = 0x205F \<or> cp = 0x3000"

definition con_copy_begin :: "search_match \<Rightarrow> bool \<Rightarrow> bool \<Rightarrow> bool \<Rightarrow> con_copy_encode" where
  "con_copy_begin span utf8 ex blk =
     \<lparr>ce_first = pos_line (fst span), ce_last = pos_line (snd span), ce_line = pos_line (fst span),
      minx = pos_column (fst span), maxx = pos_column (snd span), ce_limit = 0, left = 0, right = 0, ce_column = 0,
      phase = 0, ce_size = 0, ce_offset = 0, ce_buffer = [], ce_utf8 = utf8, exact = ex, ce_block = blk,
      writing = False, ce_finished = False, ce_failed = False\<rparr>"

definition copy_bytes :: "bool \<Rightarrow> codepoint \<Rightarrow> byte list" where
  "copy_bytes utf8 cp = (if utf8 then con_utf8_encode cp else [if cp < 0x100 then ucast cp else 0x3F])"

text \<open>\<open>memcpy\<close> to a position of the buffer.\<close>

definition store_at :: "byte list \<Rightarrow> nat \<Rightarrow> byte list \<Rightarrow> byte list option" where
  "store_at buf i bs = (if i + length bs \<le> length buf then Some (take i buf @ bs @ drop (i + length bs) buf) else None)"

definition con_copy_put :: "con_copy_encode \<Rightarrow> codepoint \<Rightarrow> (bool \<times> con_copy_encode) option" where
  "con_copy_put s cp =
     (if cp = SEARCH_WIDE_CONT then Some (True, s)
      else
        let bs = copy_bytes (ce_utf8 s) cp; cnt = length bs in
        if ce_offset s > ulong_max - cnt - 1 \<or> (writing s \<and> (ce_offset s > ce_size s \<or> cnt > ce_size s - ce_offset s))
        then Some (False, s\<lparr>ce_failed := True\<rparr>)
        else do {
          buf \<leftarrow> (if writing s then store_at (ce_buffer s) (ce_offset s) bs else Some (ce_buffer s));
          Some (True, s\<lparr>ce_buffer := buf, ce_offset := ce_offset s + cnt\<rparr>)
        })"

definition con_copy_write_begin :: "con_copy_encode \<Rightarrow> byte list option \<Rightarrow> nat \<Rightarrow> bool \<times> con_copy_encode" where
  "con_copy_write_begin s buf n =
     (if \<not> ce_finished s \<or> ce_failed s \<or> writing s \<or> n \<noteq> ce_size s \<or> (n \<noteq> 0 \<and> buf = None) then (False, s)
      else (True, s\<lparr>ce_buffer := (case buf of None \<Rightarrow> [] | Some b \<Rightarrow> b), writing := True, ce_finished := False,
        ce_line := ce_first s, phase := 0, ce_offset := 0\<rparr>))"

text \<open>The columns of a row that are copied, before the trimming of a block.\<close>

definition copy_columns :: "con_copy_encode \<Rightarrow> nat \<Rightarrow> nat \<times> nat" where
  "copy_columns s lim =
     (let i = ce_line s;
          l0 = (if i = ce_first s then minx s else 0);
          r0 = (if i = ce_last s then maxx s else lim);
          l1 = (if ce_first s = ce_last s \<and> l0 > r0 then r0 else l0);
          r1 = (if ce_first s = ce_last s \<and> l0 > r0 then l0 else r0);
          l2 = (if ce_block s then if minx s < maxx s then minx s else maxx s else l1);
          r2 = (if ce_block s then if minx s > maxx s then minx s else maxx s else r1)
      in (if l2 > lim then lim else l2, if r2 > lim then lim else r2))"

definition copy_window :: "charmap_line list \<Rightarrow> con_copy_encode \<Rightarrow> con_copy_encode option" where
  "copy_window rs s =
     (let i = ce_line s; row = rs ! i in do {
     pad \<leftarrow> (if wrapColumns row = ce_limit s \<and> wrapColumns row \<noteq> 0 \<and> wrapPadding row \<noteq> 0 then do {
              cp \<leftarrow> nav_cell rs i (ce_limit s - 1);
              Some (cp = 0x20)
            } else Some False);
     let lim = (if pad then ce_limit s - 1 else ce_limit s);
     let (l, r) = copy_columns s lim;
     lc \<leftarrow> (if ce_block s \<and> l \<noteq> 0 \<and> l < line_size row then nav_cell rs i l else Some 0);
     rc \<leftarrow> (if ce_block s \<and> r < line_size row then nav_cell rs i r else Some 0);
     Some (s\<lparr>ce_limit := lim, left := (if lc = SEARCH_WIDE_CONT then l - 1 else l),
       right := (if rc = SEARCH_WIDE_CONT then r + 1 else r), phase := 2\<rparr>)
   })"

text \<open>What follows the last character of a row; the first result is the answer of the call, if it ends here.\<close>

definition copy_row_end :: "charmap_line list \<Rightarrow> con_copy_encode \<Rightarrow> (con_copy_result option \<times> con_copy_encode) option" where
  "copy_row_end rs s =
     (let row = rs ! ce_line s; final = (ce_line s = ce_last s);
          e = (if ce_first s = ce_last s \<and> minx s > maxx s then minx s else maxx s);
          newline = (if ce_block s then \<not> final else wrapColumns row = 0 \<and> (\<not> final \<or> (\<not> exact s \<and> e \<ge> line_size row))) in do {
     (ok, s1) \<leftarrow> (if newline then con_copy_put s 0x0D else Some (True, s));
     Some (if \<not> ok then (Some CON_COPY_ERROR, s1)
           else if final then
             let s2 = s1\<lparr>ce_finished := True\<rparr> in
             if \<not> writing s2 then (Some CON_COPY_MEASURED, s2\<lparr>ce_size := ce_offset s2\<rparr>)
             else if ce_offset s2 \<noteq> ce_size s2 then (Some CON_COPY_ERROR, s2\<lparr>ce_failed := True\<rparr>)
             else (Some CON_COPY_DONE, s2)
           else (None, s1\<lparr>ce_line := ce_line s1 + 1, phase := 0\<rparr>))
   })"

definition copy_unit :: "charmap_line list \<Rightarrow> con_copy_encode \<Rightarrow> (con_copy_result option \<times> con_copy_encode) option" where
  "copy_unit rs s =
     (let i = ce_line s; row = rs ! i in
      if i \<ge> length rs then Some (Some CON_COPY_ERROR, s\<lparr>ce_failed := True\<rparr>)
      else if phase s = 0 then Some (None, s\<lparr>ce_limit := line_size row, phase := 1\<rparr>)
      else if phase s = 1 then do {
        blank \<leftarrow> (if ce_limit s \<noteq> 0 \<and> cells row \<noteq> [] then do {
                   c \<leftarrow> cell_at row (ce_limit s - 1);
                   Some (cell_text c = 0x20 \<and> cell_flags c = CHARMAP_ERASED)
                 } else Some False);
        (if blank then Some (None, s\<lparr>ce_limit := ce_limit s - 1\<rparr>) else map_option (\<lambda>t. (None, t)) (copy_window rs s))
      }
      else if phase s = 2 then do {
        space \<leftarrow> (if ce_block s \<and> right s > left s \<and> cells row \<noteq> [] then map_option con_copy_space (nav_cell rs i (right s - 1))
                 else Some False);
        Some (None, if space then s\<lparr>right := right s - 1\<rparr> else s\<lparr>ce_column := left s, phase := 3\<rparr>)
      }
      else if ce_column s < right s \<and> cells row \<noteq> [] then do {
        cp \<leftarrow> nav_cell rs i (ce_column s);
        (ok, s1) \<leftarrow> con_copy_put (s\<lparr>ce_column := ce_column s + 1\<rparr>) cp;
        Some (if ok then None else Some CON_COPY_ERROR, s1)
      }
      else copy_row_end rs s)"

fun copy_loop :: "charmap_line list \<Rightarrow> nat \<Rightarrow> con_copy_encode \<Rightarrow> (con_copy_result \<times> con_copy_encode) option" where
  "copy_loop rs 0 s = Some (CON_COPY_MORE, s)"
| "copy_loop rs (Suc budget) s = do {
     (r, s1) \<leftarrow> copy_unit rs s;
     (case r of None \<Rightarrow> copy_loop rs budget s1 | Some a \<Rightarrow> Some (a, s1))
   }"

definition con_copy_step :: "charmap_line list \<Rightarrow> con_copy_encode \<Rightarrow> nat \<Rightarrow> (con_copy_result \<times> con_copy_encode) option" where
  "con_copy_step rs s budget =
     (if ce_failed s then Some (CON_COPY_ERROR, s)
      else if ce_finished s then Some (if writing s then CON_COPY_DONE else CON_COPY_MEASURED, s)
      else copy_loop rs budget s)"

section \<open>The copied text\<close>

text \<open>
  What a copy means, row by row: the stored cells without erased padding at the end and without the
  spacer of a wrapped wide character, cut to the columns of the range, without continuation cells, and
  a carriage return where a line ends.
\<close>

fun trim_erased :: "cell list \<Rightarrow> nat \<Rightarrow> nat" where
  "trim_erased cs 0 = 0"
| "trim_erased cs (Suc n) =
     (if cell_text (cs ! n) = 0x20 \<and> cell_flags (cs ! n) = CHARMAP_ERASED then trim_erased cs n else Suc n)"

definition copy_limit :: "charmap_line \<Rightarrow> nat" where
  "copy_limit row =
     (let n = trim_erased (cells row) (line_size row) in
      if wrapColumns row = n \<and> n \<noteq> 0 \<and> wrapPadding row \<noteq> 0 \<and> cell_text (cells row ! (n - 1)) = 0x20 then n - 1 else n)"

text \<open>The column bounds of a block, widened to whole characters.\<close>

definition block_columns :: "charmap_line \<Rightarrow> nat \<Rightarrow> nat \<Rightarrow> nat \<times> nat" where
  "block_columns row a b =
     (let lim = copy_limit row; cont = (\<lambda>j. j < line_size row \<and> cell_text (cells row ! j) = SEARCH_WIDE_CONT);
          l = min (min a b) lim; r = min (max a b) lim
      in (if l \<noteq> 0 \<and> cont l then l - 1 else l, if cont r then r + 1 else r))"

fun trim_spaces :: "cell list \<Rightarrow> nat \<Rightarrow> nat \<Rightarrow> nat" where
  "trim_spaces cs l 0 = 0"
| "trim_spaces cs l (Suc r) = (if l < Suc r \<and> con_copy_space (cell_text (cs ! r)) then trim_spaces cs l r else Suc r)"

definition row_window :: "charmap_line list \<Rightarrow> search_match \<Rightarrow> bool \<Rightarrow> nat \<Rightarrow> nat \<times> nat" where
  "row_window rs span blk i =
     (let row = rs ! i; a = pos_column (fst span); b = pos_column (snd span); p = pos_line (fst span); q = pos_line (snd span);
          lim = copy_limit row in
      if blk then (let (l, r) = block_columns row a b in (l, trim_spaces (cells row) l r))
      else if p = q then (min (min a b) lim, min (max a b) lim)
      else (if i = p then min a lim else 0, if i = q then min b lim else lim))"

definition row_copy :: "charmap_line list \<Rightarrow> search_match \<Rightarrow> bool \<Rightarrow> bool \<Rightarrow> bool \<Rightarrow> nat \<Rightarrow> byte list" where
  "row_copy rs span utf8 ex blk i =
     (let row = rs ! i; (l, r) = row_window rs span blk i;
          a = pos_column (fst span); b = pos_column (snd span); p = pos_line (fst span); q = pos_line (snd span);
          e = (if p = q then max a b else b);
          newline = (if blk then i \<noteq> q else wrapColumns row = 0 \<and> (i \<noteq> q \<or> (\<not> ex \<and> e \<ge> line_size row)))
      in concat (map (\<lambda>c. if cell_text c = SEARCH_WIDE_CONT then [] else copy_bytes utf8 (cell_text c))
           (drop l (take r (cells row)))) @ (if newline then copy_bytes utf8 0x0D else []))"

definition copied :: "charmap_line list \<Rightarrow> search_match \<Rightarrow> bool \<Rightarrow> bool \<Rightarrow> bool \<Rightarrow> byte list" where
  "copied rs span utf8 ex blk = concat (map (row_copy rs span utf8 ex blk) [pos_line (fst span)..<Suc (pos_line (snd span))])"

section \<open>Trimming and windows\<close>

lemma trim_erased_bound: "trim_erased cs n \<le> n"
  by (induction n) auto

lemma trim_spaces_bound: "trim_spaces cs l r \<le> r"
  by (induction r) auto

lemma trim_spaces_left: "l \<le> r \<Longrightarrow> l \<le> trim_spaces cs l r"
  by (induction r) auto

lemma copy_limit_bound: "copy_limit row \<le> line_size row"
  using trim_erased_bound [of "cells row" "line_size row"] by (auto simp: copy_limit_def Let_def)

lemma row_window_bound: "snd (row_window rs span blk i) \<le> line_size (rs ! i)"
proof -
  have b: "snd (block_columns row x y) \<le> line_size row" for row x y
    using copy_limit_bound [of row] by (auto simp: block_columns_def Let_def)
  have t: "trim_spaces cs l r \<le> n" if "r \<le> n" for cs l r n
    using trim_spaces_bound [of cs l r] that by linarith
  have m: "min x (copy_limit (rs ! i)) \<le> line_size (rs ! i)" for x using copy_limit_bound [of "rs ! i"] by linarith
  show ?thesis
    using b [of "rs ! i" "pos_column (fst span)" "pos_column (snd span)"] m copy_limit_bound [of "rs ! i"]
    by (auto simp: row_window_def Let_def split: prod.splits intro!: t)
qed

section \<open>The invariant of a pass\<close>

definition copy_chars :: "bool \<Rightarrow> charmap_line \<Rightarrow> nat \<Rightarrow> nat \<Rightarrow> byte list" where
  "copy_chars utf8 row l r = concat (map (\<lambda>c. if cell_text c = SEARCH_WIDE_CONT then [] else copy_bytes utf8 (cell_text c))
     (drop l (take r (cells row))))"

definition row_newline :: "charmap_line list \<Rightarrow> search_match \<Rightarrow> bool \<Rightarrow> bool \<Rightarrow> nat \<Rightarrow> bool" where
  "row_newline rs span ex blk i =
     (let row = rs ! i; a = pos_column (fst span); b = pos_column (snd span); p = pos_line (fst span); q = pos_line (snd span);
          e = (if p = q then max a b else b)
      in if blk then i \<noteq> q else wrapColumns row = 0 \<and> (i \<noteq> q \<or> (\<not> ex \<and> e \<ge> line_size row)))"

lemma row_copy_eq:
  "row_copy rs span utf8 ex blk i = copy_chars utf8 (rs ! i) (fst (row_window rs span blk i)) (snd (row_window rs span blk i)) @
     (if row_newline rs span ex blk i then copy_bytes utf8 0x0D else [])"
  by (simp add: row_copy_def copy_chars_def row_newline_def Let_def split_beta)

lemma copy_chars_step:
  assumes "l < r" and "r \<le> length (cells row)"
  shows "copy_chars utf8 row l r =
    (if cell_text (cells row ! l) = SEARCH_WIDE_CONT then [] else copy_bytes utf8 (cell_text (cells row ! l))) @ copy_chars utf8 row (Suc l) r"
proof -
  have "drop l (take r (cells row)) = cells row ! l # drop (Suc l) (take r (cells row))"
    using assms by (simp add: Cons_nth_drop_Suc [symmetric])
  then show ?thesis by (simp add: copy_chars_def)
qed

lemma copy_chars_over: "\<not> l < r \<or> cells row = [] \<Longrightarrow> copy_chars utf8 row l r = []"
  by (auto simp: copy_chars_def)

text \<open>The range and the options a state carries.\<close>

definition carries :: "search_match \<Rightarrow> bool \<Rightarrow> bool \<Rightarrow> bool \<Rightarrow> con_copy_encode \<Rightarrow> bool" where
  "carries span utf8 ex blk s \<longleftrightarrow> ce_first s = pos_line (fst span) \<and> ce_last s = pos_line (snd span) \<and>
     minx s = pos_column (fst span) \<and> maxx s = pos_column (snd span) \<and> ce_utf8 s = utf8 \<and> exact s = ex \<and> ce_block s = blk"

text \<open>What the row under way still contributes, and what the phases have established.\<close>

definition row_rest :: "charmap_line list \<Rightarrow> search_match \<Rightarrow> bool \<Rightarrow> bool \<Rightarrow> bool \<Rightarrow> con_copy_encode \<Rightarrow> byte list" where
  "row_rest rs span utf8 ex blk s =
     (if phase s \<le> 2 then row_copy rs span utf8 ex blk (ce_line s)
      else copy_chars utf8 (rs ! ce_line s) (ce_column s) (right s) @
        (if row_newline rs span ex blk (ce_line s) then copy_bytes utf8 0x0D else []))"

definition phase_inv :: "charmap_line list \<Rightarrow> search_match \<Rightarrow> bool \<Rightarrow> con_copy_encode \<Rightarrow> bool" where
  "phase_inv rs span blk s \<longleftrightarrow>
     (let row = rs ! ce_line s; (l, r) = row_window rs span blk (ce_line s) in
      phase s \<le> 3 \<and>
      (phase s = 1 \<longrightarrow> ce_limit s \<le> line_size row \<and> trim_erased (cells row) (ce_limit s) = trim_erased (cells row) (line_size row)) \<and>
      (phase s = 2 \<longrightarrow> left s = l \<and> right s \<le> line_size row \<and> (if blk then trim_spaces (cells row) l (right s) = r else right s = r)) \<and>
      (phase s = 3 \<longrightarrow> right s = r))"

definition rows_after :: "charmap_line list \<Rightarrow> search_match \<Rightarrow> bool \<Rightarrow> bool \<Rightarrow> bool \<Rightarrow> nat \<Rightarrow> byte list" where
  "rows_after rs span utf8 ex blk i = concat (map (row_copy rs span utf8 ex blk) [Suc i..<Suc (pos_line (snd span))])"

definition copy_ok :: "charmap_line list \<Rightarrow> search_match \<Rightarrow> bool \<Rightarrow> bool \<Rightarrow> bool \<Rightarrow> byte list \<Rightarrow> con_copy_encode \<Rightarrow> bool" where
  "copy_ok rs span utf8 ex blk out s \<longleftrightarrow> carries span utf8 ex blk s \<and> ce_line s \<le> pos_line (snd span) \<and>
     \<not> ce_finished s \<and> \<not> ce_failed s \<and> phase_inv rs span blk s \<and> ce_offset s = length out \<and>
     out @ row_rest rs span utf8 ex blk s @ rows_after rs span utf8 ex blk (ce_line s) = copied rs span utf8 ex blk \<and>
     (writing s \<longrightarrow> ce_size s = length (copied rs span utf8 ex blk) \<and> length (ce_buffer s) = ce_size s \<and> take (length out) (ce_buffer s) = out)"

definition row_work :: "charmap_line \<Rightarrow> con_copy_encode \<Rightarrow> nat" where
  "row_work row s =
     (if phase s = 0 then 3 * line_size row + 6
      else if phase s = 1 then ce_limit s + 2 * line_size row + 5
      else if phase s = 2 then right s + line_size row + 3
      else right s - ce_column s + 1)"

definition copy_work :: "charmap_line list \<Rightarrow> search_match \<Rightarrow> con_copy_encode \<Rightarrow> nat" where
  "copy_work rs span s = row_work (rs ! ce_line s) s +
     sum_list (map (\<lambda>i. 3 * line_size (rs ! i) + 6) [Suc (ce_line s)..<Suc (pos_line (snd span))])"

section \<open>One unit of a pass\<close>

lemma put_ok:
  assumes o: "ce_offset s = length out" and len: "length out + length bs \<le> tot" "tot < ulong_max"
    and bs: "bs = (if cp = SEARCH_WIDE_CONT then [] else copy_bytes (ce_utf8 s) cp)"
    and w: "writing s \<Longrightarrow> ce_size s = tot \<and> length (ce_buffer s) = tot \<and> take (length out) (ce_buffer s) = out"
  shows "\<exists>buf. con_copy_put s cp = Some (True, s\<lparr>ce_buffer := buf, ce_offset := length (out @ bs)\<rparr>) \<and>
    (writing s \<longrightarrow> length buf = tot \<and> take (length (out @ bs)) buf = out @ bs)"
proof (cases "cp = SEARCH_WIDE_CONT")
  case True
  then show ?thesis using o bs w by (intro exI [of _ "ce_buffer s"]) (auto simp: con_copy_put_def)
next
  case False
  have ok: "\<not> (ce_offset s > ulong_max - length bs - 1 \<or> (writing s \<and> (ce_offset s > ce_size s \<or> length bs > ce_size s - ce_offset s)))"
    using o len w by auto
  have bs': "copy_bytes (ce_utf8 s) cp = bs" using False bs by simp
  have e: "con_copy_put s cp = (do {
      buf \<leftarrow> (if writing s then store_at (ce_buffer s) (ce_offset s) bs else Some (ce_buffer s));
      Some (True, s\<lparr>ce_buffer := buf, ce_offset := ce_offset s + length bs\<rparr>) })"
    using False unfolding con_copy_put_def Let_def bs' if_not_P [OF ok] by simp
  show ?thesis
  proof (cases "writing s")
    case True
    then have "store_at (ce_buffer s) (ce_offset s) bs = Some (out @ bs @ drop (length out + length bs) (ce_buffer s))"
      using w o len by (auto simp: store_at_def)
    then show ?thesis using e True w len o by (intro exI [of _ "out @ bs @ drop (length out + length bs) (ce_buffer s)"]) auto
  next
    case False
    then show ?thesis using e o by (intro exI [of _ "ce_buffer s"]) auto
  qed
qed

text \<open>How a unit ends.\<close>

definition unit_good :: "charmap_line list \<Rightarrow> search_match \<Rightarrow> bool \<Rightarrow> bool \<Rightarrow> bool \<Rightarrow> con_copy_encode \<Rightarrow>
    con_copy_result option \<times> con_copy_encode \<Rightarrow> bool" where
  "unit_good rs span utf8 ex blk s res \<longleftrightarrow>
     (case res of
        (None, s') \<Rightarrow> writing s' = writing s \<and> (\<exists>out. copy_ok rs span utf8 ex blk out s') \<and> copy_work rs span s' < copy_work rs span s
      | (Some a, s') \<Rightarrow> a = (if writing s then CON_COPY_DONE else CON_COPY_MEASURED) \<and> carries span utf8 ex blk s' \<and>
          ce_finished s' \<and> \<not> ce_failed s' \<and> writing s' = writing s \<and> ce_size s' = length (copied rs span utf8 ex blk) \<and>
          (writing s \<longrightarrow> ce_buffer s' = copied rs span utf8 ex blk))"

lemma window_total:
  assumes r: "nav_rows rs" and i: "ce_line s < length rs" and lim: "ce_limit s = trim_erased (cells (rs ! ce_line s)) (line_size (rs ! ce_line s))"
    and c: "carries span utf8 ex blk s" and le: "pos_line (fst span) \<le> ce_line s" "ce_line s \<le> pos_line (snd span)"
  obtains l r where "copy_window rs s = Some (s\<lparr>ce_limit := copy_limit (rs ! ce_line s), left := l, right := r, phase := 2\<rparr>)"
    and "l = fst (row_window rs span blk (ce_line s))" and "r \<le> line_size (rs ! ce_line s)"
    and "if blk then trim_spaces (cells (rs ! ce_line s)) l r = snd (row_window rs span blk (ce_line s))
         else r = snd (row_window rs span blk (ce_line s))"
proof -
  define row where "row = rs ! ce_line s"
  define n where "n = line_size row"
  define i where "i = ce_line s"
  have irow: "rs ! i = row" by (simp add: row_def i_def)
  have sz: "n \<le> length (cells row)" using nav_row(1) [OF r i] by (simp add: row_def n_def)
  have cell: "nav_cell rs i j = Some (cell_text (cells row ! j))" if "j < n" for j
    using nav_cell_total(1) [OF r i, of j] that i by (simp add: row_def n_def i_def shown_text_def)
  define a where "a = pos_column (fst span)"
  define b where "b = pos_column (snd span)"
  define p where "p = pos_line (fst span)"
  define q where "q = pos_line (snd span)"
  have cc: "ce_first s = p" "ce_last s = q" "minx s = a" "maxx s = b" "ce_block s = blk" using c by (simp_all add: carries_def a_def b_def p_def q_def)
  define lim0 where "lim0 = trim_erased (cells row) n"
  have l0: "ce_limit s = lim0" "lim0 \<le> n" using lim trim_erased_bound by (simp_all add: lim0_def row_def n_def)
  define pad where "pad \<longleftrightarrow> wrapColumns row = lim0 \<and> lim0 \<noteq> 0 \<and> wrapPadding row \<noteq> 0 \<and> cell_text (cells row ! (lim0 - 1)) = 0x20"
  define lm where "lm = copy_limit row"
  have lm: "lm = (if pad then lim0 - 1 else lim0)" "lm \<le> n"
    using copy_limit_bound [of row] by (auto simp: lm_def copy_limit_def Let_def pad_def lim0_def n_def)
  have padq: "(if wrapColumns row = lim0 \<and> wrapColumns row \<noteq> 0 \<and> wrapPadding row \<noteq> 0
      then do { cp \<leftarrow> nav_cell rs i (lim0 - 1); Some (cp = 0x20) } else Some False) = Some pad"
    using cell [of "lim0 - 1"] l0(2) by (auto simp: pad_def)
  define l3 where "l3 = fst (copy_columns s lm)"
  define r3 where "r3 = snd (copy_columns s lm)"
  have cols: "copy_columns s lm = (l3, r3)" by (simp add: l3_def r3_def)
  have lr: "l3 = (if blk then min (min a b) lm else if p = q then min (min a b) lm else if i = p then min a lm else 0)"
    "r3 = (if blk then min (max a b) lm else if p = q then min (max a b) lm else if i = q then min b lm else lm)"
    using le unfolding l3_def r3_def copy_columns_def Let_def cc i_def [symmetric] p_def [symmetric] q_def [symmetric]
    by (simp_all add: min_def max_def)
  have l3n: "l3 \<le> n" "r3 \<le> n" using lm(2) by (auto simp: lr)
  define lw where "lw \<longleftrightarrow> blk \<and> l3 \<noteq> 0 \<and> l3 < n \<and> cell_text (cells row ! l3) = SEARCH_WIDE_CONT"
  define rw where "rw \<longleftrightarrow> blk \<and> r3 < n \<and> cell_text (cells row ! r3) = SEARCH_WIDE_CONT"
  define l where "l = (if lw then l3 - 1 else l3)"
  define r' where "r' = (if rw then r3 + 1 else r3)"
  have eq: "copy_window rs s = Some (s\<lparr>ce_limit := lm, left := l, right := r', phase := 2\<rparr>)"
    unfolding copy_window_def Let_def i_def [symmetric] irow l0(1) padq bind.bind_lunit lm(1) [symmetric] cols n_def [symmetric] cc
    using cell by (auto simp: l_def r'_def lw_def rw_def SEARCH_WIDE_CONT_def)
  have rn: "r' \<le> n" using l3n by (auto simp: r'_def rw_def)
  have win: "row_window rs span blk i =
      (if blk then (l, trim_spaces (cells row) l r') else (l3, r3))"
    unfolding row_window_def Let_def a_def [symmetric] b_def [symmetric] p_def [symmetric] q_def [symmetric] irow block_columns_def
      lm_def [symmetric] n_def [symmetric]
    by (auto simp: lr l_def r'_def lw_def rw_def)
  have plain: "l3 = l" "r3 = r'" if "\<not> blk" using that by (simp_all add: l_def r'_def lw_def rw_def)
  have eq': "copy_window rs s = Some (s\<lparr>ce_limit := copy_limit (rs ! ce_line s), left := l, right := r', phase := 2\<rparr>)"
    using eq by (simp add: lm_def row_def)
  show thesis
    by (rule that [OF eq']) (use rn win plain in \<open>auto simp: irow i_def [symmetric] n_def\<close>)
qed

lemma put_next:
  assumes n: "nv = length (copied rs span utf8 ex blk)" "nv < ulong_max" and c: "carries span utf8 ex blk s"
    and o: "ce_offset s = length out" and fin: "out @ bs @ rem = copied rs span utf8 ex blk"
    and bs: "bs = (if cp = SEARCH_WIDE_CONT then [] else copy_bytes utf8 cp)"
    and w: "writing s \<longrightarrow> ce_size s = nv \<and> length (ce_buffer s) = ce_size s \<and> take (length out) (ce_buffer s) = out"
  obtains buf where "con_copy_put s cp = Some (True, s\<lparr>ce_buffer := buf, ce_offset := length (out @ bs)\<rparr>)"
    and "writing s \<longrightarrow> ce_size s = nv \<and> length buf = ce_size s \<and> take (length (out @ bs)) buf = out @ bs"
proof -
  have "length out + length bs \<le> nv" using n(1) fin [symmetric] by simp
  moreover have "bs = (if cp = SEARCH_WIDE_CONT then [] else copy_bytes (ce_utf8 s) cp)" using bs c by (simp add: carries_def)
  ultimately show thesis using put_ok [OF o _ n(2), of bs cp] w that by metis
qed

lemma row_end_good:
  assumes r: "nav_rows rs" and q: "pos_line (snd span) < length rs" and n: "length (copied rs span utf8 ex blk) < ulong_max"
    and ok: "copy_ok rs span utf8 ex blk out s" and ph: "phase s = 3" and over: "\<not> (ce_column s < right s \<and> cells (rs ! ce_line s) \<noteq> [])"
  shows "\<exists>res. copy_row_end rs s = Some res \<and> unit_good rs span utf8 ex blk s res"
proof -
  note k = ok [unfolded copy_ok_def]
  define i where "i = ce_line s"
  have c: "carries span utf8 ex blk s" using k by blast
  define nl where "nl = row_newline rs span ex blk i"
  define bs where "bs = (if nl then copy_bytes utf8 0x0D else [])"
  define qq where "qq = pos_line (snd span)"
  have rest: "row_rest rs span utf8 ex blk s = bs" using ph over copy_chars_over [of "ce_column s" "right s" "rs ! i" utf8]
    by (auto simp: row_rest_def bs_def nl_def i_def)
  define rem where "rem = rows_after rs span utf8 ex blk i"
  have fin: "out @ bs @ rem = copied rs span utf8 ex blk" using k rest by (simp add: rem_def i_def)
  have bs': "bs = (if (0x0D :: codepoint) = SEARCH_WIDE_CONT then [] else copy_bytes utf8 0x0D)" if nl
    using that by (simp add: bs_def SEARCH_WIDE_CONT_def)
  have wr: "writing s \<longrightarrow> ce_size s = length (copied rs span utf8 ex blk) \<and> length (ce_buffer s) = ce_size s \<and> take (length out) (ce_buffer s) = out"
    using k by blast
  have off: "ce_offset s = length out" using k by blast
  obtain buf where put: "(if nl then con_copy_put s 0x0D else Some (True, s)) = Some (True, s\<lparr>ce_buffer := buf, ce_offset := length (out @ bs)\<rparr>)"
    and bw: "writing s \<longrightarrow> ce_size s = length (copied rs span utf8 ex blk) \<and> length buf = ce_size s \<and> take (length (out @ bs)) buf = out @ bs"
  proof (cases nl)
    case True
    then show thesis using put_next [OF refl n c off fin bs' [OF True] wr] that by auto
  next
    case False
    then show thesis using that [of "ce_buffer s"] off wr by (simp add: bs_def)
  qed
  have e: "(if ce_first s = ce_last s \<and> minx s > maxx s then minx s else maxx s) =
      (if pos_line (fst span) = pos_line (snd span) then max (pos_column (fst span)) (pos_column (snd span)) else pos_column (snd span))"
    using c by (auto simp: carries_def)
  have nl': "(if ce_block s then \<not> (ce_line s = ce_last s) else wrapColumns (rs ! ce_line s) = 0 \<and>
      (\<not> (ce_line s = ce_last s) \<or> (\<not> exact s \<and> (if ce_first s = ce_last s \<and> minx s > maxx s then minx s else maxx s) \<ge> line_size (rs ! ce_line s)))) = nl"
    unfolding e using c by (simp add: carries_def nl_def row_newline_def Let_def i_def)
  have eq: "copy_row_end rs s = Some
      (let s1 = s\<lparr>ce_buffer := buf, ce_offset := length (out @ bs)\<rparr> in
       if i = qq then
         let s2 = s1\<lparr>ce_finished := True\<rparr> in
         if \<not> writing s2 then (Some CON_COPY_MEASURED, s2\<lparr>ce_size := ce_offset s2\<rparr>)
         else if ce_offset s2 \<noteq> ce_size s2 then (Some CON_COPY_ERROR, s2\<lparr>ce_failed := True\<rparr>)
         else (Some CON_COPY_DONE, s2)
       else (None, s1\<lparr>ce_line := i + 1, phase := 0\<rparr>))"
    unfolding copy_row_end_def Let_def nl' put bind.bind_lunit using c by (simp add: carries_def i_def qq_def)
  show ?thesis
  proof (cases "i = qq")
    case True
    then have "rem = []" by (simp add: rem_def rows_after_def qq_def)
    then have len: "length (out @ bs) = length (copied rs span utf8 ex blk)" "out @ bs = copied rs span utf8 ex blk" using fin by simp_all
    have bf: "buf = copied rs span utf8 ex blk" if wt: "writing s"
    proof -
      have "length buf = length (out @ bs)" "take (length (out @ bs)) buf = out @ bs" using bw wt len(1) by simp_all
      then have "buf = out @ bs" by (metis take_all order_refl)
      then show ?thesis using len(2) by (rule trans)
    qed
    have sz: "writing s \<Longrightarrow> ce_size s = length (copied rs span utf8 ex blk)" and nf: "\<not> ce_failed s" using k by blast+
    define s2 where "s2 = s\<lparr>ce_buffer := buf, ce_offset := length (out @ bs), ce_finished := True\<rparr>"
    have c2: "carries span utf8 ex blk s2" "carries span utf8 ex blk (s2\<lparr>ce_size := length (out @ bs)\<rparr>)" using c by (simp_all add: s2_def carries_def)
    show ?thesis
    proof (cases "writing s")
      case wt: True
      have "copy_row_end rs s = Some (Some CON_COPY_DONE, s2)"
        using eq True wt sz [OF wt] len(1) by (simp add: Let_def s2_def)
      then show ?thesis using c2(1) nf wt sz [OF wt] bf [OF wt] by (simp add: unit_good_def s2_def)
    next
      case nw: False
      have "copy_row_end rs s = Some (Some CON_COPY_MEASURED, s2\<lparr>ce_size := length (out @ bs)\<rparr>)"
        using eq True nw by (simp add: Let_def s2_def)
      then show ?thesis using c2(2) nf nw len(1) by (simp add: unit_good_def s2_def)
    qed
  next
    case False
    define s1 where "s1 = s\<lparr>ce_buffer := buf, ce_offset := length (out @ bs), ce_line := i + 1, phase := 0\<rparr>"
    have lt: "i < qq" using False k by (simp add: i_def qq_def)
    then have up: "[Suc i..<Suc qq] = Suc i # [Suc (Suc i)..<Suc qq]" by (simp add: upt_conv_Cons)
    have rem: "row_copy rs span utf8 ex blk (Suc i) @ rows_after rs span utf8 ex blk (Suc i) = rem"
      unfolding rem_def rows_after_def qq_def [symmetric] up by simp
    have "copy_ok rs span utf8 ex blk (out @ bs) s1"
      using k fin rem bw lt by (simp add: copy_ok_def s1_def carries_def phase_inv_def row_rest_def qq_def split_beta)
    moreover have "copy_work rs span s1 < copy_work rs span s"
      unfolding copy_work_def using ph lt up by (simp add: s1_def row_work_def i_def [symmetric] qq_def [symmetric])
    ultimately show ?thesis using eq False by (auto simp: unit_good_def s1_def)
  qed
qed

text \<open>A unit within a row, one for each phase.\<close>

lemma phase_good:
  assumes ok: "copy_ok rs span utf8 ex blk out s" and s': "carries span utf8 ex blk s'" "ce_line s' = ce_line s"
    "ce_finished s' = ce_finished s" "ce_failed s' = ce_failed s" "ce_offset s' = ce_offset s" "writing s' = writing s"
    "ce_size s' = ce_size s" "ce_buffer s' = ce_buffer s"
    and ph: "phase_inv rs span blk s'" "row_rest rs span utf8 ex blk s' = row_rest rs span utf8 ex blk s"
    and wk: "row_work (rs ! ce_line s) s' < row_work (rs ! ce_line s) s"
  shows "unit_good rs span utf8 ex blk s (None, s')"
proof -
  have "copy_ok rs span utf8 ex blk out s'" using ok s' ph by (simp add: copy_ok_def)
  then show ?thesis using s' wk by (auto simp: unit_good_def copy_work_def)
qed

lemma copy_unit_good:
  assumes r: "nav_rows rs" and q: "pos_line (snd span) < length rs" and n: "length (copied rs span utf8 ex blk) < ulong_max"
    and ok: "copy_ok rs span utf8 ex blk out s" and p: "pos_line (fst span) \<le> ce_line s"
  shows "\<exists>res. copy_unit rs s = Some res \<and> unit_good rs span utf8 ex blk s res \<and>
    (fst res = None \<longrightarrow> ce_line s \<le> ce_line (snd res))"
proof -
  define i where "i = ce_line s"
  define row where "row = rs ! i"
  note k = ok [unfolded copy_ok_def]
  have c: "carries span utf8 ex blk s" and inv: "phase_inv rs span blk s" and iq: "i \<le> pos_line (snd span)" using k by (simp_all add: i_def)
  have i: "i < length rs" using iq q by simp
  note sz = nav_row [OF r i]
  obtain l rr where w: "row_window rs span blk i = (l, rr)" by (cases "row_window rs span blk i") auto
  have rrn: "rr \<le> line_size row" using row_window_bound [of rs span blk i] w by (simp add: row_def)
  have cell: "nav_cell rs i j = Some (cell_text (cells row ! j))" if "j < line_size row" for j
    using nav_cell_total(1) [OF r i, of j] that i by (simp add: row_def shown_text_def)
  have ph3: "phase s \<le> 3" using inv by (simp add: phase_inv_def split_beta Let_def)
  note unit = copy_unit_def Let_def i_def [symmetric] row_def [symmetric]
  note fields = carries_def
  consider "phase s = 0" | (trim) "phase s = 1" "ce_limit s \<noteq> 0" "cell_text (cells row ! (ce_limit s - 1)) = 0x20 \<and> cell_flags (cells row ! (ce_limit s - 1)) = CHARMAP_ERASED"
    | (window) "phase s = 1" "\<not> (ce_limit s \<noteq> 0 \<and> cell_text (cells row ! (ce_limit s - 1)) = 0x20 \<and> cell_flags (cells row ! (ce_limit s - 1)) = CHARMAP_ERASED)"
    | (space) "phase s = 2" "blk \<and> right s > left s \<and> con_copy_space (cell_text (cells row ! (right s - 1)))"
    | (start) "phase s = 2" "\<not> (blk \<and> right s > left s \<and> con_copy_space (cell_text (cells row ! (right s - 1))))"
    | (char) "phase s = 3" "ce_column s < right s \<and> cells row \<noteq> []" | (over) "phase s = 3" "\<not> (ce_column s < right s \<and> cells row \<noteq> [])"
    using ph3 by (metis One_nat_def le_Suc_eq le_zero_eq numeral_2_eq_2 numeral_3_eq_3)
  then show ?thesis
  proof cases
    case 1
    define s' where "s' = s\<lparr>ce_limit := line_size row, phase := 1\<rparr>"
    have "unit_good rs span utf8 ex blk s (None, s')"
      using c by (intro phase_good [OF ok]) (simp_all add: s'_def fields phase_inv_def row_rest_def row_work_def 1 i_def [symmetric] row_def [symmetric] split_beta)
    moreover have "copy_unit rs s = Some (None, s')" using 1 i by (simp add: unit s'_def)
    ultimately show ?thesis by (auto simp: s'_def)
  next
    case trim
    define s' where "s' = s\<lparr>ce_limit := ce_limit s - 1\<rparr>"
    have lim: "ce_limit s \<le> line_size row" "trim_erased (cells row) (ce_limit s) = trim_erased (cells row) (line_size row)"
      using inv trim(1) by (simp_all add: phase_inv_def i_def [symmetric] row_def [symmetric] split_beta Let_def)
    obtain m where m: "ce_limit s = Suc m" using trim(2) by (cases "ce_limit s") auto
    have t: "trim_erased (cells row) m = trim_erased (cells row) (line_size row)" using lim(2) trim(3) m by simp
    have "unit_good rs span utf8 ex blk s (None, s')"
      using c lim(1) m t trim(1) by (intro phase_good [OF ok])
        (simp_all add: s'_def fields phase_inv_def row_rest_def row_work_def i_def [symmetric] row_def [symmetric] split_beta)
    moreover have "copy_unit rs s = Some (None, s')"
      using trim i lim(1) m sz by (auto simp: unit s'_def cell_at_def)
    ultimately show ?thesis by (auto simp: s'_def)
  next
    case window
    have lim: "ce_limit s \<le> line_size row" "trim_erased (cells row) (ce_limit s) = trim_erased (cells row) (line_size row)"
      using inv window(1) by (simp_all add: phase_inv_def i_def [symmetric] row_def [symmetric] split_beta Let_def)
    have lt: "ce_limit s = trim_erased (cells row) (line_size row)"
      using lim(2) window(2) by (cases "ce_limit s") auto
    obtain l' r' where w': "copy_window rs s = Some (s\<lparr>ce_limit := copy_limit row, left := l', right := r', phase := 2\<rparr>)"
      "l' = fst (row_window rs span blk i)" "r' \<le> line_size row"
      "if blk then trim_spaces (cells row) l' r' = snd (row_window rs span blk i) else r' = snd (row_window rs span blk i)"
      using window_total [OF r _ _ c p] i lt iq unfolding i_def [symmetric] row_def [symmetric] by metis
    define s' where "s' = s\<lparr>ce_limit := copy_limit row, left := l', right := r', phase := 2\<rparr>"
    have tr: "blk \<Longrightarrow> trim_spaces (cells row) l r' = rr" "\<not> blk \<Longrightarrow> r' = rr" using w'(2,4) w by simp_all
    have "unit_good rs span utf8 ex blk s (None, s')"
      using c w'(2,3) tr w window(1) by (intro phase_good [OF ok])
        (simp_all add: s'_def fields phase_inv_def row_rest_def row_work_def i_def [symmetric] row_def [symmetric] split_beta)
    moreover have "copy_unit rs s = Some (None, s')"
    proof -
      have blank: "(if ce_limit s \<noteq> 0 \<and> cells row \<noteq> [] then do {
          ch \<leftarrow> cell_at row (ce_limit s - 1); Some (cell_text ch = 0x20 \<and> cell_flags ch = CHARMAP_ERASED) } else Some False) = Some False"
        using window(2) lim(1) sz by (auto simp: cell_at_def row_def)
      show ?thesis using window(1) i w'(1) unfolding unit blank by (simp add: s'_def)
    qed
    ultimately show ?thesis by (auto simp: s'_def)
  next
    case space
    have rl: "left s = l" "right s \<le> line_size row" "trim_spaces (cells row) l (right s) = rr"
      using inv space w by (simp_all add: phase_inv_def i_def [symmetric] row_def [symmetric] split_beta Let_def)
    obtain m where m: "right s = Suc m" using space(2) by (cases "right s") auto
    have t: "trim_spaces (cells row) l m = rr" using rl m space(2) by (simp split: if_splits)
    define s' where "s' = s\<lparr>right := right s - 1\<rparr>"
    have "unit_good rs span utf8 ex blk s (None, s')"
      using c rl m t space w by (intro phase_good [OF ok])
        (simp_all add: s'_def fields phase_inv_def row_rest_def row_work_def i_def [symmetric] row_def [symmetric] split_beta)
    moreover have "copy_unit rs s = Some (None, s')"
    proof -
      have "cells row \<noteq> []" using rl(2) m sz by (auto simp: row_def)
      then have sp: "(if ce_block s \<and> right s > left s \<and> cells row \<noteq> [] then map_option con_copy_space (nav_cell rs i (right s - 1)) else Some False) = Some True"
        using space(2) c rl(2) cell [of "right s - 1"] m by (simp add: fields)
      show ?thesis using space(1) i unfolding unit sp by (simp add: s'_def)
    qed
    ultimately show ?thesis by (auto simp: s'_def)
  next
    case start
    have rl: "left s = l" "right s \<le> line_size row" "if blk then trim_spaces (cells row) l (right s) = rr else right s = rr"
      using inv start(1) w by (cases blk; simp add: phase_inv_def i_def [symmetric] row_def [symmetric] split_beta Let_def)+
    have t: "right s = rr" using rl start(2) by (cases "right s") (auto split: if_splits)
    define s' where "s' = s\<lparr>ce_column := left s, phase := 3\<rparr>"
    have rc: "row_copy rs span utf8 ex blk i = copy_chars utf8 row l rr @ (if row_newline rs span ex blk i then copy_bytes utf8 0x0D else [])"
      using w by (simp add: row_copy_eq row_def)
    have "unit_good rs span utf8 ex blk s (None, s')"
      using c rl(1,2) t start(1) w rc by (intro phase_good [OF ok])
        (simp_all add: s'_def fields phase_inv_def row_rest_def row_work_def i_def [symmetric] row_def [symmetric] split_beta)
    moreover have "copy_unit rs s = Some (None, s')"
    proof -
      have still: "(if ce_block s \<and> right s > left s \<and> cells row \<noteq> [] then map_option con_copy_space (nav_cell rs i (right s - 1)) else Some False) = Some False"
        using start(2) c rl(2) cell [of "right s - 1"] by (auto simp: fields)
      show ?thesis using start(1) i unfolding unit still by (simp add: s'_def)
    qed
    ultimately show ?thesis by (auto simp: s'_def)
  next
    case char
    have rl: "right s = rr" using inv char w by (simp add: phase_inv_def i_def [symmetric] split_beta Let_def)
    define j where "j = ce_column s"
    have j: "j < rr" "rr \<le> length (cells row)" using char rl rrn sz by (simp_all add: j_def row_def)
    define cp where "cp = cell_text (cells row ! j)"
    define bs where "bs = (if cp = SEARCH_WIDE_CONT then [] else copy_bytes utf8 cp)"
    define rem where "rem = (copy_chars utf8 row (Suc j) rr @ (if row_newline rs span ex blk i then copy_bytes utf8 0x0D else [])) @
      rows_after rs span utf8 ex blk i"
    have rest: "row_rest rs span utf8 ex blk s = bs @ copy_chars utf8 row (Suc j) rr @ (if row_newline rs span ex blk i then copy_bytes utf8 0x0D else [])"
      using char(1) rl copy_chars_step [OF j, of utf8] by (simp add: row_rest_def i_def [symmetric] row_def [symmetric] j_def [symmetric] bs_def cp_def)
    define s0 where "s0 = s\<lparr>ce_column := ce_column s + 1\<rparr>"
    have fin: "out @ bs @ rem = copied rs span utf8 ex blk" using k rest by (simp add: rem_def i_def)
    have s0: "carries span utf8 ex blk s0" "ce_offset s0 = length out"
      "writing s0 \<longrightarrow> ce_size s0 = length (copied rs span utf8 ex blk) \<and> length (ce_buffer s0) = ce_size s0 \<and> take (length out) (ce_buffer s0) = out"
      using k by (simp_all add: s0_def carries_def)
    obtain buf where put: "con_copy_put s0 cp = Some (True, s0\<lparr>ce_buffer := buf, ce_offset := length (out @ bs)\<rparr>)"
      and bw: "writing s0 \<longrightarrow> ce_size s0 = length (copied rs span utf8 ex blk) \<and> length buf = ce_size s0 \<and> take (length (out @ bs)) buf = out @ bs"
      using put_next [OF refl n s0(1,2) fin bs_def s0(3)] by metis
    define s' where "s' = s0\<lparr>ce_buffer := buf, ce_offset := length (out @ bs)\<rparr>"
    have rest': "row_rest rs span utf8 ex blk s' = copy_chars utf8 row (Suc j) rr @ (if row_newline rs span ex blk i then copy_bytes utf8 0x0D else [])"
      using char(1) rl by (simp add: row_rest_def s'_def s0_def i_def [symmetric] row_def [symmetric] j_def)
    have "copy_ok rs span utf8 ex blk (out @ bs) s'"
      using k fin rest' bw char(1) rl w
      by (simp add: copy_ok_def s'_def s0_def carries_def phase_inv_def rem_def i_def [symmetric] split_beta)
    moreover have "copy_work rs span s' < copy_work rs span s"
    proof -
      have "row_work row s' < row_work row s" using char rl diff_less_mono2 by (simp add: row_work_def s'_def s0_def)
      moreover have "ce_line s' = i" by (simp add: s'_def s0_def i_def)
      ultimately show ?thesis unfolding copy_work_def by (simp only: row_def i_def [symmetric] add_less_cancel_right)
    qed
    ultimately have "unit_good rs span utf8 ex blk s (None, s')" by (auto simp: unit_good_def s'_def s0_def)
    moreover have "copy_unit rs s = Some (None, s')"
      using char i cell [of j] j(1) rrn put unfolding unit s0_def [symmetric]
      by (simp add: s'_def j_def [symmetric] cp_def [symmetric])
    ultimately show ?thesis by (auto simp: s'_def s0_def)
  next
    case over
    have "copy_unit rs s = copy_row_end rs s"
      using over i by (auto simp: unit)
    moreover obtain res where res: "copy_row_end rs s = Some res" "unit_good rs span utf8 ex blk s res"
      using row_end_good [OF r q n ok over(1)] over(2) by (auto simp: row_def i_def)
    moreover have "ce_line s \<le> ce_line (snd res)" if "fst res = None"
      using res(1) that by (auto simp: copy_row_end_def Let_def con_copy_put_def split: if_splits Option.bind_splits)
    ultimately show ?thesis by auto
  qed
qed

section \<open>Two passes\<close>

text \<open>Calls with the given budgets, until one answers something other than more.\<close>

fun copy_calls :: "charmap_line list \<Rightarrow> con_copy_encode \<Rightarrow> nat list \<Rightarrow> (con_copy_result \<times> con_copy_encode) option" where
  "copy_calls rs s [] = Some (CON_COPY_MORE, s)"
| "copy_calls rs s (b # bs) = do {
     (r, s1) \<leftarrow> con_copy_step rs s b;
     (if r = CON_COPY_MORE then copy_calls rs s1 bs else Some (r, s1))
   }"

definition copy_bound :: "charmap_line list \<Rightarrow> search_match \<Rightarrow> nat" where
  "copy_bound rs span = sum_list (map (\<lambda>i. 3 * line_size (rs ! i) + 6) [pos_line (fst span)..<Suc (pos_line (snd span))]) + 1"

text \<open>A pass under way, with at least \<open>b\<close> units of its work done, or a pass that is over.\<close>

definition under_way :: "charmap_line list \<Rightarrow> search_match \<Rightarrow> bool \<Rightarrow> bool \<Rightarrow> bool \<Rightarrow> con_copy_encode \<Rightarrow> bool" where
  "under_way rs span utf8 ex blk s \<longleftrightarrow> pos_line (fst span) \<le> ce_line s \<and> (\<exists>out. copy_ok rs span utf8 ex blk out s)"

definition pass_good :: "charmap_line list \<Rightarrow> search_match \<Rightarrow> bool \<Rightarrow> bool \<Rightarrow> bool \<Rightarrow> nat \<Rightarrow> con_copy_encode \<Rightarrow>
    con_copy_result \<times> con_copy_encode \<Rightarrow> bool" where
  "pass_good rs span utf8 ex blk b s res \<longleftrightarrow>
     (fst res = CON_COPY_MORE \<and> under_way rs span utf8 ex blk (snd res) \<and> writing (snd res) = writing s \<and>
        copy_work rs span (snd res) + b \<le> copy_work rs span s) \<or>
     unit_good rs span utf8 ex blk s (Some (fst res), snd res)"

definition copy_fits :: "charmap_line list \<Rightarrow> search_match \<Rightarrow> bool \<Rightarrow> bool \<Rightarrow> bool \<Rightarrow> bool" where
  "copy_fits rs span utf8 ex blk \<longleftrightarrow> nav_rows rs \<and> pos_line (snd span) < length rs \<and> length (copied rs span utf8 ex blk) < ulong_max"

lemma loop_good:
  assumes fits: "copy_fits rs span utf8 ex blk"
  shows "under_way rs span utf8 ex blk s \<Longrightarrow> \<exists>res. copy_loop rs b s = Some res \<and> pass_good rs span utf8 ex blk b s res"
proof (induction b arbitrary: s)
  case 0
  then show ?case by (simp add: pass_good_def)
next
  case (Suc b)
  from Suc.prems obtain out where s: "copy_ok rs span utf8 ex blk out s" "pos_line (fst span) \<le> ce_line s" by (auto simp: under_way_def)
  obtain a s1 where u: "copy_unit rs s = Some (a, s1)" "unit_good rs span utf8 ex blk s (a, s1)" "a = None \<longrightarrow> ce_line s \<le> ce_line s1"
    using copy_unit_good [OF _ _ _ s] fits by (auto simp: copy_fits_def)
  show ?case
  proof (cases a)
    case None
    with u(2,3) s(2) have "under_way rs span utf8 ex blk s1" and k: "writing s1 = writing s" "copy_work rs span s1 < copy_work rs span s"
      by (auto simp: unit_good_def under_way_def)
    from Suc.IH [OF this(1)] obtain res where "copy_loop rs b s1 = Some res" "pass_good rs span utf8 ex blk b s1 res" by blast
    then show ?thesis using u(1) None k by (auto simp: pass_good_def unit_good_def)
  next
    case (Some x)
    then show ?thesis using u by (simp add: pass_good_def)
  qed
qed

lemma step_good: "copy_fits rs span utf8 ex blk \<Longrightarrow> under_way rs span utf8 ex blk s \<Longrightarrow> \<exists>res. con_copy_step rs s b = Some res \<and> pass_good rs span utf8 ex blk b s res"
  using loop_good [of rs span utf8 ex blk s b] by (auto simp: con_copy_step_def under_way_def copy_ok_def)

lemma calls_good:
  assumes fits: "copy_fits rs span utf8 ex blk"
  shows "under_way rs span utf8 ex blk s \<Longrightarrow> \<exists>res. copy_calls rs s bs = Some res \<and> pass_good rs span utf8 ex blk (sum_list bs) s res"
proof (induction bs arbitrary: s)
  case Nil
  then show ?case by (simp add: pass_good_def)
next
  case (Cons b bs)
  from step_good [OF fits Cons.prems, of b] obtain a s1 where u: "con_copy_step rs s b = Some (a, s1)" "pass_good rs span utf8 ex blk b s (a, s1)" by auto
  show ?case
  proof (cases "a = CON_COPY_MORE")
    case True
    with u(2) have k: "under_way rs span utf8 ex blk s1" "writing s1 = writing s" "copy_work rs span s1 + b \<le> copy_work rs span s"
      by (auto simp: pass_good_def unit_good_def split: if_splits)
    from Cons.IH [OF k(1)] obtain res where "copy_calls rs s1 bs = Some res" "pass_good rs span utf8 ex blk (sum_list bs) s1 res" by blast
    then show ?thesis using u(1) True k(2,3) by (auto simp: pass_good_def unit_good_def)
  next
    case False
    then show ?thesis using u by (auto simp: pass_good_def)
  qed
qed

lemma calls_end:
  assumes fits: "copy_fits rs span utf8 ex blk" and way: "under_way rs span utf8 ex blk s" and lt: "copy_work rs span s < sum_list bs"
  shows "\<exists>a s'. copy_calls rs s bs = Some (a, s') \<and> unit_good rs span utf8 ex blk s (Some a, s')"
proof -
  from calls_good [OF fits way, of bs] obtain res where "copy_calls rs s bs = Some res" "pass_good rs span utf8 ex blk (sum_list bs) s res" by blast
  with lt show ?thesis by (cases res) (auto simp: pass_good_def)
qed


lemma start_way:
  assumes c: "carries span utf8 ex blk s" and le: "pos_line (fst span) \<le> pos_line (snd span)"
    and s: "ce_line s = pos_line (fst span)" "phase s = 0" "ce_offset s = 0" "\<not> ce_finished s" "\<not> ce_failed s"
    and w: "writing s \<Longrightarrow> ce_size s = length (copied rs span utf8 ex blk) \<and> length (ce_buffer s) = ce_size s"
  shows "under_way rs span utf8 ex blk s" "copy_work rs span s < copy_bound rs span"
proof -
  have up: "[pos_line (fst span)..<Suc (pos_line (snd span))] = pos_line (fst span) # [Suc (pos_line (fst span))..<Suc (pos_line (snd span))]"
    using le by (simp add: upt_conv_Cons del: upt_Suc)
  have "copied rs span utf8 ex blk = row_copy rs span utf8 ex blk (ce_line s) @ rows_after rs span utf8 ex blk (ce_line s)"
    unfolding copied_def up rows_after_def s(1) by simp
  then have "copy_ok rs span utf8 ex blk [] s"
    using c le s w by (auto simp: copy_ok_def phase_inv_def row_rest_def split_beta)
  then show "under_way rs span utf8 ex blk s" using s(1) by (auto simp: under_way_def)
  show "copy_work rs span s < copy_bound rs span"
    unfolding copy_work_def copy_bound_def up s(1) using s(2) by (simp add: row_work_def)
qed

text \<open>
  C11. A copy is exact. For a range inside well-formed rows, in order, the measuring pass, divided into
  calls in any way, answers the number of bytes of the selected text; a buffer of that size and of no other is
  accepted; and the writing pass, divided in any way, fills it with exactly those bytes and never
  writes outside it. Budgets that reach a bound linear in the sizes of the rows are enough for each pass.
\<close>

theorem copy_exact:
  assumes "nav_rows rs" and "pos_line (fst span) \<le> pos_line (snd span)" and "pos_line (snd span) < length rs"
    and "length (copied rs span utf8 ex blk) < ulong_max"
    and "copy_bound rs span \<le> sum_list bs" and "copy_bound rs span \<le> sum_list bs'"
    and "length buf = length (copied rs span utf8 ex blk)"
  shows "\<exists>s1 s2 s3. copy_calls rs (con_copy_begin span utf8 ex blk) bs = Some (CON_COPY_MEASURED, s1) \<and>
    ce_size s1 = length (copied rs span utf8 ex blk) \<and>
    con_copy_write_begin s1 (Some buf) (length buf) = (True, s2) \<and> (\<forall>other k. k \<noteq> length buf \<longrightarrow> \<not> fst (con_copy_write_begin s1 other k)) \<and>
    copy_calls rs s2 bs' = Some (CON_COPY_DONE, s3) \<and> ce_buffer s3 = copied rs span utf8 ex blk"
proof -
  have fits: "copy_fits rs span utf8 ex blk" using assms(1,3,4) by (simp add: copy_fits_def)
  define s0 where "s0 = con_copy_begin span utf8 ex blk"
  have "under_way rs span utf8 ex blk s0" "copy_work rs span s0 < copy_bound rs span"
    by (rule start_way [OF _ assms(2)]; simp add: s0_def con_copy_begin_def carries_def)+
  from calls_end [OF fits this(1), of bs] this(2) assms(5) obtain s1 where
    s1: "copy_calls rs s0 bs = Some (CON_COPY_MEASURED, s1)" "unit_good rs span utf8 ex blk s0 (Some CON_COPY_MEASURED, s1)"
    by (auto simp: unit_good_def s0_def con_copy_begin_def)
  then have m: "carries span utf8 ex blk s1" "ce_finished s1" "\<not> ce_failed s1" "\<not> writing s1" "ce_size s1 = length buf"
    using assms(7) by (auto simp: unit_good_def s0_def con_copy_begin_def)
  define s2 where "s2 = s1\<lparr>ce_buffer := buf, writing := True, ce_finished := False, ce_line := ce_first s1, phase := 0, ce_offset := 0\<rparr>"
  have "under_way rs span utf8 ex blk s2" "copy_work rs span s2 < copy_bound rs span"
    by (rule start_way [OF _ assms(2)]; use m assms(7) in \<open>simp add: s2_def carries_def\<close>)+
  from calls_end [OF fits this(1), of bs'] this(2) assms(6) obtain s3 where
    s3: "copy_calls rs s2 bs' = Some (CON_COPY_DONE, s3)" "ce_buffer s3 = copied rs span utf8 ex blk"
    by (auto simp: unit_good_def s2_def)
  have "con_copy_write_begin s1 (Some buf) (length buf) = (True, s2)" using m by (simp add: con_copy_write_begin_def s2_def)
  moreover have "\<not> fst (con_copy_write_begin s1 other k)" if "k \<noteq> length buf" for other k
    using m(5) that by (simp add: con_copy_write_begin_def)
  ultimately show ?thesis using s1(1) s3 m(5) assms(7)
    by (intro exI [of _ s1] exI [of _ s2] exI [of _ s3]) (simp add: s0_def)
qed

theorem copy_exact_witness:
  "\<exists>s1 s2 s3. copy_calls [nav_row_of [0x61, 0xE9]] (con_copy_begin (at 0 0, at 0 2) True True False) [5, 10] = Some (CON_COPY_MEASURED, s1) \<and>
     con_copy_write_begin s1 (Some [0, 0, 0]) 3 = (True, s2) \<and>
     copy_calls [nav_row_of [0x61, 0xE9]] s2 [13] = Some (CON_COPY_DONE, s3) \<and> ce_buffer s3 = [0x61, 0xC3, 0xA9]"
proof -
  let ?rs = "[nav_row_of [0x61, 0xE9]]" and ?span = "(at 0 0, at 0 2)"
  have c: "copied ?rs ?span True True False = [0x61, 0xC3, 0xA9]" by code_simp
  have b: "copy_bound ?rs ?span = 13" by code_simp
  have r: "nav_rows ?rs" by (rule nav_row_of_ok) (simp add: ulong_max_def)
  obtain s1 s2 s3 where "copy_calls ?rs (con_copy_begin ?span True True False) [5, 10] = Some (CON_COPY_MEASURED, s1)"
    "con_copy_write_begin s1 (Some [0, 0, 0]) (length [0 :: byte, 0, 0]) = (True, s2)"
    "copy_calls ?rs s2 [13] = Some (CON_COPY_DONE, s3)" "ce_buffer s3 = [0x61, 0xC3, 0xA9]"
    using copy_exact [OF r, of ?span True True False "[5, 10]" "[13]" "[0, 0, 0]"] unfolding c b
    by (auto simp: at_def ulong_max_def simp del: copy_calls.simps)
  moreover have "length [0 :: byte, 0, 0] = 3" by simp
  ultimately show ?thesis by metis
qed

end
