(* ===== verification/Url_Action.thy ===== *)
theory Url_Action
  imports Navigation_Laws Utf8
begin

text \<open>
  Recognising URLs in retained rows, underlining and opening them (\<open>devs/consoleng/url_action.c\<close>). Row
  pointers are positions in the list of rows, at or past its end for NULL; links are looked up in the
  pool of the unit. \<open>None\<close> is a read outside a row, of a released link, or a write outside a buffer.
\<close>

section \<open>Characters, schemes, explicit links\<close>

definition CON_URL_MAX :: nat where "CON_URL_MAX = 1023"

definition url_character :: "codepoint \<Rightarrow> bool" where
  "url_character cp \<longleftrightarrow> cp > 32 \<and> cp \<noteq> 127 \<and> cp \<noteq> 0x22 \<and> cp \<noteq> 0x27 \<and> cp \<noteq> 0x3C \<and> cp \<noteq> 0x3E \<and> cp \<noteq> 0x60"

definition url_schemes :: "byte list list" where
  "url_schemes = [[0x68, 0x74, 0x74, 0x70, 0x73, 0x3A, 0x2F, 0x2F], [0x68, 0x74, 0x74, 0x70, 0x3A, 0x2F, 0x2F],
     [0x66, 0x74, 0x70, 0x3A, 0x2F, 0x2F], [0x6D, 0x61, 0x69, 0x6C, 0x74, 0x6F, 0x3A]]"

text \<open>A scheme matches without regard to case and needs at least one byte after it.\<close>

fun scheme_matches :: "byte list \<Rightarrow> byte list \<Rightarrow> bool" where
  "scheme_matches [] url \<longleftrightarrow> url \<noteq> []"
| "scheme_matches (s # ss) [] \<longleftrightarrow> False"
| "scheme_matches (s # ss) (c # url) \<longleftrightarrow>
     (let c' = (if c \<ge> 0x41 \<and> c \<le> 0x5A then c + 0x20 else c) in c' = s \<and> scheme_matches ss url)"

definition url_scheme :: "byte list \<Rightarrow> bool" where
  "url_scheme url \<longleftrightarrow> list_ex (\<lambda>s. scheme_matches s url) url_schemes"

text \<open>The bytes of a string up to its terminator.\<close>

definition c_string :: "byte list \<Rightarrow> byte list option" where
  "c_string bs = (if 0 \<in> set bs then Some (takeWhile (\<lambda>b. b \<noteq> 0) bs) else None)"

definition url_explicit :: "charmap_line list \<Rightarrow> nat \<Rightarrow> nat \<Rightarrow> addr option option" where
  "url_explicit rs i col =
     (let row = rs ! i in
      if i \<ge> length rs \<or> links row = None \<or> col \<ge> line_size row \<or>
         (wrapColumns row \<noteq> 0 \<and> col \<ge> sub32 (wrapColumns row) (unat (wrapPadding row))) then Some None
      else link_at row col)"

definition link_of :: "con_link_pool \<Rightarrow> addr \<Rightarrow> con_link option" where
  "link_of p a = map_of (chain p) a"

section \<open>One logical token\<close>

datatype 'a scan = Scan_fail | Scan 'a

text \<open>The walk to the first cell of the token; \<open>budget\<close> is what the bound on its length leaves.\<close>

definition scan_prev :: "charmap_line list \<Rightarrow> nat \<Rightarrow> nat \<Rightarrow> (nat \<times> nat) option" where
  "scan_prev rs i col =
     (if col \<noteq> 0 then Some (i, col - 1)
      else if i \<noteq> 0 \<and> wrapColumns (rs ! (i - 1)) \<noteq> 0 then
        let row = rs ! (i - 1); x = sub32 (wrapColumns row) (unat (wrapPadding row)) in
        if x = 0 \<or> x > line_size row then None else Some (i - 1, x - 1)
      else None)"

function scan_back :: "charmap_line list \<Rightarrow> nat \<Rightarrow> nat \<Rightarrow> nat \<Rightarrow> (nat \<times> nat) scan option" where
  "scan_back rs budget i col =
     (case scan_prev rs i col of
        None \<Rightarrow> Some (Scan (i, col))
      | Some (j, x) \<Rightarrow>
          if cells (rs ! j) = [] then Some (Scan (i, col))
          else do {
            c \<leftarrow> cell_at (rs ! j) x;
            (if \<not> url_character (cell_text c) then Some (Scan (i, col))
             else do {
               l \<leftarrow> url_explicit rs j x;
               (if l \<noteq> None then Some (Scan (i, col))
                else (if budget = 0 then Some Scan_fail else scan_back rs (budget - 1) j x))
             })
          })"
  by pat_completeness auto
termination
  by (relation "measure (\<lambda>(rs, budget, i, col). budget)") (auto split: if_splits)

declare scan_back.simps [simp del]

text \<open>The collection of the token: its bytes, its cells, and the index of the clicked cell.\<close>

record url_token =
  tok_url :: "byte list"
  tok_cells :: nat
  tok_clicked :: nat

function scan_fwd :: "charmap_line list \<Rightarrow> nat \<Rightarrow> nat \<Rightarrow> nat \<Rightarrow> nat \<Rightarrow> nat \<Rightarrow> url_token \<Rightarrow> url_token scan option" where
  "scan_fwd rs line column cap i col t =
     (if i \<ge> length rs \<or> cells (rs ! i) = [] then Some (Scan t)
      else
        let row = rs ! i;
            e0 = (if wrapColumns row \<noteq> 0 then sub32 (wrapColumns row) (unat (wrapPadding row)) else line_size row);
            e = (if e0 > line_size row then line_size row else e0) in
        if col \<ge> e then
          if wrapColumns row = 0 then Some (Scan t) else scan_fwd rs line column cap (i + 1) 0 t
        else do {
          l \<leftarrow> url_explicit rs i col;
          (if l \<noteq> None then Some (Scan t)
           else do {
             let t1 = (if i = line \<and> col = column then t\<lparr>tok_clicked := tok_cells t\<rparr> else t);
             c \<leftarrow> cell_at row col;
             let cp = cell_text c;
             (if \<not> url_character cp then Some (Scan t1)
              else
                let t2 = t1\<lparr>tok_cells := tok_cells t1 + 1\<rparr> in
                if cp = SEARCH_WIDE_CONT then do {
                  before \<leftarrow> (if col + 1 < 2 then Some zero_cell else cell_at row (col - 1));
                  (if col + 1 < 2 \<or> con_cp_width (cell_text before) \<noteq> 2 then Some Scan_fail
                   else scan_fwd rs line column cap i (col + 1) t2)
                }
                else
                  let bs = con_utf8_encode cp; n = length (tok_url t2) in
                  if bs = [] \<or> n + length bs > CON_URL_MAX \<or> n + length bs \<ge> cap then Some Scan_fail
                  else scan_fwd rs line column cap i (col + 1) (t2\<lparr>tok_url := tok_url t2 @ bs\<rparr>))
           })
        })"
  by pat_completeness auto
termination
  by (relation "inv_image (less_than <*lex*> less_than) (\<lambda>(rs, line, column, cap, i, col, t). (length rs - i, line_size (rs ! i) - col))")
    (auto split: if_splits)

declare scan_fwd.simps [simp del]

text \<open>Closing punctuation that belongs to the sentence and not to the URL.\<close>

function trim_url :: "byte list \<Rightarrow> byte list" where
  "trim_url url =
     (if url = [] then []
      else
        let c = url ! (length url - 1);
            opener = (if c = 0x29 then 0x28 else if c = 0x5D then 0x5B else if c = 0x7D then 0x7B else 0)
        in if c = 0x2E \<or> c = 0x2C \<or> c = 0x3B \<or> c = 0x21 then trim_url (butlast url)
           else if opener = 0 then url
           else if int (length (filter (\<lambda>b. b = opener) url)) - int (length (filter (\<lambda>b. b = c) url)) \<ge> 0 then url
           else trim_url (butlast url))"
  by pat_completeness auto
termination
  by (relation "measure length") auto

declare trim_url.simps [simp del]

text \<open>The URL, the distance from the clicked cell to its first cell, and to the end of its last.\<close>

definition url_scan :: "charmap_line list \<Rightarrow> nat \<Rightarrow> nat \<Rightarrow> nat \<Rightarrow> (byte list \<times> int \<times> int) scan option" where
  "url_scan rs i column cap =
     (let row = rs ! i in
      if i \<ge> length rs \<or> cells row = [] \<or> column \<ge> line_size row \<or> cap < 2 then Some Scan_fail
      else do {
        c \<leftarrow> cell_at row column;
        (if \<not> url_character (cell_text c) \<or>
            (wrapColumns row \<noteq> 0 \<and> column \<ge> sub32 (wrapColumns row) (unat (wrapPadding row))) then Some Scan_fail
         else do {
           back \<leftarrow> scan_back rs CON_URL_MAX i column;
           (case back of
              Scan_fail \<Rightarrow> Some Scan_fail
            | Scan (j, x) \<Rightarrow> do {
                tok \<leftarrow> scan_fwd rs i column cap j x \<lparr>tok_url = [], tok_cells = 0, tok_clicked = 0\<rparr>;
                (case tok of
                   Scan_fail \<Rightarrow> Some Scan_fail
                 | Scan t \<Rightarrow>
                     if length (tok_url t) \<ge> cap then None
                     else
                       let skip = length (takeWhile (\<lambda>b. b = 0x28 \<or> b = 0x5B \<or> b = 0x7B) (tok_url t));
                           body = drop skip (tok_url t); url = trim_url body;
                           first = int skip - int (tok_clicked t);
                           final = int (tok_cells t) - int (length body - length url) - int (tok_clicked t)
                       in Some (if url_scheme url then Scan (url, first, final) else Scan_fail))
              })
         })
      })"

section \<open>Underlining and opening\<close>

fun extend_link :: "charmap_line list \<Rightarrow> nat \<Rightarrow> addr option \<Rightarrow> nat \<Rightarrow> nat \<Rightarrow> nat option" where
  "extend_link rs i link e 0 = Some e"
| "extend_link rs i link e (Suc m) = do {
     l \<leftarrow> url_explicit rs i e;
     (if l = link then extend_link rs i link (e + 1) m else Some e)
   }"

fun extend_token :: "charmap_line list \<Rightarrow> nat \<Rightarrow> bool \<Rightarrow> nat \<Rightarrow> nat \<Rightarrow> nat option" where
  "extend_token rs i token e 0 = Some e"
| "extend_token rs i token e (Suc m) = do {
     l \<leftarrow> url_explicit rs i e;
     (if l \<noteq> None then Some e
      else do {
        c \<leftarrow> cell_at (rs ! i) e;
        (if url_character (cell_text c) = token then extend_token rs i token (e + 1) m else Some e)
      })
   }"

definition link_uri :: "con_link_pool \<Rightarrow> addr \<Rightarrow> byte list option" where
  "link_uri p a = do { l \<leftarrow> link_of p a; c_string (link_data l) }"

text \<open>A segment of a row from a column: whether it is underlined, and where it ends.\<close>

definition url_run_segment :: "con_link_pool \<Rightarrow> charmap_line list \<Rightarrow> nat \<Rightarrow> nat \<Rightarrow> (bool \<times> nat) option" where
  "url_run_segment p rs i column =
     (let row = rs ! i in
      if i \<ge> length rs \<or> cells row = [] \<or> column \<ge> line_size row then Some (False, add32 column 1)
      else
        let limit = (if wrapColumns row \<noteq> 0 \<and> wrapColumns row \<le> line_size row
                     then sub32 (wrapColumns row) (unat (wrapPadding row)) else line_size row) in
        if column \<ge> limit then Some (False, line_size row)
        else do {
          l \<leftarrow> url_explicit rs i column;
          (case l of
             Some a \<Rightarrow> do {
               e \<leftarrow> extend_link rs i l (column + 1) (limit - (column + 1));
               uri \<leftarrow> link_uri p a;
               Some (url_scheme uri, e)
             }
           | None \<Rightarrow> do {
               s \<leftarrow> url_scan rs i column (CON_URL_MAX + 1);
               c \<leftarrow> cell_at row column;
               let skip = map_option (\<lambda>e. (False, e))
                     (extend_token rs i (url_character (cell_text c)) (column + 1) (limit - (column + 1)));
               (case s of
                  Scan_fail \<Rightarrow> skip
                | Scan (url, first, final) \<Rightarrow>
                    let boundary = int column + (if first > 0 then first else final) in
                    if boundary > int column
                    then Some (first \<le> 0, if boundary > int limit then limit else nat boundary)
                    else skip)
             })
        })"

function run_loop :: "con_link_pool \<Rightarrow> charmap_line list \<Rightarrow> nat \<Rightarrow> nat \<Rightarrow> nat option" where
  "run_loop p rs i e =
     (if e < line_size (rs ! i) then do {
        (underline, next) \<leftarrow> url_run_segment p rs i e;
        (if underline \<or> next \<le> e then Some e else run_loop p rs i next)
      } else Some e)"
  by pat_completeness auto
termination
  by (relation "measure (\<lambda>(p, rs, i, e). line_size (rs ! i) - e)") auto

declare run_loop.simps [simp del]

definition con_url_run :: "con_link_pool \<Rightarrow> charmap_line list \<Rightarrow> nat \<Rightarrow> nat \<Rightarrow> (bool \<times> nat) option" where
  "con_url_run p rs i column = do {
     (underline, e) \<leftarrow> url_run_segment p rs i column;
     (if underline \<or> i \<ge> length rs \<or> cells (rs ! i) = [] then Some (underline, e)
      else map_option (\<lambda>e'. (False, e')) (run_loop p rs i e))
   }"

text \<open>The URL at a cell, if there is one.\<close>

definition con_url_at :: "con_link_pool \<Rightarrow> charmap_line list \<Rightarrow> nat \<Rightarrow> nat \<Rightarrow> nat \<Rightarrow> byte list option option" where
  "con_url_at p rs i column cap = do {
     l \<leftarrow> url_explicit rs i column;
     (case l of
        Some a \<Rightarrow> do {
          lk \<leftarrow> link_of p a;
          uri \<leftarrow> c_string (link_data lk);
          (if cap \<le> uriLength lk \<or> \<not> url_scheme uri then Some None
           else if uriLength lk + 1 > length (link_data lk) then None
           else Some (Some (take (uriLength lk) (link_data lk))))
        }
      | None \<Rightarrow> do {
          s \<leftarrow> url_scan rs i column cap;
          Some (case s of
              Scan_fail \<Rightarrow> None
            | Scan (url, first, final) \<Rightarrow> if first \<le> 0 \<and> final > 0 then Some url else None)
        })
   }"

function row_loop :: "con_link_pool \<Rightarrow> charmap_line list \<Rightarrow> nat \<Rightarrow> nat \<Rightarrow> bool option" where
  "row_loop p rs i col =
     (if col < line_size (rs ! i) then do {
        (underline, e) \<leftarrow> con_url_run p rs i col;
        (if underline then Some True else if e \<le> col then None else row_loop p rs i e)
      } else Some False)"
  by pat_completeness auto
termination
  by (relation "measure (\<lambda>(p, rs, i, e). line_size (rs ! i) - e)") auto

declare row_loop.simps [simp del]

text \<open>\<open>None\<close> also where the loop would not advance.\<close>

definition con_url_in_row :: "con_link_pool \<Rightarrow> charmap_line list \<Rightarrow> nat \<Rightarrow> bool option" where
  "con_url_in_row p rs i = (if i \<ge> length rs then Some False else row_loop p rs i 0)"

section \<open>The command line\<close>

fun quote_url :: "nat \<Rightarrow> nat \<Rightarrow> byte list \<Rightarrow> byte list \<Rightarrow> byte list option" where
  "quote_url cap i args [] = Some args"
| "quote_url cap i args (c # url) =
     (if i + 1 > CON_URL_MAX \<or> c < 32 \<or> c = 127 then None
      else if length args + 4 \<ge> cap then None
      else quote_url cap (i + 1) ((if c = 0x22 \<or> c = 0x2A then args @ [0x2A] else args) @ [c]) url)"

text \<open>The result \<open>Some None\<close> is a refusal, \<open>None\<close> a write outside the buffer.\<close>

definition url_arguments :: "byte list \<Rightarrow> nat \<Rightarrow> byte list option option" where
  "url_arguments url cap =
     (if \<not> url_scheme url \<or> cap < 4 then Some None
      else (case quote_url cap 0 [0x22] url of
              None \<Rightarrow> Some None
            | Some args \<Rightarrow> if length args + 3 \<le> cap then Some (Some (args @ [0x22, 0x0A, 0])) else None))"

definition URL_LAUNCH_ARGS :: nat where "URL_LAUNCH_ARGS = CON_URL_MAX * 2 + 4"

section \<open>Launching\<close>

text \<open>
  What opening a URL asks of the system, in order. The system's answers (memory, the library, the
  segment, the new process) are arguments; a started worker owns the job.
\<close>

datatype launch_event = Job_alloc | Job_free | Worker_start "byte list" | Segment_load | Command_start "byte list" | Segment_unload

definition url_launch_worker :: "bool \<Rightarrow> bool \<Rightarrow> bool \<Rightarrow> byte list \<Rightarrow> launch_event list" where
  "url_launch_worker dos segment process args =
     (if dos \<and> segment then [Segment_load] @ [if process then Command_start args else Segment_unload] else []) @ [Job_free]"

definition con_open_url :: "bool \<Rightarrow> bool \<Rightarrow> bool \<Rightarrow> byte list \<Rightarrow> (bool \<times> launch_event list) option" where
  "con_open_url memory dos process url =
     (if \<not> memory then Some (False, [])
      else do {
        r \<leftarrow> url_arguments url URL_LAUNCH_ARGS;
        Some (case r of
            None \<Rightarrow> (False, [Job_alloc, Job_free])
          | Some args \<Rightarrow>
              let started = (dos \<and> process) in (started, Job_alloc # (if started then [Worker_start args] else [Job_free])))
      })"

end
