(* ===== verification/Url_Props.thy ===== *)
theory Url_Props
  imports Url_Action Navigation_Safe
begin

text \<open>
  What is underlined is what a click opens. The walks of the recogniser are compared with the path
  of a token, the list of its cells; every cell of a token sees the same path from another index.
\<close>

section \<open>Rows\<close>

definition url_rows :: "charmap_line list \<Rightarrow> bool" where
  "url_rows rs \<longleftrightarrow> nav_rows rs \<and> (\<forall>r \<in> set rs. wrapColumns r \<le> ulong_max \<and> unat (wrapPadding r) \<le> 1)"

definition url_limit :: "charmap_line \<Rightarrow> nat" where
  "url_limit r = (if wrapColumns r = 0 then line_size r else min (line_size r) (wrapColumns r - unat (wrapPadding r)))"

definition owner_at :: "charmap_line list \<Rightarrow> nat \<Rightarrow> nat \<Rightarrow> addr option" where
  "owner_at rs i c = (if i < length rs \<and> c < url_limit (rs ! i) then (case links (rs ! i) of None \<Rightarrow> None | Some ls \<Rightarrow> ls ! c) else None)"

definition text_at :: "charmap_line list \<Rightarrow> nat \<Rightarrow> nat \<Rightarrow> codepoint" where
  "text_at rs i c = cell_text (cells (rs ! i) ! c)"

text \<open>A cell that can belong to a token.\<close>

definition tok_at :: "charmap_line list \<Rightarrow> nat \<Rightarrow> nat \<Rightarrow> bool" where
  "tok_at rs i c \<longleftrightarrow> i < length rs \<and> c < url_limit (rs ! i) \<and> url_character (text_at rs i c) \<and> owner_at rs i c = None"

lemma url_row:
  assumes "url_rows rs" and "i < length rs"
  shows "line_size (rs ! i) \<le> length (cells (rs ! i))" "length (cells (rs ! i)) \<le> ulong_max"
    "wrapColumns (rs ! i) \<noteq> 0 \<Longrightarrow> sub32 (wrapColumns (rs ! i)) (unat (wrapPadding (rs ! i))) = wrapColumns (rs ! i) - unat (wrapPadding (rs ! i))"
    "unat (wrapPadding (rs ! i)) \<le> 1" "url_limit (rs ! i) \<le> line_size (rs ! i)"
    "links (rs ! i) = Some ls \<Longrightarrow> length ls = length (cells (rs ! i))"
proof -
  have r: "rs ! i \<in> set rs" using assms(2) by simp
  then have l: "line_ok (rs ! i)" and w: "wrapColumns (rs ! i) \<le> ulong_max" "unat (wrapPadding (rs ! i)) \<le> 1"
    using assms(1) by (auto simp: url_rows_def nav_rows_def list_all_iff)
  show "line_size (rs ! i) \<le> length (cells (rs ! i))" "length (cells (rs ! i)) \<le> ulong_max"
    "links (rs ! i) = Some ls \<Longrightarrow> length ls = length (cells (rs ! i))" using l by (auto simp: line_ok_def)
  show "wrapColumns (rs ! i) \<noteq> 0 \<Longrightarrow> sub32 (wrapColumns (rs ! i)) (unat (wrapPadding (rs ! i))) = wrapColumns (rs ! i) - unat (wrapPadding (rs ! i))"
    using w by (intro sub32_exact) auto
  show "unat (wrapPadding (rs ! i)) \<le> 1" by (rule w)
  show "url_limit (rs ! i) \<le> line_size (rs ! i)" by (simp add: url_limit_def)
qed

lemma row_reads:
  assumes "url_rows rs" and "i < length rs" and "c < url_limit (rs ! i)"
  shows "cell_at (rs ! i) c = Some (cells (rs ! i) ! c)" "cells (rs ! i) \<noteq> []"
  using url_row(1,5) [OF assms(1,2)] assms(3) by (auto simp: cell_at_def)

lemma beyond_row_end:
  assumes "url_rows rs" and "i < length rs"
  shows "c \<ge> url_limit (rs ! i) \<longleftrightarrow> c \<ge> line_size (rs ! i) \<or>
     (wrapColumns (rs ! i) \<noteq> 0 \<and> c \<ge> sub32 (wrapColumns (rs ! i)) (unat (wrapPadding (rs ! i))))"
  using url_row(3) [OF assms] by (auto simp: url_limit_def min_def)

lemma url_explicit_total: "url_rows rs \<Longrightarrow> url_explicit rs i c = Some (owner_at rs i c)"
proof (cases "i < length rs \<and> c < url_limit (rs ! i)")
  case False
  then show "url_rows rs \<Longrightarrow> url_explicit rs i c = Some (owner_at rs i c)"
    using beyond_row_end [of rs i c] by (auto simp: url_explicit_def owner_at_def Let_def not_less)
next
  case True
  assume r: "url_rows rs"
  have i: "i < length rs" and c: "c < url_limit (rs ! i)" using True by auto
  have nb: "\<not> (c \<ge> line_size (rs ! i) \<or>
     (wrapColumns (rs ! i) \<noteq> 0 \<and> c \<ge> sub32 (wrapColumns (rs ! i)) (unat (wrapPadding (rs ! i)))))"
    using beyond_row_end [OF r i, of c] c by simp
  show "url_explicit rs i c = Some (owner_at rs i c)"
    using nb i c url_row(1,5,6) [OF r i]
    by (auto simp: url_explicit_def owner_at_def Let_def link_at_def split: option.splits)
qed

lemma row_limits:
  assumes "url_rows rs" and "i < length rs"
  shows "(if wrapColumns (rs ! i) \<noteq> 0 \<and> wrapColumns (rs ! i) \<le> line_size (rs ! i)
      then sub32 (wrapColumns (rs ! i)) (unat (wrapPadding (rs ! i))) else line_size (rs ! i)) = url_limit (rs ! i)"
    "(if (if wrapColumns (rs ! i) \<noteq> 0 then sub32 (wrapColumns (rs ! i)) (unat (wrapPadding (rs ! i))) else line_size (rs ! i)) > line_size (rs ! i)
      then line_size (rs ! i)
      else if wrapColumns (rs ! i) \<noteq> 0 then sub32 (wrapColumns (rs ! i)) (unat (wrapPadding (rs ! i))) else line_size (rs ! i)) = url_limit (rs ! i)"
  using url_row(3,4) [OF assms] by (auto simp: url_limit_def)

section \<open>The path of a token\<close>

function path :: "charmap_line list \<Rightarrow> nat \<Rightarrow> nat \<Rightarrow> (nat \<times> nat) list" where
  "path rs i c =
     (if i \<ge> length rs \<or> cells (rs ! i) = [] then []
      else if c \<ge> url_limit (rs ! i) then if wrapColumns (rs ! i) = 0 then [] else path rs (i + 1) 0
      else if tok_at rs i c then (i, c) # path rs i (c + 1) else [])"
  by pat_completeness auto
termination
  by (relation "inv_image (less_than <*lex*> less_than) (\<lambda>(rs, i, c). (length rs - i, url_limit (rs ! i) - c))") auto

declare path.simps [simp del]

lemma path_tok: "url_rows rs \<Longrightarrow> tok_at rs i c \<Longrightarrow> path rs i c = (i, c) # path rs i (c + 1)"
  using row_reads(2) [of rs i c] by (subst path.simps) (auto simp: tok_at_def)

lemma path_later: "q \<in> set (path rs i c) \<Longrightarrow> i < fst q \<or> (i = fst q \<and> c \<le> snd q)"
proof (induction rs i c rule: path.induct)
  case (1 rs i c)
  then show ?case by (subst (asm) (3) path.simps) (fastforce split: if_splits)
qed

fun clicked_in :: "nat \<times> nat \<Rightarrow> nat \<Rightarrow> (nat \<times> nat) list \<Rightarrow> nat \<Rightarrow> nat" where
  "clicked_in q k [] old = old"
| "clicked_in q k (p # ps) old = clicked_in q (k + 1) ps (if p = q then k else old)"

lemma clicked_absent: "q \<notin> set ps \<Longrightarrow> clicked_in q k ps old = old"
  by (induction ps arbitrary: k old) auto

lemma clicked_index: "q \<notin> set pre \<Longrightarrow> q \<notin> set suf \<Longrightarrow> clicked_in q k (pre @ q # suf) old = k + length pre"
  by (induction pre arbitrary: k old) (auto simp: clicked_absent)

fun collect :: "charmap_line list \<Rightarrow> nat \<Rightarrow> (nat \<times> nat) list \<Rightarrow> byte list \<Rightarrow> byte list option" where
  "collect rs cap [] u = Some u"
| "collect rs cap ((i, c) # ps) u =
     (if text_at rs i c = SEARCH_WIDE_CONT then
        if c = 0 \<or> con_cp_width (text_at rs i (c - 1)) \<noteq> 2 then None else collect rs cap ps u
      else
        let bs = con_utf8_encode (text_at rs i c); n = length u in
        if bs = [] \<or> n + length bs > CON_URL_MAX \<or> n + length bs \<ge> cap then None else collect rs cap ps (u @ bs))"

lemma path_cases:
  "i \<ge> length rs \<or> cells (rs ! i) = [] \<Longrightarrow> path rs i c = []"
  "i < length rs \<Longrightarrow> cells (rs ! i) \<noteq> [] \<Longrightarrow> c \<ge> url_limit (rs ! i) \<Longrightarrow>
     path rs i c = (if wrapColumns (rs ! i) = 0 then [] else path rs (i + 1) 0)"
  "i < length rs \<Longrightarrow> c < url_limit (rs ! i) \<Longrightarrow> \<not> tok_at rs i c \<Longrightarrow> path rs i c = []"
  by (subst path.simps; auto)+

lemma scan_fwd_outside:
  assumes "url_rows rs"
  shows "i \<ge> length rs \<or> cells (rs ! i) = [] \<Longrightarrow> scan_fwd rs line column cap i c t = Some (Scan t)"
    "i < length rs \<Longrightarrow> cells (rs ! i) \<noteq> [] \<Longrightarrow> c \<ge> url_limit (rs ! i) \<Longrightarrow>
     scan_fwd rs line column cap i c t =
       (if wrapColumns (rs ! i) = 0 then Some (Scan t) else scan_fwd rs line column cap (i + 1) 0 t)"
proof -
  show "i \<ge> length rs \<or> cells (rs ! i) = [] \<Longrightarrow> scan_fwd rs line column cap i c t = Some (Scan t)"
    by (subst scan_fwd.simps) auto
  assume a: "i < length rs" "cells (rs ! i) \<noteq> []" "c \<ge> url_limit (rs ! i)"
  show "scan_fwd rs line column cap i c t =
       (if wrapColumns (rs ! i) = 0 then Some (Scan t) else scan_fwd rs line column cap (i + 1) 0 t)"
    by (subst scan_fwd.simps, unfold Let_def row_limits(2) [OF assms a(1)]) (use a in auto)
qed

lemma scan_fwd_cell:
  assumes r: "url_rows rs" and i: "i < length rs" and c: "c < url_limit (rs ! i)"
  shows "scan_fwd rs line column cap i c t =
     (if owner_at rs i c \<noteq> None then Some (Scan t)
      else
        let t1 = (if i = line \<and> c = column then t\<lparr>tok_clicked := tok_cells t\<rparr> else t); cp = text_at rs i c;
            t2 = t1\<lparr>tok_cells := tok_cells t1 + 1\<rparr>; bs = con_utf8_encode cp; n = length (tok_url t) in
        if \<not> url_character cp then Some (Scan t1)
        else if cp = SEARCH_WIDE_CONT then
          if c = 0 \<or> con_cp_width (text_at rs i (c - 1)) \<noteq> 2 then Some Scan_fail
          else scan_fwd rs line column cap i (c + 1) t2
        else if bs = [] \<or> n + length bs > CON_URL_MAX \<or> n + length bs \<ge> cap then Some Scan_fail
        else scan_fwd rs line column cap i (c + 1) (t2\<lparr>tok_url := tok_url t @ bs\<rparr>))"
proof -
  have before: "(if c + 1 < 2 then Some zero_cell else cell_at (rs ! i) (c - 1)) =
      Some (if c = 0 then zero_cell else cells (rs ! i) ! (c - 1))"
    using row_reads(1) [OF r i, of "c - 1"] c by auto
  show ?thesis
    by (subst scan_fwd.simps, unfold Let_def row_limits(2) [OF r i] url_explicit_total [OF r] row_reads(1) [OF r i c] before)
      (use i c row_reads(2) [OF r i c] in \<open>auto simp: text_at_def\<close>)
qed

lemma scan_fwd_path:
  assumes r: "url_rows rs" and tgt: "tok_at rs line column"
  shows "scan_fwd rs line column cap i c t =
    Some (case collect rs cap (path rs i c) (tok_url t) of None \<Rightarrow> Scan_fail
          | Some u \<Rightarrow> Scan \<lparr>tok_url = u, tok_cells = tok_cells t + length (path rs i c),
              tok_clicked = clicked_in (line, column) (tok_cells t) (path rs i c) (tok_clicked t)\<rparr>)"
  using assms
proof (induction rs i c arbitrary: t rule: path.induct)
  case (1 rs i c)
  note r = \<open>url_rows rs\<close> and tgt = \<open>tok_at rs line column\<close>
  consider (out) "i \<ge> length rs \<or> cells (rs ! i) = []"
    | (over) "i < length rs" "cells (rs ! i) \<noteq> []" "c \<ge> url_limit (rs ! i)"
    | (cell) "i < length rs" "cells (rs ! i) \<noteq> []" "c < url_limit (rs ! i)" by fastforce
  then show ?case
  proof cases
    case out
    then show ?thesis by (simp add: scan_fwd_outside(1) [OF r] path_cases(1))
  next
    case over
    note e = scan_fwd_outside(2) [OF r over] path_cases(2) [OF over]
    show ?thesis
    proof (cases "wrapColumns (rs ! i) = 0")
      case False
      have n: "\<not> (length rs \<le> i \<or> cells (rs ! i) = [])" using over by auto
      show ?thesis unfolding e using 1(1) [OF n over(3) False r tgt, of t] False by simp
    qed (simp add: e)
  next
    case cell
    note e = scan_fwd_cell [OF r cell(1,3)]
    show ?thesis
    proof (cases "tok_at rs i c")
      case False
      then have "owner_at rs i c \<noteq> None \<or> \<not> url_character (text_at rs i c)" using cell by (auto simp: tok_at_def)
      moreover have "\<not> (i = line \<and> c = column)" using False tgt by auto
      ultimately have "scan_fwd rs line column cap i c t = Some (Scan t)" unfolding e Let_def by (cases "owner_at rs i c = None") auto
      then show ?thesis by (simp add: path_cases(3) [OF cell(1,3) False])
    next
      case True
      have n: "\<not> (length rs \<le> i \<or> cells (rs ! i) = [])" "\<not> url_limit (rs ! i) \<le> c" using cell by auto
      have k: "owner_at rs i c = None" "url_character (text_at rs i c)" using True by (auto simp: tok_at_def)
      show ?thesis unfolding e path_tok [OF r True] using 1(2) [OF n True r tgt] k
        by (simp add: Let_def cong: option.case_cong)
    qed
  qed
qed


section \<open>The start of a token\<close>

lemma scan_back_stop:
  "scan_prev rs i c = None \<Longrightarrow> scan_back rs b i c = Some (Scan (i, c))"
  by (subst scan_back.simps) simp

lemma scan_back_cell:
  assumes r: "url_rows rs" and p: "scan_prev rs i c = Some (j, x)" and j: "j < length rs" and x: "x < url_limit (rs ! j)"
  shows "scan_back rs b i c =
    (if tok_at rs j x then if b = 0 then Some Scan_fail else scan_back rs (b - 1) j x else Some (Scan (i, c)))"
  by (subst scan_back.simps, unfold p)
    (use row_reads [OF r j x] j x in \<open>simp add: url_explicit_total [OF r] tok_at_def text_at_def\<close>)

lemma scan_prev_cases:
  assumes r: "url_rows rs" and i: "i < length rs" and c: "c < url_limit (rs ! i)" and p: "scan_prev rs i c = Some (j, x)"
  shows "j < length rs" "x < url_limit (rs ! j)" "j < i \<or> (j = i \<and> x < c)"
    "tok_at rs j x \<Longrightarrow> path rs j x = (j, x) # path rs i c"
proof -
  have *: "j < length rs \<and> x < url_limit (rs ! j) \<and> (j < i \<or> (j = i \<and> x < c)) \<and>
      (tok_at rs j x \<longrightarrow> path rs j x = (j, x) # path rs i c)"
  proof (cases "c = 0")
    case False
    then have "j = i" "x = c - 1" using p by (auto simp: scan_prev_def)
    then show ?thesis using False i c path_tok [OF r, of i "c - 1"] by auto
  next
    case True
    define k where "k = i - 1"
    define X where "X = wrapColumns (rs ! k) - unat (wrapPadding (rs ! k))"
    have i1: "i = Suc k" "wrapColumns (rs ! k) \<noteq> 0" using p True by (auto simp: scan_prev_def k_def split: if_splits)
    have l: "k < length rs" using i i1 by simp
    have q: "X \<noteq> 0" "X \<le> line_size (rs ! k)" "j = k" "x = X - 1"
      using p True i1 url_row(3) [OF r l i1(2)] by (auto simp: scan_prev_def Let_def X_def split: if_splits)
    have e: "url_limit (rs ! k) = X" using q(2) i1 by (simp add: url_limit_def X_def)
    have below: "X - 1 < url_limit (rs ! k)" using e q(1) by linarith
    have "path rs k X = path rs i 0"
      using path_cases(2) [OF l row_reads(2) [OF r l below], of X] e i1 by simp
    then show ?thesis using q i1 l e True below path_tok [OF r, of k "X - 1"] by auto
  qed
  then show "j < length rs" "x < url_limit (rs ! j)" "j < i \<or> (j = i \<and> x < c)"
    "tok_at rs j x \<Longrightarrow> path rs j x = (j, x) # path rs i c" by auto
qed

text \<open>The token of a cell starts at \<open>(j, x)\<close>, and \<open>pre\<close> are its cells before this one.\<close>

definition starts :: "charmap_line list \<Rightarrow> nat \<Rightarrow> nat \<Rightarrow> nat \<Rightarrow> nat \<Rightarrow> (nat \<times> nat) list \<Rightarrow> bool" where
  "starts rs i c j x pre \<longleftrightarrow> path rs j x = pre @ path rs i c \<and> (\<forall>q \<in> set pre. fst q < i \<or> (fst q = i \<and> snd q < c)) \<and>
     (\<forall>b. scan_back rs b i c = Some (if length pre \<le> b then Scan (j, x) else Scan_fail))"

lemma starts_step:
  assumes st: "starts rs j x a b pre" and p: "path rs j x = (j, x) # path rs i c" "j < i \<or> (j = i \<and> x < c)"
    and bk: "\<And>n. scan_back rs n i c = (if n = 0 then Some Scan_fail else scan_back rs (n - 1) j x)"
  shows "starts rs i c a b (pre @ [(j, x)])"
  using st p(2) unfolding starts_def p(1) bk by auto

lemma starts_exists:
  assumes r: "url_rows rs"
  shows "i < length rs \<Longrightarrow> c < url_limit (rs ! i) \<Longrightarrow> \<exists>j x pre. starts rs i c j x pre"
proof (induction "(i, c)" arbitrary: i c rule: wf_induct_rule [OF wf_lex_prod [OF wf_less_than wf_less_than]])
  case (1 i c)
  note i = 1(2,3)
  show ?case
  proof (cases "scan_prev rs i c")
    case None
    then have "starts rs i c i c []" by (simp add: starts_def scan_back_stop)
    then show ?thesis by blast
  next
    case (Some q)
    then obtain j x where p: "scan_prev rs i c = Some (j, x)" by (cases q) auto
    note k = scan_prev_cases [OF r i p]
    note bk = scan_back_cell [OF r p k(1,2)]
    show ?thesis
    proof (cases "tok_at rs j x")
      case False
      then have "starts rs i c i c []" by (simp add: starts_def bk)
      then show ?thesis by blast
    next
      case True
      obtain a b pre where "starts rs j x a b pre" using 1(1) [OF _ k(1,2)] k(3) by auto
      then have "starts rs i c a b (pre @ [(j, x)])"
        by (rule starts_step) (use k(3,4) True bk in auto)
      then show ?thesis by blast
    qed
  qed
qed

lemma starts_next:
  assumes r: "url_rows rs" and st: "starts rs i c j x pre" and t: "tok_at rs i c" and c: "c + 1 < url_limit (rs ! i)"
  shows "starts rs i (c + 1) j x (pre @ [(i, c)])"
proof (rule starts_step [OF st])
  show "path rs i c = (i, c) # path rs i (c + 1)" by (rule path_tok [OF r t])
  have p: "scan_prev rs i (c + 1) = Some (i, c)" by (simp add: scan_prev_def)
  show "scan_back rs n i (c + 1) = (if n = 0 then Some Scan_fail else scan_back rs (n - 1) i c)" for n
    using scan_back_cell [OF r p] t by (simp add: tok_at_def)
qed simp

lemma starts_run:
  assumes r: "url_rows rs" and st: "starts rs i c j x pre" and t: "\<And>k. c \<le> k \<Longrightarrow> k < c + d \<Longrightarrow> tok_at rs i k"
    and e: "c + d < url_limit (rs ! i)"
  shows "starts rs i (c + d) j x (pre @ map (Pair i) [c..<c + d])"
  using t e
proof (induction d)
  case (Suc d)
  have "starts rs i (c + d) j x (pre @ map (Pair i) [c..<c + d])" using Suc by auto
  from starts_next [OF r this] show ?case using Suc(2,3) by simp
qed (use st in simp)


section \<open>What a scan answers\<close>

definition token_answer :: "charmap_line list \<Rightarrow> nat \<Rightarrow> (nat \<times> nat) list \<Rightarrow> (byte list \<times> int \<times> int) option" where
  "token_answer rs cap ps =
     (case collect rs cap ps [] of
        None \<Rightarrow> None
      | Some v \<Rightarrow>
          let skip = length (takeWhile (\<lambda>b. b = 0x28 \<or> b = 0x5B \<or> b = 0x7B) v); body = drop skip v; url = trim_url body
          in if url_scheme url then Some (url, int skip, int (length ps) - int (length body - length url)) else None)"

definition view :: "nat \<Rightarrow> (byte list \<times> int \<times> int) option \<Rightarrow> (byte list \<times> int \<times> int) scan" where
  "view n a = (case a of None \<Rightarrow> Scan_fail | Some (url, s, f) \<Rightarrow> Scan (url, s - int n, f - int n))"

lemma collect_length:
  "collect rs cap ps u = Some v \<Longrightarrow> length u < cap \<Longrightarrow> length u \<le> CON_URL_MAX \<Longrightarrow> length v < cap \<and> length v \<le> CON_URL_MAX"
  by (induction rs cap ps u rule: collect.induct) (auto simp: Let_def split: if_splits)

lemma scan_outside:
  assumes r: "url_rows rs" and o: "owner_at rs i c = None" and t: "\<not> tok_at rs i c"
  shows "url_scan rs i c cap = Some Scan_fail"
proof (cases "i < length rs \<and> c < url_limit (rs ! i)")
  case True
  then have "\<not> url_character (cell_text (cells (rs ! i) ! c))" using o t by (simp add: tok_at_def text_at_def)
  then show ?thesis using row_reads(1) [OF r, of i c] True by (simp add: url_scan_def Let_def)
next
  case False
  then show ?thesis
    using beyond_row_end [OF r, of i c] url_row(1) [OF r, of i] by (auto simp: url_scan_def Let_def cell_at_def)
qed

lemma scan_token:
  assumes r: "url_rows rs" and t: "tok_at rs i c" and st: "starts rs i c j x pre" and cap: "2 \<le> cap"
  shows "url_scan rs i c cap =
    Some (if length pre > CON_URL_MAX then Scan_fail else view (length pre) (token_answer rs cap (path rs j x)))"
proof -
  have i: "i < length rs" "c < url_limit (rs ! i)" "url_character (cell_text (cells (rs ! i) ! c))"
    using t by (auto simp: tok_at_def text_at_def)
  note reads = row_reads [OF r i(1,2)]
  have nb: "\<not> (wrapColumns (rs ! i) \<noteq> 0 \<and> c \<ge> sub32 (wrapColumns (rs ! i)) (unat (wrapPadding (rs ! i))))" "c < line_size (rs ! i)"
    using beyond_row_end [OF r i(1), of c] i(2) by auto
  have bk: "scan_back rs CON_URL_MAX i c = Some (if length pre \<le> CON_URL_MAX then Scan (j, x) else Scan_fail)"
    and p: "path rs j x = pre @ (i, c) # path rs i (c + 1)" and q: "(i, c) \<notin> set pre"
    using st path_tok [OF r t] by (auto simp: starts_def)
  have suf: "(i, c) \<notin> set (path rs i (c + 1))" using path_later [of "(i, c)" rs i "c + 1"] by auto
  have cl: "clicked_in (i, c) 0 (path rs j x) 0 = length pre" unfolding p using clicked_index [OF q suf, of 0] by simp
  let ?t0 = "\<lparr>tok_url = [], tok_cells = 0, tok_clicked = 0\<rparr>"
  have fwd: "scan_fwd rs i c cap j x ?t0 =
      Some (case collect rs cap (path rs j x) [] of None \<Rightarrow> Scan_fail
        | Some u \<Rightarrow> Scan \<lparr>tok_url = u, tok_cells = length (path rs j x), tok_clicked = length pre\<rparr>)"
    using scan_fwd_path [OF r t, of cap j x ?t0] cl by (simp cong: option.case_cong)
  have head: "\<not> (i \<ge> length rs \<or> cells (rs ! i) = [] \<or> c \<ge> line_size (rs ! i) \<or> cap < 2)" using i reads nb cap by auto
  have mid: "\<not> (\<not> url_character (cell_text (cells (rs ! i) ! c)) \<or>
      (wrapColumns (rs ! i) \<noteq> 0 \<and> c \<ge> sub32 (wrapColumns (rs ! i)) (unat (wrapPadding (rs ! i)))))" using i nb by auto
  have len: "collect rs cap (path rs j x) [] = Some v \<Longrightarrow> \<not> cap \<le> length v" for v
    using collect_length [of rs cap "path rs j x" "[]" v] cap by simp
  show ?thesis
    unfolding url_scan_def Let_def reads(1) if_not_P [OF head] Option.bind.simps if_not_P [OF mid] bk
    by (cases "collect rs cap (path rs j x) []")
      (auto simp: fwd len view_def token_answer_def Let_def)
qed

section \<open>The extent of a token\<close>

lemma high_byte: "bit m 7 \<Longrightarrow> \<not> (ucast (m OR (w :: codepoint)) :: byte) < 0x80"
proof
  assume m: "bit m 7" and "(ucast (m OR w) :: byte) < 0x80"
  then have "unat (ucast (m OR w) :: byte) div 2 ^ 7 = 0" by (simp add: word_less_nat_alt)
  then have "\<not> bit (unat (ucast (m OR w) :: byte)) 7" by (simp add: bit_iff_odd)
  then show False using m by (simp add: bit_simps)
qed

lemma encode_one_ascii: "length (filter (\<lambda>b. b < 0x80) (con_utf8_encode cp)) \<le> 1"
  by (simp add: con_utf8_encode_def high_byte)

lemma encode_wide: "con_cp_width cp = 2 \<Longrightarrow> 2 \<le> length (con_utf8_encode cp)"
proof (rule ccontr)
  assume w: "con_cp_width cp = 2" and "\<not> 2 \<le> length (con_utf8_encode cp)"
  then have c: "unat cp < 128" by (auto simp: con_utf8_encode_def word_less_nat_alt split: if_splits)
  have n: "unat cp \<noteq> k" if "128 \<le> k" for k using c that by simp
  show False using w c
    by (auto simp: con_cp_width_def wide_east_asian_def wide_bmp_emoji_def word_le_nat_alt word_less_nat_alt word_unat_eq_iff split: if_splits)
qed

lemma cont_width: "con_cp_width SEARCH_WIDE_CONT \<noteq> 2"
  by code_simp

lemma collect_ascii:
  "collect rs cap ps u = Some v \<Longrightarrow>
     length (filter (\<lambda>b. b < 0x80) v) \<le> length (filter (\<lambda>b. b < 0x80) u) + length ps"
proof (induction rs cap ps u rule: collect.induct)
  case (2 rs cap i c ps u)
  then show ?case using encode_one_ascii [of "text_at rs i c"] by (fastforce simp: Let_def split: if_splits)
qed simp

lemma path_bytes:
  "url_rows rs \<Longrightarrow> collect rs cap (path rs i c) u = Some v \<Longrightarrow>
     length (path rs i c) + length u \<le> length v + (if tok_at rs i c \<and> text_at rs i c = SEARCH_WIDE_CONT then 1 else 0)"
proof (induction rs i c arbitrary: u rule: path.induct)
  case (1 rs i c)
  note r = 1(3) and v = 1(4)
  consider (out) "i \<ge> length rs \<or> cells (rs ! i) = []"
    | (over) "i < length rs" "cells (rs ! i) \<noteq> []" "c \<ge> url_limit (rs ! i)"
    | (stop) "i < length rs" "c < url_limit (rs ! i)" "\<not> tok_at rs i c"
    | (cell) "cells (rs ! i) \<noteq> []" "tok_at rs i c" by fastforce
  then show ?case
  proof cases
    case over
    show ?thesis
    proof (cases "wrapColumns (rs ! i) = 0")
      case False
      have n: "\<not> (length rs \<le> i \<or> cells (rs ! i) = [])" using over by auto
      have p: "path rs i c = path rs (i + 1) 0" using path_cases(2) [OF over] False by simp
      have "\<not> (tok_at rs (i + 1) 0 \<and> text_at rs (i + 1) 0 = SEARCH_WIDE_CONT)"
        using v path_tok [OF r, of "i + 1" 0] unfolding p by auto
      then show ?thesis using 1(1) [OF n over(3) False r v [unfolded p]] unfolding p by auto
    qed (use v path_cases(2) [OF over] in simp)
  next
    case cell
    then have b: "\<not> (length rs \<le> i \<or> cells (rs ! i) = [])" "\<not> url_limit (rs ! i) \<le> c" by (auto simp: tok_at_def)
    note p = path_tok [OF r cell(2)]
    let ?next = "tok_at rs i (c + 1) \<and> text_at rs i (c + 1) = SEARCH_WIDE_CONT"
    have width: "?next \<Longrightarrow> con_cp_width (text_at rs i c) = 2"
      if "collect rs cap (path rs i (c + 1)) w = Some v" for w
      using that path_tok [OF r, of i "c + 1"] by (auto split: if_splits)
    show ?thesis
    proof (cases "text_at rs i c = SEARCH_WIDE_CONT")
      case True
      have w: "collect rs cap (path rs i (c + 1)) u = Some v" using v True unfolding p by (auto split: if_splits)
      have "\<not> ?next" using width [OF w] True cont_width by auto
      then show ?thesis using 1(2) [OF b cell(2) r w] True cell(2) unfolding p by auto
    next
      case False
      let ?bs = "con_utf8_encode (text_at rs i c)"
      have w: "collect rs cap (path rs i (c + 1)) (u @ ?bs) = Some v" and ne: "?bs \<noteq> []"
        using v False unfolding p by (auto simp: Let_def split: if_splits)
      have "1 \<le> length ?bs" using ne by (cases ?bs) auto
      moreover have "?next \<Longrightarrow> 2 \<le> length ?bs" using width [OF w] encode_wide by auto
      ultimately show ?thesis using 1(2) [OF b cell(2) r w] False unfolding p by (auto split: if_splits)
    qed
  qed (use v path_cases in auto)
qed

lemma answer_bounds:
  assumes r: "url_rows rs" and a: "token_answer rs cap (path rs j x) = Some (url, s, f)" and cap: "2 \<le> cap"
  shows "length (path rs j x) \<le> CON_URL_MAX + 1" "s \<le> int (length (path rs j x))" "f \<le> int (length (path rs j x))"
proof -
  obtain v where v: "collect rs cap (path rs j x) [] = Some v"
    and s: "s = int (length (takeWhile (\<lambda>b. b = 0x28 \<or> b = 0x5B \<or> b = 0x7B) v))"
    using a by (auto simp: token_answer_def Let_def split: option.splits if_splits)
  have "length v \<le> CON_URL_MAX" using collect_length [OF v] cap by simp
  then show "length (path rs j x) \<le> CON_URL_MAX + 1" using path_bytes [OF r v] by (simp split: if_splits)
  have "length (takeWhile (\<lambda>b. b = 0x28 \<or> b = 0x5B \<or> b = 0x7B) v) \<le> length (filter (\<lambda>b. b < 0x80) v)"
    by (induction v) auto
  then show "s \<le> int (length (path rs j x))" using collect_ascii [OF v] s by simp
  show "f \<le> int (length (path rs j x))"
    using a by (auto simp: token_answer_def Let_def split: option.splits if_splits)
qed

section \<open>Links\<close>

definition url_links :: "con_link_pool \<Rightarrow> charmap_line list \<Rightarrow> bool" where
  "url_links p rs \<longleftrightarrow> (\<forall>r \<in> set rs. \<forall>ls. links r = Some ls \<longrightarrow> (\<forall>a. Some a \<in> set ls \<longrightarrow>
     (\<exists>l. link_of p a = Some l \<and> link_ok l \<and> link_data l ! uriLength l = 0)))"

lemma owner_link:
  assumes r: "url_rows rs" and l: "url_links p rs" and o: "owner_at rs i c = Some a"
  obtains lk uri where "link_of p a = Some lk" "c_string (link_data lk) = Some uri" "uriLength lk \<le> CON_URL_MAX"
    "uriLength lk + 1 \<le> length (link_data lk)"
proof -
  have i: "i < length rs" "c < url_limit (rs ! i)" using o by (auto simp: owner_at_def split: if_splits)
  obtain ls where ls: "links (rs ! i) = Some ls" "ls ! c = Some a" using o i by (auto simp: owner_at_def split: option.splits)
  have "c < length ls" using url_row(1,5,6) [OF r i(1)] ls(1) i(2) by simp
  then have "Some a \<in> set ls" using ls(2) by (metis nth_mem)
  then obtain lk where lk: "link_of p a = Some lk" "link_ok lk" "link_data lk ! uriLength lk = 0"
    using l i(1) ls(1) unfolding url_links_def by (meson nth_mem)
  have "uriLength lk < length (link_data lk)" using lk(2) by (simp add: link_ok_def)
  then have "0 \<in> set (link_data lk)" using lk(3) by (metis nth_mem)
  then show thesis using that lk by (auto simp: c_string_def link_ok_def CON_URL_MAX_def con_link_uri_max_def)
qed

text \<open>The URL of a cell of a token, from its index in the path.\<close>

definition answer_url :: "nat \<Rightarrow> (byte list \<times> int \<times> int) option \<Rightarrow> byte list option" where
  "answer_url n a = (case a of None \<Rightarrow> None | Some (url, s, f) \<Rightarrow> if n \<le> CON_URL_MAX \<and> s \<le> int n \<and> int n < f then Some url else None)"

lemma con_url_at_token:
  assumes r: "url_rows rs" and t: "tok_at rs i c" and st: "starts rs i c j x pre"
  shows "con_url_at p rs i c 1024 = Some (answer_url (length pre) (token_answer rs 1024 (path rs j x)))"
proof -
  have "owner_at rs i c = None" using t by (simp add: tok_at_def)
  then show ?thesis
    using scan_token [OF r t st, of 1024] url_explicit_total [OF r, of i c]
    by (auto simp: con_url_at_def answer_url_def view_def split: option.splits)
qed

lemma con_url_at_outside:
  assumes r: "url_rows rs" and o: "owner_at rs i c = None" and t: "\<not> tok_at rs i c"
  shows "con_url_at p rs i c 1024 = Some None"
  using scan_outside [OF r o t] url_explicit_total [OF r, of i c] o by (simp add: con_url_at_def)

section \<open>Segments\<close>

text \<open>A stretch of a row in which every cell opens the same URL, or none does.\<close>

definition same_url :: "con_link_pool \<Rightarrow> charmap_line list \<Rightarrow> nat \<Rightarrow> bool \<Rightarrow> nat \<Rightarrow> nat \<Rightarrow> bool" where
  "same_url p rs i u c e \<longleftrightarrow> (\<exists>url. \<forall>k. c \<le> k \<and> k < e \<longrightarrow> con_url_at p rs i k 1024 = Some (if u then Some url else None))"

lemma same_urlI: "(\<And>k. c \<le> k \<Longrightarrow> k < e \<Longrightarrow> con_url_at p rs i k 1024 = Some (if u then Some url else None)) \<Longrightarrow> same_url p rs i u c e"
  unfolding same_url_def by blast

lemma same_url_join: "same_url p rs i False c d \<Longrightarrow> same_url p rs i False d e \<Longrightarrow> same_url p rs i False c e"
  unfolding same_url_def by (simp, meson not_le)

lemma extend_link_run:
  "url_rows rs \<Longrightarrow> \<exists>e'. extend_link rs i l e m = Some e' \<and> e \<le> e' \<and> e' \<le> e + m \<and> (\<forall>k. e \<le> k \<and> k < e' \<longrightarrow> owner_at rs i k = l)"
proof (induction m arbitrary: e)
  case (Suc m)
  obtain e' where e': "extend_link rs i l (e + 1) m = Some e'" "e + 1 \<le> e'" "e' \<le> e + 1 + m"
    "\<forall>k. e + 1 \<le> k \<and> k < e' \<longrightarrow> owner_at rs i k = l" using Suc by blast
  show ?case
  proof (cases "owner_at rs i e = l")
    case True
    have "owner_at rs i k = l" if "e \<le> k" "k < e'" for k using that e'(4) True by (cases "k = e") auto
    then show ?thesis using e' True by (intro exI [of _ e']) (simp add: url_explicit_total [OF Suc.prems])
  qed (auto simp: url_explicit_total [OF Suc.prems])
qed auto

lemma extend_token_run:
  assumes r: "url_rows rs" and i: "i < length rs"
  shows "e + m \<le> url_limit (rs ! i) \<Longrightarrow> \<exists>e'. extend_token rs i token e m = Some e' \<and> e \<le> e' \<and> e' \<le> e + m \<and>
     (\<forall>k. e \<le> k \<and> k < e' \<longrightarrow> owner_at rs i k = None \<and> tok_at rs i k = token)"
proof (induction m arbitrary: e)
  case (Suc m)
  obtain e' where e': "extend_token rs i token (e + 1) m = Some e'" "e + 1 \<le> e'" "e' \<le> e + 1 + m"
    "\<forall>k. e + 1 \<le> k \<and> k < e' \<longrightarrow> owner_at rs i k = None \<and> tok_at rs i k = token" using Suc.IH [of "e + 1"] Suc.prems by auto
  have c: "e < url_limit (rs ! i)" using Suc.prems by simp
  have u: "tok_at rs i e \<longleftrightarrow> url_character (cell_text (cells (rs ! i) ! e)) \<and> owner_at rs i e = None"
    using i c by (auto simp: tok_at_def text_at_def)
  note x = url_explicit_total [OF r] row_reads(1) [OF r i c]
  show ?case
  proof (cases "owner_at rs i e = None \<and> tok_at rs i e = token")
    case True
    have "owner_at rs i k = None \<and> tok_at rs i k = token" if "e \<le> k" "k < e'" for k using that e'(4) True by (cases "k = e") auto
    then show ?thesis using e' True u by (intro exI [of _ e']) (simp add: x)
  next
    case False
    then have "extend_token rs i token e (Suc m) = Some e" using u by (auto simp: x)
    then show ?thesis by (auto intro!: exI [of _ e])
  qed
qed auto

lemma segment_skip:
  assumes r: "url_rows rs" and i: "i < length rs" and c: "c < url_limit (rs ! i)" and o: "owner_at rs i c = None"
    and none: "\<And>k. c \<le> k \<Longrightarrow> (\<And>k'. c \<le> k' \<Longrightarrow> k' \<le> k \<Longrightarrow> tok_at rs i k' = tok_at rs i c \<and> owner_at rs i k' = None) \<Longrightarrow>
       con_url_at p rs i k 1024 = Some None"
  shows "\<exists>e. extend_token rs i (url_character (cell_text (cells (rs ! i) ! c))) (c + 1) (url_limit (rs ! i) - (c + 1)) = Some e \<and>
     c < e \<and> e \<le> url_limit (rs ! i) \<and> same_url p rs i False c e"
proof -
  have t: "url_character (cell_text (cells (rs ! i) ! c)) = tok_at rs i c" using i c o by (simp add: tok_at_def text_at_def)
  have "c + 1 + (url_limit (rs ! i) - (c + 1)) \<le> url_limit (rs ! i)" using c by simp
  from extend_token_run [OF r i this, of "tok_at rs i c"]
  obtain e where e: "extend_token rs i (tok_at rs i c) (c + 1) (url_limit (rs ! i) - (c + 1)) = Some e" "c + 1 \<le> e"
    "e \<le> url_limit (rs ! i)" "\<forall>k. c + 1 \<le> k \<and> k < e \<longrightarrow> owner_at rs i k = None \<and> tok_at rs i k = tok_at rs i c"
    using c by auto
  have "same_url p rs i False c e"
  proof (rule same_urlI, simp, rule none)
    fix k k' assume "c \<le> k" "k < e" "c \<le> k'" "k' \<le> k"
    then show "tok_at rs i k' = tok_at rs i c \<and> owner_at rs i k' = None" using e(4) o by (cases "k' = c") auto
  qed
  then show ?thesis using e t by auto
qed


lemma path_extent:
  assumes r: "url_rows rs" and i: "i < length rs"
  shows "d < length (path rs i c) \<Longrightarrow> c + d < url_limit (rs ! i) \<Longrightarrow> tok_at rs i (c + d)"
proof (induction d arbitrary: c)
  case 0
  then show ?case using path_cases(3) [OF i, of c] by auto
next
  case (Suc d)
  have c: "c < url_limit (rs ! i)" using Suc.prems by simp
  have t: "tok_at rs i c"
  proof (rule ccontr)
    assume "\<not> tok_at rs i c"
    from path_cases(3) [OF i c this] Suc.prems show False by simp
  qed
  show ?case using Suc.IH [of "c + 1"] Suc.prems path_tok [OF r t] by simp
qed

text \<open>All cells of a token share one answer, seen from their indices.\<close>

lemma token_cells:
  assumes r: "url_rows rs" and i: "i < length rs" and c: "c < url_limit (rs ! i)" and t: "tok_at rs i c"
  obtains n ps where
    "url_scan rs i c (CON_URL_MAX + 1) =
       Some (if n > CON_URL_MAX then Scan_fail else view n (token_answer rs 1024 ps))"
    "\<And>k. c \<le> k \<Longrightarrow> (\<And>k'. c \<le> k' \<Longrightarrow> k' \<le> k \<Longrightarrow> tok_at rs i k') \<Longrightarrow>
       con_url_at p rs i k 1024 = Some (answer_url (n + (k - c)) (token_answer rs 1024 ps))"
    "\<And>k. c \<le> k \<Longrightarrow> k < url_limit (rs ! i) \<Longrightarrow> n + (k - c) < length ps \<Longrightarrow> tok_at rs i k"
    "\<And>url s f. token_answer rs 1024 ps = Some (url, s, f) \<Longrightarrow> length ps \<le> CON_URL_MAX + 1 \<and> s \<le> int (length ps) \<and> f \<le> int (length ps)"
proof -
  obtain j x pre where st: "starts rs i c j x pre" using starts_exists [OF r i c] by blast
  have len: "length (path rs j x) = length pre + length (path rs i c)" using st by (simp add: starts_def)
  show thesis
  proof (rule that [of "length pre" "path rs j x"])
    show "url_scan rs i c (CON_URL_MAX + 1) =
        Some (if length pre > CON_URL_MAX then Scan_fail else view (length pre) (token_answer rs 1024 (path rs j x)))"
      using scan_token [OF r t st, of 1024] by (simp add: CON_URL_MAX_def)
    fix k assume k: "c \<le> k"
    {
      assume all: "\<And>k'. c \<le> k' \<Longrightarrow> k' \<le> k \<Longrightarrow> tok_at rs i k'"
      have kt: "tok_at rs i k" using all k by simp
      have "starts rs i (c + (k - c)) j x (pre @ map (Pair i) [c..<c + (k - c)])"
        by (rule starts_run [OF r st]) (use all kt k in \<open>auto simp: tok_at_def\<close>)
      then have "starts rs i k j x (pre @ map (Pair i) [c..<k])" using k by simp
      from con_url_at_token [OF r kt this] show "con_url_at p rs i k 1024 = Some (answer_url (length pre + (k - c)) (token_answer rs 1024 (path rs j x)))"
        by simp
    }
    assume "k < url_limit (rs ! i)" "length pre + (k - c) < length (path rs j x)"
    then show "tok_at rs i k" using path_extent [OF r i, of "k - c" c] k len by simp
  next
    fix url s f assume "token_answer rs 1024 (path rs j x) = Some (url, s, f)"
    then show "length (path rs j x) \<le> CON_URL_MAX + 1 \<and> s \<le> int (length (path rs j x)) \<and> f \<le> int (length (path rs j x))"
      using answer_bounds [OF r, of 1024 j x url s f] by simp
  qed
qed

lemma segment_token:
  assumes r: "url_rows rs" and i: "i < length rs" and c: "c < url_limit (rs ! i)" and t: "tok_at rs i c"
  shows "\<exists>u e. url_run_segment p rs i c = Some (u, e) \<and> c < e \<and> e \<le> url_limit (rs ! i) \<and> same_url p rs i u c e"
proof -
  let ?L = "url_limit (rs ! i)"
  obtain n ps where scan: "url_scan rs i c (CON_URL_MAX + 1) =
       Some (if n > CON_URL_MAX then Scan_fail else view n (token_answer rs 1024 ps))"
    and cell: "\<And>k. c \<le> k \<Longrightarrow> (\<And>k'. c \<le> k' \<Longrightarrow> k' \<le> k \<Longrightarrow> tok_at rs i k') \<Longrightarrow>
       con_url_at p rs i k 1024 = Some (answer_url (n + (k - c)) (token_answer rs 1024 ps))"
    and extent: "\<And>k. c \<le> k \<Longrightarrow> k < ?L \<Longrightarrow> n + (k - c) < length ps \<Longrightarrow> tok_at rs i k"
    and bounds: "\<And>url s f. token_answer rs 1024 ps = Some (url, s, f) \<Longrightarrow>
       length ps \<le> CON_URL_MAX + 1 \<and> s \<le> int (length ps) \<and> f \<le> int (length ps)"
    using token_cells [OF r i c t] by blast
  have o: "owner_at rs i c = None" using t by (simp add: tok_at_def)
  have head: "\<not> (i \<ge> length rs \<or> cells (rs ! i) = [] \<or> c \<ge> line_size (rs ! i))"
    using i row_reads(2) [OF r i c] url_row(5) [OF r i] c by auto
  have lim: "\<not> ?L \<le> c" using c by simp
  note unf = url_run_segment_def Let_def if_not_P [OF head] row_limits(1) [OF r i] if_not_P [OF lim]
    url_explicit_total [OF r] Option.bind.simps o option.case scan row_reads(1) [OF r i c]
  have skip: "\<exists>e. extend_token rs i (url_character (cell_text (cells (rs ! i) ! c))) (c + 1) (?L - (c + 1)) = Some e \<and>
     c < e \<and> e \<le> ?L \<and> same_url p rs i False c e"
    if none: "\<And>k. c \<le> k \<Longrightarrow> answer_url (n + (k - c)) (token_answer rs 1024 ps) = None"
    by (rule segment_skip [OF r i c o]) (use t cell none in auto)
  show ?thesis
  proof (cases "n > CON_URL_MAX \<or> token_answer rs 1024 ps = None")
    case True
    then have "\<And>k. answer_url (n + (k - c)) (token_answer rs 1024 ps) = None"
      by (auto simp: answer_url_def split: option.splits)
    from skip [OF this] obtain e where e: "extend_token rs i (url_character (cell_text (cells (rs ! i) ! c))) (c + 1) (?L - (c + 1)) = Some e"
       "c < e" "e \<le> ?L" "same_url p rs i False c e" by blast
    have "url_run_segment p rs i c = Some (False, e)" unfolding unf using True e(1) by (auto simp: view_def)
    then show ?thesis using e by blast
  next
    case False
    then obtain url s f where a: "token_answer rs 1024 ps = Some (url, s, f)" and n: "n \<le> CON_URL_MAX" by auto
    note b = bounds [OF a]
    have seg: "url_run_segment p rs i c =
       (let boundary = int c + (if s - int n > 0 then s - int n else f - int n) in
        if boundary > int c then Some (s - int n \<le> 0, if boundary > int ?L then ?L else nat boundary)
        else map_option (\<lambda>e. (False, e)) (extend_token rs i (url_character (cell_text (cells (rs ! i) ! c))) (c + 1) (?L - (c + 1))))"
      unfolding unf a view_def using n by (simp add: Let_def)
    have toks: "tok_at rs i k'" if "c \<le> k'" "k' < ?L" "n + (k' - c) < length ps" for k' using extent that by blast
    consider "s > int n" | "s \<le> int n" "f > int n" | "s \<le> int n" "f \<le> int n" by linarith
    then show ?thesis
    proof cases
      case 1
      define e where "e = min ?L (c + nat (s - int n))"
      have "url_run_segment p rs i c = Some (False, e)" unfolding seg e_def using 1 by (auto simp: Let_def min_def)
      moreover have "same_url p rs i False c e"
      proof (rule same_urlI)
        fix k assume k: "c \<le> k" "k < e"
        have "con_url_at p rs i k 1024 = Some (answer_url (n + (k - c)) (token_answer rs 1024 ps))"
          by (rule cell [OF k(1)], rule toks) (use k b 1 in \<open>auto simp: e_def\<close>)
        moreover have "\<not> s \<le> int (n + (k - c))" using k 1 by (auto simp: e_def)
        ultimately show "con_url_at p rs i k 1024 = Some (if False then Some url else None)" by (simp add: a answer_url_def)
      qed
      ultimately show ?thesis using 1 c by (intro exI [of _ False] exI [of _ e]) (auto simp: e_def)
    next
      case 2
      define e where "e = min ?L (c + nat (f - int n))"
      have "url_run_segment p rs i c = Some (True, e)" unfolding seg e_def using 2 by (auto simp: Let_def min_def)
      moreover have "same_url p rs i True c e"
      proof (rule same_urlI)
        fix k assume k: "c \<le> k" "k < e"
        have "con_url_at p rs i k 1024 = Some (answer_url (n + (k - c)) (token_answer rs 1024 ps))"
          by (rule cell [OF k(1)], rule toks) (use k b 2 in \<open>auto simp: e_def\<close>)
        moreover have "s \<le> int (n + (k - c))" "int (n + (k - c)) < f" "n + (k - c) \<le> CON_URL_MAX" using k 2 b by (auto simp: e_def)
        ultimately show "con_url_at p rs i k 1024 = Some (if True then Some url else None)" by (simp add: a answer_url_def)
      qed
      ultimately show ?thesis using 2 c by (intro exI [of _ True] exI [of _ e]) (auto simp: e_def)
    next
      case 3
      have "\<And>k. answer_url (n + (k - c)) (token_answer rs 1024 ps) = None" using 3 by (auto simp: a answer_url_def)
      from skip [OF this] obtain e where e: "extend_token rs i (url_character (cell_text (cells (rs ! i) ! c))) (c + 1) (?L - (c + 1)) = Some e"
       "c < e" "e \<le> ?L" "same_url p rs i False c e" by blast
      have "url_run_segment p rs i c = Some (False, e)" unfolding seg using 3 e(1) by (simp add: Let_def)
      then show ?thesis using e by blast
    qed
  qed
qed

lemma segment_run:
  assumes r: "url_rows rs" and l: "url_links p rs" and i: "i < length rs" and c: "c < line_size (rs ! i)"
  shows "\<exists>u e. url_run_segment p rs i c = Some (u, e) \<and> c < e \<and> e \<le> line_size (rs ! i) \<and> same_url p rs i u c e"
proof -
  let ?L = "url_limit (rs ! i)"
  have L: "?L \<le> line_size (rs ! i)" by (rule url_row(5) [OF r i])
  have head: "\<not> (i \<ge> length rs \<or> cells (rs ! i) = [] \<or> c \<ge> line_size (rs ! i))" using i c url_row(1) [OF r i] by auto
  note unf = url_run_segment_def Let_def if_not_P [OF head] row_limits(1) [OF r i]
  consider "?L \<le> c" | a where "c < ?L" "owner_at rs i c = Some a" | "c < ?L" "tok_at rs i c"
    | "c < ?L" "owner_at rs i c = None" "\<not> tok_at rs i c" by (cases "owner_at rs i c"; cases "tok_at rs i c"; cases "?L \<le> c") (auto simp: not_le)
  then show ?thesis
  proof cases
    case 1
    have "same_url p rs i False c (line_size (rs ! i))"
    proof (rule same_urlI)
      fix k assume "c \<le> k"
      then have "owner_at rs i k = None" "\<not> tok_at rs i k" using 1 by (auto simp: owner_at_def tok_at_def)
      then show "con_url_at p rs i k 1024 = Some (if False then Some [] else None)" using con_url_at_outside [OF r] by simp
    qed
    moreover have "url_run_segment p rs i c = Some (False, line_size (rs ! i))" unfolding unf using 1 by simp
    ultimately show ?thesis using c by blast
  next
    case (2 a)
    obtain lk uri where k: "link_of p a = Some lk" "c_string (link_data lk) = Some uri" "uriLength lk \<le> CON_URL_MAX"
      "uriLength lk + 1 \<le> length (link_data lk)" using owner_link [OF r l 2(2)] by blast
    obtain e where e: "extend_link rs i (Some a) (c + 1) (?L - (c + 1)) = Some e" "c + 1 \<le> e" "e \<le> ?L"
      "\<forall>k. c + 1 \<le> k \<and> k < e \<longrightarrow> owner_at rs i k = Some a"
      using extend_link_run [OF r, of i "Some a" "c + 1" "?L - (c + 1)"] 2(1) by auto
    have "url_run_segment p rs i c = Some (url_scheme uri, e)"
      unfolding unf using 2 e(1) k by (simp add: url_explicit_total [OF r] link_uri_def)
    moreover have "same_url p rs i (url_scheme uri) c e"
    proof (rule same_urlI)
      fix m assume "c \<le> m" "m < e"
      then have "owner_at rs i m = Some a" using e(4) 2(2) by (cases "m = c") auto
      then show "con_url_at p rs i m 1024 = Some (if url_scheme uri then Some (take (uriLength lk) (link_data lk)) else None)"
        using k by (simp add: con_url_at_def url_explicit_total [OF r] CON_URL_MAX_def)
    qed
    ultimately show ?thesis using e(2,3) L by (intro exI [of _ "url_scheme uri"] exI [of _ e]) simp
  next
    case 3
    then show ?thesis using segment_token [OF r i, of c p] L by (meson order_trans)
  next
    case 4
    have "\<exists>e. extend_token rs i (url_character (cell_text (cells (rs ! i) ! c))) (c + 1) (?L - (c + 1)) = Some e \<and>
       c < e \<and> e \<le> ?L \<and> same_url p rs i False c e"
      by (rule segment_skip [OF r i 4(1,2)]) (use 4(3) con_url_at_outside [OF r] in blast)
    then obtain e where e: "extend_token rs i (url_character (cell_text (cells (rs ! i) ! c))) (c + 1) (?L - (c + 1)) = Some e"
       "c < e" "e \<le> ?L" "same_url p rs i False c e" by blast
    have "url_run_segment p rs i c = Some (False, e)"
      unfolding unf using 4 e(1) by (simp add: url_explicit_total [OF r] scan_outside [OF r 4(2,3)] row_reads(1) [OF r i 4(1)])
    then show ?thesis using e L by auto
  qed
qed

section \<open>Runs and rows\<close>

lemma run_loop_run:
  assumes r: "url_rows rs" and l: "url_links p rs" and i: "i < length rs"
  shows "e \<le> line_size (rs ! i) \<Longrightarrow> \<exists>e'. run_loop p rs i e = Some e' \<and> e \<le> e' \<and> e' \<le> line_size (rs ! i) \<and> same_url p rs i False e e'"
proof (induction "line_size (rs ! i) - e" arbitrary: e rule: less_induct)
  case less
  have stay: "same_url p rs i False e e" by (auto simp: same_url_def)
  show ?case
  proof (cases "e < line_size (rs ! i)")
    case True
    obtain u d where d: "url_run_segment p rs i e = Some (u, d)" "e < d" "d \<le> line_size (rs ! i)" "same_url p rs i u e d"
      using segment_run [OF r l i True] by blast
    show ?thesis
    proof (cases u)
      case u: True
      then have "run_loop p rs i e = Some e" using True d(1) by (subst run_loop.simps) simp
      then show ?thesis using stay less.prems by auto
    next
      case u: False
      have s: "run_loop p rs i e = run_loop p rs i d" using True d(1,2) u by (subst run_loop.simps) simp
      obtain e' where "run_loop p rs i d = Some e'" "d \<le> e'" "e' \<le> line_size (rs ! i)" "same_url p rs i False d e'"
        using less.hyps [OF _ d(3)] True d(2) by fastforce
      then have "run_loop p rs i e = Some e'" "e \<le> e'" "e' \<le> line_size (rs ! i)" "same_url p rs i False e e'"
        using s d(2,4) u same_url_join [of p rs i e d e'] by simp_all
      then show ?thesis by blast
    qed
  next
    case False
    then have "run_loop p rs i e = Some e" by (subst run_loop.simps) simp
    then show ?thesis using stay less.prems by blast
  qed
qed

lemma url_run_run:
  assumes r: "url_rows rs" and l: "url_links p rs" and i: "i < length rs" and c: "c < line_size (rs ! i)"
  shows "\<exists>u e. con_url_run p rs i c = Some (u, e) \<and> c < e \<and> e \<le> line_size (rs ! i) \<and> same_url p rs i u c e"
proof -
  have ne: "cells (rs ! i) \<noteq> []" using c url_row(1) [OF r i] by auto
  obtain u d where d: "url_run_segment p rs i c = Some (u, d)" "c < d" "d \<le> line_size (rs ! i)" "same_url p rs i u c d"
    using segment_run [OF r l i c] by blast
  show ?thesis
  proof (cases u)
    case True
    then show ?thesis using d by (auto simp: con_url_run_def)
  next
    case False
    obtain e' where e': "run_loop p rs i d = Some e'" "d \<le> e'" "e' \<le> line_size (rs ! i)" "same_url p rs i False d e'"
      using run_loop_run [OF r l i d(3)] by blast
    have "con_url_run p rs i c = Some (False, e')" using False d(1) e'(1) i ne by (simp add: con_url_run_def)
    moreover have "same_url p rs i False c e'" using same_url_join d(4) e'(4) False by simp
    ultimately show ?thesis using d(2) e'(2,3) by (intro exI [of _ False] exI [of _ e']) simp
  qed
qed

lemma row_loop_answer:
  assumes r: "url_rows rs" and l: "url_links p rs" and i: "i < length rs"
  shows "row_loop p rs i c = Some (\<exists>k url. c \<le> k \<and> k < line_size (rs ! i) \<and> con_url_at p rs i k 1024 = Some (Some url))"
proof (induction "line_size (rs ! i) - c" arbitrary: c rule: less_induct)
  case less
  show ?case
  proof (cases "c < line_size (rs ! i)")
    case True
    obtain u e where e: "con_url_run p rs i c = Some (u, e)" "c < e" "e \<le> line_size (rs ! i)" "same_url p rs i u c e"
      using url_run_run [OF r l i True] by blast
    obtain url where url: "\<And>k. c \<le> k \<Longrightarrow> k < e \<Longrightarrow> con_url_at p rs i k 1024 = Some (if u then Some url else None)"
      using e(4) by (auto simp: same_url_def)
    show ?thesis
    proof (cases u)
      case u: True
      then have "row_loop p rs i c = Some True" using True e(1) by (subst row_loop.simps) simp
      then show ?thesis using url [of c] u e(2) True by auto
    next
      case u: False
      have s: "row_loop p rs i c = row_loop p rs i e" using True e(1,2) u by (subst row_loop.simps) simp
      have "c \<le> k \<and> k < line_size (rs ! i) \<and> con_url_at p rs i k 1024 = Some (Some w) \<longleftrightarrow>
          e \<le> k \<and> k < line_size (rs ! i) \<and> con_url_at p rs i k 1024 = Some (Some w)" for k w
        using url [of k] u e(2) by (cases "k < e") auto
      then show ?thesis using s less.hyps [of e] True e(2) by simp
    qed
  qed (auto simp: row_loop.simps [of p rs i c])
qed


section \<open>What is underlined is what a click opens\<close>

text \<open>
  C10. Over well-formed rows whose links are in the pool, painting and clicking agree: from every
  column of a row \<open>con_url_run\<close> stays inside the rows, makes progress, and answers a run in which either every
  cell opens one and the same URL (an underlined run) or no cell opens any; and \<open>con_url_in_row\<close> answers
  whether some cell of the row opens a URL. Tokens may continue over automatic wraps on both sides.
\<close>

theorem url_underline_click:
  assumes "url_rows rs" and "url_links p rs" and "i < length rs" and "column < line_size (rs ! i)"
  shows "(\<exists>u e url. con_url_run p rs i column = Some (u, e) \<and> column < e \<and> e \<le> line_size (rs ! i) \<and>
        (\<forall>c. column \<le> c \<and> c < e \<longrightarrow> con_url_at p rs i c 1024 = Some (if u then Some url else None))) \<and>
     con_url_in_row p rs i = Some (\<exists>c url. c < line_size (rs ! i) \<and> con_url_at p rs i c 1024 = Some (Some url))"
proof
  show "\<exists>u e url. con_url_run p rs i column = Some (u, e) \<and> column < e \<and> e \<le> line_size (rs ! i) \<and>
      (\<forall>c. column \<le> c \<and> c < e \<longrightarrow> con_url_at p rs i c 1024 = Some (if u then Some url else None))"
    using url_run_run [OF assms] unfolding same_url_def by blast
  show "con_url_in_row p rs i = Some (\<exists>c url. c < line_size (rs ! i) \<and> con_url_at p rs i c 1024 = Some (Some url))"
    using row_loop_answer [OF assms(1-3), of 0] assms(3) by (simp add: con_url_in_row_def)
qed

text \<open>A row \<open>(ftp://a/b).\<close> of twelve columns that wraps into a second row \<open>c) d\<close>.\<close>

definition url_example :: "charmap_line list" where
  "url_example =
     [(nav_row_of [0x28, 0x66, 0x74, 0x70, 0x3A, 0x2F, 0x2F, 0x61, 0x2F, 0x62])\<lparr>wrapColumns := 10\<rparr>,
      nav_row_of [0x63, 0x29, 0x20, 0x64]]"

lemma url_example_ok: "url_rows url_example" "url_links empty_pool url_example"
  by (auto simp: url_rows_def nav_rows_def url_example_def nav_row_of_def line_ok_def charmap_newline_def ulong_max_def url_links_def)

theorem url_underline_click_witness:
  "\<exists>u e url. con_url_run empty_pool url_example 1 0 = Some (u, e) \<and> 0 < e \<and> e \<le> line_size (url_example ! 1) \<and>
     (\<forall>c. 0 \<le> c \<and> c < e \<longrightarrow> con_url_at empty_pool url_example 1 c 1024 = Some (if u then Some url else None))"
  using url_underline_click [OF url_example_ok, of 1 0]
  by (simp add: url_example_def nav_row_of_def)

section \<open>Quoting\<close>

text \<open>
  The reader of quoted arguments of dos.library, after the opening quote: what it documents of the
  two escapes and of plain characters. It returns the item and what follows the closing quote.
\<close>

definition reads_quoted :: "(byte list \<Rightarrow> (byte list \<times> byte list) option) \<Rightarrow> bool" where
  "reads_quoted item \<longleftrightarrow>
     (\<forall>s. item (0x22 # s) = Some ([], s)) \<and>
     (\<forall>c s. c = 0x22 \<or> c = 0x2A \<longrightarrow> item (0x2A # c # s) = map_option (apfst (Cons c)) (item s)) \<and>
     (\<forall>c s. c \<ge> 32 \<and> c \<noteq> 0x22 \<and> c \<noteq> 0x2A \<longrightarrow> item (c # s) = map_option (apfst (Cons c)) (item s))"

definition quote_byte :: "byte \<Rightarrow> byte list" where
  "quote_byte c = (if c = 0x22 \<or> c = 0x2A then [0x2A, c] else [c])"

definition sendable :: "byte list \<Rightarrow> bool" where
  "sendable url \<longleftrightarrow> length url \<le> CON_URL_MAX \<and> list_all (\<lambda>c. c \<ge> 32 \<and> c \<noteq> 127) url"

lemma quoted_length: "length (concat (map quote_byte url)) \<le> 2 * length url"
  by (induction url) (auto simp: quote_byte_def)

lemma quote_url_exact:
  "length args \<le> 1 + 2 * i \<Longrightarrow> quote_url URL_LAUNCH_ARGS i args url =
     (if i + length url \<le> CON_URL_MAX \<and> list_all (\<lambda>c. c \<ge> 32 \<and> c \<noteq> 127) url \<or> url = [] then Some (args @ concat (map quote_byte url)) else None)"
proof (induction url arbitrary: i args)
  case (Cons c url)
  show ?case
  proof (cases "i + 1 > CON_URL_MAX \<or> c < 32 \<or> c = 127")
    case True
    then show ?thesis by (auto simp: not_le)
  next
    case False
    then have room: "\<not> length args + 4 \<ge> URL_LAUNCH_ARGS" using Cons.prems by (simp add: URL_LAUNCH_ARGS_def)
    have "quote_url URL_LAUNCH_ARGS i args (c # url) = quote_url URL_LAUNCH_ARGS (i + 1) (args @ quote_byte c) url"
      using False room by (auto simp: quote_byte_def)
    also have "\<dots> = (if (i + 1) + length url \<le> CON_URL_MAX \<and> list_all (\<lambda>c. c \<ge> 32 \<and> c \<noteq> 127) url \<or> url = []
        then Some ((args @ quote_byte c) @ concat (map quote_byte url)) else None)"
      by (rule Cons.IH) (use Cons.prems in \<open>simp add: quote_byte_def\<close>)
    finally show ?thesis using False by (auto simp: not_less not_le)
  qed
qed simp

lemma quoted_reads_back:
  "reads_quoted item \<Longrightarrow> list_all (\<lambda>c. c \<ge> 32 \<and> c \<noteq> 127) url \<Longrightarrow>
     item (concat (map quote_byte url) @ 0x22 # s) = Some (url, s)"
  by (induction url) (auto simp: reads_quoted_def quote_byte_def)

lemma url_arguments_exact:
  "url_arguments url URL_LAUNCH_ARGS =
     Some (if url_scheme url \<and> sendable url then Some ([0x22] @ concat (map quote_byte url) @ [0x22, 0x0A, 0]) else None)"
proof (cases "url_scheme url \<and> sendable url")
  case True
  then have "quote_url URL_LAUNCH_ARGS 0 [0x22] url = Some ([0x22] @ concat (map quote_byte url))"
    using quote_url_exact [of "[0x22]" 0 url] by (simp add: sendable_def)
  moreover have "length (concat (map quote_byte url)) \<le> 2 * CON_URL_MAX"
    using quoted_length [of url] True by (simp add: sendable_def)
  ultimately show ?thesis using True by (simp add: url_arguments_def URL_LAUNCH_ARGS_def)
next
  case False
  show ?thesis
  proof (cases "url_scheme url")
    case u: True
    then have "url \<noteq> []" by (auto simp: url_scheme_def url_schemes_def)
    then have "quote_url URL_LAUNCH_ARGS 0 [0x22] url = None"
      using quote_url_exact [of "[0x22]" 0 url] False u by (auto simp: sendable_def)
    then show ?thesis using u False by (simp add: url_arguments_def)
  qed (use False in \<open>simp add: url_arguments_def\<close>)
qed

text \<open>
  C24. Opening a URL never writes outside the argument buffer. It is refused, and the job freed, when memory, the scheme,
  a control character, the length of 1023 bytes or the system forbids it; otherwise exactly one worker is started, and whatever
  reader of quoted arguments the command uses, it gets back the URL byte for byte, followed by a newline.
\<close>

theorem url_open_quotes:
  assumes "reads_quoted item"
  shows "\<exists>ok events. con_open_url memory dos process url = Some (ok, events) \<and>
     (ok \<longleftrightarrow> memory \<and> dos \<and> process \<and> url_scheme url \<and> sendable url) \<and>
     (if ok then \<exists>args. events = [Job_alloc, Worker_start (0x22 # args)] \<and> item args = Some (url, [0x0A, 0]) \<and> length args < URL_LAUNCH_ARGS
      else events = (if memory then [Job_alloc, Job_free] else []))"
proof (cases "memory \<and> url_scheme url \<and> sendable url")
  case True
  let ?args = "concat (map quote_byte url) @ [0x22, 0x0A, 0]"
  have "item ?args = Some (url, [0x0A, 0])"
    using quoted_reads_back [OF assms, of url "[0x0A, 0]"] True by (simp add: sendable_def)
  moreover have "length ?args < URL_LAUNCH_ARGS"
    using quoted_length [of url] True by (simp add: sendable_def URL_LAUNCH_ARGS_def)
  ultimately show ?thesis using True
    by (cases "dos \<and> process") (auto simp: con_open_url_def url_arguments_exact Let_def)
next
  case False
  then show ?thesis by (auto simp: con_open_url_def url_arguments_exact)
qed

text \<open>A reader with these laws, for the witness.\<close>

fun read_item :: "byte list \<Rightarrow> (byte list \<times> byte list) option" where
  "read_item [] = None"
| "read_item (c # s) =
     (if c = 0x22 then Some ([], s)
      else if c = 0x2A then (case s of [] \<Rightarrow> None | d # t \<Rightarrow> map_option (apfst (Cons d)) (read_item t))
      else map_option (apfst (Cons c)) (read_item s))"

lemma read_item_ok: "reads_quoted read_item"
  by (auto simp: reads_quoted_def)

theorem url_open_quotes_witness:
  "\<exists>ok events. con_open_url True True True [0x66, 0x74, 0x70, 0x3A, 0x2F, 0x2F, 0x2A] = Some (ok, events) \<and>
     ok \<and> (\<exists>args. events = [Job_alloc, Worker_start (0x22 # args)] \<and> read_item args = Some ([0x66, 0x74, 0x70, 0x3A, 0x2F, 0x2F, 0x2A], [0x0A, 0]))"
  using url_open_quotes [OF read_item_ok, of True True True "[0x66, 0x74, 0x70, 0x3A, 0x2F, 0x2F, 0x2A]"]
  by (auto simp: url_scheme_def url_schemes_def sendable_def CON_URL_MAX_def)

end
