(* ===== verification/Bindings.thy ===== *)
theory Bindings
  imports Prelude
begin

text \<open>
  The table of key bindings (\<open>devs/consoleng/binding_prefs.h\<close>, \<open>bindings.c\<close>) and the handling of a shortcut
  by the console task (\<open>consoletask.c\<close>). A validated table is unambiguous, and the release of a key goes
  where its press went.
\<close>

type_synonym ulong = "32 word"
type_synonym uword = "16 word"

section \<open>The table\<close>

definition CONSOLENG_BIND_RAW :: ulong where "CONSOLENG_BIND_RAW = 0x10000"
definition CONSOLENG_BINDING_MAX :: nat where "CONSOLENG_BINDING_MAX = 16"

record key_binding =
  kb_Key :: ulong
  kb_Modifiers :: ulong
  kb_Action :: ulong

text \<open>\<open>bp_Entries\<close> always has 16 entries; the record takes 204 bytes.\<close>

record binding_prefs =
  bp_Size :: nat
  bp_Version :: nat
  bp_Count :: nat
  bp_Entries :: "key_binding list"

definition sizeof_binding_prefs :: nat where "sizeof_binding_prefs = 3 * 4 + CONSOLENG_BINDING_MAX * 12"

definition special_codes :: "ulong list" where
  "special_codes = [0x50, 0x51, 0x52, 0x53, 0x54, 0x55, 0x56, 0x57, 0x58, 0x59, 0x4B, 0x6F, 0x4C, 0x4D, 0x4F, 0x4E,
     0x70, 0x71, 0x48, 0x49, 0x47, 0x46, 0x45, 0x42, 0x41, 0x44, 0x43, 0x5F]"

definition con_binding_special :: "ulong \<Rightarrow> bool" where
  "con_binding_special key \<longleftrightarrow>
     key AND CONSOLENG_BIND_RAW \<noteq> 0 \<and> list_ex (\<lambda>c. key = CONSOLENG_BIND_RAW + c) special_codes"

definition con_binding_physical :: "ulong \<Rightarrow> bool" where
  "con_binding_physical key \<longleftrightarrow>
     con_binding_special key \<or>
     (key AND CONSOLENG_BIND_RAW \<noteq> 0 \<and> key \<le> CONSOLENG_BIND_RAW OR 0x7F \<and>
      (let code = key AND 0x7F in code \<le> 0x40 \<or> code = 0x4A \<or> (code \<ge> 0x5A \<and> code \<le> 0x5E)))"

text \<open>The digits of a hexadecimal key; the text is the string before its terminator, or NULL.\<close>

definition hex_digit :: "byte \<Rightarrow> ulong option" where
  "hex_digit c =
     (if c \<ge> 0x30 \<and> c \<le> 0x39 then Some (ucast c - 0x30)
      else if c \<ge> 0x61 \<and> c \<le> 0x66 then Some (ucast c - 0x61 + 10)
      else if c \<ge> 0x41 \<and> c \<le> 0x46 then Some (ucast c - 0x41 + 10) else None)"

definition con_binding_hex_key :: "byte list option \<Rightarrow> ulong" where
  "con_binding_hex_key text =
     (case text of
        Some [a, b] \<Rightarrow>
          (case (hex_digit a, hex_digit b) of
             (Some x, Some y) \<Rightarrow>
               let key = CONSOLENG_BIND_RAW OR (x * 16 + y) in if con_binding_physical key then key else NOT 0
           | _ \<Rightarrow> NOT 0)
      | _ \<Rightarrow> NOT 0)"

text \<open>The conditions that must hold; the bit above each is the condition that it must not.\<close>

definition context_bits :: "ulong list" where
  "context_bits = [32, 128, 512, 2048, 8192]"

definition con_binding_context_matches :: "ulong \<Rightarrow> ulong \<Rightarrow> bool" where
  "con_binding_context_matches binding ctx \<longleftrightarrow>
     list_all (\<lambda>yes. \<not> (binding AND yes \<noteq> 0 \<and> ctx AND yes = 0) \<and>
       \<not> (binding AND push_bit 1 yes \<noteq> 0 \<and> ctx AND yes \<noteq> 0)) context_bits"

definition con_binding_context_overlap :: "ulong \<Rightarrow> ulong \<Rightarrow> bool" where
  "con_binding_context_overlap a b \<longleftrightarrow>
     list_all (\<lambda>yes. \<not> ((a AND yes \<noteq> 0 \<and> b AND push_bit 1 yes \<noteq> 0) \<or> (b AND yes \<noteq> 0 \<and> a AND push_bit 1 yes \<noteq> 0))) context_bits"

definition con_binding_context_valid :: "ulong \<Rightarrow> bool" where
  "con_binding_context_valid binding \<longleftrightarrow>
     list_all (\<lambda>yes. binding AND (yes OR push_bit 1 yes) \<noteq> yes OR push_bit 1 yes) context_bits"

definition modifier_mask :: "nat \<Rightarrow> ulong" where
  "modifier_mask version = (if version \<ge> 19 then 32767 else if version \<ge> 18 then 8191 else if version \<ge> 12 then 127 else 31)"

definition last_action :: "nat \<Rightarrow> ulong" where
  "last_action version =
     (if version \<ge> 17 then 64 else if version \<ge> 16 then 58 else if version \<ge> 15 then 52 else if version \<ge> 14 then 43
      else if version \<ge> 13 then 25 else if version \<ge> 11 then 21 else if version \<ge> 10 then 19 else if version \<ge> 9 then 18
      else if version \<ge> 8 then 16 else if version \<ge> 7 then 13 else if version \<ge> 6 then 12 else if version \<ge> 4 then 11
      else if version \<ge> 3 then 10 else 4)"

definition logical_key :: "ulong \<Rightarrow> bool" where
  "logical_key key \<longleftrightarrow> key \<ge> 32 \<and> key \<le> 255 \<and> \<not> (key \<ge> 127 \<and> key < 160) \<and> \<not> (key \<ge> 0x41 \<and> key \<le> 0x5A)"

definition same_chord :: "key_binding \<Rightarrow> key_binding \<Rightarrow> bool" where
  "same_chord b c \<longleftrightarrow> kb_Key b = kb_Key c \<and> kb_Modifiers b AND 31 = kb_Modifiers c AND 31 \<and>
     con_binding_context_overlap (kb_Modifiers b) (kb_Modifiers c)"

definition binding_entry_ok :: "binding_prefs \<Rightarrow> nat \<Rightarrow> bool" where
  "binding_entry_ok p i \<longleftrightarrow>
     (let b = bp_Entries p ! i in
      if i \<ge> bp_Count p then kb_Key b = 0 \<and> kb_Modifiers b = 0 \<and> kb_Action b = 0
      else (logical_key (kb_Key b) \<or> (bp_Version p \<ge> 2 \<and> con_binding_special (kb_Key b)) \<or>
            (bp_Version p \<ge> 5 \<and> con_binding_physical (kb_Key b))) \<and>
        kb_Modifiers b AND NOT (modifier_mask (bp_Version p)) = 0 \<and> con_binding_context_valid (kb_Modifiers b) \<and>
        kb_Action b \<ge> 1 \<and> kb_Action b \<le> last_action (bp_Version p) \<and>
        list_all (\<lambda>j. \<not> same_chord b (bp_Entries p ! j)) [0..<i])"

definition con_binding_prefs_valid :: "binding_prefs \<Rightarrow> bool" where
  "con_binding_prefs_valid p \<longleftrightarrow>
     bp_Size p = sizeof_binding_prefs \<and> bp_Version p \<ge> 1 \<and> bp_Version p \<le> 19 \<and> bp_Count p \<le> CONSOLENG_BINDING_MAX \<and>
     list_all (binding_entry_ok p) [0..<CONSOLENG_BINDING_MAX]"

definition con_binding_prefs_defaults :: binding_prefs where
  "con_binding_prefs_defaults =
     \<lparr>bp_Size = sizeof_binding_prefs, bp_Version = 1, bp_Count = 4,
      bp_Entries = [\<lparr>kb_Key = 0x63, kb_Modifiers = 16, kb_Action = 1\<rparr>, \<lparr>kb_Key = 0x76, kb_Modifiers = 16, kb_Action = 2\<rparr>,
        \<lparr>kb_Key = 0x61, kb_Modifiers = 16, kb_Action = 3\<rparr>, \<lparr>kb_Key = 0x66, kb_Modifiers = 5, kb_Action = 4\<rparr>]
        @ replicate 12 \<lparr>kb_Key = 0, kb_Modifiers = 0, kb_Action = 0\<rparr>\<rparr>"

section \<open>The action of a key\<close>

record key_event =
  ke_rawkey :: bool
  ke_code :: uword
  ke_qualifier :: uword

definition IECODE_UP_PREFIX :: uword where "IECODE_UP_PREFIX = 0x80"
definition IEQUALIFIER_REPEAT :: uword where "IEQUALIFIER_REPEAT = 0x200"
definition IEQUALIFIER_NUMERICPAD :: uword where "IEQUALIFIER_NUMERICPAD = 0x100"

definition event_up :: "key_event \<Rightarrow> bool" where
  "event_up e \<longleftrightarrow> ke_code e AND IECODE_UP_PREFIX \<noteq> 0"

definition event_modifiers :: "uword \<Rightarrow> ulong" where
  "event_modifiers q =
     (if q AND 0x03 \<noteq> 0 then 1 else 0) OR (if q AND 0x30 \<noteq> 0 then 2 else 0) OR (if q AND 0x08 \<noteq> 0 then 4 else 0) OR
     (if q AND 0x40 \<noteq> 0 then 8 else 0) OR (if q AND 0x80 \<noteq> 0 then 16 else 0)"

definition con_binding_modifiers :: "ulong \<Rightarrow> ulong \<Rightarrow> ulong \<Rightarrow> bool" where
  "con_binding_modifiers binding mods ctx \<longleftrightarrow> binding AND 31 = mods \<and> con_binding_context_matches binding ctx"

text \<open>The first matching entry; \<open>None\<close> is a read beyond the table.\<close>

fun binding_scan :: "ulong \<Rightarrow> ulong \<Rightarrow> ulong \<Rightarrow> nat \<Rightarrow> key_binding list \<Rightarrow> ulong option option" where
  "binding_scan key mods ctx n [] = (if n = 0 then Some None else None)"
| "binding_scan key mods ctx n (b # bs) =
     (if n = 0 then Some None
      else if kb_Key b = key \<and> con_binding_modifiers (kb_Modifiers b) mods ctx then Some (Some (kb_Action b))
      else binding_scan key mods ctx (n - 1) bs)"

text \<open>\<open>MapRawKey\<close> is a parameter: the bytes it writes for an event, \<open>None\<close> when they do not fit.\<close>

definition con_binding_action_in_context :: "(key_event \<Rightarrow> byte list option) \<Rightarrow> binding_prefs \<Rightarrow> key_event \<Rightarrow> ulong \<Rightarrow> ulong option" where
  "con_binding_action_in_context keymap p e ctx =
     (if \<not> ke_rawkey e \<or> event_up e then Some 0
      else
        let mods = event_modifiers (ke_qualifier e); bs = bp_Entries p in do {
          special \<leftarrow> (if bp_Version p \<ge> 2 then binding_scan (CONSOLENG_BIND_RAW OR ucast (ke_code e)) mods ctx (bp_Count p) bs else Some None);
          (case special of
             Some a \<Rightarrow> Some a
           | None \<Rightarrow>
               (case keymap (e\<lparr>ke_qualifier := ke_qualifier e AND IEQUALIFIER_NUMERICPAD\<rparr>) of
                  Some [c] \<Rightarrow>
                    let key = (if c \<ge> 0x41 \<and> c \<le> 0x5A then ucast c + 0x20 else ucast c) in
                    map_option (case_option 0 id) (binding_scan key mods ctx (bp_Count p) bs)
                | _ \<Rightarrow> Some 0))
        })"

definition con_binding_action_in_mode :: "(key_event \<Rightarrow> byte list option) \<Rightarrow> binding_prefs \<Rightarrow> key_event \<Rightarrow> bool \<Rightarrow> ulong option" where
  "con_binding_action_in_mode keymap p e navigating = con_binding_action_in_context keymap p e (if navigating then 32 else 0)"

definition con_binding_action :: "(key_event \<Rightarrow> byte list option) \<Rightarrow> binding_prefs \<Rightarrow> key_event \<Rightarrow> ulong option" where
  "con_binding_action keymap p e = con_binding_action_in_mode keymap p e False"

section \<open>Held shortcuts\<close>

definition key_code :: "key_event \<Rightarrow> nat" where
  "key_code e = unat (ke_code e AND 127)"

definition key_repeat :: "key_event \<Rightarrow> bool" where
  "key_repeat e \<longleftrightarrow> ke_qualifier e AND IEQUALIFIER_REPEAT \<noteq> 0"

definition held_mask :: "key_event \<Rightarrow> byte" where
  "held_mask e = push_bit (key_code e mod 8) 1"

definition con_binding_release :: "byte list \<Rightarrow> key_event \<Rightarrow> bool \<times> byte list" where
  "con_binding_release held e =
     (let i = key_code e div 8; consumed = (held ! i AND held_mask e \<noteq> 0); cleared = held[i := held ! i AND NOT (held_mask e)] in
      if event_up e then (consumed, cleared)
      else if key_repeat e then (consumed, held)
      else (False, cleared))"

definition con_binding_hold :: "byte list \<Rightarrow> key_event \<Rightarrow> byte list" where
  "con_binding_hold held e = (let i = key_code e div 8 in held[i := held ! i OR held_mask e])"

definition con_binding_repeat :: "ulong \<Rightarrow> ulong \<Rightarrow> key_event \<Rightarrow> bool" where
  "con_binding_repeat original current e \<longleftrightarrow>
     ke_rawkey e \<and> \<not> event_up e \<and> key_repeat e \<and> original = current \<and>
     ((current \<ge> 5 \<and> current \<le> 10) \<or> current = 14 \<or> current = 15 \<or> current = 17 \<or> current = 18)"

text \<open>
  A key at the console task: the swallowed keys, the action each was swallowed for, and what becomes
  of the event. \<open>Local a\<close> stays here and performs an action, if any; \<open>Forward\<close> goes on to the encoder.
  The answers of \<open>Console_SelectAll\<close> and \<open>Console_HistoryAction\<close> are arguments.
\<close>

record shortcut_unit =
  bindingSwallowed :: "byte list"
  bindingHeldAction :: "byte list"

datatype shortcut_result = Forward | Local "ulong option"

definition shortcut_context :: "bool \<Rightarrow> bool \<Rightarrow> bool \<Rightarrow> ulong" where
  "shortcut_context alternate cursor keypad =
     (if alternate then 128 else 0) OR (if cursor then 512 else 0) OR (if keypad then 2048 else 0)"

definition shortcut_handled :: "bool \<Rightarrow> bool \<Rightarrow> ulong \<Rightarrow> bool" where
  "shortcut_handled selected history action =
     (if action = 1 \<or> action = 2 \<or> (action \<ge> 20 \<and> action \<le> 64) then True
      else if action = 3 then selected
      else if action = 14 \<or> action = 15 \<or> action = 16 then True
      else if (action \<ge> 5 \<and> action \<le> 10) \<or> action = 17 \<or> action = 18 \<or> action = 13 \<or> action = 19 then history
      else False)"

definition shortcut_key :: "(key_event \<Rightarrow> byte list option) \<Rightarrow> binding_prefs \<Rightarrow> ulong \<Rightarrow> bool \<Rightarrow> bool \<Rightarrow> key_event \<Rightarrow> shortcut_unit
    \<Rightarrow> (shortcut_result \<times> shortcut_unit) option" where
  "shortcut_key keymap p ctx selected history e s = do {
     action \<leftarrow> con_binding_action_in_context keymap p e ctx;
     let c = key_code e;
     let (consumed, held) = con_binding_release (bindingSwallowed s) e;
     let s1 = s\<lparr>bindingSwallowed := held\<rparr>;
     let original = bindingHeldAction s;
     Some (if consumed then
             (Local (if con_binding_repeat (ucast (original ! c)) action e then Some action else None),
              if event_up e then s1\<lparr>bindingHeldAction := original[c := 0]\<rparr> else s1)
           else if shortcut_handled selected history action then
             (Local (Some action),
              s1\<lparr>bindingSwallowed := con_binding_hold held e, bindingHeldAction := original[c := ucast action]\<rparr>)
           else (Forward, s1\<lparr>bindingHeldAction := original[c := 0]\<rparr>))
   }"


section \<open>An unambiguous table\<close>

lemma overlap_sound:
  "con_binding_context_matches a ctx \<Longrightarrow> con_binding_context_matches b ctx \<Longrightarrow> con_binding_context_overlap a b"
  unfolding con_binding_context_matches_def con_binding_context_overlap_def list_all_iff by blast

lemma or_zero: "(x :: ulong) OR y = 0 \<longleftrightarrow> x = 0 \<and> y = 0"
  by (auto simp: bit_eq_iff bit_or_iff)

lemma overlap_complete:
  assumes "con_binding_context_valid a" and "con_binding_context_valid b" and "con_binding_context_overlap a b"
  shows "\<exists>ctx. con_binding_context_matches a ctx \<and> con_binding_context_matches b ctx"
proof -
  let ?ctx = "(a OR b) AND 0x2AA0"
  have bits: "(?ctx AND yes \<noteq> 0) = (a AND yes \<noteq> 0 \<or> b AND yes \<noteq> 0)" if "yes \<in> set context_bits" for yes
  proof -
    have "0x2AA0 AND yes = yes" using that by (auto simp: context_bits_def)
    then have "?ctx AND yes = (a AND yes) OR (b AND yes)" by (simp add: and.assoc bit.conj_disj_distrib2)
    then show ?thesis by (simp add: or_zero)
  qed
  have both: "x AND (yes OR push_bit 1 yes) = yes OR push_bit 1 yes"
    if "yes \<in> set context_bits" "x AND yes \<noteq> 0" "x AND push_bit 1 yes \<noteq> 0" for x yes
  proof -
    have one: "x AND 2 ^ k = 2 ^ k" if "x AND 2 ^ k \<noteq> 0" for k
      using that by (auto simp: and_exp_eq_0_iff_not_bit bit_simps intro!: bit_word_eqI)
    have "\<exists>k. yes = 2 ^ k" using that(1) unfolding context_bits_def
      by (auto intro: exI [of _ 5] exI [of _ 7] exI [of _ 9] exI [of _ 11] exI [of _ 13])
    then obtain k where k: "yes = 2 ^ k" by blast
    then have p: "push_bit 1 yes = 2 ^ (k + 1)" by (simp add: push_bit_eq_mult)
    show ?thesis using one [of k] one [of "k + 1"] that(2,3) unfolding p unfolding k
      by (simp add: bit.conj_disj_distrib)
  qed
  show ?thesis
    using assms bits both unfolding con_binding_context_matches_def con_binding_context_overlap_def con_binding_context_valid_def list_all_iff
    by (intro exI [of _ ?ctx]) blast
qed

lemma binding_scan_find:
  "n \<le> length bs \<Longrightarrow> binding_scan key mods ctx n bs =
     Some (map_option kb_Action (find (\<lambda>b. kb_Key b = key \<and> con_binding_modifiers (kb_Modifiers b) mods ctx) (take n bs)))"
  by (induction key mods ctx n bs rule: binding_scan.induct) (auto simp: take_Cons')

lemma find_unique:
  assumes "length (filter P xs) \<le> 1" and "mset ys = mset xs"
  shows "find P ys = find P xs"
proof -
  have f: "find P zs = (case filter P zs of [] \<Rightarrow> None | z # _ \<Rightarrow> Some z)" for zs :: "'a list"
    by (induction zs) auto
  have m: "mset (filter P ys) = mset (filter P xs)" by (simp add: assms(2))
  have "filter P ys = filter P xs"
  proof (cases "filter P xs")
    case Nil
    then show ?thesis using m by simp
  next
    case (Cons z zs)
    then have "filter P xs = [z]" using assms(1) by simp
    then have "mset (filter P ys) = {#z#}" unfolding m by (simp del: mset_filter)
    then show ?thesis using \<open>filter P xs = [z]\<close> by (simp only: mset_single_iff)
  qed
  then show ?thesis by (simp add: f)
qed

lemma filter_at_most_one:
  "(\<And>i j. j < i \<Longrightarrow> i < length xs \<Longrightarrow> \<not> (P (xs ! i) \<and> P (xs ! j))) \<Longrightarrow> length (filter P xs) \<le> 1"
proof (induction xs)
  case (Cons x xs)
  show ?case
  proof (cases "P x")
    case True
    have "\<not> P y" if y: "y \<in> set xs" for y
    proof -
      obtain i where "i < length xs" "xs ! i = y" using y unfolding in_set_conv_nth by blast
      then show ?thesis using Cons.prems [of 0 "Suc i"] True by auto
    qed
    then have "filter P xs = []" by (simp add: filter_empty_conv)
    then show ?thesis using True by simp
  next
    case False
    have "\<not> (P (xs ! i) \<and> P (xs ! j))" if "j < i" "i < length xs" for i j
      using Cons.prems [of "Suc j" "Suc i"] that by simp
    then have "length (filter P xs) \<le> 1" by (rule Cons.IH)
    then show ?thesis using False by simp
  qed
qed simp

lemma valid_at_most_one:
  assumes v: "con_binding_prefs_valid p" and l: "length (bp_Entries p) = CONSOLENG_BINDING_MAX"
  shows "length (filter (\<lambda>b. kb_Key b = key \<and> con_binding_modifiers (kb_Modifiers b) mods ctx) (take (bp_Count p) (bp_Entries p))) \<le> 1"
proof (rule filter_at_most_one)
  fix i j assume ij: "j < i" "i < length (take (bp_Count p) (bp_Entries p))"
  then have "i < CONSOLENG_BINDING_MAX" "\<not> i \<ge> bp_Count p" using l by auto
  then have "binding_entry_ok p i" using v by (simp add: con_binding_prefs_valid_def list_all_iff)
  then have "\<not> same_chord (bp_Entries p ! i) (bp_Entries p ! j)"
    using \<open>\<not> i \<ge> bp_Count p\<close> ij(1) by (simp add: binding_entry_ok_def Let_def list_all_iff)
  then show "\<not> ((kb_Key (take (bp_Count p) (bp_Entries p) ! i) = key \<and>
        con_binding_modifiers (kb_Modifiers (take (bp_Count p) (bp_Entries p) ! i)) mods ctx) \<and>
      kb_Key (take (bp_Count p) (bp_Entries p) ! j) = key \<and>
      con_binding_modifiers (kb_Modifiers (take (bp_Count p) (bp_Entries p) ! j)) mods ctx)"
    using ij overlap_sound by (auto simp: same_chord_def con_binding_modifiers_def)
qed

text \<open>
  C27. A table that passes validation is unambiguous: however its entries are arranged, every key event gets the same action
  in every context. And validation is not stricter than it needs to be: two conditions
  it regards as overlapping do hold together in some context.
\<close>

theorem binding_table_unambiguous:
  assumes "con_binding_prefs_valid p" and "length (bp_Entries p) = CONSOLENG_BINDING_MAX"
    and "bp_Version q = bp_Version p" and "bp_Count q = bp_Count p" and "length (bp_Entries q) = CONSOLENG_BINDING_MAX"
    and "mset (take (bp_Count q) (bp_Entries q)) = mset (take (bp_Count p) (bp_Entries p))"
  shows "con_binding_action_in_context keymap q e ctx = con_binding_action_in_context keymap p e ctx \<and>
     con_binding_action_in_context keymap p e ctx \<noteq> None \<and>
     (con_binding_context_valid a \<and> con_binding_context_valid b \<longrightarrow>
       (con_binding_context_overlap a b \<longleftrightarrow> (\<exists>c. con_binding_context_matches a c \<and> con_binding_context_matches b c)))"
proof -
  have n: "bp_Count p \<le> length (bp_Entries p)" "bp_Count p \<le> length (bp_Entries q)"
    using assms(1,2,5) by (auto simp: con_binding_prefs_valid_def)
  have same: "binding_scan key mods ctx (bp_Count p) (bp_Entries q) = binding_scan key mods ctx (bp_Count p) (bp_Entries p)" for key mods
    using find_unique [OF valid_at_most_one [OF assms(1,2)], of "take (bp_Count p) (bp_Entries q)" key mods ctx] assms(4,6)
    by (simp add: binding_scan_find [OF n(1)] binding_scan_find [OF n(2)])
  have "con_binding_action_in_context keymap q e ctx = con_binding_action_in_context keymap p e ctx"
    unfolding con_binding_action_in_context_def Let_def assms(3,4) same by (rule refl)
  moreover have "con_binding_action_in_context keymap p e ctx \<noteq> None"
    by (auto simp: con_binding_action_in_context_def Let_def binding_scan_find [OF n(1)] split: option.splits list.splits)
  ultimately show ?thesis using overlap_sound overlap_complete by blast
qed

lemma defaults_valid: "con_binding_prefs_valid con_binding_prefs_defaults"
  by code_simp

theorem binding_table_unambiguous_witness:
  "con_binding_action_in_context (\<lambda>e. Some [0x76])
       (con_binding_prefs_defaults\<lparr>bp_Entries := rev (take 4 (bp_Entries con_binding_prefs_defaults)) @ drop 4 (bp_Entries con_binding_prefs_defaults)\<rparr>)
       \<lparr>ke_rawkey = True, ke_code = 0x34, ke_qualifier = 0x80\<rparr> 0 =
     con_binding_action_in_context (\<lambda>e. Some [0x76]) con_binding_prefs_defaults \<lparr>ke_rawkey = True, ke_code = 0x34, ke_qualifier = 0x80\<rparr> 0"
  using binding_table_unambiguous [OF defaults_valid, where q = "con_binding_prefs_defaults\<lparr>bp_Entries :=
      rev (take 4 (bp_Entries con_binding_prefs_defaults)) @ drop 4 (bp_Entries con_binding_prefs_defaults)\<rparr>"
      and keymap = "\<lambda>e. Some [0x76]" and e = "\<lparr>ke_rawkey = True, ke_code = 0x34, ke_qualifier = 0x80\<rparr>" and ctx = 0]
  by (simp add: con_binding_prefs_defaults_def CONSOLENG_BINDING_MAX_def add_mset_commute)

section \<open>A release goes where its press went\<close>

text \<open>One event with everything that may have changed since the last: the table, the modes, the answers.\<close>

record shortcut_input =
  si_prefs :: binding_prefs
  si_context :: ulong
  si_selected :: bool
  si_history :: bool
  si_event :: key_event

fun shortcut_run :: "(key_event \<Rightarrow> byte list option) \<Rightarrow> shortcut_input list \<Rightarrow> shortcut_unit
    \<Rightarrow> ((key_event \<times> shortcut_result) list \<times> shortcut_unit) option" where
  "shortcut_run keymap [] s = Some ([], s)"
| "shortcut_run keymap (i # is) s = do {
     (r, s1) \<leftarrow> shortcut_key keymap (si_prefs i) (si_context i) (si_selected i) (si_history i) (si_event i) s;
     (log, s2) \<leftarrow> shortcut_run keymap is s1;
     Some ((si_event i, r) # log, s2)
   }"

text \<open>Whether the key with code \<open>c\<close> is down and its last event stayed local.\<close>

fun kept :: "nat \<Rightarrow> (key_event \<times> shortcut_result) list \<Rightarrow> bool \<Rightarrow> bool" where
  "kept c [] k = k"
| "kept c ((e, r) # log) k = kept c log (if key_code e = c then \<not> event_up e \<and> r \<noteq> Forward else k)"


definition swallowing :: "shortcut_unit \<Rightarrow> (nat \<Rightarrow> bool) \<Rightarrow> bool" where
  "swallowing s k \<longleftrightarrow> length (bindingSwallowed s) = 16 \<and> length (bindingHeldAction s) = 128 \<and>
     (\<forall>c < 128. bit (bindingSwallowed s ! (c div 8)) (c mod 8) = k c)"

definition idle_shortcuts :: shortcut_unit where
  "idle_shortcuts = \<lparr>bindingSwallowed = replicate 16 0, bindingHeldAction = replicate 128 0\<rparr>"

lemma key_code_bound: "key_code e < 128"
proof -
  have "ke_code e AND 127 \<le> 127" by (rule word_and_le1)
  then show ?thesis by (simp add: key_code_def word_le_nat_alt)
qed

lemma held_mask_bit: "n < 8 \<Longrightarrow> bit (held_mask e) n \<longleftrightarrow> n = key_code e mod 8"
  by (auto simp: held_mask_def bit_simps)

lemma held_test: "b AND held_mask e \<noteq> 0 \<longleftrightarrow> bit b (key_code e mod 8)"
  by (simp add: held_mask_def push_bit_eq_mult and_exp_eq_0_iff_not_bit)

lemma held_update:
  assumes h: "length h = 16" and c: "c < 128"
  shows "bit (h[key_code e div 8 := h ! (key_code e div 8) OR held_mask e] ! (c div 8)) (c mod 8) \<longleftrightarrow>
      c = key_code e \<or> bit (h ! (c div 8)) (c mod 8)"
    "bit (h[key_code e div 8 := h ! (key_code e div 8) AND NOT (held_mask e)] ! (c div 8)) (c mod 8) \<longleftrightarrow>
      c \<noteq> key_code e \<and> bit (h ! (c div 8)) (c mod 8)"
proof -
  have i: "key_code e div 8 < length h" "c div 8 < length h" using key_code_bound [of e] h c by auto
  have same: "c = key_code e \<longleftrightarrow> c div 8 = key_code e div 8 \<and> c mod 8 = key_code e mod 8"
    using div_mult_mod_eq [of c 8] div_mult_mod_eq [of "key_code e" 8] by (metis)
  have b: "bit (held_mask e) (c mod 8) \<longleftrightarrow> c mod 8 = key_code e mod 8" by (rule held_mask_bit) simp
  show "bit (h[key_code e div 8 := h ! (key_code e div 8) OR held_mask e] ! (c div 8)) (c mod 8) \<longleftrightarrow>
      c = key_code e \<or> bit (h ! (c div 8)) (c mod 8)"
    using same b i by (cases "c div 8 = key_code e div 8") (auto simp: bit_or_iff)
  show "bit (h[key_code e div 8 := h ! (key_code e div 8) AND NOT (held_mask e)] ! (c div 8)) (c mod 8) \<longleftrightarrow>
      c \<noteq> key_code e \<and> bit (h ! (c div 8)) (c mod 8)"
    using same b i by (cases "c div 8 = key_code e div 8") (auto simp: bit_and_iff bit_not_iff)
qed

lemma release_kept:
  assumes h: "length h = 16" "\<forall>c < 128. bit (h ! (c div 8)) (c mod 8) = k c"
  shows "\<exists>h'. con_binding_release h e = (k (key_code e) \<and> (event_up e \<or> key_repeat e), h') \<and> length h' = 16 \<and>
     (\<forall>c < 128. bit (h' ! (c div 8)) (c mod 8) = (if c = key_code e then k c \<and> \<not> event_up e \<and> key_repeat e else k c))"
proof -
  have t: "(h ! (key_code e div 8) AND held_mask e \<noteq> 0) = k (key_code e)"
    using held_test [of "h ! (key_code e div 8)" e] h(2) key_code_bound [of e] by simp
  show ?thesis
    using h key_code_bound [of e]
    by (cases "event_up e"; cases "key_repeat e") (auto simp: con_binding_release_def Let_def t held_update(2))
qed

lemma hold_kept:
  assumes "length h = 16" "\<forall>c < 128. bit (h ! (c div 8)) (c mod 8) = k c"
  shows "length (con_binding_hold h e) = 16"
    "\<forall>c < 128. bit (con_binding_hold h e ! (c div 8)) (c mod 8) = (c = key_code e \<or> k c)"
  using assms by (auto simp: con_binding_hold_def Let_def held_update(1))

lemma action_up: "event_up e \<Longrightarrow> con_binding_action_in_context keymap p e ctx = Some 0"
  by (simp add: con_binding_action_in_context_def)

lemma shortcut_step:
  assumes s: "swallowing s k" and step: "shortcut_key keymap p ctx sel hist e s = Some (r, s')"
  shows "swallowing s' (k(key_code e := \<not> event_up e \<and> r \<noteq> Forward))"
    "event_up e \<Longrightarrow> r = (if k (key_code e) then Local None else Forward)"
proof -
  obtain a where a: "con_binding_action_in_context keymap p e ctx = Some a"
    using step by (auto simp: shortcut_key_def split: Option.bind_splits)
  obtain h where h: "con_binding_release (bindingSwallowed s) e = (k (key_code e) \<and> (event_up e \<or> key_repeat e), h)" "length h = 16"
    "\<forall>c < 128. bit (h ! (c div 8)) (c mod 8) = (if c = key_code e then k c \<and> \<not> event_up e \<and> key_repeat e else k c)"
    using release_kept [of "bindingSwallowed s" k e] s by (auto simp: swallowing_def)
  note hold = hold_kept [OF h(2,3), of e]
  have up: "event_up e \<Longrightarrow> a = 0" using a action_up by simp
  have none: "\<not> shortcut_handled sel hist 0" by (simp add: shortcut_handled_def)
  have len: "length (bindingHeldAction s) = 128" using s by (simp add: swallowing_def)
  have "swallowing s' (k(key_code e := \<not> event_up e \<and> r \<noteq> Forward)) \<and>
     (event_up e \<longrightarrow> r = (if k (key_code e) then Local None else Forward))"
    using step h(2,3) hold len up none
    by (auto simp: shortcut_key_def a h(1) swallowing_def Let_def con_binding_repeat_def split: if_splits)
  then show "swallowing s' (k(key_code e := \<not> event_up e \<and> r \<noteq> Forward))"
    "event_up e \<Longrightarrow> r = (if k (key_code e) then Local None else Forward)" by auto
qed


lemma shortcut_run_kept:
  "swallowing s k \<Longrightarrow> shortcut_run keymap is s = Some (log, s') \<Longrightarrow> log = log1 @ (e, r) # log2 \<Longrightarrow> event_up e \<Longrightarrow>
     r = (if kept (key_code e) log1 (k (key_code e)) then Local None else Forward)"
proof (induction "is" arbitrary: s k log log1)
  case (Cons i "is")
  obtain r1 s1 log' where step: "shortcut_key keymap (si_prefs i) (si_context i) (si_selected i) (si_history i) (si_event i) s = Some (r1, s1)"
    and rest: "shortcut_run keymap is s1 = Some (log', s')" and log: "log = (si_event i, r1) # log'"
    using Cons.prems(2) by (auto split: Option.bind_splits)
  note k1 = shortcut_step [OF Cons.prems(1) step]
  show ?case
  proof (cases log1)
    case Nil
    then show ?thesis using k1(2) Cons.prems(3,4) log by simp
  next
    case (Cons x log1')
    then have x: "x = (si_event i, r1)" "log' = log1' @ (e, r) # log2" using Cons.prems(3) log by auto
    have "r = (if kept (key_code e) log1' ((k(key_code (si_event i) := \<not> event_up (si_event i) \<and> r1 \<noteq> Forward)) (key_code e)) then Local None else Forward)"
      by (rule Cons.IH [OF k1(1) rest x(2) Cons.prems(4)])
    then show ?thesis by (simp add: Cons x(1) eq_commute)
  qed
qed simp

lemma shortcut_run_total:
  "list_all (\<lambda>i. con_binding_prefs_valid (si_prefs i) \<and> length (bp_Entries (si_prefs i)) = CONSOLENG_BINDING_MAX) is \<Longrightarrow>
     \<exists>log s'. shortcut_run keymap is s = Some (log, s') \<and> map fst log = map si_event is"
proof (induction "is" arbitrary: s)
  case (Cons i "is")
  have n: "bp_Count (si_prefs i) \<le> length (bp_Entries (si_prefs i))" using Cons.prems by (simp add: con_binding_prefs_valid_def)
  have "con_binding_action_in_context keymap (si_prefs i) (si_event i) (si_context i) \<noteq> None"
    by (auto simp: con_binding_action_in_context_def Let_def binding_scan_find [OF n] split: option.splits list.splits)
  then have "shortcut_key keymap (si_prefs i) (si_context i) (si_selected i) (si_history i) (si_event i) s \<noteq> None"
    by (cases "con_binding_release (bindingSwallowed s) (si_event i)") (auto simp: shortcut_key_def Let_def)
  then obtain r1 s1 where "shortcut_key keymap (si_prefs i) (si_context i) (si_selected i) (si_history i) (si_event i) s = Some (r1, s1)"
    by auto
  moreover obtain log s' where "shortcut_run keymap is s1 = Some (log, s')" "map fst log = map si_event is"
    using Cons.IH [of s1] Cons.prems by auto
  ultimately show ?case by simp
qed simp

text \<open>
  C20. Over any sequence of key events, with the table, the modes and the answers of the commands changing
  arbitrarily between them, the release of a key stays local exactly when the key was down and its last event stayed local:
  the application never sees the release of a press it did not see, and a
  release performs nothing.
\<close>

theorem shortcut_release_follows_press:
  assumes "list_all (\<lambda>i. con_binding_prefs_valid (si_prefs i) \<and> length (bp_Entries (si_prefs i)) = CONSOLENG_BINDING_MAX) inputs"
  shows "\<exists>log s. shortcut_run keymap inputs idle_shortcuts = Some (log, s) \<and> map fst log = map si_event inputs \<and>
     (\<forall>log1 e r log2. log = log1 @ (e, r) # log2 \<longrightarrow> event_up e \<longrightarrow>
        r = (if kept (key_code e) log1 False then Local None else Forward))"
proof -
  have idle: "swallowing idle_shortcuts (\<lambda>c. False)" by (auto simp: swallowing_def idle_shortcuts_def)
  obtain log s where run: "shortcut_run keymap inputs idle_shortcuts = Some (log, s)" "map fst log = map si_event inputs"
    using shortcut_run_total [OF assms] by blast
  then show ?thesis using shortcut_run_kept [OF idle run(1)] by blast
qed

definition paste_press :: shortcut_input where
  "paste_press = \<lparr>si_prefs = con_binding_prefs_defaults, si_context = 0, si_selected = False, si_history = False,
     si_event = \<lparr>ke_rawkey = True, ke_code = 0x34, ke_qualifier = 0x80\<rparr>\<rparr>"

definition paste_release :: shortcut_input where
  "paste_release = paste_press\<lparr>si_event := \<lparr>ke_rawkey = True, ke_code = 0xB4, ke_qualifier = 0\<rparr>\<rparr>"

theorem shortcut_release_follows_press_witness:
  "\<exists>log s. shortcut_run (\<lambda>e. Some [0x76]) [paste_press, paste_release] idle_shortcuts = Some (log, s) \<and>
     map fst log = map si_event [paste_press, paste_release] \<and>
     (\<forall>log1 e r log2. log = log1 @ (e, r) # log2 \<longrightarrow> event_up e \<longrightarrow>
        r = (if kept (key_code e) log1 False then Local None else Forward))"
  by (rule shortcut_release_follows_press)
    (simp add: paste_press_def paste_release_def defaults_valid, simp add: con_binding_prefs_defaults_def CONSOLENG_BINDING_MAX_def)

text \<open>
  A key that went down without a binding can become a paste while it is held: a repeat with the
  modifier of the paste shortcut is dispatched like a press.
\<close>

lemma held_key_becomes_paste:
  "map_option (map snd \<circ> fst) (shortcut_run (\<lambda>e. Some [0x76])
       [paste_press\<lparr>si_event := \<lparr>ke_rawkey = True, ke_code = 0x34, ke_qualifier = 0\<rparr>\<rparr>,
        paste_press\<lparr>si_event := \<lparr>ke_rawkey = True, ke_code = 0x34, ke_qualifier = 0x280\<rparr>\<rparr>] idle_shortcuts) =
     Some [Forward, Local (Some 2)]"
  by code_simp

end
